(* ===== verification/Prelude.thy ===== *)
theory Prelude
  imports Main "HOL-Library.Word" "HOL-Library.Multiset"
begin

text \<open>
  Shared vocabulary of the development. Go programs fail in two ways: a run-time panic
  (an index or a slice bound out of range, a negative length, a nil dereference, an explicit
  \<^verbatim>\<open>panic\<close>) and an \<^verbatim>\<open>error\<close> value that is returned. Both are values of \<open>fault\<close> here and a
  computation that can fail has type \<open>'a res\<close>. The theory also models the pieces of the
  language the sources use: truncating integer division, slice expressions and \<^verbatim>\<open>copy\<close>.
\<close>

section \<open>Results\<close>

datatype fault =
    IndexOutOfRange
  | SliceBounds
  | NegativeLen
  | NilDereference
  | NegativeShift
  | DivideByZero
  | CloseOfClosedChannel
  | Unreachable
  | Panic string
  | Error string

type_synonym 'a res = "fault + 'a"

primrec rbind :: "'a res \<Rightarrow> ('a \<Rightarrow> 'b res) \<Rightarrow> 'b res" where
  "rbind (Inl e) f = Inl e"
| "rbind (Inr x) f = f x"

lemma rbind_cong [fundef_cong]:
  assumes "m = m'" and "\<And>x. m' = Inr x \<Longrightarrow> f x = g x"
  shows "rbind m f = rbind m' g"
  using assms by (cases m') auto

lemma rbind_eq_Inr: "rbind m f = Inr y \<longleftrightarrow> (\<exists>x. m = Inr x \<and> f x = Inr y)"
  by (cases m) auto

lemma rbind_assoc: "rbind (rbind m f) g = rbind m (\<lambda>x. rbind (f x) g)"
  by (cases m) auto

section \<open>Integer arithmetic of Go\<close>

text \<open>
  Go's \<^verbatim>\<open>/\<close> and \<^verbatim>\<open>%\<close> truncate towards zero. Slice lengths and indices never reach the
  63 bit limit, so the index arithmetic is that of \<open>int\<close>; machine words are used where the
  width matters.
\<close>

definition quot :: "int \<Rightarrow> int \<Rightarrow> int" where
  "quot a b = sgn a * sgn b * (\<bar>a\<bar> div \<bar>b\<bar>)"

definition remn :: "int \<Rightarrow> int \<Rightarrow> int" where
  "remn a b = a - b * quot a b"

lemma quot_nonneg [simp]: "0 \<le> a \<Longrightarrow> 0 < b \<Longrightarrow> quot a b = a div b"
  by (cases "a = 0") (auto simp: quot_def)

lemma remn_nonneg [simp]: "0 \<le> a \<Longrightarrow> 0 < b \<Longrightarrow> remn a b = a mod b"
  by (simp add: remn_def minus_mult_div_eq_mod)

section \<open>Slices\<close>

text \<open>
  A slice is the list of its elements. Reading or writing outside the length panics, and so
  does a slice expression whose bounds are not ordered or exceed the length (no source
  modelled here reslices beyond the length of a slice into its capacity).
\<close>

definition sl_get :: "'a list \<Rightarrow> int \<Rightarrow> 'a res" where
  "sl_get xs i = (if 0 \<le> i \<and> i < int (length xs) then Inr (xs ! nat i) else Inl IndexOutOfRange)"

definition sl_set :: "'a list \<Rightarrow> int \<Rightarrow> 'a \<Rightarrow> 'a list res" where
  "sl_set xs i v =
     (if 0 \<le> i \<and> i < int (length xs) then Inr (xs[nat i := v]) else Inl IndexOutOfRange)"

definition sl_sub :: "'a list \<Rightarrow> int \<Rightarrow> int \<Rightarrow> 'a list res" where
  "sl_sub xs lo hi =
     (if 0 \<le> lo \<and> lo \<le> hi \<and> hi \<le> int (length xs)
      then Inr (take (nat (hi - lo)) (drop (nat lo) xs)) else Inl SliceBounds)"

definition sl_make :: "'a \<Rightarrow> int \<Rightarrow> 'a list res" where
  "sl_make z n = (if 0 \<le> n then Inr (replicate (nat n) z) else Inl NegativeLen)"

text \<open>
  \<open>copy_at dst off src\<close> is \<^verbatim>\<open>copy(dst[off:], src)\<close>: the destination slice after the copy and
  the number of elements copied.
\<close>

definition copy_at :: "'a list \<Rightarrow> int \<Rightarrow> 'a list \<Rightarrow> ('a list \<times> int) res" where
  "copy_at dst off src =
     (if 0 \<le> off \<and> off \<le> int (length dst)
      then let n = min (length dst - nat off) (length src)
           in Inr (take (nat off) dst @ take n src @ drop (nat off + n) dst, int n)
      else Inl SliceBounds)"

lemma sl_get_int [simp]: "i < length xs \<Longrightarrow> sl_get xs (int i) = Inr (xs ! i)"
  by (simp add: sl_get_def)

lemma sl_get_zero [simp]: "xs \<noteq> [] \<Longrightarrow> sl_get xs 0 = Inr (xs ! 0)"
  by (simp add: sl_get_def)

lemma sl_set_int [simp]: "i < length xs \<Longrightarrow> sl_set xs (int i) v = Inr (xs[i := v])"
  by (simp add: sl_set_def)

lemma sl_get_eq_Inr: "sl_get xs i = Inr x \<longleftrightarrow> 0 \<le> i \<and> i < int (length xs) \<and> x = xs ! nat i"
  by (auto simp: sl_get_def)

lemma sl_sub_int [simp]:
  "lo \<le> hi \<Longrightarrow> hi \<le> length xs \<Longrightarrow> sl_sub xs (int lo) (int hi) = Inr (take (hi - lo) (drop lo xs))"
  by (simp add: sl_sub_def nat_diff_distrib)

lemma sl_make_int [simp]: "sl_make z (int n) = Inr (replicate n z)"
  by (simp add: sl_make_def)

lemma sl_make_1 [simp]: "sl_make z 1 = Inr [z]"
  by (simp add: sl_make_def)

lemma copy_at_int:
  "off \<le> length dst \<Longrightarrow> copy_at dst (int off) src =
     Inr (take off dst @ take (length dst - off) src @ drop (off + length src) dst,
          int (min (length dst - off) (length src)))"
  by (auto simp: copy_at_def Let_def min_def)

lemma copy_at_bounds:
  "copy_at dst off src = Inr (d, c) \<Longrightarrow>
     length d = length dst \<and> 0 \<le> c \<and> off + c \<le> int (length dst) \<and> 0 \<le> off"
  by (auto simp: copy_at_def Let_def split: if_splits)

lemma copy_at_0:
  "copy_at dst 0 src =
     Inr (take (length dst) src @ drop (length src) dst, int (min (length dst) (length src)))"
  using copy_at_int [of 0 dst src] by simp

lemma sl_sub_to_end [simp]:
  "lo \<le> length xs \<Longrightarrow> sl_sub xs (int lo) (int (length xs)) = Inr (drop lo xs)"
  by simp

lemma sl_sub_from_0 [simp]:
  "hi \<le> length xs \<Longrightarrow> sl_sub xs 0 (int hi) = Inr (take hi xs)"
  using sl_sub_int [of 0 hi xs] by simp

lemma mod_once: "(n::int) \<le> a \<Longrightarrow> a < 2 * n \<Longrightarrow> a mod n = a - n"
  by (metis diff_less_eq minus_mod_self2 mod_pos_pos_trivial le_diff_eq add_0 mult_2)

lemma copy_fits_0:
  "length xs \<le> length n \<Longrightarrow> copy_at n 0 xs = Inr (xs @ drop (length xs) n, int (length xs))"
  by (simp add: copy_at_0)

lemma copy_fits_append:
  "length ys \<le> length n \<Longrightarrow> k = int (length xs) \<Longrightarrow>
     copy_at (xs @ n) k ys = Inr (xs @ ys @ drop (length ys) n, int (length ys))"
  by (simp add: copy_at_int)

lemma copy_at_truncated:
  "length n \<le> length ys \<Longrightarrow> k = int (length xs) \<Longrightarrow>
     copy_at (xs @ n) k ys = Inr (xs @ take (length n) ys, int (length n))"
  by (simp add: copy_at_int)

section \<open>Loops over a sequence\<close>

text \<open>A \<^verbatim>\<open>for\<close> loop whose body may fail, over the successive values of its variable.\<close>

fun rfold :: "('a \<Rightarrow> 's \<Rightarrow> 's res) \<Rightarrow> 'a list \<Rightarrow> 's \<Rightarrow> 's res" where
  "rfold f [] s = Inr s"
| "rfold f (x # xs) s = rbind (f x s) (rfold f xs)"

lemma rfold_cong [fundef_cong]:
  assumes "xs = ys" "s = t" "\<And>x s. x \<in> set ys \<Longrightarrow> f x s = g x s"
  shows "rfold f xs s = rfold g ys t"
proof -
  have "rfold f ys t = rfold g ys t" using assms(3)
  proof (induction ys arbitrary: t)
    case (Cons y ys)
    then show ?case by (cases "g y t") auto
  qed simp
  then show ?thesis using assms(1,2) by simp
qed

lemma rfold_append: "rfold f (xs @ ys) s = rbind (rfold f xs s) (rfold f ys)"
proof (induction xs arbitrary: s)
  case (Cons x xs)
  then show ?case by (cases "f x s") auto
qed simp

section \<open>Range-over-func iterators\<close>

text \<open>
  An \<^verbatim>\<open>iter.Seq\<close> calls \<^verbatim>\<open>yield\<close> for one value after the other until \<^verbatim>\<open>yield\<close> returns false. The
  consumer's state is threaded through the calls. \<open>iter_seq yield xs s\<close> is the effect of iterating
  over the values \<open>xs\<close>, the reference the iterators of the sources are compared with.
\<close>

fun iter_seq :: "('s \<Rightarrow> 'a \<Rightarrow> 's \<times> bool) \<Rightarrow> 'a list \<Rightarrow> 's \<Rightarrow> 's" where
  "iter_seq yield [] s = s"
| "iter_seq yield (x # xs) s =
     (let (s', more) = yield s x in if more then iter_seq yield xs s' else s')"

lemma iter_seq_collect: "iter_seq (\<lambda>s x. (s @ [x], True)) xs s = s @ xs"
  by (induction xs arbitrary: s) auto

lemma iter_seq_map: "iter_seq yield (map f xs) s = iter_seq (\<lambda>s x. yield s (f x)) xs s"
  by (induction xs arbitrary: s) (auto split: prod.splits)

end
