(* ===== verification/Circular.thy ===== *)
theory Circular
  imports Prelude
begin

text \<open>
  The growable circular buffer of \<^verbatim>\<open>algo/container/circular/buffer.go\<close>. The record has the
  fields of \<^verbatim>\<open>Buffer\<close>; every slice expression and every \<^verbatim>\<open>copy\<close> of the source is one here, with
  its bounds checked. \<open>contents\<close> is the sequence of elements a buffer holds, and the buffer is
  shown to implement a first-in first-out queue with batch operations.
\<close>

section \<open>Model\<close>

record 'a Buffer =
  storage :: "'a list"
  used :: int
  head :: int
  tail :: int

definition NewBuffer :: "'a \<Rightarrow> int \<Rightarrow> 'a Buffer res" where
  "NewBuffer z sz =
     (let sz = (if sz = 0 then 1 else sz)
      in rbind (sl_make z sz) (\<lambda>s. Inr \<lparr>storage = s, used = 0, head = 0, tail = 0\<rparr>))"

definition buf_Len :: "'a Buffer \<Rightarrow> int" where
  "buf_Len b = used b"

definition buf_Cap :: "'a Buffer \<Rightarrow> int" where
  "buf_Cap b = int (length (storage b))"

text \<open>
  The two ways of moving the live elements to the front of a fresh slice, shared by \<^verbatim>\<open>grow\<close> and
  \<^verbatim>\<open>Compact\<close>, which contain the same \<^verbatim>\<open>switch\<close>.
\<close>

definition linearise :: "'a Buffer \<Rightarrow> 'a list \<Rightarrow> 'a Buffer res" where
  "linearise b n =
     (if head b \<le> tail b
      then rbind (sl_sub (storage b) (head b) (tail b + 1)) (\<lambda>seg.
           rbind (copy_at n 0 seg) (\<lambda>(n', c).
           Inr (b\<lparr>storage := n', head := 0, tail := c - 1\<rparr>)))
      else rbind (sl_sub (storage b) (head b) (int (length (storage b)))) (\<lambda>seg1.
           rbind (copy_at n 0 seg1) (\<lambda>(n1, c).
           rbind (sl_sub (storage b) 0 (tail b + 1)) (\<lambda>seg2.
           rbind (copy_at n1 c seg2) (\<lambda>(n2, c2).
           Inr (b\<lparr>storage := n2, head := 0, tail := c + c2 - 1\<rparr>))))))"

definition grow :: "'a \<Rightarrow> 'a Buffer \<Rightarrow> int \<Rightarrow> 'a Buffer res" where
  "grow z b sz = rbind (sl_make z sz) (\<lambda>n. linearise b n)"

definition append_fit :: "'a Buffer \<Rightarrow> 'a list \<Rightarrow> 'a Buffer res" where
  "append_fit b v =
     (if used b = 0
      then rbind (copy_at (storage b) 0 v) (\<lambda>(s, c).
           Inr (b\<lparr>storage := s, head := 0, tail := c - 1\<rparr>))
      else if head b \<le> tail b
      then rbind (copy_at (storage b) (tail b + 1) v) (\<lambda>(s, c).
           rbind (sl_sub v c (int (length v))) (\<lambda>rest.
           rbind (copy_at s 0 rest) (\<lambda>(s', _).
           Inr (b\<lparr>storage := s',
                  tail := remn (tail b + int (length v)) (int (length (storage b)))\<rparr>))))
      else rbind (copy_at (storage b) (tail b + 1) v) (\<lambda>(s, _).
           Inr (b\<lparr>storage := s, tail := tail b + int (length v)\<rparr>)))"

definition buf_Append :: "'a \<Rightarrow> 'a Buffer \<Rightarrow> 'a list \<Rightarrow> 'a Buffer res" where
  "buf_Append z b v =
     (let total = used b + int (length v)
      in rbind (if total > int (length (storage b)) then grow z b total else Inr b) (\<lambda>b.
         rbind (append_fit b v) (\<lambda>b.
         Inr (b\<lparr>used := used b + int (length v)\<rparr>))))"

definition buf_Head :: "'a \<Rightarrow> 'a Buffer \<Rightarrow> int \<Rightarrow> ('a list \<times> 'a Buffer) res" where
  "buf_Head z b n =
     (if n = 0 \<or> used b = 0 then Inr ([], b)
      else let n = (if n > used b then used b else n)
      in rbind (sl_make z n) (\<lambda>out.
         if head b < tail b
         then rbind (sl_sub (storage b) (head b) (int (length (storage b)))) (\<lambda>seg.
              rbind (copy_at out 0 seg) (\<lambda>(out', _).
              Inr (out', b\<lparr>head := head b + n, used := used b - n\<rparr>)))
         else rbind (sl_sub (storage b) (head b) (int (length (storage b)))) (\<lambda>seg.
              rbind (copy_at out 0 seg) (\<lambda>(out1, c).
              rbind (copy_at out1 c (storage b)) (\<lambda>(out2, _).
              Inr (out2, b\<lparr>head := remn (head b + n) (int (length (storage b))),
                           used := used b - n\<rparr>))))))"

definition buf_Compact :: "'a \<Rightarrow> 'a Buffer \<Rightarrow> 'a Buffer res" where
  "buf_Compact z b =
     (if used b = 0
      then rbind (sl_make z 1) (\<lambda>s. Inr (b\<lparr>storage := s, head := 0, tail := 0\<rparr>))
      else rbind (sl_make z (used b)) (\<lambda>n. linearise b n))"

section \<open>Invariant and abstraction\<close>

definition buf_inv :: "'a Buffer \<Rightarrow> bool" where
  "buf_inv b \<longleftrightarrow>
     (let n = int (length (storage b)) in
      0 < n \<and> 0 \<le> used b \<and> used b \<le> n \<and>
      (if used b = 0 then 0 \<le> head b \<and> head b \<le> n \<and> - 1 \<le> tail b \<and> tail b < n
       else 0 \<le> head b \<and> head b < n \<and> tail b = (head b + used b - 1) mod n))"

definition contents :: "'a Buffer \<Rightarrow> 'a list" where
  "contents b = take (nat (used b)) (drop (nat (head b)) (storage b) @ storage b)"

section \<open>The queue interface\<close>

datatype 'a queue_op = OpAppend "'a list" | OpHead nat | OpCompact

text \<open>A client of a batch queue: it issues operations and collects what \<^verbatim>\<open>Head\<close> returned.\<close>

fun run_queue :: "('q \<Rightarrow> 'a list \<Rightarrow> 'q res) \<Rightarrow> ('q \<Rightarrow> int \<Rightarrow> ('a list \<times> 'q) res) \<Rightarrow> ('q \<Rightarrow> 'q res) \<Rightarrow>
    'q \<Rightarrow> 'a queue_op list \<Rightarrow> ('a list list \<times> 'q) res" where
  "run_queue app front cmp q [] = Inr ([], q)"
| "run_queue app front cmp q (OpAppend v # ops) = rbind (app q v) (\<lambda>q'. run_queue app front cmp q' ops)"
| "run_queue app front cmp q (OpHead n # ops) =
     rbind (front q (int n)) (\<lambda>(out, q'). rbind (run_queue app front cmp q' ops) (\<lambda>(outs, q'').
     Inr (out # outs, q'')))"
| "run_queue app front cmp q (OpCompact # ops) = rbind (cmp q) (\<lambda>q'. run_queue app front cmp q' ops)"

text \<open>The specification: the same operations on a list, consumed from the front.\<close>

fun fifo_outputs :: "'a list \<Rightarrow> 'a queue_op list \<Rightarrow> 'a list list" where
  "fifo_outputs xs [] = []"
| "fifo_outputs xs (OpAppend v # ops) = fifo_outputs (xs @ v) ops"
| "fifo_outputs xs (OpHead n # ops) = take n xs # fifo_outputs (drop n xs) ops"
| "fifo_outputs xs (OpCompact # ops) = fifo_outputs xs ops"

fun appended :: "'a queue_op list \<Rightarrow> 'a list" where
  "appended [] = []"
| "appended (OpAppend v # ops) = v @ appended ops"
| "appended (_ # ops) = appended ops"

section \<open>Shapes of a valid buffer\<close>

text \<open>A non-empty buffer holds either one run of the storage or one that wraps around.\<close>

lemma buf_runI:
  assumes "storage b = P @ C @ S" "C \<noteq> []" "head b = int (length P)"
    "tail b = int (length P + length C) - 1" "used b = int (length C)"
  shows "buf_inv b \<and> contents b = C"
proof -
  have "tail b = (head b + used b - 1) mod int (length (storage b))"
    using assms by (cases C) auto
  moreover have "contents b = C" using assms by (simp add: contents_def)
  ultimately show ?thesis using assms by (cases C) (auto simp: buf_inv_def Let_def)
qed

lemma buf_wrapI:
  assumes "storage b = C2 @ G @ C1" "C1 \<noteq> []" "C2 \<noteq> []" "head b = int (length (C2 @ G))"
    "tail b = int (length C2) - 1" "used b = int (length (C1 @ C2))"
  shows "buf_inv b \<and> contents b = C1 @ C2"
proof -
  have "tail b = (head b + used b - 1) mod int (length (storage b))"
    using assms mod_once [of "int (length (C2 @ G @ C1))" "int (length (C2 @ G @ C1)) + int (length C2) - 1"]
    by (simp add: algebra_simps Suc_le_eq)
  moreover have "contents b = C1 @ C2"
    using assms nat_int [of "length (C1 @ C2)"] by (simp add: contents_def del: nat_int)
  ultimately show ?thesis using assms by (cases C1) (auto simp: buf_inv_def Let_def)
qed

lemma buf_emptyI:
  assumes "storage b \<noteq> []" "used b = 0" "0 \<le> head b" "head b \<le> int (length (storage b))"
    "- 1 \<le> tail b" "tail b < int (length (storage b))"
  shows "buf_inv b \<and> contents b = []"
  using assms by (simp add: buf_inv_def contents_def)

lemma buf_cases:
  assumes "buf_inv b"
  obtains (empty) h t where "used b = 0" "contents b = []" "head b = int h"
      "h \<le> length (storage b)" "tail b + 1 = int t" "t \<le> length (storage b)"
  | (run) P S where "storage b = P @ contents b @ S" "contents b \<noteq> []" "head b = int (length P)"
      "tail b = int (length P + length (contents b)) - 1" "used b = int (length (contents b))"
  | (wrap) C1 C2 G where "storage b = C2 @ G @ C1" "C1 \<noteq> []" "C2 \<noteq> []"
      "head b = int (length (C2 @ G))" "tail b = int (length C2) - 1"
      "used b = int (length (C1 @ C2))" "contents b = C1 @ C2"
proof (cases "used b = 0")
  case True
  then show ?thesis
    using assms that(1) [of "nat (head b)" "nat (tail b + 1)"]
    by (auto simp: buf_inv_def Let_def contents_def)
next
  case False
  obtain h u where hu: "head b = int h" "used b = int u" "0 < u"
    using False assms that [of "nat (head b)" "nat (used b)"] by (auto simp: buf_inv_def Let_def)
  let ?n = "length (storage b)"
  have le: "h < ?n" "u \<le> ?n" and t: "tail b = (int h + int u - 1) mod int ?n"
    using assms hu by (auto simp: buf_inv_def Let_def)
  show ?thesis
  proof (cases "h + u \<le> ?n")
    case True
    have "tail b = int h + int u - 1" using True hu le t by simp
    moreover have "storage b = take h (storage b) @ contents b @ drop (h + u) (storage b)"
      using True hu append_take_drop_id [of u "drop h (storage b)"] by (simp add: contents_def add.commute)
    moreover have "length (contents b) = u" using True hu le by (simp add: contents_def)
    ultimately show ?thesis
      using hu le by (intro run [of "take h (storage b)" "drop (h + u) (storage b)"]) auto
  next
    case False
    let ?t = "h + u - ?n"
    have "tail b = int ?t - 1"
      using False hu le t mod_once [of "int ?n" "int h + int u - 1"] by (simp add: of_nat_diff)
    moreover have "storage b = take ?t (storage b) @ take (h - ?t) (drop ?t (storage b)) @ drop h (storage b)"
      using False hu le append_take_drop_id [of "h - ?t" "drop ?t (storage b)"] by simp
    moreover have "contents b = drop h (storage b) @ take ?t (storage b)"
      using False hu le by (simp add: contents_def add.commute)
    ultimately show ?thesis
      using False hu le
      by (intro wrap [of "take ?t (storage b)" "take (h - ?t) (drop ?t (storage b))" "drop h (storage b)"])
        auto
  qed
qed

section \<open>Operations\<close>

lemma contents_empty: "used b = 0 \<Longrightarrow> contents b = []"
  by (simp add: contents_def)

lemma length_contents: "buf_inv b \<Longrightarrow> int (length (contents b)) = used b"
  by (auto simp: contents_def buf_inv_def Let_def min_def)

lemma linearise_nonempty:
  assumes "buf_inv b" "used b \<noteq> 0" "used b \<le> int (length n)"
  shows "linearise b n = Inr (b\<lparr>storage := contents b @ drop (length (contents b)) n,
           head := 0, tail := int (length (contents b)) - 1\<rparr>)"
  using assms(1)
proof (cases b rule: buf_cases)
  case (run P S)
  let ?C = "contents b"
  have "sl_sub (storage b) (head b) (tail b + 1) = Inr ?C"
    using sl_sub_int [of "length P" "length P + length ?C" "storage b"]
    unfolding run by simp
  moreover have "head b \<le> tail b" using run by (cases ?C) auto
  ultimately show ?thesis
    using run(5) assms(3) by (simp add: linearise_def copy_fits_0)
next
  case (wrap C1 C2 G)
  have "sl_sub (storage b) 0 (tail b + 1) = Inr C2"
    using sl_sub_from_0 [of "length C2" "storage b"] wrap by simp
  moreover have "sl_sub (storage b) (head b) (int (length (storage b))) = Inr C1"
    using sl_sub_to_end [of "length (C2 @ G)" "storage b"] wrap by simp
  moreover have "tail b < head b" using wrap by auto
  ultimately show ?thesis
    using wrap(6,7) assms(3)
    by (simp add: linearise_def copy_fits_0 copy_fits_append add.commute)
qed (use assms in simp)

lemma linearise_empty:
  assumes "buf_inv b" "used b = 0"
  shows "\<exists>b'. linearise b n = Inr b' \<and> length (storage b') = length n \<and> used b' = 0 \<and>
    head b' = 0 \<and> - 1 \<le> tail b' \<and> tail b' \<le> int (length n) - 1"
  using assms(1)
proof (cases b rule: buf_cases)
  case (empty h t)
  show ?thesis
  proof (cases "head b \<le> tail b")
    case True
    with empty have "sl_sub (storage b) (head b) (tail b + 1) = Inr (take (t - h) (drop h (storage b)))"
      by simp
    with True assms show ?thesis by (auto simp: linearise_def copy_at_0)
  next
    case False
    obtain n1 c where 1: "copy_at n 0 (drop h (storage b)) = Inr (n1, c)"
      by (simp add: copy_at_0)
    note b1 = copy_at_bounds [OF 1]
    then obtain n2 c2 where 2: "copy_at n1 c (take t (storage b)) = Inr (n2, c2)"
      by (auto simp: copy_at_def Let_def)
    show ?thesis
      using False empty assms 1 2 b1 copy_at_bounds [OF 2] by (simp add: linearise_def)
  qed
qed (use assms contents_empty [of b] in auto)

lemma NewBuffer_ok:
  "0 \<le> sz \<Longrightarrow> \<exists>b. NewBuffer z sz = Inr b \<and> buf_inv b \<and> contents b = []"
  by (auto simp: NewBuffer_def sl_make_def Let_def buf_inv_def contents_def)

lemma grow_ok:
  assumes "buf_inv b" "used b \<le> sz" "0 < sz"
  shows "\<exists>b'. grow z b sz = Inr b' \<and> buf_inv b' \<and> contents b' = contents b \<and>
           used b' = used b \<and> int (length (storage b')) = sz"
proof (cases "used b = 0")
  case True
  then show ?thesis
    using assms linearise_empty [OF assms(1) True, of "replicate (nat sz) z"] contents_empty
    by (force simp: grow_def sl_make_def intro: buf_emptyI [THEN conjunct1])
next
  case False
  let ?b = "b\<lparr>storage := contents b @ drop (length (contents b)) (replicate (nat sz) z),
             head := 0, tail := int (length (contents b)) - 1\<rparr>"
  have "buf_inv ?b \<and> contents ?b = contents b"
    using assms(1,2) False length_contents [OF assms(1)]
    by (intro buf_runI [where P = "[]" and S = "drop (length (contents b)) (replicate (nat sz) z)"])
      auto
  then show ?thesis
    using assms False length_contents [OF assms(1)]
      linearise_nonempty [OF assms(1) False, of "replicate (nat sz) z"]
    by (auto simp: grow_def sl_make_def)
qed


lemma append_fit_ok:
  assumes "buf_inv b" "used b + int (length v) \<le> int (length (storage b))"
  shows "\<exists>b'. append_fit b v = Inr b' \<and> used b' = used b \<and>
           (let b'' = b'\<lparr>used := used b + int (length v)\<rparr>
            in buf_inv b'' \<and> contents b'' = contents b @ v)"
  using assms(1)
proof (cases b rule: buf_cases)
  case (empty h t)
  let ?b = "b\<lparr>storage := v @ drop (length v) (storage b), head := 0, tail := int (length v) - 1,
              used := int (length v)\<rparr>"
  have "buf_inv ?b \<and> contents ?b = v"
    using assms empty buf_runI [of ?b "[]" v "drop (length v) (storage b)"]
      buf_emptyI [of ?b] by (cases "v = []") (auto simp: buf_inv_def Let_def)
  then show ?thesis
    using assms empty by (simp add: append_fit_def copy_fits_0 Let_def)
next
  case (run P S)
  let ?C = "contents b"
  have le: "head b \<le> tail b" and ne: "used b \<noteq> 0" using run by (cases ?C, auto)+
  have len: "length v \<le> length S + length P" using assms(2) run by simp
  show ?thesis
  proof (cases "length v \<le> length S")
    case True
    have "copy_at (storage b) (tail b + 1) v = Inr ((P @ ?C) @ v @ drop (length v) S, int (length v))"
      using True copy_fits_append [of v S "tail b + 1" "P @ ?C"] run by simp
    moreover have "remn (tail b + int (length v)) (int (length (storage b))) = tail b + int (length v)"
      using run len True by (cases ?C) auto
    ultimately have ok: "append_fit b v = Inr (b\<lparr>storage := P @ (?C @ v) @ drop (length v) S,
        tail := tail b + int (length v)\<rparr>)"
      using le ne by (simp add: append_fit_def copy_at_0)
    show ?thesis
      unfolding ok Let_def
      using run buf_runI [of "b\<lparr>storage := P @ (?C @ v) @ drop (length v) S,
        tail := tail b + int (length v), used := used b + int (length v)\<rparr>" P "?C @ v" "drop (length v) S"]
      by simp
  next
    case False
    then obtain v1 v2 where v: "v = v1 @ v2" "length v1 = length S" "v2 \<noteq> []"
      using that [of "take (length S) v" "drop (length S) v"] by simp
    have "copy_at (storage b) (tail b + 1) v = Inr ((P @ ?C) @ v1, int (length v1))"
      using copy_at_truncated [of S v "tail b + 1" "P @ ?C"] run v by simp
    moreover have "sl_sub v (int (length v1)) (int (length v)) = Inr v2"
      using sl_sub_to_end [of "length v1" v] v by simp
    moreover have "copy_at ((P @ ?C) @ v1) 0 v2 = Inr (v2 @ drop (length v2) P @ ?C @ v1, int (length v2))"
      using copy_fits_0 [of v2 "(P @ ?C) @ v1"] len v by simp
    moreover have "remn (tail b + int (length v)) (int (length (storage b))) = int (length v2) - 1"
      using run len v mod_once [of "int (length (storage b))" "tail b + int (length v)"]
      by (cases v2; cases ?C) auto
    ultimately have ok: "append_fit b v = Inr (b\<lparr>storage := v2 @ drop (length v2) P @ ?C @ v1,
        tail := int (length v2) - 1\<rparr>)"
      using le ne by (simp add: append_fit_def)
    show ?thesis
      unfolding ok Let_def
      using run len v buf_wrapI [of "b\<lparr>storage := v2 @ drop (length v2) P @ ?C @ v1,
        tail := int (length v2) - 1, used := used b + int (length v)\<rparr>" v2 "drop (length v2) P" "?C @ v1"]
      by simp
  qed
next
  case (wrap C1 C2 G)
  have le: "\<not> head b \<le> tail b" and ne: "used b \<noteq> 0" using wrap by (cases C1, auto)+
  have "copy_at (storage b) (tail b + 1) v = Inr (C2 @ v @ drop (length v) G @ C1, int (length v))"
    using copy_fits_append [of v "G @ C1" "tail b + 1" C2] wrap assms(2) by simp
  then have ok: "append_fit b v = Inr (b\<lparr>storage := (C2 @ v) @ drop (length v) G @ C1,
      tail := tail b + int (length v)\<rparr>)"
    using le ne by (simp add: append_fit_def)
  show ?thesis
    unfolding ok Let_def
    using wrap assms(2) buf_wrapI [of "b\<lparr>storage := (C2 @ v) @ drop (length v) G @ C1,
      tail := tail b + int (length v), used := used b + int (length v)\<rparr>" "C2 @ v" "drop (length v) G" C1]
    by simp
qed

lemma buf_Append_ok:
  assumes "buf_inv b"
  shows "\<exists>b'. buf_Append z b v = Inr b' \<and> buf_inv b' \<and> contents b' = contents b @ v"
proof -
  let ?total = "used b + int (length v)"
  let ?grown = "if ?total > int (length (storage b)) then grow z b ?total else Inr b"
  have "\<exists>b1. ?grown = Inr b1 \<and> buf_inv b1 \<and> contents b1 = contents b \<and> used b1 = used b \<and>
          ?total \<le> int (length (storage b1))"
  proof (cases "?total > int (length (storage b))")
    case True
    moreover have "used b \<le> ?total" by simp
    ultimately show ?thesis using grow_ok [OF assms, of ?total z] by auto
  qed (use assms in simp)
  then obtain b1 where b1: "?grown = Inr b1" "buf_inv b1" "contents b1 = contents b"
      "used b1 = used b" "?total \<le> int (length (storage b1))"
    by blast
  show ?thesis
    using append_fit_ok [of b1 v] b1 by (auto simp: buf_Append_def Let_def)
qed

lemma buf_Head_none: "n = 0 \<or> used b = 0 \<Longrightarrow> buf_Head z b n = Inr ([], b)"
  by (simp add: buf_Head_def)

lemma buf_Head_clip:
  "buf_inv b \<Longrightarrow> n > used b \<Longrightarrow> buf_Head z b n = buf_Head z b (used b)"
  by (auto simp: buf_Head_def Let_def buf_inv_def)

lemma buf_Head_some:
  assumes "buf_inv b" "0 < n" "int n \<le> used b"
  shows "\<exists>b'. buf_Head z b (int n) = Inr (take n (contents b), b') \<and> buf_inv b' \<and>
           contents b' = drop n (contents b)"
  using assms(1)
proof (cases b rule: buf_cases)
  case (run P S)
  let ?C = "contents b"
  let ?b = "b\<lparr>head := head b + int n, used := used b - int n\<rparr>"
  have n: "n \<le> length ?C" using assms run by simp
  have sub: "sl_sub (storage b) (head b) (int (length (storage b))) = Inr (?C @ S)"
    using sl_sub_to_end [of "length P" "storage b"] run by simp
  have inv: "buf_inv ?b \<and> contents ?b = drop n ?C"
  proof (cases "n = length ?C")
    case True
    then show ?thesis using run buf_emptyI [of ?b] by (cases ?C) auto
  next
    case False
    have "storage ?b = (P @ take n ?C) @ drop n ?C @ S" using run(1) by simp
    then show ?thesis
      using run n False by (intro buf_runI [of ?b "P @ take n ?C" "drop n ?C" S]) auto
  qed
  show ?thesis
  proof (cases "head b < tail b")
    case True
    then show ?thesis
      using n sub inv assms(2,3) by (auto simp: buf_Head_def Let_def copy_at_0)
  next
    case False
    then have 1: "length ?C = 1" "n = 1" using run n assms(2) by (cases ?C; simp)+
    let ?b' = "b\<lparr>head := remn (head b + int n) (int (length (storage b))), used := used b - int n\<rparr>"
    have "buf_inv ?b' \<and> contents ?b' = drop n ?C"
      using run 1 assms(1) buf_emptyI [of ?b'] by (auto simp: less_imp_le)
    then show ?thesis
      using False n sub 1 assms(2,3) by (auto simp: buf_Head_def Let_def copy_at_0 copy_at_int)
  qed
next
  case (wrap C1 C2 G)
  let ?b = "b\<lparr>head := remn (head b + int n) (int (length (storage b))), used := used b - int n\<rparr>"
  have n: "n \<le> length C1 + length C2" and le: "\<not> head b < tail b" using assms wrap by simp_all
  have sub: "sl_sub (storage b) (head b) (int (length (storage b))) = Inr C1"
    using sl_sub_to_end [of "length (C2 @ G)" "storage b"] wrap by simp
  have "rbind (copy_at (replicate n z) 0 C1) (\<lambda>(out1, c). rbind (copy_at out1 c (storage b))
          (\<lambda>(out2, _). Inr (out2, ?b))) = Inr (take n (contents b), ?b)"
    using n wrap by (auto simp: copy_at_0 copy_at_int min_def)
  moreover have "buf_inv ?b \<and> contents ?b = drop n (contents b)"
  proof (cases "n < length C1")
    case True
    then have "storage ?b = C2 @ (G @ take n C1) @ drop n C1" using wrap by simp
    moreover have "head ?b = head b + int n" using wrap True by simp
    ultimately show ?thesis
      using wrap True buf_wrapI [of ?b C2 "G @ take n C1" "drop n C1"] by simp
  next
    case False
    let ?k = "n - length C1"
    have "storage ?b = take ?k C2 @ drop ?k C2 @ G @ C1" using wrap by simp
    moreover have "head ?b = int ?k"
      using wrap False n mod_once [of "int (length (storage b))" "head b + int n"]
      by (cases C1) (auto simp: of_nat_diff)
    ultimately show ?thesis
      using wrap False n buf_runI [of ?b "take ?k C2" "drop ?k C2" "G @ C1"] buf_emptyI [of ?b]
      by (cases "n = length C1 + length C2") (auto simp: of_nat_diff)
  qed
  ultimately show ?thesis
    using sub le assms(2,3) by (auto simp: buf_Head_def Let_def)
qed (use assms in simp)

lemma buf_Head_ok:
  assumes "buf_inv b" "0 \<le> n"
  shows "\<exists>b'. buf_Head z b n = Inr (take (nat n) (contents b), b') \<and> buf_inv b' \<and>
           contents b' = drop (nat n) (contents b)"
proof -
  note len = length_contents [OF assms(1)]
  consider "n = 0 \<or> used b = 0" | "0 < n" "n \<le> used b" | "used b \<noteq> 0" "used b < n"
    using assms(2) by linarith
  then show ?thesis
  proof cases
    case 1
    then show ?thesis using assms contents_empty by (auto simp: buf_Head_none)
  next
    case 2
    then show ?thesis using assms buf_Head_some [of b "nat n" z] by simp
  next
    case 3
    then have "0 < nat (used b)" "length (contents b) \<le> nat n" "nat (used b) = length (contents b)"
      using len by auto
    then show ?thesis
      using 3 assms len buf_Head_clip [of b n z] buf_Head_some [of b "nat (used b)" z] by simp
  qed
qed

lemma buf_Compact_ok:
  assumes "buf_inv b"
  shows "\<exists>b'. buf_Compact z b = Inr b' \<and> buf_inv b' \<and> contents b' = contents b \<and>
           buf_Cap b' = max 1 (int (length (contents b)))"
proof (cases "used b = 0")
  case True
  then show ?thesis
    by (auto simp: buf_Compact_def buf_inv_def contents_def buf_Cap_def)
next
  case False
  then have "0 < used b" using assms by (auto simp: buf_inv_def Let_def)
  then show ?thesis
    using False grow_ok [OF assms, of "used b" z] length_contents [OF assms]
    by (auto simp: buf_Compact_def grow_def buf_Cap_def)
qed

section \<open>Refinement of the queue interface\<close>

locale batch_queue =
  fixes inv :: "'q \<Rightarrow> bool"
    and items :: "'q \<Rightarrow> 'a list"
    and app :: "'q \<Rightarrow> 'a list \<Rightarrow> 'q res"
    and front :: "'q \<Rightarrow> int \<Rightarrow> ('a list \<times> 'q) res"
    and cmp :: "'q \<Rightarrow> 'q res"
  assumes app_law: "inv q \<Longrightarrow> \<exists>q'. app q v = Inr q' \<and> inv q' \<and> items q' = items q @ v"
    and front_law: "inv q \<Longrightarrow> 0 \<le> n \<Longrightarrow>
      \<exists>q'. front q n = Inr (take (nat n) (items q), q') \<and> inv q' \<and> items q' = drop (nat n) (items q)"
    and cmp_law: "inv q \<Longrightarrow> \<exists>q'. cmp q = Inr q' \<and> inv q' \<and> items q' = items q"
begin

lemma run_fifo:
  "inv q \<Longrightarrow> \<exists>q'. run_queue app front cmp q ops = Inr (fifo_outputs (items q) ops, q') \<and> inv q' \<and>
     concat (fifo_outputs (items q) ops) @ items q' = items q @ appended ops"
proof (induction ops arbitrary: q)
  case Nil
  then show ?case by simp
next
  case (Cons a ops)
  show ?case
  proof (cases a)
    case (OpAppend v)
    obtain q' where "app q v = Inr q'" "inv q'" "items q' = items q @ v"
      using app_law [OF Cons.prems] by blast
    with Cons.IH [of q'] OpAppend show ?thesis by auto
  next
    case (OpHead n)
    obtain q' where "front q (int n) = Inr (take n (items q), q')" "inv q'" "items q' = drop n (items q)"
      using front_law [OF Cons.prems, of "int n"] by auto
    with Cons.IH [of q'] OpHead show ?thesis by auto
  next
    case OpCompact
    obtain q' where "cmp q = Inr q'" "inv q'" "items q' = items q"
      using cmp_law [OF Cons.prems] by blast
    with Cons.IH [of q'] OpCompact show ?thesis by auto
  qed
qed

end

interpretation circ: batch_queue buf_inv contents "buf_Append z" "buf_Head z" "buf_Compact z" for z
proof unfold_locales
  fix b :: "'a Buffer" and v :: "'a list" and n :: int
  assume inv: "buf_inv b"
  show "\<exists>b'. buf_Append z b v = Inr b' \<and> buf_inv b' \<and> contents b' = contents b @ v"
    using inv by (rule buf_Append_ok)
  show "\<exists>b'. buf_Compact z b = Inr b' \<and> buf_inv b' \<and> contents b' = contents b"
    using buf_Compact_ok [OF inv] by blast
  assume "0 \<le> n"
  with inv show "\<exists>b'. buf_Head z b n = Inr (take (nat n) (contents b), b') \<and> buf_inv b' \<and>
      contents b' = drop (nat n) (contents b)"
    by (rule buf_Head_ok)
qed

section \<open>Properties\<close>

text \<open>
  C1: a buffer created with any non-negative size behaves as a first-in first-out queue for
  every sequence of \<^verbatim>\<open>Append\<close>, \<^verbatim>\<open>Head\<close> and \<^verbatim>\<open>Compact\<close> calls: no call panics, each \<^verbatim>\<open>Head\<close> returns
  exactly what the list specification returns, and what was returned followed by what is still
  held is what was appended, in order, so growing and wrapping around lose, duplicate and
  reorder nothing.
\<close>

theorem buffer_fifo:
  assumes "0 \<le> sz"
  shows "\<exists>b b'. NewBuffer z sz = Inr b \<and>
    run_queue (buf_Append z) (buf_Head z) (buf_Compact z) b ops = Inr (fifo_outputs [] ops, b') \<and>
    concat (fifo_outputs [] ops) @ contents b' = appended ops"
proof -
  obtain b where b: "NewBuffer z sz = Inr b" "buf_inv b" "contents b = []"
    using NewBuffer_ok [OF assms, of z] by blast
  then obtain b' where "run_queue (buf_Append z) (buf_Head z) (buf_Compact z) b ops =
      Inr (fifo_outputs [] ops, b')" "concat (fifo_outputs [] ops) @ contents b' = appended ops"
    using circ.run_fifo [of b z ops] by (simp only: b append_Nil) blast
  with b show ?thesis by blast
qed

theorem buffer_fifo_witness:
  "\<exists>b b'. NewBuffer (0::nat) 2 = Inr b \<and>
    run_queue (buf_Append 0) (buf_Head 0) (buf_Compact 0) b
      [OpAppend [1, 2], OpHead 1, OpAppend [3], OpAppend [4], OpHead 5] = Inr ([[1], [2, 3, 4]], b') \<and>
    contents b' = []"
  using buffer_fifo [of 2 "0::nat" "[OpAppend [1, 2], OpHead 1, OpAppend [3], OpAppend [4], OpHead 5]"]
  by simp

text \<open>
  \<^verbatim>\<open>Compact\<close> never panics on a valid buffer, keeps its elements and their order, and leaves
  exactly the storage they need, with a minimum of one slot.
\<close>

theorem compact_minimal:
  assumes "buf_inv b"
  shows "\<exists>b'. buf_Compact z b = Inr b' \<and> buf_inv b' \<and> contents b' = contents b \<and>
           buf_Cap b' = max 1 (buf_Len b)"
  using buf_Compact_ok [OF assms, of z] length_contents [OF assms] by (simp add: buf_Len_def)

theorem compact_minimal_witness:
  "\<exists>b'. buf_Compact (0::nat) \<lparr>storage = [3, 9, 1, 2], used = 3, head = 2, tail = 0\<rparr> = Inr b' \<and>
     contents b' = [1, 2, 3] \<and> buf_Cap b' = 3"
proof -
  let ?b = "\<lparr>storage = [3, 9, 1, 2::nat], used = 3, head = 2, tail = 0\<rparr>"
  have inv: "buf_inv ?b" by (simp add: buf_inv_def)
  have c: "contents ?b = [1, 2, 3]" and l: "buf_Len ?b = 3"
    by (simp_all add: contents_def buf_Len_def)
  show ?thesis using compact_minimal [OF inv, of 0] unfolding c l by (auto simp: max_def)
qed

end
