(* ===== verification/Generic_Heap.thy ===== *)
theory Generic_Heap
  imports Prelude
begin

text \<open>
  The generic binary heap of \<^verbatim>\<open>algo/container/heap/generic.go\<close>. The element type's \<^verbatim>\<open>Less\<close> method
  is client code and is the parameter \<open>lt\<close>; the zero value that \<^verbatim>\<open>pop\<close> stores is the parameter
  \<open>z\<close>. The locale \<open>heap_order\<close> states what the heap relies on (a strict weak order) and carries
  the proofs of the sift loops; the locale \<open>pqueue\<close> is the priority queue interface the heaps
  implement.
\<close>

section \<open>Model\<close>

definition g_swap :: "'a list \<Rightarrow> int \<Rightarrow> int \<Rightarrow> 'a list res" where
  "g_swap h i j =
     rbind (sl_get h j) (\<lambda>x. rbind (sl_get h i) (\<lambda>y.
     rbind (sl_set h i x) (\<lambda>h'. sl_set h' j y)))"

definition g_less :: "('a \<Rightarrow> 'a \<Rightarrow> bool) \<Rightarrow> 'a list \<Rightarrow> int \<Rightarrow> int \<Rightarrow> bool res" where
  "g_less lt h i j = rbind (sl_get h i) (\<lambda>x. rbind (sl_get h j) (\<lambda>y. Inr (lt x y)))"

definition g_pop :: "'a \<Rightarrow> 'a list \<Rightarrow> ('a list \<times> 'a) res" where
  "g_pop z h =
     (let n = int (length h) - 1
      in rbind (sl_get h n) (\<lambda>x. rbind (sl_set h n z) (\<lambda>h'.
         rbind (sl_sub h' 0 n) (\<lambda>t. Inr (t, x)))))"

lemma g_less_InrD: "g_less lt h i j = Inr b \<Longrightarrow> 0 \<le> i \<and> 0 \<le> j"
  by (auto simp: g_less_def sl_get_eq_Inr rbind_eq_Inr)

lemma parent_less:
  assumes "quot (j - 1) 2 \<noteq> j" "g_less lt h j i = Inr b"
  shows "nat (quot (j - 1) 2) < nat j"
  using g_less_InrD [OF assms(2)] assms(1)
  by (cases "j = 0"; cases "j = 1") (auto simp: quot_def)

function g_up :: "('a \<Rightarrow> 'a \<Rightarrow> bool) \<Rightarrow> 'a list \<Rightarrow> int \<Rightarrow> 'a list res" where
  "g_up lt h j =
     (let i = quot (j - 1) 2
      in if i = j then Inr h
         else rbind (g_less lt h j i) (\<lambda>b.
              if \<not> b then Inr h
              else rbind (g_swap h i j) (\<lambda>h'. g_up lt h' i)))"
  by pat_completeness auto
termination
  by (relation "measure (\<lambda>(lt, h, j). nat j)") (simp, simp only: in_measure split_conv, rule parent_less)

function g_down_loop :: "('a \<Rightarrow> 'a \<Rightarrow> bool) \<Rightarrow> 'a list \<Rightarrow> int \<Rightarrow> int \<Rightarrow> ('a list \<times> int) res" where
  "g_down_loop lt h i n =
     (let j1 = 2 * i + 1
      in if j1 \<ge> n \<or> j1 < 0 then Inr (h, i)
         else rbind (if j1 + 1 < n then g_less lt h (j1 + 1) j1 else Inr False) (\<lambda>r.
              let j = (if r then j1 + 1 else j1)
              in rbind (g_less lt h j i) (\<lambda>b.
                 if \<not> b then Inr (h, i)
                 else rbind (g_swap h i j) (\<lambda>h'. g_down_loop lt h' j n))))"
  by pat_completeness auto
termination
  by (relation "measure (\<lambda>(lt, h, i, n). nat (n - i))") (auto split: if_splits)

definition g_down :: "('a \<Rightarrow> 'a \<Rightarrow> bool) \<Rightarrow> 'a list \<Rightarrow> int \<Rightarrow> int \<Rightarrow> ('a list \<times> bool) res" where
  "g_down lt h i0 n = rbind (g_down_loop lt h i0 n) (\<lambda>(h', i). Inr (h', i > i0))"

function g_init_loop :: "('a \<Rightarrow> 'a \<Rightarrow> bool) \<Rightarrow> 'a list \<Rightarrow> int \<Rightarrow> int \<Rightarrow> 'a list res" where
  "g_init_loop lt h i n =
     (if i < 0 then Inr h
      else rbind (g_down lt h i n) (\<lambda>(h', _). g_init_loop lt h' (i - 1) n))"
  by pat_completeness auto
termination
  by (relation "measure (\<lambda>(lt, h, i, n). nat (i + 1))") auto

definition g_Init :: "('a \<Rightarrow> 'a \<Rightarrow> bool) \<Rightarrow> 'a list \<Rightarrow> 'a list res" where
  "g_Init lt h = (let n = int (length h) in g_init_loop lt h (quot n 2 - 1) n)"

definition g_Push :: "('a \<Rightarrow> 'a \<Rightarrow> bool) \<Rightarrow> 'a list \<Rightarrow> 'a \<Rightarrow> 'a list res" where
  "g_Push lt h x = (let h' = h @ [x] in g_up lt h' (int (length h') - 1))"

definition g_Pop :: "('a \<Rightarrow> 'a \<Rightarrow> bool) \<Rightarrow> 'a \<Rightarrow> 'a list \<Rightarrow> ('a \<times> 'a list) res" where
  "g_Pop lt z h =
     (let n = int (length h) - 1
      in rbind (g_swap h 0 n) (\<lambda>h1. rbind (g_down lt h1 0 n) (\<lambda>(h2, _).
         rbind (g_pop z h2) (\<lambda>(t, x). Inr (x, t)))))"

definition g_settle :: "('a \<Rightarrow> 'a \<Rightarrow> bool) \<Rightarrow> 'a list \<Rightarrow> int \<Rightarrow> int \<Rightarrow> 'a list res" where
  "g_settle lt h i n =
     rbind (g_down lt h i n) (\<lambda>(h', moved). if \<not> moved then g_up lt h' i else Inr h')"

definition g_Remove :: "('a \<Rightarrow> 'a \<Rightarrow> bool) \<Rightarrow> 'a \<Rightarrow> 'a list \<Rightarrow> int \<Rightarrow> ('a \<times> 'a list) res" where
  "g_Remove lt z h i =
     (let n = int (length h) - 1
      in rbind (if n \<noteq> i then rbind (g_swap h i n) (\<lambda>h1. g_settle lt h1 i n) else Inr h) (\<lambda>h2.
         rbind (g_pop z h2) (\<lambda>(t, x). Inr (x, t))))"

definition g_Fix :: "('a \<Rightarrow> 'a \<Rightarrow> bool) \<Rightarrow> 'a list \<Rightarrow> int \<Rightarrow> 'a list res" where
  "g_Fix lt h i = g_settle lt h i (int (length h))"

declare g_up.simps [simp del] g_down_loop.simps [simp del] g_init_loop.simps [simp del]

section \<open>The heap property\<close>

text \<open>
  \<open>heap_upto lt h m n\<close>: among the first \<open>n\<close> elements, no element is smaller than its parent,
  for the parents at index \<open>m\<close> and beyond. A heap is the case \<open>m = 0\<close>, \<open>n = length h\<close>.
\<close>

definition parent :: "nat \<Rightarrow> nat" where
  "parent c = (c - 1) div 2"

lemma parent_lt: "0 < c \<Longrightarrow> parent c < c"
  by (simp add: parent_def)

lemma parent_eq [simp]: "parent c = c \<longleftrightarrow> c = 0"
  by (auto simp: parent_def)

lemma parent_le: "parent c \<le> c"
  by (simp add: parent_def)

lemma children: "0 < c \<Longrightarrow> parent c = i \<longleftrightarrow> c = 2 * i + 1 \<or> c = 2 * i + 2"
  by (auto simp: parent_def)

definition heap_upto :: "('a \<Rightarrow> 'a \<Rightarrow> bool) \<Rightarrow> 'a list \<Rightarrow> nat \<Rightarrow> nat \<Rightarrow> bool" where
  "heap_upto lt h m n \<longleftrightarrow>
     (\<forall>c\<in>{1..<n}. m \<le> parent c \<longrightarrow> \<not> lt (h ! c) (h ! parent c))"

abbreviation is_heap :: "('a \<Rightarrow> 'a \<Rightarrow> bool) \<Rightarrow> 'a list \<Rightarrow> bool" where
  "is_heap lt h \<equiv> heap_upto lt h 0 (length h)"

lemma g_swap_int [simp]:
  "i < length h \<Longrightarrow> j < length h \<Longrightarrow> g_swap h (int i) (int j) = Inr (h[i := h ! j, j := h ! i])"
  by (simp add: g_swap_def)

lemma g_less_int [simp]:
  "i < length h \<Longrightarrow> j < length h \<Longrightarrow> g_less lt h (int i) (int j) = Inr (lt (h ! i) (h ! j))"
  by (simp add: g_less_def)

lemma quot_parent: "quot (int j - 1) 2 = int (parent j)"
  by (cases j) (auto simp: quot_def zdiv_int parent_def)

text \<open>One turn of each loop, with natural number indices in range.\<close>

lemma g_up_step:
  assumes "j < length h"
  shows "g_up lt h (int j) =
    (if j = 0 \<or> \<not> lt (h ! j) (h ! parent j) then Inr h
     else g_up lt (h[parent j := h ! j, j := h ! parent j]) (int (parent j)))"
proof -
  have "parent j < length h" using assms parent_le [of j] by simp
  then show ?thesis using assms by (subst g_up.simps) (simp add: quot_parent Let_def)
qed

lemma g_down_step:
  assumes "n \<le> length h"
  shows "g_down_loop lt h (int i) (int n) =
    (if n \<le> 2 * i + 1 then Inr (h, int i)
     else let j = (if 2 * i + 2 < n \<and> lt (h ! (2 * i + 2)) (h ! (2 * i + 1)) then 2 * i + 2 else 2 * i + 1)
          in if \<not> lt (h ! j) (h ! i) then Inr (h, int i)
             else g_down_loop lt (h[i := h ! j, j := h ! i]) (int j) (int n))"
proof -
  have step: "g_down_loop lt h (int i) (int n) =
      (if n \<le> l then Inr (h, int i)
       else let j = (if r < n \<and> lt (h ! r) (h ! l) then r else l)
            in if \<not> lt (h ! j) (h ! i) then Inr (h, int i)
               else g_down_loop lt (h[i := h ! j, j := h ! i]) (int j) (int n))"
    if "2 * int i + 1 = int l" "int l + 1 = int r" "i < l" for l r
    using that assms by (subst g_down_loop.simps) (simp add: Let_def)
  show ?thesis using step [of "2 * i + 1" "2 * i + 2"] by simp
qed



definition hole_up :: "('a \<Rightarrow> 'a \<Rightarrow> bool) \<Rightarrow> 'a list \<Rightarrow> nat \<Rightarrow> nat \<Rightarrow> bool" where
  "hole_up lt h j n \<longleftrightarrow>
     (\<forall>c\<in>{1..<n}. (c \<noteq> j \<longrightarrow> \<not> lt (h ! c) (h ! parent c)) \<and>
        (parent c = j \<and> 0 < j \<longrightarrow> \<not> lt (h ! c) (h ! parent j)))"

definition hole_down :: "('a \<Rightarrow> 'a \<Rightarrow> bool) \<Rightarrow> 'a list \<Rightarrow> nat \<Rightarrow> nat \<Rightarrow> nat \<Rightarrow> bool" where
  "hole_down lt h i m n \<longleftrightarrow>
     (\<forall>c\<in>{1..<n}. (parent c \<noteq> i \<and> m \<le> parent c \<longrightarrow> \<not> lt (h ! c) (h ! parent c)) \<and>
        (parent c = i \<and> 0 < i \<and> m \<le> parent i \<longrightarrow> \<not> lt (h ! c) (h ! parent i)))"

lemma hole_upD:
  assumes "hole_up lt h j n" "0 < c" "c < n"
  shows "c \<noteq> j \<Longrightarrow> \<not> lt (h ! c) (h ! parent c)"
    and "parent c = j \<Longrightarrow> 0 < j \<Longrightarrow> \<not> lt (h ! c) (h ! parent j)"
  using assms by (auto simp: hole_up_def)

lemma hole_downD:
  assumes "hole_down lt h i m n" "0 < c" "c < n"
  shows "parent c \<noteq> i \<Longrightarrow> m \<le> parent c \<Longrightarrow> \<not> lt (h ! c) (h ! parent c)"
    and "parent c = i \<Longrightarrow> 0 < i \<Longrightarrow> m \<le> parent i \<Longrightarrow> \<not> lt (h ! c) (h ! parent i)"
  using assms by (auto simp: hole_down_def)

lemma nth_swap:
  "i < length h \<Longrightarrow> j < length h \<Longrightarrow>
   h[i := h ! j, j := h ! i] ! x = (if x = j then h ! i else if x = i then h ! j else h ! x)"
  by (auto simp: nth_list_update)

lemma mset_swap': "i < length h \<Longrightarrow> j < length h \<Longrightarrow> mset (h[i := h ! j, j := h ! i]) = mset h"
  using mset_swap [of j h i] by simp

lemma g_pop_eq: "h \<noteq> [] \<Longrightarrow> g_pop z h = Inr (butlast h, last h)"
proof -
  assume "h \<noteq> []"
  then obtain xs x where h: "h = xs @ [x]" by (cases h rule: rev_cases) auto
  have "int (length h) - 1 = int (length xs)" by (simp add: h)
  then show ?thesis
    using sl_sub_from_0 [of "length xs" "xs @ [z]"] by (simp add: h g_pop_def Let_def)
qed

lemma heap_upto_butlast:
  "heap_upto lt h 0 n \<Longrightarrow> length h = Suc n \<Longrightarrow> is_heap lt (butlast h)"
  unfolding heap_upto_def
  by (metis atLeastLessThan_iff diff_Suc_1 le_less_trans length_butlast nth_butlast parent_le)

lemma mset_butlast: "length h = Suc n \<Longrightarrow> mset h = add_mset (h ! n) (mset (butlast h))"
  by (cases h rule: rev_cases) (auto simp: nth_append)

section \<open>The priority queue interface\<close>

primrec drain :: "('q \<Rightarrow> ('a \<times> 'q) res) \<Rightarrow> 'q \<Rightarrow> nat \<Rightarrow> ('a list \<times> 'q) res" where
  "drain pop q 0 = Inr ([], q)"
| "drain pop q (Suc n) =
     rbind (pop q) (\<lambda>(x, q'). rbind (drain pop q' n) (\<lambda>(xs, q''). Inr (x # xs, q'')))"

fun push_all :: "('q \<Rightarrow> 'a \<Rightarrow> 'q res) \<Rightarrow> 'q \<Rightarrow> 'a list \<Rightarrow> 'q res" where
  "push_all push q [] = Inr q"
| "push_all push q (x # xs) = rbind (push q x) (\<lambda>q'. push_all push q' xs)"

locale pqueue =
  fixes lt :: "'a \<Rightarrow> 'a \<Rightarrow> bool"
    and inv :: "'q \<Rightarrow> bool"
    and bag :: "'q \<Rightarrow> 'a multiset"
    and push :: "'q \<Rightarrow> 'a \<Rightarrow> 'q res"
    and pop :: "'q \<Rightarrow> ('a \<times> 'q) res"
  assumes push_law: "inv q \<Longrightarrow> \<exists>q'. push q x = Inr q' \<and> inv q' \<and> bag q' = bag q + {#x#}"
    and pop_law: "inv q \<Longrightarrow> bag q \<noteq> {#} \<Longrightarrow> \<exists>x q'. pop q = Inr (x, q') \<and> inv q' \<and>
      bag q = add_mset x (bag q') \<and> (\<forall>y\<in>#bag q'. \<not> lt y x)"
begin

lemma push_all_bag:
  "inv q \<Longrightarrow> \<exists>q'. push_all push q xs = Inr q' \<and> inv q' \<and> bag q' = bag q + mset xs"
proof (induction xs arbitrary: q)
  case (Cons x xs)
  obtain q' where "push q x = Inr q'" "inv q'" "bag q' = bag q + {#x#}"
    using push_law [OF Cons.prems] by blast
  then show ?case using Cons.IH [of q'] by auto
qed simp

lemma drain_sorted:
  "inv q \<Longrightarrow> n = size (bag q) \<Longrightarrow> \<exists>xs q'. drain pop q n = Inr (xs, q') \<and> mset xs = bag q \<and>
     sorted_wrt (\<lambda>x y. \<not> lt y x) xs \<and> inv q' \<and> bag q' = {#}"
proof (induction n arbitrary: q)
  case (Suc n)
  then have "bag q \<noteq> {#}" by auto
  then obtain x q' where x: "pop q = Inr (x, q')" "inv q'" "bag q = add_mset x (bag q')"
      "\<forall>y\<in>#bag q'. \<not> lt y x"
    using pop_law [OF Suc.prems(1)] by blast
  then obtain xs q'' where "drain pop q' n = Inr (xs, q'')" "mset xs = bag q'"
      "sorted_wrt (\<lambda>x y. \<not> lt y x) xs" "inv q''" "bag q'' = {#}"
    using Suc.IH [of q'] Suc.prems by auto
  moreover from this(2) have "set xs = set_mset (bag q')"
    using set_mset_mset [of xs] by simp
  ultimately show ?case using x by (intro exI [of _ "x # xs"] exI [of _ q'']) simp
qed simp

lemma push_drain:
  assumes "inv q" "bag q = {#}"
  shows "\<exists>q' ys q''. push_all push q xs = Inr q' \<and> drain pop q' (length xs) = Inr (ys, q'') \<and>
    mset ys = mset xs \<and> sorted_wrt (\<lambda>x y. \<not> lt y x) ys"
  using push_all_bag [OF assms(1), of xs] drain_sorted [of _ "length xs"] assms(2) by force

end

locale heap_order =
  fixes lt :: "'a \<Rightarrow> 'a \<Rightarrow> bool"
  assumes asym: "lt a b \<Longrightarrow> \<not> lt b a"
    and neg_trans: "\<not> lt a b \<Longrightarrow> \<not> lt b c \<Longrightarrow> \<not> lt a c"
begin

lemma hole_up_swap:
  assumes "hole_up lt h j n" "0 < j" "j < n" "n \<le> length h" "lt (h ! j) (h ! parent j)"
  shows "hole_up lt (h[parent j := h ! j, j := h ! parent j]) (parent j) n"
proof -
  let ?p = "parent j" and ?h = "h[parent j := h ! j, j := h ! parent j]"
  have nth: "?h ! x = (if x = j then h ! ?p else if x = ?p then h ! j else h ! x)" for x
    using assms parent_le [of j] by (intro nth_swap) linarith+
  note up = hole_upD [OF assms(1)]
  have pj: "\<not> lt (h ! ?p) (h ! j)" using assms(5) by (rule asym)
  have 1: "\<not> lt (?h ! c) (?h ! parent c)" if c: "0 < c" "c < n" "c \<noteq> ?p" for c
  proof (cases "c = j")
    case True
    then show ?thesis using pj assms by (auto simp: nth)
  next
    case False
    then have "\<not> lt (h ! c) (h ! parent c)" using up(1) c by blast
    then show ?thesis
      using False c up(2) [OF c(1,2)] pj assms neg_trans [of "h ! c" "h ! ?p" "h ! j"]
      by (auto simp: nth)
  qed
  have 2: "\<not> lt (?h ! c) (?h ! parent ?p)" if c: "0 < c" "c < n" "parent c = ?p" "0 < ?p" for c
  proof -
    have lt: "?p < j" "parent ?p < ?p" using c assms by (auto intro: parent_lt)
    then have "\<not> lt (h ! ?p) (h ! parent ?p)" using up(1) [of ?p] c assms by auto
    moreover have "parent ?p \<noteq> ?p" "parent ?p \<noteq> j" using lt by auto
    ultimately show ?thesis
      using c up(1) [of c] neg_trans [of "h ! c" "h ! ?p" "h ! parent ?p"] by (auto simp: nth)
  qed
  show ?thesis using 1 2 by (auto simp: hole_up_def)
qed

lemma up_ok:
  assumes "hole_up lt h j n" "j < n" "n \<le> length h"
  shows "\<exists>h'. g_up lt h (int j) = Inr h' \<and> heap_upto lt h' 0 n \<and> mset h' = mset h \<and>
           (\<forall>x>j. h' ! x = h ! x)"
  using assms
proof (induction j arbitrary: h rule: less_induct)
  case (less j)
  have step: "g_up lt h (int j) = (if j = 0 \<or> \<not> lt (h ! j) (h ! parent j) then Inr h
     else g_up lt (h[parent j := h ! j, j := h ! parent j]) (int (parent j)))"
    using less.prems by (intro g_up_step) simp
  show ?case
  proof (cases "j = 0 \<or> \<not> lt (h ! j) (h ! parent j)")
    case True
    then have "\<not> lt (h ! c) (h ! parent c)" if "0 < c" "c < n" for c
      using that hole_upD(1) [OF less.prems(1), of c] by (cases "c = j") auto
    then have "heap_upto lt h 0 n" by (simp add: heap_upto_def)
    then show ?thesis using True step by simp
  next
    case False
    let ?h = "h[parent j := h ! j, j := h ! parent j]"
    have p: "parent j < j" "parent j < n" "j < length h" "parent j < length h"
      using False less.prems parent_lt [of j] by auto
    have "hole_up lt ?h (parent j) n" using False less.prems by (intro hole_up_swap) auto
    then obtain h' where "g_up lt ?h (int (parent j)) = Inr h'" "heap_upto lt h' 0 n"
        "mset h' = mset ?h" "\<forall>x>parent j. h' ! x = ?h ! x"
      using less.IH [of "parent j" ?h] p less.prems by auto
    then show ?thesis using False step p mset_swap' [of "parent j" h j] by (auto simp: nth_swap)
  qed
qed

lemma hole_down_swap:
  assumes hole: "hole_down lt h i m n" and mi: "m \<le> i" and n: "n \<le> length h"
    and j: "j < n" "0 < j" "parent j = i" and lt: "lt (h ! j) (h ! i)"
    and sib: "\<And>c. 0 < c \<Longrightarrow> c < n \<Longrightarrow> parent c = i \<Longrightarrow> \<not> lt (h ! c) (h ! j)"
  shows "hole_down lt (h[i := h ! j, j := h ! i]) j m n"
proof -
  let ?h = "h[i := h ! j, j := h ! i]"
  have ij: "i < j" using j parent_lt [of j] by simp
  have nth: "?h ! x = (if x = j then h ! i else if x = i then h ! j else h ! x)" for x
    using assms ij by (intro nth_swap) auto
  note down = hole_downD [OF hole]
  have 1: "\<not> lt (?h ! c) (?h ! parent c)" if c: "0 < c" "c < n" "parent c \<noteq> j" "m \<le> parent c" for c
  proof (cases "parent c = i")
    case True
    then show ?thesis using c sib [of c] asym [OF lt] ij parent_lt [of c] by (auto simp: nth)
  next
    case False
    then have "\<not> lt (h ! c) (h ! parent c)" using down(1) c by blast
    then show ?thesis using False c j ij down(2) [of j] by (auto simp: nth)
  qed
  have 2: "\<not> lt (?h ! c) (?h ! parent j)" if c: "0 < c" "c < n" "parent c = j" for c
  proof -
    have "\<not> lt (h ! c) (h ! parent c)" using c down(1) [of c] mi ij by simp
    then show ?thesis using c j ij parent_lt [of c] by (auto simp: nth)
  qed
  show ?thesis using 1 2 j by (auto simp: hole_down_def)
qed

lemma down_ok:
  assumes "hole_down lt h i m n" "m \<le> i" "n \<le> length h"
  shows "\<exists>h' k. g_down_loop lt h (int i) (int n) = Inr (h', int k) \<and> i \<le> k \<and> (k = i \<longrightarrow> h' = h) \<and>
           heap_upto lt h' m n \<and> mset h' = mset h \<and> (\<forall>x\<ge>n. h' ! x = h ! x)"
  using assms
proof (induction "n - i" arbitrary: h i rule: less_induct)
  case less
  note step = g_down_step [OF less.prems(3), of lt i]
  let ?l = "2 * i + 1" and ?r = "2 * i + 2"
  let ?j = "if ?r < n \<and> lt (h ! ?r) (h ! ?l) then ?r else ?l"
  note down = hole_downD [OF less.prems(1)]
  show ?case
  proof (cases "n \<le> ?l")
    case True
    then have "parent c \<noteq> i" if "0 < c" "c < n" for c using that children [of c i] by auto
    then have "heap_upto lt h m n" using down(1) by (auto simp: heap_upto_def)
    then show ?thesis using True step by auto
  next
    case False
    then have j: "?j < n" "0 < ?j" "parent ?j = i" "i < ?j" by (auto simp: parent_def)
    have sib: "\<not> lt (h ! c) (h ! ?j)" if "0 < c" "c < n" "parent c = i" for c
      using that asym [of "h ! ?r" "h ! ?l"] asym [of "h ! c" "h ! c"] children [of c i] by auto
    show ?thesis
    proof (cases "lt (h ! ?j) (h ! i)")
      case True
      let ?h = "h[i := h ! ?j, ?j := h ! i]"
      have "hole_down lt ?h ?j m n"
        using less.prems j True sib by (intro hole_down_swap) auto
      moreover have "n - ?j < n - i" using j by linarith
      ultimately obtain h' k where "g_down_loop lt ?h (int ?j) (int n) = Inr (h', int k)" "?j \<le> k"
          "heap_upto lt h' m n" "mset h' = mset ?h" "\<forall>x\<ge>n. h' ! x = ?h ! x"
        using less.hyps [of ?j ?h] less.prems j by auto
      then show ?thesis
        using False True step j less.prems mset_swap' [of i h ?j]
        by (auto simp: Let_def nth_swap)
    next
      case stop: False
      have "\<not> lt (h ! c) (h ! parent c)" if "0 < c" "c < n" "m \<le> parent c" for c
        using that stop sib [of c] down(1) [of c] neg_trans [of "h ! c" "h ! ?j" "h ! i"]
        by (cases "parent c = i") auto
      then have "heap_upto lt h m n" by (auto simp: heap_upto_def)
      then show ?thesis using False stop step by (auto simp: Let_def)
    qed
  qed
qed

lemma heap_root_least:
  assumes "heap_upto lt h 0 n" "c < n"
  shows "\<not> lt (h ! c) (h ! 0)"
  using assms(2)
proof (induction c rule: less_induct)
  case (less c)
  show ?case
  proof (cases "c = 0")
    case True
    then show ?thesis using asym by auto
  next
    case False
    then have "\<not> lt (h ! c) (h ! parent c)" "\<not> lt (h ! parent c) (h ! 0)"
      using assms(1) less parent_lt [of c] by (auto simp: heap_upto_def)
    then show ?thesis by (rule neg_trans)
  qed
qed

lemma init_loop_ok:
  assumes "heap_upto lt h k n" "n = length h"
  shows "\<exists>h'. g_init_loop lt h (int k - 1) (int n) = Inr h' \<and> heap_upto lt h' 0 n \<and> mset h' = mset h"
  using assms
proof (induction k arbitrary: h)
  case 0
  then show ?case by (simp add: g_init_loop.simps)
next
  case (Suc k)
  have "hole_down lt h k k n"
    using Suc.prems(1) parent_lt [of k] by (auto simp: hole_down_def heap_upto_def)
  then obtain h1 i where 1: "g_down_loop lt h (int k) (int n) = Inr (h1, int i)"
      "heap_upto lt h1 k n" "mset h1 = mset h"
    using down_ok [of h k k n] Suc.prems by auto
  have len: "n = length h1" using mset_eq_length [OF 1(3)] Suc.prems(2) by simp
  have "g_init_loop lt h (int (Suc k) - 1) (int n) = g_init_loop lt h1 (int k - 1) (int n)"
    using 1(1) by (subst g_init_loop.simps) (simp add: g_down_def)
  then show ?case using Suc.IH [OF 1(2) len] unfolding 1(3) by simp
qed

lemma Init_ok: "\<exists>h'. g_Init lt h = Inr h' \<and> is_heap lt h' \<and> mset h' = mset h"
proof -
  have "heap_upto lt h (length h div 2) (length h)"
    by (auto simp: heap_upto_def parent_def)
  moreover have "quot (int (length h)) 2 = int (length h div 2)" by (simp add: zdiv_int)
  ultimately obtain h' where "g_Init lt h = Inr h'" "heap_upto lt h' 0 (length h)" "mset h' = mset h"
    using init_loop_ok [of h "length h div 2" "length h"] by (auto simp: g_Init_def Let_def)
  moreover from this(3) have "length h' = length h" by (rule mset_eq_length)
  ultimately show ?thesis by auto
qed

lemma Push_ok:
  assumes "is_heap lt h"
  shows "\<exists>h'. g_Push lt h x = Inr h' \<and> is_heap lt h' \<and> mset h' = mset h + {#x#}"
proof -
  have "hole_up lt (h @ [x]) (length h) (Suc (length h))"
    unfolding hole_up_def
  proof
    fix c assume c: "c \<in> {1..<Suc (length h)}"
    then show "(c \<noteq> length h \<longrightarrow> \<not> lt ((h @ [x]) ! c) ((h @ [x]) ! parent c)) \<and>
        (parent c = length h \<and> 0 < length h \<longrightarrow>
           \<not> lt ((h @ [x]) ! c) ((h @ [x]) ! parent (length h)))"
      using assms parent_lt [of c] by (auto simp: heap_upto_def nth_append)
  qed
  then obtain h' where "g_up lt (h @ [x]) (int (length h)) = Inr h'"
      "heap_upto lt h' 0 (Suc (length h))" "mset h' = mset (h @ [x])"
    using up_ok [of "h @ [x]" "length h" "Suc (length h)"] by auto
  moreover from this(3) have "length h' = Suc (length h)"
    using mset_eq_length [of h' "h @ [x]"] by simp
  ultimately show ?thesis by (auto simp: g_Push_def Let_def)
qed

text \<open>Re-establishing the heap around an index whose element was replaced by any other.\<close>

lemma settle_ok:
  assumes i: "i < n" "n \<le> length h"
    and hole: "\<And>c. 0 < c \<Longrightarrow> c < n \<Longrightarrow> c \<noteq> i \<Longrightarrow> parent c \<noteq> i \<Longrightarrow> \<not> lt (h ! c) (h ! parent c)"
    and gp: "\<And>c. 0 < c \<Longrightarrow> c < n \<Longrightarrow> parent c = i \<Longrightarrow> 0 < i \<Longrightarrow> \<not> lt (h ! c) (h ! parent i)"
  shows "\<exists>h'. g_settle lt h (int i) (int n) = Inr h' \<and> heap_upto lt h' 0 n \<and> mset h' = mset h \<and>
           (\<forall>x\<ge>n. h' ! x = h ! x)"
proof (cases "0 < i \<and> lt (h ! i) (h ! parent i)")
  case True
  have below: "\<not> lt (h ! c) (h ! i)" if "0 < c" "c < n" "parent c = i" for c
    using that True gp [of c] neg_trans [of "h ! c" "h ! parent i" "h ! i"] asym by blast
  have "g_down_loop lt h (int i) (int n) = Inr (h, int i)"
    unfolding g_down_step [OF i(2)] Let_def
    using below [of "2 * i + 1"] below [of "2 * i + 2"] by (auto simp: parent_def)
  moreover have "hole_up lt h i n"
    unfolding hole_up_def using hole gp below by (metis One_nat_def Suc_le_eq atLeastLessThan_iff)
  then obtain h' where "g_up lt h (int i) = Inr h'" "heap_upto lt h' 0 n" "mset h' = mset h"
      "\<forall>x>i. h' ! x = h ! x"
    using up_ok [of h i n] i by auto
  ultimately show ?thesis using i by (auto simp: g_settle_def g_down_def)
next
  case False
  then have "hole_down lt h i 0 n"
    unfolding hole_down_def using hole gp by (metis One_nat_def Suc_le_eq atLeastLessThan_iff)
  then obtain h1 k where d: "g_down_loop lt h (int i) (int n) = Inr (h1, int k)" "i \<le> k"
      "k = i \<longrightarrow> h1 = h" "heap_upto lt h1 0 n" "mset h1 = mset h" "\<forall>x\<ge>n. h1 ! x = h ! x"
    using down_ok [of h i 0 n] i by auto
  have "g_up lt h (int i) = Inr h"
    using False i g_up_step [of i h lt] by auto
  then show ?thesis using d by (cases "k = i") (auto simp: g_settle_def g_down_def)
qed

lemma settle_replaced:
  assumes "heap_upto lt h 0 n" "i < n" "n \<le> length h1" "\<And>c. c < n \<Longrightarrow> c \<noteq> i \<Longrightarrow> h1 ! c = h ! c"
  shows "\<exists>h'. g_settle lt h1 (int i) (int n) = Inr h' \<and> heap_upto lt h' 0 n \<and> mset h' = mset h1 \<and>
           (\<forall>x\<ge>n. h' ! x = h1 ! x)"
proof (rule settle_ok [OF assms(2,3)])
  have heap: "\<not> lt (h ! c) (h ! parent c)" if "0 < c" "c < n" for c
    using that assms(1) by (auto simp: heap_upto_def)
  fix c assume c: "0 < c" "c < n"
  note p = parent_lt [OF c(1)]
  show "\<not> lt (h1 ! c) (h1 ! parent c)" if "c \<noteq> i" "parent c \<noteq> i"
    using heap c p that assms(4) by simp
  show "\<not> lt (h1 ! c) (h1 ! parent i)" if "parent c = i" "0 < i"
    using that c p assms(2,4) heap [of i] heap [of c] parent_lt [of i]
      neg_trans [of "h ! c" "h ! i" "h ! parent i"] by auto
qed

lemma Pop_ok:
  assumes "is_heap lt h" "h \<noteq> []"
  shows "\<exists>h'. g_Pop lt z h = Inr (h ! 0, h') \<and> is_heap lt h' \<and> mset h = add_mset (h ! 0) (mset h')"
proof -
  obtain n where n: "length h = Suc n" using assms(2) by (cases h) auto
  let ?h1 = "h[0 := h ! n, n := h ! 0]"
  have nth: "?h1 ! x = (if x = n then h ! 0 else if x = 0 then h ! n else h ! x)" for x
    using n by (intro nth_swap) auto
  have "hole_down lt ?h1 0 0 n"
    unfolding hole_down_def
  proof
    fix c assume "c \<in> {1..<n}"
    then show "(parent c \<noteq> 0 \<and> 0 \<le> parent c \<longrightarrow> \<not> lt (?h1 ! c) (?h1 ! parent c)) \<and>
        (parent c = 0 \<and> 0 < (0::nat) \<and> 0 \<le> parent 0 \<longrightarrow> \<not> lt (?h1 ! c) (?h1 ! parent 0))"
      using assms(1) n parent_lt [of c] by (auto simp: heap_upto_def nth)
  qed
  then obtain h2 k where h2: "g_down_loop lt ?h1 0 (int n) = Inr (h2, k)" "heap_upto lt h2 0 n"
      "mset h2 = mset ?h1" "h2 ! n = h ! 0"
    using down_ok [of ?h1 0 0 n] n by (auto simp: nth)
  have ms: "mset h2 = mset h" using h2(3) mset_swap' [of 0 h n] n by simp
  then have len: "length h2 = Suc n" using mset_eq_length n by metis
  then have "last h2 = h ! 0" "h2 \<noteq> []" using h2(4) by (auto simp: last_conv_nth neq_Nil_conv length_Suc_conv)
  then have "g_Pop lt z h = Inr (h ! 0, butlast h2)"
    using g_swap_int [of 0 h n] n h2(1) by (simp add: g_Pop_def g_down_def g_pop_eq Let_def)
  then show ?thesis
    using heap_upto_butlast [OF h2(2) len] mset_butlast [OF len] h2(4) ms by auto
qed

lemma Remove_ok:
  assumes "is_heap lt h" "i < length h"
  shows "\<exists>h'. g_Remove lt z h (int i) = Inr (h ! i, h') \<and> is_heap lt h' \<and>
           mset h = add_mset (h ! i) (mset h')"
proof -
  obtain n where n: "length h = Suc n" using assms(2) by (cases h) auto
  have heap: "heap_upto lt h 0 n" using assms(1) n by (simp add: heap_upto_def)
  have "\<exists>h2. (if int n \<noteq> int i then rbind (g_swap h (int i) (int n)) (\<lambda>h1. g_settle lt h1 (int i) (int n))
      else Inr h) = Inr h2 \<and> heap_upto lt h2 0 n \<and> mset h2 = mset h \<and> h2 ! n = h ! i"
  proof (cases "i = n")
    case True
    then show ?thesis using heap by simp
  next
    case False
    let ?h1 = "h[i := h ! n, n := h ! i]"
    have nth: "?h1 ! x = (if x = n then h ! i else if x = i then h ! n else h ! x)" for x
      using n assms by (intro nth_swap) auto
    show ?thesis
      using False n assms settle_replaced [OF heap, of i ?h1] mset_swap' [of i h n] nth by auto
  qed
  then obtain h2 where h2: "(if int n \<noteq> int i then rbind (g_swap h (int i) (int n))
      (\<lambda>h1. g_settle lt h1 (int i) (int n)) else Inr h) = Inr h2" "heap_upto lt h2 0 n"
      "mset h2 = mset h" "h2 ! n = h ! i"
    by blast
  have len: "length h2 = Suc n" using mset_eq_length [OF h2(3)] n by simp
  then have "last h2 = h ! i" "h2 \<noteq> []" using h2(4) by (auto simp: last_conv_nth neq_Nil_conv length_Suc_conv)
  then have "g_Remove lt z h (int i) = Inr (h ! i, butlast h2)"
    using n h2(1) by (simp add: g_Remove_def g_pop_eq Let_def)
  then show ?thesis
    using heap_upto_butlast [OF h2(2) len] mset_butlast [OF len] h2(3,4) by auto
qed

lemma Fix_ok:
  assumes "is_heap lt h" "i < length h"
  shows "\<exists>h'. g_Fix lt (h[i := x]) (int i) = Inr h' \<and> is_heap lt h' \<and> mset h' = mset (h[i := x])"
proof -
  obtain h' where h': "g_Fix lt (h[i := x]) (int i) = Inr h'" "heap_upto lt h' 0 (length h)"
      "mset h' = mset (h[i := x])"
    using settle_replaced [OF assms(1), of i "h[i := x]"] assms(2) by (auto simp: g_Fix_def)
  moreover from h'(3) have "length h' = length h" using mset_eq_length by force
  ultimately show ?thesis by auto
qed

sublocale pq: pqueue lt "is_heap lt" mset "g_Push lt" "g_Pop lt z" for z
proof unfold_locales
  fix h :: "'a list" and x
  assume heap: "is_heap lt h"
  show "\<exists>h'. g_Push lt h x = Inr h' \<and> is_heap lt h' \<and> mset h' = mset h + {#x#}"
    using heap by (rule Push_ok)
  assume "mset h \<noteq> {#}"
  then obtain h' where "g_Pop lt z h = Inr (h ! 0, h')" "is_heap lt h'"
      "mset h = add_mset (h ! 0) (mset h')"
    using Pop_ok [OF heap] by auto
  moreover have "\<not> lt y (h ! 0)" if "y \<in># mset h" for y
    using that heap_root_least [OF heap] by (auto simp: in_set_conv_nth)
  ultimately show "\<exists>x h'. g_Pop lt z h = Inr (x, h') \<and> is_heap lt h' \<and>
      mset h = add_mset x (mset h') \<and> (\<forall>y\<in>#mset h'. \<not> lt y x)"
    by (metis union_iff add_mset_add_single)
qed

lemma empty_heap_sorts:
  "\<exists>h ys h'. push_all (g_Push lt) [] xs = Inr h \<and> drain (g_Pop lt z) h (length xs) = Inr (ys, h') \<and>
     mset ys = mset xs \<and> sorted_wrt (\<lambda>x y. \<not> lt y x) ys"
  by (rule pq.push_drain) (simp_all add: heap_upto_def)

end

section \<open>Properties\<close>

text \<open>
  C2: for every \<^verbatim>\<open>Less\<close> method that is a strict weak order, pushing the elements of any list onto
  an empty heap and popping until it is empty never panics and returns a permutation of the list
  in ascending order.
\<close>

theorem generic_heap_sorts:
  assumes "heap_order lt"
  shows "\<exists>h ys h'. push_all (g_Push lt) [] xs = Inr h \<and>
    drain (g_Pop lt z) h (length xs) = Inr (ys, h') \<and>
    mset ys = mset xs \<and> sorted_wrt (\<lambda>x y. \<not> lt y x) ys"
  using assms by (rule heap_order.empty_heap_sorts)

theorem generic_heap_sorts_witness:
  "heap_order ((<) :: nat \<Rightarrow> nat \<Rightarrow> bool) \<and>
   (\<exists>h ys h'. push_all (g_Push (<)) [] [3, 1, 2::nat] = Inr h \<and>
      drain (g_Pop (<) 0) h (length [3, 1, 2::nat]) = Inr (ys, h') \<and>
      mset ys = mset [3, 1, 2] \<and> sorted_wrt (\<lambda>x y. \<not> y < x) ys)"
proof -
  have order: "heap_order ((<) :: nat \<Rightarrow> nat \<Rightarrow> bool)" by unfold_locales auto
  show ?thesis using generic_heap_sorts [OF order, of "[3, 1, 2]" 0] order by blast
qed

text \<open>
  C3: on a heap, \<^verbatim>\<open>Pop\<close> returns the root, which no element precedes; \<^verbatim>\<open>Remove(i)\<close> returns the element
  at \<^verbatim>\<open>i\<close>; \<^verbatim>\<open>Fix(i)\<close> repairs the heap after the element at \<^verbatim>\<open>i\<close> was replaced by an arbitrary one, in
  either direction. All three leave a heap that holds exactly the remaining elements, and
  \<^verbatim>\<open>Init\<close> turns any slice into a heap of its elements.
\<close>

theorem generic_heap_operations:
  assumes "heap_order lt" "is_heap lt h" "i < length h"
  shows "\<exists>h0 h1 h2 h3 xs'. g_Pop lt z h = Inr (h ! 0, h1) \<and> is_heap lt h1 \<and>
      mset h = add_mset (h ! 0) (mset h1) \<and> (\<forall>x\<in>set h. \<not> lt x (h ! 0)) \<and>
    g_Remove lt z h (int i) = Inr (h ! i, h2) \<and> is_heap lt h2 \<and> mset h = add_mset (h ! i) (mset h2) \<and>
    g_Fix lt (h[i := x]) (int i) = Inr h3 \<and> is_heap lt h3 \<and> mset h3 = mset (h[i := x]) \<and>
    g_Init lt xs = Inr xs' \<and> is_heap lt xs' \<and> mset xs' = mset xs \<and>
    g_Push lt h x = Inr h0 \<and> is_heap lt h0 \<and> mset h0 = mset h + {#x#}"
proof -
  have "h \<noteq> []" using assms(3) by auto
  then obtain h1 where "g_Pop lt z h = Inr (h ! 0, h1)" "is_heap lt h1"
      "mset h = add_mset (h ! 0) (mset h1)"
    using heap_order.Pop_ok [OF assms(1,2)] by blast
  moreover obtain h2 where "g_Remove lt z h (int i) = Inr (h ! i, h2)" "is_heap lt h2"
      "mset h = add_mset (h ! i) (mset h2)"
    using heap_order.Remove_ok [OF assms, of z] by blast
  moreover obtain h3 where "g_Fix lt (h[i := x]) (int i) = Inr h3" "is_heap lt h3"
      "mset h3 = mset (h[i := x])"
    using heap_order.Fix_ok [OF assms, of x] by blast
  moreover obtain xs' where "g_Init lt xs = Inr xs'" "is_heap lt xs'" "mset xs' = mset xs"
    using heap_order.Init_ok [OF assms(1), of xs] by blast
  moreover obtain h0 where "g_Push lt h x = Inr h0" "is_heap lt h0" "mset h0 = mset h + {#x#}"
    using heap_order.Push_ok [OF assms(1,2), of x] by blast
  moreover have "\<forall>x\<in>set h. \<not> lt x (h ! 0)"
    using heap_order.heap_root_least [OF assms(1,2)] by (auto simp: in_set_conv_nth)
  ultimately show ?thesis by (intro exI conjI)
qed

theorem generic_heap_operations_witness:
  "\<exists>h0 h1 h2 h3 xs'. g_Pop (<) 0 [1, 2, 5, 3::nat] = Inr (1, h1) \<and> is_heap (<) h1 \<and>
    g_Remove (<) 0 [1, 2, 5, 3::nat] 1 = Inr (2, h2) \<and> is_heap (<) h2 \<and>
    g_Fix (<) [1, 0, 5, 3::nat] 1 = Inr h3 \<and> is_heap (<) h3 \<and>
    g_Init (<) [4, 2, 1::nat] = Inr xs' \<and> is_heap (<) xs' \<and>
    g_Push (<) [1, 2, 5, 3::nat] 0 = Inr h0 \<and> is_heap (<) h0"
proof -
  have order: "heap_order ((<) :: nat \<Rightarrow> nat \<Rightarrow> bool)" by unfold_locales auto
  have heap: "is_heap (<) [1, 2, 5, 3::nat]" by code_simp
  have i: "1 < length [1, 2, 5, 3::nat]" by simp
  show ?thesis using generic_heap_operations [OF order heap i, of 0 0 "[4, 2, 1]"] by auto
qed

end
