(* ===== verification/Keyed_Heap.thy ===== *)
theory Keyed_Heap
  imports Generic_Heap
begin

text \<open>
  The heap of keys and values of \<^verbatim>\<open>algo/container/heap/heap.go\<close> with its options
  (\<^verbatim>\<open>options.go\<close>). The record has the fields of \<^verbatim>\<open>T\<close>; the callback is client code, of which the
  model keeps the calls it receives, in order. Each operation is shown to refine the operation of
  the generic heap on the list of key/value pairs, from which its correctness follows.
\<close>

section \<open>Model\<close>

type_synonym 'v call = "'v \<times> 'v \<times> int \<times> int"

record ('k, 'v) T =
  Keys :: "'k list"
  Vals :: "'v list"
  maxv :: bool
  callback :: bool
  calls :: "'v call list"

record ('k, 'v) options =
  sliceCap :: int
  keys :: "'k list option"
  vals :: "'v list option"
  opt_callback :: bool

datatype ('k, 'v) Option =
    WithSliceCap int
  | WithData "'k list option" "'v list option"
  | WithCallback

definition len_nil :: "'a list option \<Rightarrow> nat" where
  "len_nil s = (case s of None \<Rightarrow> 0 | Some xs \<Rightarrow> length xs)"

fun apply_option :: "('k, 'v) Option \<Rightarrow> ('k, 'v) options \<Rightarrow> ('k, 'v) options res" where
  "apply_option (WithSliceCap n) opts = Inr (opts\<lparr>sliceCap := n\<rparr>)"
| "apply_option (WithData ks vs) opts =
     (if len_nil ks \<noteq> len_nil vs then Inl (Error ''keys and vals must be the same length'')
      else Inr (opts\<lparr>keys := ks, vals := vs\<rparr>))"
| "apply_option WithCallback opts = Inr (opts\<lparr>opt_callback := True\<rparr>)"

fun apply_options :: "('k, 'v) Option list \<Rightarrow> ('k, 'v) options \<Rightarrow> ('k, 'v) options res" where
  "apply_options [] opts = Inr opts"
| "apply_options (f # fs) opts = rbind (apply_option f opts) (apply_options fs)"

definition k_less :: "('k::linorder, 'v) T \<Rightarrow> int \<Rightarrow> int \<Rightarrow> bool res" where
  "k_less h i j =
     rbind (sl_get (Keys h) i) (\<lambda>a. rbind (sl_get (Keys h) j) (\<lambda>b.
     Inr (if maxv h then a > b else a < b)))"

definition k_Len :: "('k, 'v) T \<Rightarrow> int" where
  "k_Len h = int (length (Keys h))"

definition k_swap :: "('k, 'v) T \<Rightarrow> int \<Rightarrow> int \<Rightarrow> ('k, 'v) T res" where
  "k_swap h i j =
     rbind (g_swap (Keys h) i j) (\<lambda>ks. rbind (g_swap (Vals h) i j) (\<lambda>vs.
     if callback h
     then rbind (sl_get vs i) (\<lambda>iv. rbind (sl_get vs j) (\<lambda>jv.
          Inr (h\<lparr>Keys := ks, Vals := vs, calls := calls h @ [(iv, jv, i, j)]\<rparr>)))
     else Inr (h\<lparr>Keys := ks, Vals := vs\<rparr>)))"

lemma k_less_InrD: "k_less h i j = Inr b \<Longrightarrow> 0 \<le> i \<and> 0 \<le> j"
  by (auto simp: k_less_def sl_get_eq_Inr rbind_eq_Inr)

lemma k_parent_less:
  assumes "quot (j - 1) 2 \<noteq> j" "k_less h j i = Inr b"
  shows "nat (quot (j - 1) 2) < nat j"
  using k_less_InrD [OF assms(2)] assms(1)
  by (cases "j = 0"; cases "j = 1") (auto simp: quot_def)

function k_siftUp :: "('k::linorder, 'v) T \<Rightarrow> int \<Rightarrow> ('k, 'v) T res" where
  "k_siftUp h i =
     (let p = quot (i - 1) 2
      in if p = i then Inr h
         else rbind (k_less h i p) (\<lambda>b.
              if \<not> b then Inr h
              else rbind (k_swap h p i) (\<lambda>h'. k_siftUp h' p)))"
  by pat_completeness auto
termination
  by (relation "measure (\<lambda>(h, i). nat i)") (simp, simp only: in_measure split_conv, rule k_parent_less)

function k_siftDown_loop :: "('k::linorder, 'v) T \<Rightarrow> int \<Rightarrow> int \<Rightarrow> (('k, 'v) T \<times> int) res" where
  "k_siftDown_loop h p limit =
     (let c = p * 2 + 1
      in if c \<ge> limit then Inr (h, p)
         else rbind (if c + 1 < limit then k_less h (c + 1) c else Inr False) (\<lambda>r.
              let c = (if r then c + 1 else c)
              in rbind (k_less h c p) (\<lambda>b.
                 if \<not> b then Inr (h, p)
                 else rbind (k_swap h p c) (\<lambda>h'. k_siftDown_loop h' c limit))))"
  by pat_completeness auto
termination
  by (relation "measure (\<lambda>(h, p, limit). nat (limit - p))") (auto dest!: k_less_InrD split: if_splits)

definition k_siftDown :: "('k::linorder, 'v) T \<Rightarrow> int \<Rightarrow> int \<Rightarrow> (('k, 'v) T \<times> bool) res" where
  "k_siftDown h par limit = rbind (k_siftDown_loop h par limit) (\<lambda>(h', p). Inr (h', p > par))"

function k_heapify_loop :: "('k::linorder, 'v) T \<Rightarrow> int \<Rightarrow> int \<Rightarrow> ('k, 'v) T res" where
  "k_heapify_loop h i n =
     (if i < 0 then Inr h
      else rbind (k_siftDown h i n) (\<lambda>(h', _). k_heapify_loop h' (i - 1) n))"
  by pat_completeness auto
termination
  by (relation "measure (\<lambda>(h, i, n). nat (i + 1))") auto

definition k_heapify :: "('k::linorder, 'v) T \<Rightarrow> ('k, 'v) T res" where
  "k_heapify h = (let n = int (length (Keys h)) in k_heapify_loop h (quot n 2 - 1) n)"

definition newT :: "bool \<Rightarrow> ('k::linorder, 'v) Option list \<Rightarrow> ('k, 'v) T res" where
  "newT mx opts =
     rbind (apply_options opts \<lparr>sliceCap = 0, keys = None, vals = None, opt_callback = False\<rparr>) (\<lambda>opt.
     case (keys opt, vals opt) of
       (Some ks, Some vs) \<Rightarrow>
         k_heapify \<lparr>Keys = ks, Vals = vs, maxv = mx, callback = opt_callback opt, calls = []\<rparr>
     | _ \<Rightarrow>
         if sliceCap opt < 0 then Inl NegativeLen
         else Inr \<lparr>Keys = [], Vals = [], maxv = mx, callback = opt_callback opt, calls = []\<rparr>)"

definition NewMin :: "('k::linorder, 'v) Option list \<Rightarrow> ('k, 'v) T res" where
  "NewMin opts = newT False opts"

definition NewMax :: "('k::linorder, 'v) Option list \<Rightarrow> ('k, 'v) T res" where
  "NewMax opts = newT True opts"

definition k_Push :: "('k::linorder, 'v) T \<Rightarrow> 'k \<Rightarrow> 'v \<Rightarrow> ('k, 'v) T res" where
  "k_Push h k v =
     (let h' = h\<lparr>Keys := Keys h @ [k], Vals := Vals h @ [v]\<rparr>
      in k_siftUp h' (int (length (Keys h')) - 1))"

definition k_truncate :: "('k, 'v) T \<Rightarrow> int \<Rightarrow> ('k, 'v) T res" where
  "k_truncate h n =
     rbind (sl_sub (Keys h) 0 n) (\<lambda>ks. rbind (sl_sub (Vals h) 0 n) (\<lambda>vs.
     Inr (h\<lparr>Keys := ks, Vals := vs\<rparr>)))"

definition k_Pop :: "('k::linorder, 'v) T \<Rightarrow> (('k \<times> 'v) \<times> ('k, 'v) T) res" where
  "k_Pop h =
     rbind (sl_get (Keys h) 0) (\<lambda>k. rbind (sl_get (Vals h) 0) (\<lambda>v.
     let n = int (length (Keys h)) - 1
     in rbind (k_swap h 0 n) (\<lambda>h. rbind (k_siftDown h 0 n) (\<lambda>(h, _).
        rbind (k_truncate h n) (\<lambda>h. Inr ((k, v), h))))))"

definition k_settle :: "('k::linorder, 'v) T \<Rightarrow> int \<Rightarrow> int \<Rightarrow> ('k, 'v) T res" where
  "k_settle h i n =
     rbind (k_siftDown h i n) (\<lambda>(h', moved). if \<not> moved then k_siftUp h' i else Inr h')"

definition k_Remove :: "('k::linorder, 'v) T \<Rightarrow> int \<Rightarrow> (('k \<times> 'v) \<times> ('k, 'v) T) res" where
  "k_Remove h i =
     (let n = k_Len h - 1
      in rbind (if n \<noteq> i then rbind (k_swap h i n) (\<lambda>h. k_settle h i n) else Inr h) (\<lambda>h.
         rbind (sl_get (Keys h) n) (\<lambda>k. rbind (sl_get (Vals h) n) (\<lambda>v.
         rbind (k_truncate h n) (\<lambda>h. Inr ((k, v), h))))))"

definition k_Update :: "('k::linorder, 'v) T \<Rightarrow> int \<Rightarrow> 'k \<Rightarrow> 'v \<Rightarrow> ('k, 'v) T res" where
  "k_Update h pos k v =
     rbind (sl_set (Keys h) pos k) (\<lambda>ks. rbind (sl_set (Vals h) pos v) (\<lambda>vs.
     k_settle (h\<lparr>Keys := ks, Vals := vs\<rparr>) pos (int (length ks))))"

declare k_siftUp.simps [simp del] k_siftDown_loop.simps [simp del] k_heapify_loop.simps [simp del]

section \<open>Refinement of the generic heap\<close>

definition klt :: "bool \<Rightarrow> ('k::linorder \<times> 'v) \<Rightarrow> ('k \<times> 'v) \<Rightarrow> bool" where
  "klt mx x y = (if mx then fst x > fst y else fst x < fst y)"

definition wf_heap :: "('k, 'v) T \<Rightarrow> bool" where
  "wf_heap h \<longleftrightarrow> length (Keys h) = length (Vals h)"

definition items :: "('k, 'v) T \<Rightarrow> ('k \<times> 'v) list" where
  "items h = zip (Keys h) (Vals h)"

definition refines :: "bool \<Rightarrow> ('k, 'v) T \<Rightarrow> ('k \<times> 'v) list \<Rightarrow> bool" where
  "refines mx h xs \<longleftrightarrow> wf_heap h \<and> maxv h = mx \<and> items h = xs"

lemma rel_res_bind:
  assumes "rel_sum (=) Q m n"
    and "\<And>x y. m = Inr x \<Longrightarrow> n = Inr y \<Longrightarrow> Q x y \<Longrightarrow> rel_sum (=) R (f x) (g y)"
  shows "rel_sum (=) R (rbind m f) (rbind n g)"
  using assms by (cases m; cases n) auto

lemma rel_res_bind_same:
  assumes "\<And>x. m = Inr x \<Longrightarrow> rel_sum (=) R (f x) (g x)"
  shows "rel_sum (=) R (rbind m f) (rbind m g)"
  using assms by (cases m) auto

lemma refines_length: "refines mx h xs \<Longrightarrow> length xs = length (Keys h) \<and> length xs = length (Vals h)"
  by (auto simp: refines_def wf_heap_def items_def)

lemma k_less_refines: "refines mx h xs \<Longrightarrow> k_less h i j = g_less (klt mx) xs i j"
  by (auto simp: refines_def wf_heap_def items_def k_less_def g_less_def sl_get_def klt_def)

lemma k_swap_refines:
  assumes "refines mx h xs"
  shows "rel_sum (=) (refines mx) (k_swap h i j) (g_swap xs i j)"
  using assms refines_length [OF assms]
  by (auto simp: k_swap_def g_swap_def sl_get_def sl_set_def refines_def wf_heap_def items_def
      zip_update)

lemma k_siftUp_refines:
  "refines mx h xs \<Longrightarrow> rel_sum (=) (refines mx) (k_siftUp h i) (g_up (klt mx) xs i)"
proof (induction h i arbitrary: xs rule: k_siftUp.induct)
  case (1 h i)
  show ?case
    unfolding k_siftUp.simps [of h i] g_up.simps [of _ xs i] Let_def k_less_refines [OF "1.prems"]
    using "1.IH" "1.prems" k_less_refines [OF "1.prems"]
    by (cases "g_less (klt mx) xs i (quot (i - 1) 2)")
      (auto intro!: rel_res_bind [OF k_swap_refines])
qed

lemma k_siftDown_loop_refines:
  assumes "refines mx h xs" "0 \<le> p"
  shows "rel_sum (=) (rel_prod (refines mx) (=)) (k_siftDown_loop h p n) (g_down_loop (klt mx) xs p n)"
  using assms
proof (induction h p n arbitrary: xs rule: k_siftDown_loop.induct)
  case (1 h p n)
  note less = k_less_refines [OF "1.prems"(1)]
  show ?case
  proof (cases "n \<le> p * 2 + 1")
    case True
    then show ?thesis using "1.prems"
      by (simp add: k_siftDown_loop.simps [of h p n] g_down_loop.simps [of _ xs p n] Let_def)
  next
    case False
    have c: "2 * p + 1 = p * 2 + 1" "\<not> (n \<le> p * 2 + 1 \<or> p * 2 + 1 < 0)"
      using False "1.prems"(2) by auto
    show ?thesis
      unfolding k_siftDown_loop.simps [of h p n] g_down_loop.simps [of _ xs p n] Let_def less c(1)
        if_not_P [OF False] if_not_P [OF c(2)]
    proof (intro rel_res_bind_same)
      fix r b
      let ?c = "if r then p * 2 + 1 + 1 else p * 2 + 1"
      assume r: "(if p * 2 + 1 + 1 < n then g_less (klt mx) xs (p * 2 + 1 + 1) (p * 2 + 1)
          else Inr False) = Inr r" and b: "g_less (klt mx) xs ?c p = Inr b"
      show "rel_sum (=) (rel_prod (refines mx) (=))
          (if \<not> b then Inr (h, p) else rbind (k_swap h p ?c) (\<lambda>h'. k_siftDown_loop h' ?c n))
          (if \<not> b then Inr (xs, p) else rbind (g_swap xs p ?c) (\<lambda>h'. g_down_loop (klt mx) h' ?c n))"
        using "1.IH" [OF refl False, unfolded less, OF r refl b] "1.prems"
        by (auto intro!: rel_res_bind [OF k_swap_refines] split: if_splits)
    qed
  qed
qed

lemma k_siftDown_refines:
  assumes "refines mx h xs" "0 \<le> p"
  shows "rel_sum (=) (rel_prod (refines mx) (=)) (k_siftDown h p n) (g_down (klt mx) xs p n)"
  unfolding k_siftDown_def g_down_def
  by (rule rel_res_bind [OF k_siftDown_loop_refines [OF assms]]) auto

lemma k_heapify_loop_refines:
  "refines mx h xs \<Longrightarrow> rel_sum (=) (refines mx) (k_heapify_loop h i n) (g_init_loop (klt mx) xs i n)"
proof (induction h i n arbitrary: xs rule: k_heapify_loop.induct)
  case (1 h i n)
  show ?case
    unfolding k_heapify_loop.simps [of h i n] g_init_loop.simps [of _ xs i n]
    using "1.IH" "1.prems" by (auto intro!: rel_res_bind [OF k_siftDown_refines])
qed

lemma k_heapify_refines:
  "refines mx h xs \<Longrightarrow> rel_sum (=) (refines mx) (k_heapify h) (g_Init (klt mx) xs)"
  using refines_length [of mx h xs] by (simp add: k_heapify_def g_Init_def Let_def k_heapify_loop_refines)

lemma k_Push_refines:
  assumes "refines mx h xs"
  shows "rel_sum (=) (refines mx) (k_Push h k v) (g_Push (klt mx) xs (k, v))"
proof -
  have "refines mx (h\<lparr>Keys := Keys h @ [k], Vals := Vals h @ [v]\<rparr>) (xs @ [(k, v)])"
    using assms by (auto simp: refines_def wf_heap_def items_def)
  then show ?thesis
    using refines_length [OF assms] k_siftUp_refines by (simp add: k_Push_def g_Push_def Let_def)
qed

lemma k_settle_refines:
  assumes "refines mx h xs" "0 \<le> i"
  shows "rel_sum (=) (refines mx) (k_settle h i n) (g_settle (klt mx) xs i n)"
  unfolding k_settle_def g_settle_def
  by (rule rel_res_bind [OF k_siftDown_refines [OF assms]]) (auto intro: k_siftUp_refines)

lemma k_Update_refines:
  assumes "refines mx h xs"
  shows "rel_sum (=) (refines mx) (k_Update h pos k v)
    (rbind (sl_set xs pos (k, v)) (\<lambda>xs'. g_Fix (klt mx) xs' pos))"
proof (cases "0 \<le> pos \<and> pos < int (length xs)")
  case True
  have "refines mx (h\<lparr>Keys := (Keys h)[nat pos := k], Vals := (Vals h)[nat pos := v]\<rparr>) (xs[nat pos := (k, v)])"
    using assms by (auto simp: refines_def wf_heap_def items_def zip_update)
  then show ?thesis using True refines_length [OF assms] k_settle_refines [of mx _ _ pos]
    by (simp add: k_Update_def g_Fix_def sl_set_def)
next
  case False
  then show ?thesis using refines_length [OF assms] by (auto simp: k_Update_def sl_set_def)
qed

lemma k_truncate_refines:
  assumes "refines mx h xs" "xs \<noteq> []" "n = int (length xs) - 1"
  shows "\<exists>h'. k_truncate h n = Inr h' \<and> refines mx h' (butlast xs)"
proof -
  have n: "n = int (length xs - 1)" using assms by (cases xs) auto
  show ?thesis
    unfolding k_truncate_def n using assms refines_length [OF assms(1)]
    by (auto simp: refines_def wf_heap_def items_def take_zip butlast_conv_take)
qed

lemma g_swap_length: "g_swap h i j = Inr h' \<Longrightarrow> length h' = length h"
  by (auto simp: g_swap_def sl_get_def sl_set_def split: if_splits)

lemma g_up_length: "g_up lt h i = Inr h' \<Longrightarrow> length h' = length h"
proof (induction "nat i" arbitrary: h i rule: less_induct)
  case less
  let ?p = "quot (i - 1) 2"
  have "length h' = length h" if "?p \<noteq> i" "g_less lt h i ?p = Inr b" "g_swap h ?p i = Inr h1"
    "g_up lt h1 ?p = Inr h'" for b h1
    using less.hyps [OF parent_less [OF that(1,2)] that(4)] g_swap_length [OF that(3)] by simp
  then show ?case
    using less.prems unfolding g_up.simps [of lt h i]
    by (auto simp: Let_def rbind_eq_Inr split: if_splits)
qed

lemma g_down_loop_length: "g_down_loop lt h i n = Inr (h', k) \<Longrightarrow> length h' = length h"
proof (induction "nat (n - i)" arbitrary: h i rule: less_induct)
  case less
  have step: "length h' = length h" if "i < j" "j < n" "g_swap h i j = Inr h1"
    "g_down_loop lt h1 j n = Inr (h', k)" for j h1
    using less.hyps [OF _ that(4)] g_swap_length [OF that(3)] that(1,2) by simp
  show ?case
    using less.prems step [of "2 * i + 1"] step [of "2 + 2 * i"]
    unfolding g_down_loop.simps [of lt h i n]
    by (auto simp: Let_def rbind_eq_Inr split: if_splits)
qed

lemma g_down_length: "g_down lt h i n = Inr (h', b) \<Longrightarrow> length h' = length h"
  by (auto simp: g_down_def rbind_eq_Inr dest: g_down_loop_length)

lemma g_settle_length: "g_settle lt h i n = Inr h' \<Longrightarrow> length h' = length h"
  by (auto simp: g_settle_def g_down_def rbind_eq_Inr dest!: g_down_loop_length g_up_length
      split: if_splits)

lemma k_step:
  assumes "rel_sum (=) R m (Inr y)"
  obtains x where "m = Inr x" "R x y"
  using assms by (cases m) auto

lemma k_Pop_refines:
  assumes r: "refines mx h xs" and pop: "g_Pop (klt mx) z xs = Inr (xs ! 0, xs')" and ne: "xs \<noteq> []"
  shows "\<exists>h'. k_Pop h = Inr (xs ! 0, h') \<and> refines mx h' xs'"
proof -
  let ?n = "int (length xs) - 1"
  obtain xs1 xs2 k where s: "g_swap xs 0 ?n = Inr xs1" "g_down_loop (klt mx) xs1 0 ?n = Inr (xs2, k)"
      "g_pop z xs2 = Inr (xs', xs ! 0)"
    using pop by (auto simp: g_Pop_def g_down_def Let_def rbind_eq_Inr)
  have len: "length xs2 = length xs" using s g_swap_length g_down_loop_length by metis
  then have ne2: "xs2 \<noteq> []" using ne by auto
  then have xs': "xs' = butlast xs2" using s(3) g_pop_eq [of xs2 z] by auto
  obtain h1 where h1: "k_swap h 0 ?n = Inr h1" "refines mx h1 xs1"
    using k_swap_refines [OF r, of 0 ?n] k_step s(1) by metis
  obtain h2 where h2: "k_siftDown h1 0 ?n = Inr (h2, 0 < k)" "refines mx h2 xs2"
    using k_siftDown_refines [OF h1(2), of 0 ?n] s(2) unfolding g_down_def
    by (cases "k_siftDown h1 0 ?n") auto
  obtain h3 where h3: "k_truncate h2 ?n = Inr h3" "refines mx h3 (butlast xs2)"
    using k_truncate_refines [OF h2(2) ne2, of ?n] len by auto
  have "Keys h \<noteq> []" "Vals h \<noteq> []" "(Keys h ! 0, Vals h ! 0) = xs ! 0" "length (Keys h) = length xs"
    using r ne by (auto simp: refines_def wf_heap_def items_def)
  then show ?thesis using h1(1) h2(1) h3 xs' by (auto simp: k_Pop_def Let_def)
qed

lemma k_Remove_refines:
  assumes r: "refines mx h xs" and i: "0 \<le> i" and rem: "g_Remove (klt mx) z xs i = Inr (x, xs')"
    and ne: "xs \<noteq> []"
  shows "\<exists>h'. k_Remove h i = Inr (x, h') \<and> refines mx h' xs'"
proof -
  let ?n = "int (length xs) - 1"
  obtain xs2 where s: "(if ?n \<noteq> i then rbind (g_swap xs i ?n) (\<lambda>h1. g_settle (klt mx) h1 i ?n)
      else Inr xs) = Inr xs2" "g_pop z xs2 = Inr (xs', x)"
    using rem by (auto simp: g_Remove_def Let_def rbind_eq_Inr)
  have len: "length xs2 = length xs"
    using s(1) by (auto simp: rbind_eq_Inr dest!: g_settle_length g_swap_length split: if_splits)
  then have x: "xs2 \<noteq> []" "xs' = butlast xs2" "x = last xs2" using s(2) ne g_pop_eq [of xs2 z] by (cases xs2; auto)+
  have "rel_sum (=) (refines mx) (if ?n \<noteq> i then rbind (k_swap h i ?n) (\<lambda>h. k_settle h i ?n) else Inr h) (Inr xs2)"
    unfolding s(1) [symmetric]
    by (simp add: r rel_res_bind [OF k_swap_refines [OF r] k_settle_refines [OF _ i]])
  then obtain h2 where h2: "(if ?n \<noteq> i then rbind (k_swap h i ?n) (\<lambda>h. k_settle h i ?n) else Inr h) = Inr h2"
      "refines mx h2 xs2"
    by (rule k_step)
  obtain h3 where h3: "k_truncate h2 ?n = Inr h3" "refines mx h3 (butlast xs2)"
    using k_truncate_refines [OF h2(2), of ?n] len x by auto
  have n: "nat ?n = length xs - Suc 0" by simp
  have "sl_get (Keys h2) ?n = Inr (fst x)" "sl_get (Vals h2) ?n = Inr (snd x)"
    using h2(2) x len by (auto simp: refines_def wf_heap_def items_def sl_get_def last_conv_nth n)
  then have "rbind (Inr h2) (\<lambda>h. rbind (sl_get (Keys h) ?n) (\<lambda>k. rbind (sl_get (Vals h) ?n) (\<lambda>v.
      rbind (k_truncate h ?n) (\<lambda>h. Inr ((k, v), h))))) = Inr (x, h3)"
    using h3(1) by simp
  then have "k_Remove h i = Inr (x, h3)"
    unfolding h2(1) [symmetric] using refines_length [OF r]
    by (simp only: k_Remove_def k_Len_def Let_def)
  then show ?thesis using h3(2) x by simp
qed

section \<open>The keyed heap is a priority queue\<close>

definition keyed_inv :: "bool \<Rightarrow> ('k::linorder, 'v) T \<Rightarrow> bool" where
  "keyed_inv mx h \<longleftrightarrow> wf_heap h \<and> maxv h = mx \<and> is_heap (klt mx) (items h)"

lemma keyed_inv_refines: "keyed_inv mx h \<longleftrightarrow> refines mx h (items h) \<and> is_heap (klt mx) (items h)"
  by (auto simp: keyed_inv_def refines_def)

lemma refines_keyed_inv: "refines mx h xs \<Longrightarrow> is_heap (klt mx) xs \<Longrightarrow> keyed_inv mx h \<and> items h = xs"
  by (auto simp: keyed_inv_def refines_def)

interpretation kord: heap_order "klt mx" for mx
  by unfold_locales (auto simp: klt_def split: if_splits)

lemma keyed_Push:
  assumes "keyed_inv mx h"
  shows "\<exists>h'. k_Push h k v = Inr h' \<and> keyed_inv mx h' \<and> mset (items h') = mset (items h) + {#(k, v)#}"
proof -
  have r: "refines mx h (items h)" "is_heap (klt mx) (items h)" using assms keyed_inv_refines by auto
  obtain xs where "g_Push (klt mx) (items h) (k, v) = Inr xs" "is_heap (klt mx) xs"
      "mset xs = mset (items h) + {#(k, v)#}"
    using kord.Push_ok [OF r(2)] by blast
  moreover obtain h' where "k_Push h k v = Inr h'" "refines mx h' xs"
    using k_Push_refines [OF r(1), of k v] k_step calculation(1) by metis
  ultimately show ?thesis using refines_keyed_inv by metis
qed

lemma keyed_Pop:
  assumes "keyed_inv mx h" "items h \<noteq> []"
  shows "\<exists>h'. k_Pop h = Inr (items h ! 0, h') \<and> keyed_inv mx h' \<and>
    mset (items h) = add_mset (items h ! 0) (mset (items h'))"
proof -
  have r: "refines mx h (items h)" "is_heap (klt mx) (items h)" using assms keyed_inv_refines by auto
  obtain xs where xs: "g_Pop (klt mx) (items h ! 0) (items h) = Inr (items h ! 0, xs)" "is_heap (klt mx) xs"
      "mset (items h) = add_mset (items h ! 0) (mset xs)"
    using kord.Pop_ok [OF r(2) assms(2)] by blast
  then show ?thesis using k_Pop_refines [OF r(1) xs(1) assms(2)] refines_keyed_inv by metis
qed

lemma keyed_Remove:
  assumes "keyed_inv mx h" "i < length (items h)"
  shows "\<exists>h'. k_Remove h (int i) = Inr (items h ! i, h') \<and> keyed_inv mx h' \<and>
    mset (items h) = add_mset (items h ! i) (mset (items h'))"
proof -
  have r: "refines mx h (items h)" "is_heap (klt mx) (items h)" "items h \<noteq> []"
    using assms keyed_inv_refines by auto
  obtain xs where xs: "g_Remove (klt mx) (items h ! 0) (items h) (int i) = Inr (items h ! i, xs)"
      "is_heap (klt mx) xs" "mset (items h) = add_mset (items h ! i) (mset xs)"
    using kord.Remove_ok [OF r(2) assms(2)] by blast
  then show ?thesis using k_Remove_refines [OF r(1) _ xs(1) r(3)] refines_keyed_inv
    by (metis of_nat_0_le_iff)
qed

lemma keyed_Update:
  assumes "keyed_inv mx h" "i < length (items h)"
  shows "\<exists>h'. k_Update h (int i) k v = Inr h' \<and> keyed_inv mx h' \<and>
    mset (items h') = mset ((items h)[i := (k, v)])"
proof -
  have r: "refines mx h (items h)" "is_heap (klt mx) (items h)" using assms keyed_inv_refines by auto
  obtain xs where xs: "g_Fix (klt mx) ((items h)[i := (k, v)]) (int i) = Inr xs"
      "is_heap (klt mx) xs" "mset xs = mset ((items h)[i := (k, v)])"
    using kord.Fix_ok [OF r(2) assms(2)] by blast
  have "rel_sum (=) (refines mx) (k_Update h (int i) k v) (Inr xs)"
    using k_Update_refines [OF r(1), of "int i" k v] assms(2) xs(1) by simp
  then show ?thesis using k_step refines_keyed_inv xs by metis
qed

lemma keyed_heapify:
  assumes "wf_heap h"
  shows "\<exists>h'. k_heapify h = Inr h' \<and> keyed_inv (maxv h) h' \<and> mset (items h') = mset (items h)"
proof -
  obtain xs where xs: "g_Init (klt (maxv h)) (items h) = Inr xs" "is_heap (klt (maxv h)) xs"
      "mset xs = mset (items h)"
    using kord.Init_ok by blast
  have "rel_sum (=) (refines (maxv h)) (k_heapify h) (Inr xs)"
    using k_heapify_refines [of "maxv h" h "items h"] assms xs(1) by (simp add: refines_def)
  then show ?thesis using k_step refines_keyed_inv xs by metis
qed

interpretation kq: pqueue "klt mx" "keyed_inv mx" "\<lambda>h. mset (items h)" "\<lambda>h (k, v). k_Push h k v" k_Pop
  for mx
proof unfold_locales
  fix h :: "('a, 'b) T" and x :: "'a \<times> 'b"
  assume inv: "keyed_inv mx h"
  show "\<exists>h'. (case x of (k, v) \<Rightarrow> k_Push h k v) = Inr h' \<and> keyed_inv mx h' \<and>
      mset (items h') = mset (items h) + {#x#}"
    using keyed_Push [OF inv] by (cases x) simp
  assume "mset (items h) \<noteq> {#}"
  then obtain h' where "k_Pop h = Inr (items h ! 0, h')" "keyed_inv mx h'"
      "mset (items h) = add_mset (items h ! 0) (mset (items h'))"
    using keyed_Pop [OF inv] by auto
  moreover have "\<not> klt mx y (items h ! 0)" if "y \<in># mset (items h)" for y
    using that kord.heap_root_least inv by (auto simp: in_set_conv_nth keyed_inv_def)
  ultimately show "\<exists>x h'. k_Pop h = Inr (x, h') \<and> keyed_inv mx h' \<and>
      mset (items h) = add_mset x (mset (items h')) \<and> (\<forall>y\<in>#mset (items h'). \<not> klt mx y x)"
    by (metis union_iff add_mset_add_single)
qed

section \<open>The callback\<close>

text \<open>
  \<open>track vs cs\<close> is a client's own copy of the values, updated at the two positions of every
  reported call; \<open>tracks h h'\<close> says that the calls made between \<open>h\<close> and \<open>h'\<close> keep it equal to the
  heap's values.
\<close>

definition track :: "'v list \<Rightarrow> 'v call list \<Rightarrow> 'v list" where
  "track vs cs = fold (\<lambda>(iv, jv, i, j) vs. vs[nat i := iv, nat j := jv]) cs vs"

definition tracks :: "('k, 'v) T \<Rightarrow> ('k, 'v) T \<Rightarrow> bool" where
  "tracks h h' \<longleftrightarrow> callback h' = callback h \<and>
     (callback h \<longrightarrow> (\<exists>cs. calls h' = calls h @ cs \<and> Vals h' = track (Vals h) cs))"

lemma tracks_refl [simp]: "tracks h h"
  by (auto simp: tracks_def track_def)

lemma tracks_trans [trans]: "tracks a b \<Longrightarrow> tracks b c \<Longrightarrow> tracks a c"
  by (auto simp: tracks_def track_def)

lemma k_swap_tracks: "k_swap h i j = Inr h' \<Longrightarrow> tracks h h'"
  by (auto simp: k_swap_def g_swap_def sl_get_def sl_set_def tracks_def track_def nth_list_update
      split: if_splits)

lemma k_siftUp_tracks: "k_siftUp h i = Inr h' \<Longrightarrow> tracks h h'"
proof (induction "nat i" arbitrary: h i rule: less_induct)
  case less
  let ?p = "quot (i - 1) 2"
  have "tracks h h'" if "?p \<noteq> i" "k_less h i ?p = Inr b" "k_swap h ?p i = Inr h1"
    "k_siftUp h1 ?p = Inr h'" for b h1
    using less.hyps [OF k_parent_less [OF that(1,2)] that(4)] k_swap_tracks [OF that(3)]
      tracks_trans by blast
  then show ?case
    using less.prems unfolding k_siftUp.simps [of h i]
    by (auto simp: Let_def rbind_eq_Inr split: if_splits)
qed

lemma k_siftDown_loop_tracks: "k_siftDown_loop h p n = Inr (h', k) \<Longrightarrow> 0 \<le> p \<Longrightarrow> tracks h h'"
proof (induction "nat (n - p)" arbitrary: h p rule: less_induct)
  case less
  have step: "tracks h h'" if "p < c" "c < n" "k_swap h p c = Inr h1"
    "k_siftDown_loop h1 c n = Inr (h', k)" for c h1
    using less.hyps [OF _ that(4)] k_swap_tracks [OF that(3)] that(1,2) less.prems(2) tracks_trans
    by fastforce
  show ?case
    using less.prems step [of "p * 2 + 1"] step [of "2 + p * 2"]
    unfolding k_siftDown_loop.simps [of h p n]
    by (auto simp: Let_def rbind_eq_Inr split: if_splits)
qed

lemma k_siftDown_tracks: "k_siftDown h p n = Inr (h', b) \<Longrightarrow> 0 \<le> p \<Longrightarrow> tracks h h'"
  by (auto simp: k_siftDown_def rbind_eq_Inr intro: k_siftDown_loop_tracks)

lemma k_settle_tracks: "k_settle h i n = Inr h' \<Longrightarrow> 0 \<le> i \<Longrightarrow> tracks h h'"
  using tracks_trans [of h _ h']
  by (auto simp: k_settle_def rbind_eq_Inr dest: k_siftDown_tracks k_siftUp_tracks split: if_splits)

lemma k_Pop_tracks:
  assumes "k_Pop h = Inr (x, h')" "wf_heap h"
  shows "\<exists>h1. tracks h h1 \<and> Vals h' = butlast (Vals h1) \<and> calls h' = calls h1"
proof -
  let ?n = "int (length (Keys h)) - 1"
  obtain h1 h2 b where s: "k_swap h 0 ?n = Inr h1" "k_siftDown h1 0 ?n = Inr (h2, b)"
      "k_truncate h2 ?n = Inr h'"
    using assms(1) by (auto simp: k_Pop_def Let_def rbind_eq_Inr)
  have r: "refines (maxv h) h (items h)" using assms(2) by (simp add: refines_def)
  obtain xs1 where "refines (maxv h) h1 xs1" "length xs1 = length (items h)"
    using k_swap_refines [OF r, of 0 ?n] s(1) g_swap_length
    by (cases "g_swap (items h) 0 ?n") (auto dest: g_swap_length)
  moreover from this(1) obtain xs2 where "refines (maxv h) h2 xs2" "length xs2 = length xs1"
    using k_siftDown_refines [of "maxv h" h1 xs1 0 ?n] s(2)
    by (cases "g_down (klt (maxv h)) xs1 0 ?n")
      (auto dest: g_down_length)
  ultimately have "length (Vals h2) = length (Keys h)"
    using refines_length r by metis
  moreover have "nat ?n = length (Keys h) - Suc 0" by simp
  ultimately have "Vals h' = butlast (Vals h2)" "calls h' = calls h2"
    using s(3) by (auto simp: k_truncate_def rbind_eq_Inr sl_sub_def butlast_conv_take
        split: if_splits)
  moreover have "tracks h h2"
    using k_swap_tracks [OF s(1)] k_siftDown_tracks [OF s(2)] tracks_trans by blast
  ultimately show ?thesis by blast
qed

section \<open>Properties\<close>

text \<open>
  a heap built by \<^verbatim>\<open>NewMin\<close> from initial data, followed by any pushes, pops all of its
  entries, each with its own value, in ascending key order; a heap built by \<^verbatim>\<open>NewMax\<close> pops them in
  descending key order. Nothing panics on the way.
\<close>

theorem keyed_heap_sorts:
  assumes "length ks = length vs"
  shows "(\<exists>h0 h ys h'. NewMin [WithData (Some ks) (Some vs)] = Inr h0 \<and>
      push_all (\<lambda>h (k, v). k_Push h k v) h0 xs = Inr h \<and>
      drain k_Pop h (length ks + length xs) = Inr (ys, h') \<and>
      mset ys = mset (zip ks vs @ xs) \<and> sorted_wrt (\<le>) (map fst ys)) \<and>
    (\<exists>h0 h ys h'. NewMax [WithData (Some ks) (Some vs)] = Inr h0 \<and>
      push_all (\<lambda>h (k, v). k_Push h k v) h0 xs = Inr h \<and>
      drain k_Pop h (length ks + length xs) = Inr (ys, h') \<and>
      mset ys = mset (zip ks vs @ xs) \<and> sorted_wrt (\<ge>) (map fst ys))"
proof -
  have "\<exists>h0 h ys h'. newT mx [WithData (Some ks) (Some vs)] = Inr h0 \<and>
      push_all (\<lambda>h (k, v). k_Push h k v) h0 xs = Inr h \<and>
      drain k_Pop h (length ks + length xs) = Inr (ys, h') \<and>
      mset ys = mset (zip ks vs @ xs) \<and> sorted_wrt (\<lambda>x y. \<not> klt mx y x) ys" for mx
  proof -
    let ?h = "\<lparr>Keys = ks, Vals = vs, maxv = mx, callback = False, calls = []\<rparr>"
    have h: "wf_heap ?h" "items ?h = zip ks vs" "maxv ?h = mx"
      using assms by (auto simp: wf_heap_def items_def)
    obtain h0 where h0: "k_heapify ?h = Inr h0" "keyed_inv mx h0" "mset (items h0) = mset (zip ks vs)"
      using keyed_heapify [OF h(1)] h(2,3) by auto
    then obtain h where h: "push_all (\<lambda>h (k, v). k_Push h k v) h0 xs = Inr h" "keyed_inv mx h"
        "mset (items h) = mset (zip ks vs @ xs)"
      using kq.push_all_bag [OF h0(2)] by auto
    have len: "length ks + length xs = size (mset (items h))" using h(3) assms by simp
    have "newT mx [WithData (Some ks) (Some vs)] = Inr h0"
      using h0(1) assms by (simp add: newT_def len_nil_def)
    then show ?thesis using kq.drain_sorted [OF h(2) len] h by auto
  qed
  from this [of False] this [of True] show ?thesis
    by (simp add: NewMin_def NewMax_def klt_def sorted_wrt_map not_less)
qed

theorem keyed_heap_sorts_witness:
  "length [3, 1::nat] = length [''c'', ''a''] \<and>
   (\<exists>h0 h ys h'. NewMin [WithData (Some [3, 1::nat]) (Some [''c'', ''a''])] = Inr h0 \<and>
      push_all (\<lambda>h (k, v). k_Push h k v) h0 [(2, ''b'')] = Inr h \<and>
      drain k_Pop h (length [3, 1::nat] + length [(2::nat, ''b'')]) = Inr (ys, h') \<and>
      mset ys = mset (zip [3, 1] [''c'', ''a''] @ [(2, ''b'')]) \<and> sorted_wrt (\<le>) (map fst ys))"
proof -
  have len: "length [3, 1::nat] = length [''c'', ''a'']" by simp
  show ?thesis using keyed_heap_sorts [OF len, of "[(2, ''b'')]"] len by blast
qed

text \<open>
  C4: every operation of the keyed heap keeps the invariant (as many values as keys, heap order
  in the direction of the heap) and changes the entries exactly as promised: \<^verbatim>\<open>Push\<close> adds one,
  \<^verbatim>\<open>Pop\<close> removes the first, whose key no other key precedes, \<^verbatim>\<open>Remove(i)\<close> removes the i'th and
  \<^verbatim>\<open>Update(i)\<close> replaces it.
\<close>

theorem keyed_heap_operations:
  assumes "keyed_inv mx h" "i < length (items h)"
  shows "\<exists>h1 h2 h3 h4.
    k_Push h k v = Inr h1 \<and> keyed_inv mx h1 \<and> mset (items h1) = mset (items h) + {#(k, v)#} \<and>
    k_Pop h = Inr (items h ! 0, h2) \<and> keyed_inv mx h2 \<and>
      mset (items h) = add_mset (items h ! 0) (mset (items h2)) \<and>
      (\<forall>y\<in>set (items h). if mx then fst y \<le> fst (items h ! 0) else fst (items h ! 0) \<le> fst y) \<and>
    k_Remove h (int i) = Inr (items h ! i, h3) \<and> keyed_inv mx h3 \<and>
      mset (items h) = add_mset (items h ! i) (mset (items h3)) \<and>
    k_Update h (int i) k v = Inr h4 \<and> keyed_inv mx h4 \<and> mset (items h4) = mset ((items h)[i := (k, v)])"
proof -
  have ne: "items h \<noteq> []" using assms(2) by auto
  have "\<not> klt mx y (items h ! 0)" if "y \<in> set (items h)" for y
    using that kord.heap_root_least assms(1) by (auto simp: in_set_conv_nth keyed_inv_def)
  then have least: "\<forall>y\<in>set (items h). if mx then fst y \<le> fst (items h ! 0) else fst (items h ! 0) \<le> fst y"
    by (auto simp: klt_def not_less)
  show ?thesis
    using keyed_Push [OF assms(1), of k v] keyed_Pop [OF assms(1) ne] least
      keyed_Remove [OF assms] keyed_Update [OF assms, of k v] by blast
qed

theorem keyed_heap_operations_witness:
  "\<exists>h1 h2 h3 h4. let h = \<lparr>Keys = [1, 4, 2::nat], Vals = ''xyz'', maxv = False, callback = True, calls = []\<rparr>
    in k_Push h 0 CHR ''w'' = Inr h1 \<and> keyed_inv False h1 \<and>
    k_Pop h = Inr ((1, CHR ''x''), h2) \<and> keyed_inv False h2 \<and>
    k_Remove h 1 = Inr ((4, CHR ''y''), h3) \<and> keyed_inv False h3 \<and>
    k_Update h 1 0 CHR ''w'' = Inr h4 \<and> keyed_inv False h4"
proof -
  let ?h = "\<lparr>Keys = [1, 4, 2::nat], Vals = ''xyz'', maxv = False, callback = True, calls = []\<rparr>"
  have inv: "keyed_inv False ?h" by code_simp
  have i: "1 < length (items ?h)" by (simp add: items_def)
  show ?thesis using keyed_heap_operations [OF inv i, of 0 "CHR ''w''"] by (auto simp: items_def)
qed

text \<open>
  the positions reported to the callback are enough to follow every value. A client that
  stores, for each call, the two values at the two positions it is given, has after \<^verbatim>\<open>Push\<close>,
  \<^verbatim>\<open>Update\<close> and \<^verbatim>\<open>Pop\<close> exactly the values of the heap in their order (after \<^verbatim>\<open>Pop\<close> with the popped
  value in the discarded last place).
\<close>

theorem keyed_heap_callback:
  assumes "callback h" "wf_heap h"
  shows "(k_Push h k v = Inr h' \<longrightarrow>
      (\<exists>cs. calls h' = calls h @ cs \<and> Vals h' = track (Vals h @ [v]) cs)) \<and>
    (k_Update h i k v = Inr h' \<longrightarrow>
      (\<exists>cs. calls h' = calls h @ cs \<and> Vals h' = track ((Vals h)[nat i := v]) cs)) \<and>
    (k_Pop h = Inr (x, h') \<longrightarrow>
      (\<exists>cs. calls h' = calls h @ cs \<and> Vals h' = butlast (track (Vals h) cs)))"
proof (intro conjI impI)
  show "\<exists>cs. calls h' = calls h @ cs \<and> Vals h' = track (Vals h @ [v]) cs" if "k_Push h k v = Inr h'"
    using k_siftUp_tracks that assms(1) unfolding k_Push_def Let_def by (force simp: tracks_def)
  show "\<exists>cs. calls h' = calls h @ cs \<and> Vals h' = track ((Vals h)[nat i := v]) cs"
    if upd: "k_Update h i k v = Inr h'"
  proof -
    have i: "0 \<le> i" "i < int (length (Vals h))" "i < int (length (Keys h))"
      using upd by (auto simp: k_Update_def sl_set_def split: if_splits)
    then show ?thesis
      using k_settle_tracks upd assms(1) unfolding k_Update_def sl_set_def by (force simp: tracks_def)
  qed
  show "\<exists>cs. calls h' = calls h @ cs \<and> Vals h' = butlast (track (Vals h) cs)" if "k_Pop h = Inr (x, h')"
    using k_Pop_tracks [OF that assms(2)] assms(1) by (auto simp: tracks_def)
qed

theorem keyed_heap_callback_witness:
  "\<exists>h' cs. k_Push \<lparr>Keys = [2, 3::nat], Vals = ''ab'', maxv = False, callback = True, calls = []\<rparr> 1 CHR ''c''
      = Inr h' \<and> calls h' = cs \<and> Vals h' = track ''abc'' cs \<and> cs \<noteq> []"
proof -
  let ?h = "\<lparr>Keys = [2, 3::nat], Vals = ''ab'', maxv = False, callback = True, calls = []\<rparr>"
  have h: "callback ?h" "wf_heap ?h" by (simp_all add: wf_heap_def)
  have push: "k_Push ?h 1 CHR ''c'' =
      Inr \<lparr>Keys = [1, 3, 2], Vals = ''cba'', maxv = False, callback = True,
          calls = [(CHR ''c'', CHR ''a'', 0, 2)]\<rparr>"
    by code_simp
  show ?thesis using keyed_heap_callback [OF h, of 1 "CHR ''c''" _ 0 undefined] push by force
qed

end
