(* ===== verification/Min_Max_Heap.thy ===== *)
theory Min_Max_Heap
  imports Keyed_Heap
begin

text \<open>
  The double-ended heap of \<^verbatim>\<open>algo/container/heap/minmax.go\<close>, a symmetric min-max heap. The slices of keys and
  values start with a dummy root. Nodes at odd indices are minima and nodes at even indices maxima of
  the subtrees below their parent; the least key is at index 1 and the greatest at index 2. As for the
  other heaps the callback is represented by the calls it receives.
\<close>

section \<open>Model\<close>

record ('k, 'v) MinMax =
  mm_Keys :: "'k list"
  mm_Vals :: "'v list"
  mm_callback :: bool
  mm_calls :: "'v call list"

definition mm_swap :: "('k, 'v) MinMax \<Rightarrow> int \<Rightarrow> int \<Rightarrow> ('k, 'v) MinMax res" where
  "mm_swap h i j =
     rbind (g_swap (mm_Keys h) i j) (\<lambda>ks. rbind (g_swap (mm_Vals h) i j) (\<lambda>vs.
     if mm_callback h
     then rbind (sl_get vs i) (\<lambda>iv. rbind (sl_get vs j) (\<lambda>jv.
          Inr (h\<lparr>mm_Keys := ks, mm_Vals := vs, mm_calls := mm_calls h @ [(iv, jv, i, j)]\<rparr>)))
     else Inr (h\<lparr>mm_Keys := ks, mm_Vals := vs\<rparr>)))"

text \<open>\<open>mm_lt h i j\<close> is \<^verbatim>\<open>h.Keys[i] < h.Keys[j]\<close>, \<open>mm_le h i j\<close> is \<^verbatim>\<open>h.Keys[i] <= h.Keys[j]\<close>.\<close>

definition mm_lt :: "('k::linorder, 'v) MinMax \<Rightarrow> int \<Rightarrow> int \<Rightarrow> bool res" where
  "mm_lt h i j = rbind (sl_get (mm_Keys h) i) (\<lambda>a. rbind (sl_get (mm_Keys h) j) (\<lambda>b. Inr (a < b)))"

definition mm_le :: "('k::linorder, 'v) MinMax \<Rightarrow> int \<Rightarrow> int \<Rightarrow> bool res" where
  "mm_le h i j = rbind (sl_get (mm_Keys h) i) (\<lambda>a. rbind (sl_get (mm_Keys h) j) (\<lambda>b. Inr (a \<le> b)))"

lemma mm_lt_eq: "mm_lt h i j = Inr b \<longleftrightarrow> 0 \<le> i \<and> i < int (length (mm_Keys h)) \<and> 0 \<le> j \<and> j < int (length (mm_Keys h)) \<and>
    b = (mm_Keys h ! nat i < mm_Keys h ! nat j)"
  by (auto simp: mm_lt_def sl_get_def)

lemma mm_le_eq: "mm_le h i j = Inr b \<longleftrightarrow> 0 \<le> i \<and> i < int (length (mm_Keys h)) \<and> 0 \<le> j \<and> j < int (length (mm_Keys h)) \<and>
    b = (mm_Keys h ! nat i \<le> mm_Keys h ! nat j)"
  by (auto simp: mm_le_def sl_get_def)

lemma g_swap_eq:
  assumes "g_swap xs i j = Inr ys"
  shows "0 \<le> i \<and> i < int (length xs) \<and> 0 \<le> j \<and> j < int (length xs) \<and> ys = xs[nat i := xs ! nat j, nat j := xs ! nat i]"
  using assms by (auto simp: g_swap_def sl_get_def sl_set_def split: if_splits)

lemma mm_swap_keys:
  "mm_swap h i j = Inr h' \<Longrightarrow> 0 \<le> i \<and> i < int (length (mm_Keys h)) \<and> 0 \<le> j \<and> j < int (length (mm_Keys h)) \<and>
     mm_Keys h' = (mm_Keys h)[nat i := mm_Keys h ! nat j, nat j := mm_Keys h ! nat i]"
  unfolding mm_swap_def by (auto simp: rbind_eq_Inr dest!: g_swap_eq split: if_splits)

function mm_siftUp :: "('k::linorder, 'v) MinMax \<Rightarrow> int \<Rightarrow> ('k, 'v) MinMax res" where
  "mm_siftUp h i =
     (let gp = quot (i - 3) 4; lnode = 2 * gp + 1; rnode = lnode + 1
      in if gp < 0 then Inr h
         else rbind (mm_lt h i lnode) (\<lambda>b.
              if b then rbind (mm_swap h lnode i) (\<lambda>h'. mm_siftUp h' lnode)
              else rbind (mm_lt h rnode i) (\<lambda>b.
                   if b then rbind (mm_swap h rnode i) (\<lambda>h'. mm_siftUp h' rnode)
                   else Inr h)))"
  by pat_completeness auto

text \<open>Below index 3 the loop compares the two top nodes with each other.\<close>

definition up_measure :: "('k::linorder, 'v) MinMax \<Rightarrow> int \<Rightarrow> nat" where
  "up_measure h i = (if i = 1 \<or> i = 2 then (if mm_Keys h ! 2 < mm_Keys h ! 1 then 1 else 0) else 2 + nat i)"

lemma quot_small: "(-4) < a \<Longrightarrow> a < 4 \<Longrightarrow> quot a 4 = 0"
  by (auto simp: quot_def sgn_if)

lemma up_measure_less:
  assumes gp: "\<not> quot (i - 3) 4 < 0" and t: "t = 2 * quot (i - 3) 4 + 1 \<or> t = 2 * quot (i - 3) 4 + 2"
    and i: "0 \<le> i" "i < int (length (mm_Keys h))" and s: "mm_swap h t i = Inr h'"
    and b: "if t = 2 * quot (i - 3) 4 + 1 then mm_Keys h ! nat i < mm_Keys h ! nat t else mm_Keys h ! nat t < mm_Keys h ! nat i"
  shows "up_measure h' t < up_measure h i"
proof (cases "i < 3")
  case True
  then have q: "quot (i - 3) 4 = 0" using i by (intro quot_small) auto
  then have t': "t = 1 \<or> t = 2" using t by simp
  have "i = 0 \<or> i = 1 \<or> i = 2" using True i(1) by auto
  with t' b q consider "i = 0" | "i = 1" "t = 2" | "i = 2" "t = 1" by (auto split: if_splits)
  then show ?thesis
    using mm_swap_keys [OF s] b q t' by cases (auto simp: up_measure_def)
next
  case False
  then have "quot (i - 3) 4 = (i - 3) div 4" "0 \<le> (i - 3) div 4" by (simp_all add: quot_nonneg)
  then have "1 \<le> t" "t < i" using t False by (auto; linarith)+
  then show ?thesis using False by (auto simp: up_measure_def)
qed

termination mm_siftUp
  apply (relation "measure (\<lambda>(h, i). up_measure h i)")
    apply simp
   apply (simp only: in_measure split_conv, rule up_measure_less; auto simp: mm_lt_eq)
  apply (simp only: in_measure split_conv, rule up_measure_less; auto simp: mm_lt_eq)
  done

text \<open>The index of the smaller maximum below node \<open>i\<close>, and so on for the other three choices of the loops.\<close>

definition down_pick :: "bool res \<Rightarrow> int \<Rightarrow> int \<Rightarrow> int \<Rightarrow> int res" where
  "down_pick b other lst idx = (if other \<le> lst then rbind b (\<lambda>b. Inr (if b then other else idx)) else Inr idx)"

function mm_siftDownMin_loop :: "('k::linorder, 'v) MinMax \<Rightarrow> int \<Rightarrow> int \<Rightarrow> (('k, 'v) MinMax \<times> int) res" where
  "mm_siftDownMin_loop h i lst =
     (let minMinTree = 2 * i + 1; maxMinTree = minMinTree + 1; maxMaxTree = minMinTree + 3; minMaxTree = minMinTree + 2
      in if minMinTree > lst then Inr (h, i)
         else rbind (if maxMinTree \<le> lst
                     then rbind (down_pick (mm_le h maxMaxTree maxMinTree) maxMaxTree lst maxMinTree) (\<lambda>maxIdx.
                          rbind (mm_lt h maxIdx i) (\<lambda>b. Inr (if b then Some maxIdx else None)))
                     else Inr None) (\<lambda>r.
              case r of Some maxIdx \<Rightarrow> rbind (mm_swap h i maxIdx) (\<lambda>h'. mm_siftDownMin_loop h' i lst)
              | None \<Rightarrow>
                  rbind (down_pick (mm_le h minMaxTree minMinTree) minMaxTree lst minMinTree) (\<lambda>minIdx.
                  rbind (mm_lt h minIdx i) (\<lambda>b.
                  if b then rbind (mm_swap h i minIdx) (\<lambda>h'. mm_siftDownMin_loop h' minIdx lst)
                  else Inr (h, i)))))"
  by pat_completeness auto

definition min_measure :: "('k::linorder, 'v) MinMax \<Rightarrow> int \<Rightarrow> int \<Rightarrow> nat" where
  "min_measure h i lst = 2 * nat (lst - i) + (if mm_Keys h ! nat (2 * i + 2) < mm_Keys h ! nat i \<or>
     (2 * i + 4 \<le> lst \<and> mm_Keys h ! nat (2 * i + 4) < mm_Keys h ! nat i) then 1 else 0)"

lemma down_pick_eq:
  "down_pick b other lst idx = Inr k \<Longrightarrow>
     (other \<le> lst \<longrightarrow> (\<exists>c. b = Inr c \<and> k = (if c then other else idx))) \<and> (\<not> other \<le> lst \<longrightarrow> k = idx)"
  by (auto simp: down_pick_def rbind_eq_Inr split: if_splits)

lemma min_swap_measure:
  assumes pick: "down_pick (mm_le h q p) q lst p = Inr k" and p: "p = 2 * i + 2" "q = 2 * i + 4"
    and b: "mm_lt h k i = Inr True" and s: "mm_swap h i k = Inr h'"
  shows "min_measure h' i lst < min_measure h i lst"
proof -
  note sw = mm_swap_keys [OF s] and lt = b [unfolded mm_lt_eq]
  have ne: "nat p \<noteq> nat i" "nat q \<noteq> nat i" "nat p \<noteq> nat q" using lt p by auto
  have m: "min_measure g i lst = 2 * nat (lst - i) + (if mm_Keys g ! nat p < mm_Keys g ! nat i \<or>
     (q \<le> lst \<and> mm_Keys g ! nat q < mm_Keys g ! nat i) then 1 else 0)" for g :: "('a, 'b) MinMax"
    by (simp add: min_measure_def p)
  show ?thesis
  proof (cases "q \<le> lst")
    case True
    then obtain c where "mm_le h q p = Inr c" "k = (if c then q else p)" using down_pick_eq [OF pick] by auto
    then show ?thesis using True sw lt ne unfolding m by (cases c) (auto simp: mm_le_eq nth_list_update)
  next
    case False
    then have "k = p" using down_pick_eq [OF pick] by auto
    then show ?thesis using False sw lt ne unfolding m by (auto simp: nth_list_update)
  qed
qed

lemma min_move_measure:
  assumes "down_pick b q lst p = Inr k" "p = 2 * i + 1" "q = 2 * i + 3" "p \<le> lst" "mm_lt h k i = Inr c"
  shows "min_measure h' k lst < min_measure h i lst"
proof -
  have "i < k" "k \<le> lst" using down_pick_eq [OF assms(1)] assms(2-5) by (auto simp: mm_lt_eq split: if_splits)
  then show ?thesis by (auto simp: min_measure_def)
qed

termination mm_siftDownMin_loop
  by (relation "measure (\<lambda>(h, i, lst). min_measure h i lst)")
    (auto simp: rbind_eq_Inr split: if_splits intro: min_swap_measure min_move_measure)

definition mm_siftDownMin :: "('k::linorder, 'v) MinMax \<Rightarrow> int \<Rightarrow> int \<Rightarrow> (('k, 'v) MinMax \<times> bool) res" where
  "mm_siftDownMin h root lst = rbind (mm_siftDownMin_loop h root lst) (\<lambda>(h', i). Inr (h', i > root))"

function mm_siftDownMax_loop :: "('k::linorder, 'v) MinMax \<Rightarrow> int \<Rightarrow> int \<Rightarrow> (('k, 'v) MinMax \<times> int) res" where
  "mm_siftDownMax_loop h i lst =
     (let minMinTree = 2 * i - 1; minMaxTree = minMinTree + 2; maxMinTree = 2 * i; maxMaxTree = maxMinTree + 2
      in if minMinTree > lst \<or> minMinTree < 0 then Inr (h, i)
         else rbind (down_pick (mm_le h minMinTree minMaxTree) minMaxTree lst minMinTree) (\<lambda>minIdx.
              rbind (mm_lt h i minIdx) (\<lambda>b.
              if b then rbind (mm_swap h i minIdx) (\<lambda>h'. mm_siftDownMax_loop h' i lst)
              else if maxMinTree > lst then Inr (h, i)
              else rbind (down_pick (mm_lt h maxMinTree maxMaxTree) maxMaxTree lst maxMinTree) (\<lambda>maxIdx.
                   rbind (mm_lt h i maxIdx) (\<lambda>b.
                   if b then rbind (mm_swap h i maxIdx) (\<lambda>h'. mm_siftDownMax_loop h' maxIdx lst)
                   else Inr (h, i))))))"
  by pat_completeness auto

definition max_measure :: "('k::linorder, 'v) MinMax \<Rightarrow> int \<Rightarrow> int \<Rightarrow> nat" where
  "max_measure h i lst = 2 * nat (lst - i) + (if mm_Keys h ! nat i < mm_Keys h ! nat (2 * i - 1) \<or>
     (2 * i + 1 \<le> lst \<and> mm_Keys h ! nat i < mm_Keys h ! nat (2 * i + 1)) then 1 else 0)"

lemma max_swap_measure:
  assumes pick: "down_pick (mm_le h p q) q lst p = Inr k" and p: "p = 2 * i - 1" "q = 2 * i + 1" "0 \<le> p"
    and b: "mm_lt h i k = Inr True" and s: "mm_swap h i k = Inr h'"
  shows "max_measure h' i lst < max_measure h i lst"
proof -
  note sw = mm_swap_keys [OF s] and lt = b [unfolded mm_lt_eq]
  have ne: "nat q \<noteq> nat i" "nat p \<noteq> nat q" using p by auto
  have m: "max_measure g i lst = 2 * nat (lst - i) + (if mm_Keys g ! nat i < mm_Keys g ! nat p \<or>
     (q \<le> lst \<and> mm_Keys g ! nat i < mm_Keys g ! nat q) then 1 else 0)" for g :: "('a, 'b) MinMax"
    by (simp add: max_measure_def p)
  show ?thesis
  proof (cases "q \<le> lst")
    case True
    then obtain c where "mm_le h p q = Inr c" "k = (if c then q else p)" using down_pick_eq [OF pick] by auto
    then show ?thesis using True sw lt ne unfolding m
      by (cases c; cases "nat p = nat i") (auto simp: mm_le_eq nth_list_update)
  next
    case False
    then have "k = p" using down_pick_eq [OF pick] by auto
    then show ?thesis using False sw lt ne unfolding m by (cases "nat p = nat i") (auto simp: nth_list_update)
  qed
qed

lemma max_move_measure:
  assumes "down_pick b q lst p = Inr k" "p = 2 * i" "q = 2 * i + 2" "p \<le> lst" "0 \<le> 2 * i - 1"
  shows "max_measure h' k lst < max_measure h i lst"
proof -
  have "i < k" "k \<le> lst" using down_pick_eq [OF assms(1)] assms(2-5) by (auto split: if_splits)
  then show ?thesis by (auto simp: max_measure_def)
qed

termination mm_siftDownMax_loop
  by (relation "measure (\<lambda>(h, i, lst). max_measure h i lst)")
    (auto intro: max_swap_measure max_move_measure)

definition mm_siftDownMax :: "('k::linorder, 'v) MinMax \<Rightarrow> int \<Rightarrow> int \<Rightarrow> (('k, 'v) MinMax \<times> bool) res" where
  "mm_siftDownMax h root lst = rbind (mm_siftDownMax_loop h root lst) (\<lambda>(h', i). Inr (h', i > root))"

declare mm_siftUp.simps [simp del] mm_siftDownMin_loop.simps [simp del] mm_siftDownMax_loop.simps [simp del]

text \<open>
  \<^verbatim>\<open>heapify\<close> halves the length until it is 1. For fewer than two elements it never is, and \<^verbatim>\<open>NewMinMax\<close> does
  not return: \<open>None\<close>.
\<close>

fun levels :: "nat \<Rightarrow> nat option" where
  "levels nn = (if nn < 2 then None else let nn' = nn div 2 in if nn' = 1 then Some 1 else map_option Suc (levels nn'))"

declare levels.simps [simp del]

function mm_leaves :: "('k::linorder, 'v) MinMax \<Rightarrow> int \<Rightarrow> int \<Rightarrow> ('k, 'v) MinMax res" where
  "mm_leaves h i n = (if i < n
     then rbind (mm_lt h i (i - 1)) (\<lambda>b. rbind (if b then mm_swap h i (i - 1) else Inr h) (\<lambda>h'. mm_leaves h' (i + 2) n))
     else Inr h)"
  by pat_completeness auto
termination by (relation "measure (\<lambda>(h, i, n). nat (n - i))") auto

function mm_sifts :: "('k::linorder, 'v) MinMax \<Rightarrow> int \<Rightarrow> int \<Rightarrow> ('k, 'v) MinMax res" where
  "mm_sifts h i lst = (if i > 0
     then rbind (if remn i 2 = 1
                 then rbind (if i + 1 \<le> lst then mm_lt h (i + 1) i else Inr False) (\<lambda>b.
                      rbind (if b then mm_swap h i (i + 1) else Inr h) (\<lambda>h1.
                      rbind (mm_siftDownMin h1 i lst) (\<lambda>(h2, _). Inr h2)))
                 else rbind (mm_siftDownMax h i lst) (\<lambda>(h2, _). Inr h2)) (\<lambda>h3.
          mm_sifts h3 (i - 1) lst)
     else Inr h)"
  by pat_completeness auto
termination by (relation "measure (\<lambda>(h, i, lst). nat i)") auto

declare mm_leaves.simps [simp del] mm_sifts.simps [simp del]

definition mm_heapify :: "('k::linorder, 'v) MinMax \<Rightarrow> ('k, 'v) MinMax res option" where
  "mm_heapify h = (let n = int (length (mm_Keys h))
     in map_option (\<lambda>li. rbind (mm_leaves h (2 ^ li) n) (\<lambda>h1. mm_sifts h1 (2 ^ li - 1) (n - 1)))
          (levels (length (mm_Keys h))))"

text \<open>\<open>zk\<close> and \<open>zv\<close> are the zero values of the types of keys and values.\<close>

definition NewMinMax :: "'k::linorder \<Rightarrow> 'v \<Rightarrow> ('k, 'v) Option list \<Rightarrow> ('k, 'v) MinMax res option" where
  "NewMinMax zk zv opts =
     (case apply_options opts \<lparr>sliceCap = 1, keys = None, vals = None, opt_callback = False\<rparr> of
        Inl e \<Rightarrow> Some (Inl e)
      | Inr opt \<Rightarrow> (case (keys opt, vals opt) of
          (Some ks, Some vs) \<Rightarrow>
            mm_heapify \<lparr>mm_Keys = ks, mm_Vals = vs, mm_callback = opt_callback opt, mm_calls = []\<rparr>
        | _ \<Rightarrow>
            if sliceCap opt < 1 then Some (Inl NegativeLen)
            else Some (Inr \<lparr>mm_Keys = [zk], mm_Vals = [zv], mm_callback = opt_callback opt, mm_calls = []\<rparr>)))"

definition mm_Len :: "('k, 'v) MinMax \<Rightarrow> int" where
  "mm_Len h = int (length (mm_Keys h)) - 1"

definition mm_adjustSiblings :: "('k::linorder, 'v) MinMax \<Rightarrow> int \<Rightarrow> (('k, 'v) MinMax \<times> int) res" where
  "mm_adjustSiblings h i = (if i \<ge> 2 \<and> remn i 2 = 0
     then rbind (mm_lt h i (i - 1)) (\<lambda>b. if b then rbind (mm_swap h i (i - 1)) (\<lambda>h'. Inr (h', i - 1)) else Inr (h, i))
     else Inr (h, i))"

definition mm_Push :: "('k::linorder, 'v) MinMax \<Rightarrow> 'k \<Rightarrow> 'v \<Rightarrow> ('k, 'v) MinMax res" where
  "mm_Push h0 k v =
     (let n = int (length (mm_Keys h0)); h = h0\<lparr>mm_Keys := mm_Keys h0 @ [k], mm_Vals := mm_Vals h0 @ [v]\<rparr>
      in if n = 1 then Inr (if mm_callback h then h\<lparr>mm_calls := mm_calls h @ [(v, v, 1, 1)]\<rparr> else h)
         else rbind (mm_adjustSiblings h n) (\<lambda>(h1, i). mm_siftUp h1 i))"

definition mm_truncate :: "('k, 'v) MinMax \<Rightarrow> int \<Rightarrow> ('k, 'v) MinMax res" where
  "mm_truncate h n = rbind (sl_sub (mm_Keys h) 0 n) (\<lambda>ks. rbind (sl_sub (mm_Vals h) 0 n) (\<lambda>vs.
     Inr (h\<lparr>mm_Keys := ks, mm_Vals := vs\<rparr>)))"

definition mm_entry :: "('k, 'v) MinMax \<Rightarrow> int \<Rightarrow> ('k \<times> 'v) res" where
  "mm_entry h i = rbind (sl_get (mm_Keys h) i) (\<lambda>k. rbind (sl_get (mm_Vals h) i) (\<lambda>v. Inr (k, v)))"

definition mm_PopMin :: "('k::linorder, 'v) MinMax \<Rightarrow> (('k \<times> 'v) \<times> ('k, 'v) MinMax) res" where
  "mm_PopMin h =
     (let i = int (length (mm_Keys h)) - 1
      in rbind (mm_entry h 1) (\<lambda>kv. rbind (mm_swap h 1 i) (\<lambda>h1. rbind (mm_siftDownMin h1 1 (i - 1)) (\<lambda>(h2, _).
         rbind (mm_truncate h2 i) (\<lambda>h3. Inr (kv, h3))))))"

definition mm_PopMax :: "('k::linorder, 'v) MinMax \<Rightarrow> (('k \<times> 'v) \<times> ('k, 'v) MinMax) res" where
  "mm_PopMax h =
     (let i = int (length (mm_Keys h)) - 1
      in if i = 1 then rbind (mm_entry h 1) (\<lambda>kv. rbind (mm_truncate h 1) (\<lambda>h1. Inr (kv, h1)))
         else rbind (mm_entry h 2) (\<lambda>kv. rbind (mm_swap h 2 i) (\<lambda>h1. rbind (mm_siftDownMax h1 2 (i - 1)) (\<lambda>(h2, _).
              rbind (mm_truncate h2 i) (\<lambda>h3. Inr (kv, h3))))))"

definition mm_PushMaxN :: "('k::linorder, 'v) MinMax \<Rightarrow> 'k \<Rightarrow> 'v \<Rightarrow> int \<Rightarrow> ('k, 'v) MinMax res" where
  "mm_PushMaxN h k v n =
     (let l = int (length (mm_Keys h))
      in if l < n + 1 then mm_Push h k v
         else rbind (if l > 1 then rbind (sl_get (mm_Keys h) 1) (\<lambda>k1. Inr (k < k1)) else Inr False) (\<lambda>b.
              if b then Inr h else rbind (mm_PopMin h) (\<lambda>(_, h1). mm_Push h1 k v)))"

definition mm_PushMinN :: "('k::linorder, 'v) MinMax \<Rightarrow> 'k \<Rightarrow> 'v \<Rightarrow> int \<Rightarrow> ('k, 'v) MinMax res" where
  "mm_PushMinN h k v n =
     (let l = int (length (mm_Keys h)); maxIdx = (if l = 2 then 1 else 2)
      in if l < n + 1 then mm_Push h k v
         else rbind (sl_get (mm_Keys h) maxIdx) (\<lambda>km.
              if k > km then Inr h else rbind (mm_PopMax h) (\<lambda>(_, h1). mm_Push h1 k v)))"

definition mm_updateMin :: "('k::linorder, 'v) MinMax \<Rightarrow> int \<Rightarrow> int \<Rightarrow> ('k, 'v) MinMax res" where
  "mm_updateMin h i lst =
     rbind (if i + 1 \<le> lst then mm_lt h (i + 1) i else Inr False) (\<lambda>b.
     if b then rbind (mm_swap h i (i + 1)) (\<lambda>h1. rbind (mm_siftUp h1 (i + 1)) (\<lambda>h2.
               rbind (mm_siftDownMin h2 i lst) (\<lambda>(h3, _). Inr h3)))
     else rbind (mm_siftDownMin h i lst) (\<lambda>(h1, moved). if \<not> moved then mm_siftUp h1 i else Inr h1))"

definition mm_updateMax :: "('k::linorder, 'v) MinMax \<Rightarrow> int \<Rightarrow> int \<Rightarrow> ('k, 'v) MinMax res" where
  "mm_updateMax h i lst =
     rbind (mm_lt h i (i - 1)) (\<lambda>b.
     if b then rbind (mm_swap h i (i - 1)) (\<lambda>h1. rbind (mm_siftUp h1 (i - 1)) (\<lambda>h2.
               rbind (mm_siftDownMax h2 i lst) (\<lambda>(h3, _). Inr h3)))
     else rbind (mm_siftDownMax h i lst) (\<lambda>(h1, moved). if \<not> moved then mm_siftUp h1 i else Inr h1))"

definition mm_update :: "('k::linorder, 'v) MinMax \<Rightarrow> int \<Rightarrow> int \<Rightarrow> ('k, 'v) MinMax res" where
  "mm_update h i lst = (if remn i 2 = 1 then mm_updateMin h i lst else mm_updateMax h i lst)"

definition mm_Remove :: "'k \<Rightarrow> 'v \<Rightarrow> ('k::linorder, 'v) MinMax \<Rightarrow> int \<Rightarrow> (('k \<times> 'v) \<times> ('k, 'v) MinMax) res" where
  "mm_Remove zk zv h i =
     (let n = int (length (mm_Keys h)) - 1
      in if i > n \<or> i = 0 then Inr ((zk, zv), h)
         else rbind (mm_entry h i) (\<lambda>kv.
              rbind (if i < n then rbind (mm_swap h i n) (\<lambda>h1. if n > 2 then mm_update h1 i (n - 1) else Inr h1)
                     else Inr h) (\<lambda>h2.
              rbind (mm_truncate h2 n) (\<lambda>h3. Inr (kv, h3)))))"

definition mm_Update :: "('k::linorder, 'v) MinMax \<Rightarrow> int \<Rightarrow> 'k \<Rightarrow> 'v \<Rightarrow> ('k, 'v) MinMax res" where
  "mm_Update h i k v =
     (let n = int (length (mm_Keys h))
      in if i = 0 \<or> i \<ge> n then Inr h
         else rbind (sl_set (mm_Keys h) i k) (\<lambda>ks. rbind (sl_set (mm_Vals h) i v) (\<lambda>vs.
              let h1 = h\<lparr>mm_Keys := ks, mm_Vals := vs\<rparr>
              in if n = 2 then Inr h1 else mm_update h1 i (n - 1))))"

end
