(* ===== verification/Min_Max_Order.thy ===== *)
theory Min_Max_Order
  imports Prelude
begin

text \<open>
  The order of a symmetric min-max heap, on the list of its keys alone. Siblings are in order, the left
  child of its grandparent bounds a node from below and the right child bounds it from above. The
  lemmas state what one exchange of each of the sift loops does to the order with one node out of place.
\<close>

definition sw :: "'a list \<Rightarrow> nat \<Rightarrow> nat \<Rightarrow> 'a list" where
  "sw xs i j = xs[i := xs ! j, j := xs ! i]"

lemma sw_length [simp]: "length (sw xs i j) = length xs"
  by (simp add: sw_def)

lemma sw_nth: "i < length xs \<Longrightarrow> j < length xs \<Longrightarrow>
    sw xs i j ! x = (if x = i then xs ! j else if x = j then xs ! i else xs ! x)"
  by (auto simp: sw_def nth_list_update)

text \<open>The children of the grandparent of \<open>j\<close>, and the nodes with the left child \<open>i\<close> of their grandparent.\<close>

definition ln :: "nat \<Rightarrow> nat" where "ln j = 2 * ((j - 3) div 4) + 1"
definition rn :: "nat \<Rightarrow> nat" where "rn j = ln j + 1"
definition kids :: "nat \<Rightarrow> nat set" where "kids i = {2 * i + 1..2 * i + 4}"

lemma ln_odd [simp]: "odd (ln j)" by (simp add: ln_def)
lemma rn_even [simp]: "even (rn j)" by (simp add: rn_def)
lemma ln_pos: "1 \<le> ln j" "2 \<le> rn j" by (simp_all add: ln_def rn_def)
lemma ln_less: "3 \<le> j \<Longrightarrow> ln j < j \<and> rn j < j" by (auto simp: ln_def rn_def)

lemma ln_iff: "3 \<le> j \<Longrightarrow> odd i \<Longrightarrow> ln j = i \<longleftrightarrow> j \<in> kids i"
  unfolding ln_def kids_def by (auto elim!: oddE)

lemma rn_iff: "3 \<le> j \<Longrightarrow> even i \<Longrightarrow> 2 \<le> i \<Longrightarrow> rn j = i \<longleftrightarrow> j \<in> kids (i - 1)"
  using ln_iff [of j "i - 1"] by (auto simp: rn_def)

lemma kids_ge: "j \<in> kids i \<Longrightarrow> 2 * i < j" "1 \<le> i \<Longrightarrow> j \<in> kids i \<Longrightarrow> 3 \<le> j"
  by (auto simp: kids_def)

lemma ln_sib: "3 \<le> j \<Longrightarrow> odd j \<Longrightarrow> ln (Suc j) = ln j \<and> rn (Suc j) = rn j"
proof -
  assume "3 \<le> j" "odd j"
  then obtain b where b: "j = 2 * b + 3" by (auto elim!: oddE intro: that [of "(j - 3) div 2"])
  have "(2 * b + 1) div (2 * 2) = 2 * b div (2 * 2)" unfolding div_mult2_eq by simp
  then show ?thesis by (simp add: b ln_def rn_def)
qed

lemma kids_cases:
  assumes "j \<in> kids i"
  shows "(j = 2 * i + 1 \<or> j = 2 * i + 3) \<and> odd j \<or> (j = 2 * i + 2 \<or> j = 2 * i + 4) \<and> even j"
proof -
  have "j = 2 * i + 1 \<or> j = 2 * i + 2 \<or> j = 2 * i + 3 \<or> j = 2 * i + 4" using assms by (auto simp: kids_def)
  then show ?thesis by auto
qed

text \<open>The order between nodes from \<open>m\<close> on and up to \<open>l\<close>, without the bounds of some nodes.\<close>

definition sibs :: "nat \<Rightarrow> 'a::linorder list \<Rightarrow> nat \<Rightarrow> bool" where
  "sibs m ks l \<longleftrightarrow> (\<forall>i. odd i \<longrightarrow> m \<le> i \<longrightarrow> i < l \<longrightarrow> ks ! i \<le> ks ! Suc i)"

definition los :: "nat set \<Rightarrow> nat \<Rightarrow> 'a::linorder list \<Rightarrow> nat \<Rightarrow> bool" where
  "los X m ks l \<longleftrightarrow> (\<forall>j. 3 \<le> j \<longrightarrow> j \<le> l \<longrightarrow> m \<le> ln j \<longrightarrow> j \<notin> X \<longrightarrow> ks ! ln j \<le> ks ! j)"

definition his :: "nat set \<Rightarrow> nat \<Rightarrow> 'a::linorder list \<Rightarrow> nat \<Rightarrow> bool" where
  "his X m ks l \<longleftrightarrow> (\<forall>j. 3 \<le> j \<longrightarrow> j \<le> l \<longrightarrow> m \<le> rn j \<longrightarrow> j \<notin> X \<longrightarrow> ks ! j \<le> ks ! rn j)"

definition smm :: "nat \<Rightarrow> 'a::linorder list \<Rightarrow> nat \<Rightarrow> bool" where
  "smm m ks l \<longleftrightarrow> sibs m ks l \<and> los {} m ks l \<and> his {} m ks l"

lemma sibsD: "sibs m ks l \<Longrightarrow> odd i \<Longrightarrow> m \<le> i \<Longrightarrow> i < l \<Longrightarrow> ks ! i \<le> ks ! Suc i"
  by (simp add: sibs_def)

lemma losD: "los X m ks l \<Longrightarrow> 3 \<le> j \<Longrightarrow> j \<le> l \<Longrightarrow> m \<le> ln j \<Longrightarrow> j \<notin> X \<Longrightarrow> ks ! ln j \<le> ks ! j"
  by (simp add: los_def)

lemma hisD: "his X m ks l \<Longrightarrow> 3 \<le> j \<Longrightarrow> j \<le> l \<Longrightarrow> m \<le> rn j \<Longrightarrow> j \<notin> X \<Longrightarrow> ks ! j \<le> ks ! rn j"
  by (simp add: his_def)

section \<open>Sifting a minimum down\<close>

text \<open>The node \<open>i\<close> may be greater than its kids; what bounds it bounds them as well.\<close>

definition hole_lo :: "nat \<Rightarrow> 'a::linorder list \<Rightarrow> nat \<Rightarrow> nat \<Rightarrow> bool" where
  "hole_lo m ks i l \<longleftrightarrow> odd i \<and> m \<le> i \<and> sibs m ks l \<and> los (kids i) m ks l \<and> his {} m ks l \<and>
     (\<forall>j. j \<in> kids i \<longrightarrow> j \<le> l \<longrightarrow> 3 \<le> i \<longrightarrow> m \<le> ln i \<longrightarrow> ks ! ln i \<le> ks ! j)"

definition max_kid :: "'a::linorder list \<Rightarrow> nat \<Rightarrow> nat \<Rightarrow> nat" where
  "max_kid ks i l = (if 2 * i + 4 \<le> l \<and> ks ! (2 * i + 4) \<le> ks ! (2 * i + 2) then 2 * i + 4 else 2 * i + 2)"

definition min_kid :: "'a::linorder list \<Rightarrow> nat \<Rightarrow> nat \<Rightarrow> nat" where
  "min_kid ks i l = (if 2 * i + 3 \<le> l \<and> ks ! (2 * i + 3) \<le> ks ! (2 * i + 1) then 2 * i + 3 else 2 * i + 1)"

lemma hole_lo_kid_facts:
  assumes h: "hole_lo m ks i l" and c: "c \<in> kids i" "c \<le> l"
  shows "i < l" "ln c = i" "rn c = Suc i" "3 \<le> c" "ks ! c \<le> ks ! Suc i" "ks ! i \<le> ks ! Suc i"
    "3 \<le> i \<Longrightarrow> m \<le> ln i \<Longrightarrow> ks ! ln i \<le> ks ! c" "3 \<le> i \<Longrightarrow> m \<le> rn i \<Longrightarrow> ks ! Suc i \<le> ks ! rn i"
proof -
  have i: "odd i" "1 \<le> i" "m \<le> i" using h by (auto simp: hole_lo_def intro: Suc_leI odd_pos)
  show l: "i < l" using kids_ge(1) [OF c(1)] c(2) i(2) by simp
  show c3: "3 \<le> c" using kids_ge(2) [OF i(2) c(1)] .
  show ln: "ln c = i" using ln_iff [OF c3 i(1)] c(1) by simp
  then show rn: "rn c = Suc i" by (simp add: rn_def)
  show "ks ! c \<le> ks ! Suc i" using h c(2) c3 rn i(3) hisD [of "{}" m ks l c] by (simp add: hole_lo_def)
  show "ks ! i \<le> ks ! Suc i" using h i l sibsD [of m ks l i] by (simp add: hole_lo_def)
  show "3 \<le> i \<Longrightarrow> m \<le> ln i \<Longrightarrow> ks ! ln i \<le> ks ! c" using h c by (simp add: hole_lo_def)
  show "3 \<le> i \<Longrightarrow> m \<le> rn i \<Longrightarrow> ks ! Suc i \<le> ks ! rn i"
    using h l ln_sib [of i] i(1) hisD [of "{}" m ks l "Suc i"] by (simp add: hole_lo_def)
qed

lemma kid_not_kid: "1 \<le> i \<Longrightarrow> c \<in> kids i \<Longrightarrow> j \<in> kids c \<Longrightarrow> j \<notin> kids i"
  by (auto simp: kids_def)

lemma hole_lo_swap_max:
  assumes h: "hole_lo m ks i l" and l: "l < length ks" and c: "c = 2 * i + 2 \<or> c = 2 * i + 4" "c \<le> l"
    and less: "ks ! c < ks ! i"
  shows "hole_lo m (sw ks i c) i l"
proof -
  have i: "odd i" "1 \<le> i" "m \<le> i" using h by (auto simp: hole_lo_def intro: Suc_leI odd_pos)
  have ck: "c \<in> kids i" "even c" using c by (auto simp: kids_def)
  note f = hole_lo_kid_facts [OF h ck(1) c(2)]
  have n: "sw ks i c ! x = (if x = i then ks ! c else if x = c then ks ! i else ks ! x)" for x
    using f(1) c l by (intro sw_nth) auto
  have hs: "sibs m ks l" "los (kids i) m ks l" "his {} m ks l"
    "\<And>j. j \<in> kids i \<Longrightarrow> j \<le> l \<Longrightarrow> 3 \<le> i \<Longrightarrow> m \<le> ln i \<Longrightarrow> ks ! ln i \<le> ks ! j" using h by (auto simp: hole_lo_def)
  have "sibs m (sw ks i c) l"
    unfolding sibs_def
  proof (intro allI impI)
    fix j assume j: "odd j" "m \<le> j" "j < l"
    then have "j \<noteq> c" "Suc j \<noteq> i" using ck i(1) by auto
    moreover have "ks ! j \<le> ks ! Suc j" by (rule sibsD [OF hs(1) j])
    ultimately show "sw ks i c ! j \<le> sw ks i c ! Suc j" using f(5) less by (auto simp: n)
  qed
  moreover have "los (kids i) m (sw ks i c) l"
    unfolding los_def
  proof (intro allI impI)
    fix j assume j: "3 \<le> j" "j \<le> l" "m \<le> ln j" "j \<notin> kids i"
    then have "ln j \<noteq> i" using ln_iff [OF j(1) i(1)] by simp
    moreover have "ln j \<noteq> c" using ck(2) ln_odd by metis
    moreover have "j \<noteq> c" using ck(1) j(4) by auto
    ultimately show "sw ks i c ! ln j \<le> sw ks i c ! j" using losD [OF hs(2) j] f(7) j by (auto simp: n)
  qed
  moreover have "his {} m (sw ks i c) l"
    unfolding his_def
  proof (intro allI impI)
    fix j assume j: "3 \<le> j" "j \<le> l" "m \<le> rn j" "j \<notin> {}"
    have "rn j \<noteq> i" using i(1) rn_even by metis
    then show "sw ks i c ! j \<le> sw ks i c ! rn j" using hisD [OF hs(3) j] f(3,5,6,8) j less by (auto simp: n)
  qed
  moreover have "sw ks i c ! ln i \<le> sw ks i c ! j" if "j \<in> kids i" "j \<le> l" "3 \<le> i" "m \<le> ln i" for j
    using hs(4) [OF that] f(7) that less ln_less [OF that(3)] kids_ge(1) [OF that(1)] kids_ge(1) [OF ck(1)] i(2)
    by (auto simp: n)
  ultimately show ?thesis using i by (auto simp: hole_lo_def)
qed

lemma hole_lo_move:
  assumes h: "hole_lo m ks i l" and l: "l < length ks" and c: "c = 2 * i + 1 \<or> c = 2 * i + 3" "c \<le> l"
    and less: "ks ! c < ks ! i"
    and least: "\<And>j. j \<in> kids i \<Longrightarrow> j \<le> l \<Longrightarrow> ks ! c \<le> ks ! j" and sib: "Suc c \<le> l \<Longrightarrow> ks ! i \<le> ks ! Suc c"
  shows "hole_lo m (sw ks i c) c l"
proof -
  have i: "odd i" "1 \<le> i" "m \<le> i" using h by (auto simp: hole_lo_def intro: Suc_leI odd_pos)
  have ck: "c \<in> kids i" "odd c" using c by (auto simp: kids_def)
  note f = hole_lo_kid_facts [OF h ck(1) c(2)]
  have n: "sw ks i c ! x = (if x = i then ks ! c else if x = c then ks ! i else ks ! x)" for x
    using f(1) c l by (intro sw_nth) auto
  have hs: "sibs m ks l" "los (kids i) m ks l" "his {} m ks l" using h by (auto simp: hole_lo_def)
  have mc: "m \<le> c" using kids_ge(1) [OF ck(1)] i(3) by simp
  have "sibs m (sw ks i c) l"
    unfolding sibs_def
  proof (intro allI impI)
    fix j assume j: "odd j" "m \<le> j" "j < l"
    then have "Suc j \<noteq> c" "Suc j \<noteq> i" using ck i(1) by auto
    moreover have "ks ! j \<le> ks ! Suc j" by (rule sibsD [OF hs(1) j])
    ultimately show "sw ks i c ! j \<le> sw ks i c ! Suc j" using f(5) less sib j by (auto simp: n)
  qed
  moreover have "los (kids c) m (sw ks i c) l"
    unfolding los_def
  proof (intro allI impI)
    fix j assume j: "3 \<le> j" "j \<le> l" "m \<le> ln j" "j \<notin> kids c"
    then have nc: "ln j \<noteq> c" using ln_iff [OF j(1) ck(2)] by simp
    show "sw ks i c ! ln j \<le> sw ks i c ! j"
    proof (cases "j \<in> kids i")
      case True
      then have "ln j = i" "j \<noteq> i" using ln_iff [OF j(1) i(1)] kids_ge(1) [of j i] by auto
      then show ?thesis using least [OF True j(2)] less by (auto simp: n)
    next
      case False
      then have "ln j \<noteq> i" "j \<noteq> c" using ln_iff [OF j(1) i(1)] ck(1) by auto
      then show ?thesis using nc losD [OF hs(2) j(1-3) False] f(7) j by (auto simp: n)
    qed
  qed
  moreover have "his {} m (sw ks i c) l"
    unfolding his_def
  proof (intro allI impI)
    fix j assume j: "3 \<le> j" "j \<le> l" "m \<le> rn j" "j \<notin> {}"
    have "rn j \<noteq> i" "rn j \<noteq> c" using i(1) ck(2) rn_even by metis+
    then show "sw ks i c ! j \<le> sw ks i c ! rn j" using hisD [OF hs(3) j] f(3,6) j less by (auto simp: n)
  qed
  moreover have "sw ks i c ! ln c \<le> sw ks i c ! j" if j: "j \<in> kids c" "j \<le> l" for j
  proof -
    have "j \<notin> kids i" "ln j = c" "3 \<le> j" "j \<noteq> i" "j \<noteq> c"
      using kid_not_kid [OF i(2) ck(1) j(1)] kids_ge [of j c] j(1) ln_iff [of j c] ck kids_ge(1) [OF ck(1)] by auto
    then show ?thesis using losD [OF hs(2), of j] j mc f(2) by (auto simp: n)
  qed
  ultimately show ?thesis using mc ck(2) by (auto simp: hole_lo_def)
qed

lemma min_kid_least:
  assumes h: "hole_lo m ks i l" and l: "2 * i + 1 \<le> l" and j: "j \<in> kids i" "j \<le> l"
  shows "ks ! min_kid ks i l \<le> ks ! j"
proof -
  have i: "odd i" "m \<le> i" "sibs m ks l" using h by (auto simp: hole_lo_def)
  have s: "ks ! (2 * i + 1) \<le> ks ! (2 * i + 2)" if "2 * i + 2 \<le> l"
    using sibsD [OF i(3), of "2 * i + 1"] i that by simp
  have s': "ks ! (2 * i + 3) \<le> ks ! (2 * i + 4)" if "2 * i + 4 \<le> l"
    using sibsD [OF i(3), of "2 * i + 3"] i that by (simp add: add.commute)
  show ?thesis using kids_cases [OF j(1)] j(2) s s' by (auto simp: min_kid_def)
qed

lemma max_kid_least:
  "2 * i + 2 \<le> l \<Longrightarrow> j = 2 * i + 2 \<or> j = 2 * i + 4 \<Longrightarrow> j \<le> l \<Longrightarrow> ks ! max_kid ks i l \<le> ks ! j"
  by (auto simp: max_kid_def)

lemma hole_lo_done:
  assumes h: "hole_lo m ks i l" and "\<And>j. j \<in> kids i \<Longrightarrow> j \<le> l \<Longrightarrow> ks ! i \<le> ks ! j"
  shows "smm m ks l"
proof -
  have "los {} m ks l"
    unfolding los_def
  proof (intro allI impI)
    fix j assume j: "3 \<le> j" "j \<le> l" "m \<le> ln j" "j \<notin> {}"
    show "ks ! ln j \<le> ks ! j"
    proof (cases "j \<in> kids i")
      case True
      then show ?thesis using assms(2) [OF True j(2)] ln_iff [OF j(1), of i] h by (simp add: hole_lo_def)
    next
      case False
      then show ?thesis using h losD [of "kids i" m ks l j] j by (simp add: hole_lo_def)
    qed
  qed
  then show ?thesis using h by (simp add: smm_def hole_lo_def)
qed

section \<open>Sifting a maximum down\<close>

definition hole_hi :: "nat \<Rightarrow> 'a::linorder list \<Rightarrow> nat \<Rightarrow> nat \<Rightarrow> bool" where
  "hole_hi m ks i l \<longleftrightarrow> even i \<and> 2 \<le> i \<and> m \<le> i \<and> sibs m ks l \<and> los {} m ks l \<and> his (kids (i - 1)) m ks l \<and>
     (\<forall>j. j \<in> kids (i - 1) \<longrightarrow> j \<le> l \<longrightarrow> 3 \<le> i \<longrightarrow> m \<le> rn i \<longrightarrow> ks ! j \<le> ks ! rn i)"

definition min_kid_max :: "'a::linorder list \<Rightarrow> nat \<Rightarrow> nat \<Rightarrow> nat" where
  "min_kid_max ks i l = (if 2 * i + 1 \<le> l \<and> ks ! (2 * i - 1) \<le> ks ! (2 * i + 1) then 2 * i + 1 else 2 * i - 1)"

definition max_kid_max :: "'a::linorder list \<Rightarrow> nat \<Rightarrow> nat \<Rightarrow> nat" where
  "max_kid_max ks i l = (if 2 * i + 2 \<le> l \<and> ks ! (2 * i) < ks ! (2 * i + 2) then 2 * i + 2 else 2 * i)"

lemma hole_hi_kid_facts:
  assumes h: "hole_hi m ks i l" and c: "c \<in> kids (i - 1)" "c \<le> l"
  shows "i < l" "ln c = i - 1" "rn c = i" "3 \<le> c" "i < c" "m \<le> i - 1 \<Longrightarrow> ks ! (i - 1) \<le> ks ! i"
    "3 \<le> i \<Longrightarrow> m \<le> ln i \<Longrightarrow> ks ! ln i \<le> ks ! i" "3 \<le> i \<Longrightarrow> m \<le> rn i \<Longrightarrow> ks ! c \<le> ks ! rn i"
proof -
  have i: "even i" "2 \<le> i" "odd (i - 1)" using h by (auto simp: hole_hi_def)
  show c3: "3 \<le> c" using kids_ge(2) [OF _ c(1)] i(2) by simp
  show rn: "rn c = i" using rn_iff [OF c3 i(1,2)] c(1) by simp
  then show "ln c = i - 1" by (simp add: rn_def)
  show ic: "i < c" using kids_ge(1) [OF c(1)] i(2) by simp
  then show l: "i < l" using c(2) by simp
  show "m \<le> i - 1 \<Longrightarrow> ks ! (i - 1) \<le> ks ! i" using h i l sibsD [of m ks l "i - 1"] by (simp add: hole_hi_def)
  show "3 \<le> i \<Longrightarrow> m \<le> ln i \<Longrightarrow> ks ! ln i \<le> ks ! i" using h l losD [of "{}" m ks l i] by (simp add: hole_hi_def)
  show "3 \<le> i \<Longrightarrow> m \<le> rn i \<Longrightarrow> ks ! c \<le> ks ! rn i" using h c by (simp add: hole_hi_def)
qed

lemma hole_hi_swap_min:
  assumes h: "hole_hi m ks i l" and l: "l < length ks" and c: "c = 2 * i - 1 \<or> c = 2 * i + 1" "c \<le> l"
    and less: "ks ! i < ks ! c"
  shows "hole_hi m (sw ks i c) i l"
proof -
  have i: "even i" "2 \<le> i" "m \<le> i" using h by (auto simp: hole_hi_def)
  have ck: "c \<in> kids (i - 1)" "odd c" using c i by (auto simp: kids_def)
  note f = hole_hi_kid_facts [OF h ck(1) c(2)]
  have n: "sw ks i c ! x = (if x = i then ks ! c else if x = c then ks ! i else ks ! x)" for x
    using f(1) c l by (intro sw_nth) auto
  have hs: "sibs m ks l" "los {} m ks l" "his (kids (i - 1)) m ks l"
    "\<And>j. j \<in> kids (i - 1) \<Longrightarrow> j \<le> l \<Longrightarrow> 3 \<le> i \<Longrightarrow> m \<le> rn i \<Longrightarrow> ks ! j \<le> ks ! rn i" using h by (auto simp: hole_hi_def)
  have "sibs m (sw ks i c) l"
    unfolding sibs_def
  proof (intro allI impI)
    fix j assume j: "odd j" "m \<le> j" "j < l"
    then have "j \<noteq> i" "Suc j \<noteq> c" using ck i(1) by auto
    moreover have "ks ! j \<le> ks ! Suc j" by (rule sibsD [OF hs(1) j])
    ultimately show "sw ks i c ! j \<le> sw ks i c ! Suc j" using less by (auto simp: n)
  qed
  moreover have "los {} m (sw ks i c) l"
    unfolding los_def
  proof (intro allI impI)
    fix j assume j: "3 \<le> j" "j \<le> l" "m \<le> ln j" "j \<notin> {}"
    have "ln j \<noteq> i" using i(1) ln_odd by metis
    moreover have "ln c \<noteq> i" "ln c \<noteq> c" "ln i \<noteq> c" using f(2,4,5) ln_less [of c] ln_less [of i] j i
      by (auto simp: ln_def)
    ultimately show "sw ks i c ! ln j \<le> sw ks i c ! j"
      using losD [OF hs(2) j] f(2,6,7) j less by (auto simp: n)
  qed
  moreover have "his (kids (i - 1)) m (sw ks i c) l"
    unfolding his_def
  proof (intro allI impI)
    fix j assume j: "3 \<le> j" "j \<le> l" "m \<le> rn j" "j \<notin> kids (i - 1)"
    have "rn j \<noteq> c" "rn j \<noteq> i" "j \<noteq> c" using ck rn_even rn_iff [OF j(1) i(1,2)] j(4) by metis+
    then show "sw ks i c ! j \<le> sw ks i c ! rn j" using hisD [OF hs(3) j] f(8) j by (auto simp: n)
  qed
  moreover have "sw ks i c ! j \<le> sw ks i c ! rn i" if j: "j \<in> kids (i - 1)" "j \<le> l" "3 \<le> i" "m \<le> rn i" for j
    using hs(4) [OF j] f(8) j less ln_less [OF j(3)] hole_hi_kid_facts(5) [OF h j(1,2)] f(5)
    by (auto simp: n)
  ultimately show ?thesis using i by (auto simp: hole_hi_def)
qed

lemma hole_hi_move:
  assumes h: "hole_hi m ks i l" and l: "l < length ks" and c: "c = 2 * i \<or> c = 2 * i + 2" "c \<le> l"
    and less: "ks ! i < ks ! c"
    and greatest: "\<And>j. j \<in> kids (i - 1) \<Longrightarrow> j \<le> l \<Longrightarrow> ks ! j \<le> ks ! c" and sib: "ks ! (c - 1) \<le> ks ! i"
  shows "hole_hi m (sw ks i c) c l"
proof -
  have i: "even i" "2 \<le> i" "m \<le> i" using h by (auto simp: hole_hi_def)
  have ck: "c \<in> kids (i - 1)" "even c" "2 \<le> c" using c i by (auto simp: kids_def)
  note f = hole_hi_kid_facts [OF h ck(1) c(2)]
  have n: "sw ks i c ! x = (if x = i then ks ! c else if x = c then ks ! i else ks ! x)" for x
    using f(1) c l by (intro sw_nth) auto
  have hs: "sibs m ks l" "los {} m ks l" "his (kids (i - 1)) m ks l" using h by (auto simp: hole_hi_def)
  have "sibs m (sw ks i c) l"
    unfolding sibs_def
  proof (intro allI impI)
    fix j assume j: "odd j" "m \<le> j" "j < l"
    then have "j \<noteq> i" "j \<noteq> c" using ck i(1) by auto
    moreover have "ks ! j \<le> ks ! Suc j" by (rule sibsD [OF hs(1) j])
    ultimately show "sw ks i c ! j \<le> sw ks i c ! Suc j" using less sib by (auto simp: n)
  qed
  moreover have "los {} m (sw ks i c) l"
    unfolding los_def
  proof (intro allI impI)
    fix j assume j: "3 \<le> j" "j \<le> l" "m \<le> ln j" "j \<notin> {}"
    have "ln j \<noteq> i" "ln j \<noteq> c" using i(1) ck(2) ln_odd by metis+
    then show "sw ks i c ! ln j \<le> sw ks i c ! j"
      using losD [OF hs(2) j] f(2,6,7) j less by (auto simp: n)
  qed
  moreover have "his (kids (c - 1)) m (sw ks i c) l"
    unfolding his_def
  proof (intro allI impI)
    fix j assume j: "3 \<le> j" "j \<le> l" "m \<le> rn j" "j \<notin> kids (c - 1)"
    then have nc: "rn j \<noteq> c" using rn_iff [OF j(1) ck(2,3)] by simp
    show "sw ks i c ! j \<le> sw ks i c ! rn j"
    proof (cases "j \<in> kids (i - 1)")
      case True
      then have "rn j = i" "j \<noteq> i" using rn_iff [OF j(1) i(1,2)] hole_hi_kid_facts(5) [OF h True j(2)] by auto
      then show ?thesis using greatest [OF True j(2)] less by (auto simp: n)
    next
      case False
      then have "rn j \<noteq> i" "j \<noteq> c" using rn_iff [OF j(1) i(1,2)] ck(1) by auto
      then show ?thesis using nc hisD [OF hs(3) j(1-3) False] f(8) j by (auto simp: n)
    qed
  qed
  moreover have "sw ks i c ! j \<le> sw ks i c ! rn c" if j: "j \<in> kids (c - 1)" "j \<le> l" "m \<le> rn c" for j
  proof -
    have "2 * c < j + 2" "c \<le> 2 * i + 2" using kids_ge(1) [OF j(1)] ck(3) c by auto
    then have "j \<notin> kids (i - 1)" "j \<noteq> i" "j \<noteq> c" "3 \<le> j" using f(5) c i(2) by (auto simp: kids_def)
    moreover from this have "rn j = c" using rn_iff [OF _ ck(2,3)] j(1) by simp
    ultimately show ?thesis using hisD [OF hs(3), of j] j f(3,5) i(3) by (auto simp: n)
  qed
  ultimately show ?thesis using i f(5) ck by (auto simp: hole_hi_def)
qed

lemma kids_pred_cases:
  "j \<in> kids (i - 1) \<Longrightarrow> 2 \<le> i \<Longrightarrow> j = 2 * i - 1 \<or> j = 2 * i \<or> j = 2 * i + 1 \<or> j = 2 * i + 2"
  by (auto simp: kids_def)

lemma min_kid_max_greatest:
  "j = 2 * i - 1 \<or> j = 2 * i + 1 \<Longrightarrow> j \<le> l \<Longrightarrow> ks ! j \<le> ks ! min_kid_max ks i l"
  by (auto simp: min_kid_max_def)

lemma max_kid_max_greatest_even:
  "j = 2 * i \<or> j = 2 * i + 2 \<Longrightarrow> j \<le> l \<Longrightarrow> ks ! j \<le> ks ! max_kid_max ks i l"
  by (auto simp: max_kid_max_def)

lemma max_kids_below:
  assumes "2 \<le> i" "j \<in> kids (i - 1)" "j \<le> l"
    and "\<not> ks ! i < ks ! min_kid_max ks i l" "\<not> (2 * i \<le> l \<and> ks ! i < ks ! max_kid_max ks i l)"
  shows "ks ! j \<le> ks ! i"
  using kids_pred_cases [OF assms(2,1)] assms(1,3-5) min_kid_max_greatest [of j i l ks] max_kid_max_greatest_even [of j i l ks]
  by (auto intro: order_trans)

lemma max_kid_max_greatest:
  assumes "hole_hi m ks i l" "2 * i \<le> l" "j \<in> kids (i - 1)" "j \<le> l"
    and "\<not> ks ! i < ks ! min_kid_max ks i l" "ks ! i < ks ! max_kid_max ks i l"
  shows "ks ! j \<le> ks ! max_kid_max ks i l"
proof -
  have "2 \<le> i" using assms(1) by (simp add: hole_hi_def)
  then show ?thesis using kids_pred_cases [OF assms(3)] assms(2,4-6) min_kid_max_greatest [of j i l ks]
      max_kid_max_greatest_even [of j i l ks] by auto
qed

lemma hole_hi_done:
  assumes h: "hole_hi m ks i l" and "\<And>j. j \<in> kids (i - 1) \<Longrightarrow> j \<le> l \<Longrightarrow> ks ! j \<le> ks ! i"
  shows "smm m ks l"
proof -
  have "his {} m ks l"
    unfolding his_def
  proof (intro allI impI)
    fix j assume j: "3 \<le> j" "j \<le> l" "m \<le> rn j" "j \<notin> {}"
    show "ks ! j \<le> ks ! rn j"
    proof (cases "j \<in> kids (i - 1)")
      case True
      then show ?thesis using assms(2) [OF True j(2)] rn_iff [OF j(1), of i] h by (simp add: hole_hi_def)
    next
      case False
      then show ?thesis using h hisD [of "kids (i - 1)" m ks l j] j by (simp add: hole_hi_def)
    qed
  qed
  then show ?thesis using h by (simp add: smm_def hole_hi_def)
qed

section \<open>Sifting up\<close>

text \<open>The node \<open>c\<close> may exceed its upper bound; the nodes in \<open>X\<close> below need not respect their lower bounds.\<close>

definition up_hi :: "nat set \<Rightarrow> 'a::linorder list \<Rightarrow> nat \<Rightarrow> nat \<Rightarrow> bool" where
  "up_hi X ks c l \<longleftrightarrow> 1 \<le> c \<and> c \<le> l \<and> (\<forall>x\<in>X. c < x) \<and> sibs 1 ks l \<and> los X 1 ks l \<and> his {c} 1 ks l \<and>
     (3 \<le> c \<longrightarrow> ks ! ln c \<le> ks ! c) \<and> (\<forall>j. 3 \<le> j \<longrightarrow> j \<le> l \<longrightarrow> rn j = c \<longrightarrow> 3 \<le> c \<longrightarrow> ks ! j \<le> ks ! rn c)"

definition up_lo :: "nat set \<Rightarrow> 'a::linorder list \<Rightarrow> nat \<Rightarrow> nat \<Rightarrow> bool" where
  "up_lo X ks c l \<longleftrightarrow> 1 \<le> c \<and> c \<le> l \<and> (\<forall>x\<in>X. c < x) \<and> sibs 1 ks l \<and> los {c} 1 ks l \<and> his X 1 ks l \<and>
     (3 \<le> c \<longrightarrow> ks ! c \<le> ks ! rn c) \<and> (\<forall>j. 3 \<le> j \<longrightarrow> j \<le> l \<longrightarrow> ln j = c \<longrightarrow> 3 \<le> c \<longrightarrow> ks ! ln c \<le> ks ! j)"

lemma up_hi_step:
  assumes u: "up_hi X ks c l" and l: "l < length ks" and c: "3 \<le> c" and less: "ks ! rn c < ks ! c"
  shows "up_hi X (sw ks (rn c) c) (rn c) l"
proof -
  let ?p = "rn c"
  have us: "c \<le> l" "\<forall>x\<in>X. c < x" "sibs 1 ks l" "los X 1 ks l" "his {c} 1 ks l"
    "\<And>j. 3 \<le> j \<Longrightarrow> j \<le> l \<Longrightarrow> rn j = c \<Longrightarrow> ks ! j \<le> ks ! ?p" using u c by (auto simp: up_hi_def)
  have p: "?p < c" "2 \<le> ?p" "ln c = ?p - 1" "odd (?p - 1)" using ln_less [OF c] ln_pos by (auto simp: rn_def)
  have n: "sw ks ?p c ! x = (if x = ?p then ks ! c else if x = c then ks ! ?p else ks ! x)" for x
    using p us(1) l by (intro sw_nth) auto
  have pp: "ks ! (?p - 1) \<le> ks ! ?p" using sibsD [OF us(3) p(4)] p us(1) by simp
  have lone: "\<not> c < l" if "odd c"
  proof
    assume "c < l"
    then have "ks ! c \<le> ks ! Suc c" "ks ! Suc c \<le> ks ! ?p"
      using sibsD [OF us(3) that] hisD [OF us(5), of "Suc c"] ln_sib [OF c that] c ln_pos(2) [of c] by auto
    then show False using less by simp
  qed
  have "sibs 1 (sw ks ?p c) l"
    unfolding sibs_def
  proof (intro allI impI)
    fix j assume j: "odd j" "1 \<le> j" "j < l"
    have "j \<noteq> ?p" using j(1) rn_even by metis
    moreover have "j \<noteq> c" using lone j by auto
    moreover have "ks ! j \<le> ks ! ?p" if jc: "Suc j = c"
    proof -
      have "3 \<le> j" using jc c j(1) by presburger
      then show ?thesis using hisD [OF us(5), of j] jc j ln_sib [of j] ln_pos(2) [of j] by auto
    qed
    ultimately show "sw ks ?p c ! j \<le> sw ks ?p c ! Suc j" using sibsD [OF us(3) j] less p(1) by (auto simp: n)
  qed
  moreover have "los X 1 (sw ks ?p c) l"
    unfolding los_def
  proof (intro allI impI)
    fix j assume j: "3 \<le> j" "j \<le> l" "1 \<le> ln j" "j \<notin> X"
    have "ln j \<noteq> ?p" using ln_odd rn_even by metis
    moreover have "ln j \<noteq> c" using lone ln_odd [of j] ln_less [OF j(1)] j(2) by auto
    ultimately show "sw ks ?p c ! ln j \<le> sw ks ?p c ! j" using losD [OF us(4) j] less pp p by (auto simp: n)
  qed
  moreover have "his {?p} 1 (sw ks ?p c) l"
    unfolding his_def
  proof (intro allI impI)
    fix j assume j: "3 \<le> j" "j \<le> l" "1 \<le> rn j" "j \<notin> {?p}"
    then show "sw ks ?p c ! j \<le> sw ks ?p c ! rn j"
      using hisD [OF us(5) j(1-3)] us(6) [OF j(1,2)] less p(1) ln_less [OF j(1)] by (cases "j = c") (auto simp: n)
  qed
  moreover have "sw ks ?p c ! ln ?p \<le> sw ks ?p c ! ?p" if "3 \<le> ?p"
  proof -
    have "?p \<notin> X" using us(2) p(1) by auto
    then have "ks ! ln ?p \<le> ks ! ?p" using losD [OF us(4) that] us(1) p(1) ln_pos(1) [of ?p] by simp
    then show ?thesis using less ln_less [OF that] p(1) by (auto simp: n)
  qed
  moreover have "sw ks ?p c ! j \<le> sw ks ?p c ! rn ?p" if j: "3 \<le> j" "j \<le> l" "rn j = ?p" "3 \<le> ?p" for j
  proof -
    have "ks ! ?p \<le> ks ! rn ?p" using hisD [OF us(5) j(4)] p us(1) ln_pos(2) [of ?p] by auto
    moreover have "j \<noteq> c \<Longrightarrow> ks ! j \<le> ks ! ?p" using hisD [OF us(5) j(1,2)] j p(2) by auto
    ultimately show ?thesis using ln_less [OF j(1)] ln_less [OF j(4)] j(3) p by (auto simp: n)
  qed
  ultimately show ?thesis using us(1,2) p by (auto simp: up_hi_def)
qed

lemma up_lo_step:
  assumes u: "up_lo X ks c l" and l: "l < length ks" and c: "3 \<le> c" and less: "ks ! c < ks ! ln c"
  shows "up_lo X (sw ks (ln c) c) (ln c) l"
proof -
  let ?p = "ln c"
  have us: "c \<le> l" "\<forall>x\<in>X. c < x" "sibs 1 ks l" "los {c} 1 ks l" "his X 1 ks l"
    "\<And>j. 3 \<le> j \<Longrightarrow> j \<le> l \<Longrightarrow> ln j = c \<Longrightarrow> ks ! ?p \<le> ks ! j" using u c by (auto simp: up_lo_def)
  have p: "?p < c" "1 \<le> ?p" "rn c = Suc ?p" "Suc ?p < c" using ln_less [OF c] ln_pos by (auto simp: rn_def)
  have n: "sw ks ?p c ! x = (if x = ?p then ks ! c else if x = c then ks ! ?p else ks ! x)" for x
    using p us(1) l by (intro sw_nth) auto
  have pp: "ks ! ?p \<le> ks ! Suc ?p" using sibsD [OF us(3) ln_odd] p us(1) by simp
  have co: "odd c"
  proof (rule ccontr)
    assume "\<not> odd c"
    then have s: "odd (c - 1)" "Suc (c - 1) = c" "3 \<le> c - 1" using c by (auto elim!: evenE; presburger)+
    then have "ks ! (c - 1) \<le> ks ! c" "ks ! ?p \<le> ks ! (c - 1)"
      using sibsD [OF us(3) s(1)] losD [OF us(4) s(3)] ln_sib [OF s(3,1)] us(1) ln_pos(1) [of c] by auto
    then show False using less by simp
  qed
  have "sibs 1 (sw ks ?p c) l"
    unfolding sibs_def
  proof (intro allI impI)
    fix j assume j: "odd j" "1 \<le> j" "j < l"
    have "Suc j \<noteq> ?p" "Suc j \<noteq> c" using j(1) co ln_odd by (metis even_Suc)+
    moreover have "ks ! ?p \<le> ks ! Suc j" if "j = c"
      using losD [OF us(4), of "Suc j"] that j ln_sib [OF c co] c ln_pos(1) [of c] by auto
    ultimately show "sw ks ?p c ! j \<le> sw ks ?p c ! Suc j" using sibsD [OF us(3) j] less p(1) by (auto simp: n)
  qed
  moreover have "los {?p} 1 (sw ks ?p c) l"
    unfolding los_def
  proof (intro allI impI)
    fix j assume j: "3 \<le> j" "j \<le> l" "1 \<le> ln j" "j \<notin> {?p}"
    then show "sw ks ?p c ! ln j \<le> sw ks ?p c ! j"
      using losD [OF us(4) j(1-3)] us(6) [OF j(1,2)] less p(1) ln_less [OF j(1)] by (cases "j = c") (auto simp: n)
  qed
  moreover have "his X 1 (sw ks ?p c) l"
    unfolding his_def
  proof (intro allI impI)
    fix j assume j: "3 \<le> j" "j \<le> l" "1 \<le> rn j" "j \<notin> X"
    have "rn j \<noteq> ?p" "rn j \<noteq> c" using co ln_odd rn_even by metis+
    then show "sw ks ?p c ! j \<le> sw ks ?p c ! rn j" using hisD [OF us(5) j] less pp p by (auto simp: n)
  qed
  moreover have "sw ks ?p c ! ?p \<le> sw ks ?p c ! rn ?p" if "3 \<le> ?p"
  proof -
    have "?p \<notin> X" using us(2) p(1) by auto
    then have "ks ! ?p \<le> ks ! rn ?p" using hisD [OF us(5) that] us(1) p(1) ln_pos(2) [of ?p] by simp
    then show ?thesis using less ln_less [OF that] p(1) by (auto simp: n)
  qed
  moreover have "sw ks ?p c ! ln ?p \<le> sw ks ?p c ! j" if j: "3 \<le> j" "j \<le> l" "ln j = ?p" "3 \<le> ?p" for j
  proof -
    have "ks ! ln ?p \<le> ks ! ?p" using losD [OF us(4) j(4)] p us(1) ln_pos(1) [of ?p] by auto
    moreover have "j \<noteq> c \<Longrightarrow> ks ! ?p \<le> ks ! j" using losD [OF us(4) j(1,2)] j p(2) by auto
    ultimately show ?thesis using ln_less [OF j(1)] ln_less [OF j(4)] j(3) p by (auto simp: n)
  qed
  ultimately show ?thesis using us(1,2) p by (auto simp: up_lo_def)
qed

lemma up_hi_done: "up_hi X ks c l \<Longrightarrow> (3 \<le> c \<Longrightarrow> ks ! c \<le> ks ! rn c) \<Longrightarrow> sibs 1 ks l \<and> los X 1 ks l \<and> his {} 1 ks l"
  by (auto simp: up_hi_def his_def)

lemma up_lo_done: "up_lo X ks c l \<Longrightarrow> (3 \<le> c \<Longrightarrow> ks ! ln c \<le> ks ! c) \<Longrightarrow> sibs 1 ks l \<and> los {} 1 ks l \<and> his X 1 ks l"
  by (auto simp: up_lo_def los_def)

section \<open>The root\<close>

lemma smm_bounds:
  assumes "smm 1 ks l" and "1 \<le> j" "j \<le> l"
  shows "ks ! 1 \<le> ks ! j" "2 \<le> l \<Longrightarrow> ks ! j \<le> ks ! 2"
proof -
  have s: "2 \<le> l \<Longrightarrow> ks ! 1 \<le> ks ! 2" using assms(1) sibsD [of 1 ks l 1] by (simp add: smm_def numeral_2_eq_2)
  show "ks ! 1 \<le> ks ! j" using assms(2,3)
  proof (induction j rule: less_induct)
    case (less j)
    show ?case
    proof (cases "3 \<le> j")
      case True
      then show ?thesis using less.IH [of "ln j"] ln_less [OF True] ln_pos(1) [of j] less.prems assms(1)
          losD [of "{}" 1 ks l j] by (auto simp: smm_def intro: order_trans)
    next
      case False
      then have "j = 1 \<or> j = 2" using less.prems by auto
      then show ?thesis using s less.prems by auto
    qed
  qed
  show "ks ! j \<le> ks ! 2" if "2 \<le> l" using assms(2,3)
  proof (induction j rule: less_induct)
    case (less j)
    show ?case
    proof (cases "3 \<le> j")
      case True
      then show ?thesis using less.IH [of "rn j"] ln_less [OF True] ln_pos(2) [of j] less.prems assms(1)
          hisD [of "{}" 1 ks l j] by (auto simp: smm_def intro: order_trans)
    next
      case False
      then have "j = 1 \<or> j = 2" using less.prems by auto
      then show ?thesis using s that less.prems by auto
    qed
  qed
qed

end
