(* ===== verification/Min_Max_Proofs.thy ===== *)
theory Min_Max_Proofs
  imports Min_Max_Heap Min_Max_Order
begin

text \<open>
  Correctness of the double-ended heap: the sift loops repair the order of the keys, every operation
  keeps it, and the least and the greatest entries are the ones that are popped.
\<close>

section \<open>Exchanges\<close>

definition mm_wf :: "('k, 'v) MinMax \<Rightarrow> bool" where
  "mm_wf h \<longleftrightarrow> length (mm_Keys h) = length (mm_Vals h)"

abbreviation entries :: "('k, 'v) MinMax \<Rightarrow> ('k \<times> 'v) list" where
  "entries h \<equiv> zip (mm_Keys h) (mm_Vals h)"

text \<open>The entries with an index from 1 to \<open>l\<close> are permuted, the others stay.\<close>

definition shuffles :: "nat \<Rightarrow> ('k, 'v) MinMax \<Rightarrow> ('k, 'v) MinMax \<Rightarrow> bool" where
  "shuffles l h h' \<longleftrightarrow> mm_wf h' \<and> length (mm_Keys h') = length (mm_Keys h) \<and> mm_callback h' = mm_callback h \<and>
     (\<forall>j. j = 0 \<or> l < j \<longrightarrow> j < length (mm_Keys h) \<longrightarrow> entries h' ! j = entries h ! j) \<and> mset (entries h') = mset (entries h)"

lemma shuffles_refl: "mm_wf h \<Longrightarrow> shuffles l h h"
  by (simp add: shuffles_def)

lemma shuffles_trans: "shuffles l h h' \<Longrightarrow> shuffles l h' h'' \<Longrightarrow> shuffles l h h''"
  by (auto simp: shuffles_def)

lemma shuffles_mono: "shuffles l h h' \<Longrightarrow> l \<le> k \<Longrightarrow> shuffles k h h'"
  by (auto simp: shuffles_def)

lemma shufflesD: "shuffles l h h' \<Longrightarrow> mm_wf h' \<and> length (mm_Keys h') = length (mm_Keys h)"
  by (auto simp: shuffles_def)

lemma mm_swap_ok:
  assumes wf: "mm_wf h" and ij: "1 \<le> i" "i \<le> l" "1 \<le> j" "j \<le> l" "l < length (mm_Keys h)"
  shows "\<exists>h'. mm_swap h (int i) (int j) = Inr h' \<and> mm_Keys h' = sw (mm_Keys h) i j \<and> shuffles l h h'"
proof -
  let ?ks = "sw (mm_Keys h) i j" and ?vs = "sw (mm_Vals h) i j"
  have z: "zip ?ks ?vs = sw (entries h) i j" using wf ij by (auto simp: sw_def mm_wf_def zip_update)
  have "mset (sw (entries h) i j) = mset (entries h)"
    unfolding sw_def using wf ij by (intro mset_swap') (auto simp: mm_wf_def)
  moreover have "sw (entries h) i j ! k = entries h ! k" if "k = 0 \<or> l < k" "k < length (mm_Keys h)" for k
    using wf ij that by (subst sw_nth) (auto simp: mm_wf_def)
  ultimately have "shuffles l h (h\<lparr>mm_Keys := ?ks, mm_Vals := ?vs, mm_calls := c\<rparr>)" for c
    using wf by (simp add: shuffles_def z mm_wf_def)
  note sh = this
  have "mm_swap h (int i) (int j) = Inr (h\<lparr>mm_Keys := ?ks, mm_Vals := ?vs,
      mm_calls := (if mm_callback h then mm_calls h @ [(?vs ! i, ?vs ! j, int i, int j)] else mm_calls h)\<rparr>)"
    using wf ij by (auto simp: mm_swap_def sw_def mm_wf_def)
  then show ?thesis using sh by auto
qed

lemma mm_lt_int [simp]:
  "i < length (mm_Keys h) \<Longrightarrow> j < length (mm_Keys h) \<Longrightarrow> mm_lt h (int i) (int j) = Inr (mm_Keys h ! i < mm_Keys h ! j)"
  by (simp add: mm_lt_def)

lemma mm_le_int [simp]:
  "i < length (mm_Keys h) \<Longrightarrow> j < length (mm_Keys h) \<Longrightarrow> mm_le h (int i) (int j) = Inr (mm_Keys h ! i \<le> mm_Keys h ! j)"
  by (simp add: mm_le_def)

section \<open>Sifting down\<close>

lemma down_pick_int:
  "(j \<le> l \<Longrightarrow> b = Inr c) \<Longrightarrow> down_pick b (int j) (int l) (int k) = Inr (int (if j \<le> l \<and> c then j else k))"
  by (simp add: down_pick_def)

lemma max_pick:
  assumes "l < length (mm_Keys h)" "2 * i + 2 \<le> l"
  shows "down_pick (mm_le h (int (2 * i + 4)) (int (2 * i + 2))) (int (2 * i + 4)) (int l) (int (2 * i + 2))
    = Inr (int (max_kid (mm_Keys h) i l))"
  unfolding max_kid_def using assms by (intro down_pick_int mm_le_int) auto

lemma min_loop_step:
  assumes l: "l < length (mm_Keys h)" "2 * i + 1 \<le> l"
  defines "ks \<equiv> mm_Keys h"
  shows "mm_siftDownMin_loop h (int i) (int l) =
    (if 2 * i + 2 \<le> l \<and> ks ! max_kid ks i l < ks ! i
     then rbind (mm_swap h (int i) (int (max_kid ks i l))) (\<lambda>h'. mm_siftDownMin_loop h' (int i) (int l))
     else if ks ! min_kid ks i l < ks ! i
     then rbind (mm_swap h (int i) (int (min_kid ks i l))) (\<lambda>h'. mm_siftDownMin_loop h' (int (min_kid ks i l)) (int l))
     else Inr (h, int i))"
proof -
  have ix: "2 * int i + 1 = int (2 * i + 1)" "int (2 * i + 1) + 1 = int (2 * i + 2)" "int (2 * i + 1) + 2 = int (2 * i + 3)"
    "int (2 * i + 1) + 3 = int (2 * i + 4)" by auto
  note mx = max_pick [OF l(1), of i, folded ks_def]
  have mn: "down_pick (mm_le h (int (2 * i + 3)) (int (2 * i + 1))) (int (2 * i + 3)) (int l) (int (2 * i + 1))
      = Inr (int (min_kid ks i l))"
    unfolding min_kid_def ks_def using l by (intro down_pick_int mm_le_int) auto
  have lx: "mm_lt h (int (max_kid ks i l)) (int i) = Inr (ks ! max_kid ks i l < ks ! i)" if "2 * i + 2 \<le> l"
    unfolding ks_def using l that by (intro mm_lt_int) (auto simp: max_kid_def)
  have lm: "mm_lt h (int (min_kid ks i l)) (int i) = Inr (ks ! min_kid ks i l < ks ! i)"
    unfolding ks_def using l by (intro mm_lt_int) (auto simp: min_kid_def)
  show ?thesis
    unfolding mm_siftDownMin_loop.simps [of h "int i"] Let_def ix mn of_nat_le_iff of_nat_less_iff
    using l(2) mx lx lm by (cases "2 * i + 2 \<le> l") (simp_all del: of_nat_add of_nat_mult of_nat_Suc)
qed

lemma min_loop_stop: "l < 2 * i + 1 \<Longrightarrow> mm_siftDownMin_loop h (int i) (int l) = Inr (h, int i)"
  by (simp add: mm_siftDownMin_loop.simps [of h "int i"])

lemma siftDownMin_ok:
  assumes "hole_lo m (mm_Keys h) i l" "mm_wf h" "l < length (mm_Keys h)"
  shows "\<exists>h' i'. mm_siftDownMin_loop h (int i) (int l) = Inr (h', i') \<and> shuffles l h h' \<and> smm m (mm_Keys h') l"
  using assms
proof (induction "min_measure h (int i) (int l)" arbitrary: h i rule: less_induct)
  case (less h i)
  let ?ks = "mm_Keys h"
  have i: "odd i" "1 \<le> i" using less.prems(1) by (auto simp: hole_lo_def intro: Suc_leI odd_pos)
  show ?case
  proof (cases "2 * i + 1 \<le> l")
    case False
    then have "smm m ?ks l" using less.prems(1) by (intro hole_lo_done [of m ?ks i]) (auto simp: kids_def)
    then show ?thesis using False less.prems(2) by (auto simp: min_loop_stop shuffles_refl)
  next
    case True
    note step = min_loop_step [OF less.prems(3) True]
    let ?x = "max_kid ?ks i l" and ?y = "min_kid ?ks i l"
    consider (mx) "2 * i + 2 \<le> l" "?ks ! ?x < ?ks ! i"
      | (mn) "\<not> (2 * i + 2 \<le> l \<and> ?ks ! ?x < ?ks ! i)" "?ks ! ?y < ?ks ! i"
      | (no) "\<not> (2 * i + 2 \<le> l \<and> ?ks ! ?x < ?ks ! i)" "\<not> ?ks ! ?y < ?ks ! i" by blast
    then show ?thesis
    proof cases
      case mx
      have x: "?x = 2 * i + 2 \<or> ?x = 2 * i + 4" "?x \<le> l" using mx(1) by (auto simp: max_kid_def)
      obtain h1 where h1: "mm_swap h (int i) (int ?x) = Inr h1" "mm_Keys h1 = sw ?ks i ?x" "shuffles l h h1"
        using mm_swap_ok [OF less.prems(2), of i l ?x] i x less.prems(3) by auto
      have hole: "hole_lo m (mm_Keys h1) i l"
        unfolding h1(2) by (rule hole_lo_swap_max [OF less.prems(1,3) x mx(2)])
      have "min_measure h1 (int i) (int l) < min_measure h (int i) (int l)"
      proof (rule min_swap_measure [OF _ _ _ _ h1(1)])
        show "down_pick (mm_le h (int (2 * i + 4)) (int (2 * i + 2))) (int (2 * i + 4)) (int l) (int (2 * i + 2)) = Inr (int ?x)"
          by (rule max_pick [OF less.prems(3) mx(1)])
        show "mm_lt h (int ?x) (int i) = Inr True" using mx x less.prems(3) i by simp
      qed simp_all
      from less.hyps [OF this hole] show ?thesis
        using step mx h1 shufflesD [OF h1(3)] less.prems(3) by (auto intro: shuffles_trans)
    next
      case mn
      have y: "?y = 2 * i + 1 \<or> ?y = 2 * i + 3" "?y \<le> l" using True by (auto simp: min_kid_def)
      obtain h1 where h1: "mm_swap h (int i) (int ?y) = Inr h1" "mm_Keys h1 = sw ?ks i ?y" "shuffles l h h1"
        using mm_swap_ok [OF less.prems(2), of i l ?y] i y less.prems(3) by auto
      have sib: "?ks ! i \<le> ?ks ! Suc ?y" if "Suc ?y \<le> l"
        using mn(1) y that max_kid_least [of i l "Suc ?y" ?ks] by auto
      have hole: "hole_lo m (mm_Keys h1) ?y l"
        unfolding h1(2) by (rule hole_lo_move [OF less.prems(1,3) y mn(2) min_kid_least [OF less.prems(1) True] sib])
      have "min_measure h1 (int ?y) (int l) < min_measure h (int i) (int l)"
        using y by (auto simp: min_measure_def)
      from less.hyps [OF this hole] show ?thesis
        using step mn h1 shufflesD [OF h1(3)] less.prems(3) by (auto intro: shuffles_trans)
    next
      case no
      have "?ks ! i \<le> ?ks ! j" if "j \<in> kids i" "j \<le> l" for j
        using min_kid_least [OF less.prems(1) True that] no(2) by simp
      then have "smm m ?ks l" by (rule hole_lo_done [OF less.prems(1)])
      then show ?thesis using step no less.prems(2) by (auto simp: shuffles_refl)
    qed
  qed
qed

lemma siftDownMin_stays:
  assumes "\<And>j. j \<in> kids i \<Longrightarrow> j \<le> l \<Longrightarrow> mm_Keys h ! i \<le> mm_Keys h ! j" "l < length (mm_Keys h)"
  shows "mm_siftDownMin_loop h (int i) (int l) = Inr (h, int i)"
proof (cases "2 * i + 1 \<le> l")
  case True
  have "2 * i + 2 \<le> l \<Longrightarrow> \<not> mm_Keys h ! max_kid (mm_Keys h) i l < mm_Keys h ! i"
    using assms(1) [of "max_kid (mm_Keys h) i l"] by (auto simp: max_kid_def kids_def)
  moreover have "\<not> mm_Keys h ! min_kid (mm_Keys h) i l < mm_Keys h ! i"
    using assms(1) [of "min_kid (mm_Keys h) i l"] True by (auto simp: min_kid_def kids_def)
  ultimately show ?thesis using min_loop_step [OF assms(2) True] by auto
qed (simp add: min_loop_stop)

lemma min_pick_max:
  assumes "l < length (mm_Keys h)" "2 * i - 1 \<le> l"
  shows "down_pick (mm_le h (int (2 * i - 1)) (int (2 * i + 1))) (int (2 * i + 1)) (int l) (int (2 * i - 1))
    = Inr (int (min_kid_max (mm_Keys h) i l))"
  unfolding min_kid_max_def using assms by (intro down_pick_int mm_le_int) auto

lemma max_loop_step:
  assumes l: "l < length (mm_Keys h)" "2 * i - 1 \<le> l" and i: "2 \<le> i"
  defines "ks \<equiv> mm_Keys h"
  shows "mm_siftDownMax_loop h (int i) (int l) =
    (if ks ! i < ks ! min_kid_max ks i l
     then rbind (mm_swap h (int i) (int (min_kid_max ks i l))) (\<lambda>h'. mm_siftDownMax_loop h' (int i) (int l))
     else if 2 * i \<le> l \<and> ks ! i < ks ! max_kid_max ks i l
     then rbind (mm_swap h (int i) (int (max_kid_max ks i l))) (\<lambda>h'. mm_siftDownMax_loop h' (int (max_kid_max ks i l)) (int l))
     else Inr (h, int i))"
proof -
  have ix: "int (2 * i) - 1 = int (2 * i - 1)" "int (2 * i - 1) + 2 = int (2 * i + 1)" "2 * int i = int (2 * i)"
    "int (2 * i) + 2 = int (2 * i + 2)" using i by auto
  note mn = min_pick_max [OF l, folded ks_def]
  have mx: "down_pick (mm_lt h (int (2 * i)) (int (2 * i + 2))) (int (2 * i + 2)) (int l) (int (2 * i))
      = Inr (int (max_kid_max ks i l))" if "2 * i \<le> l"
    unfolding max_kid_max_def ks_def using l that by (intro down_pick_int mm_lt_int) auto
  have lx: "mm_lt h (int i) (int (max_kid_max ks i l)) = Inr (ks ! i < ks ! max_kid_max ks i l)" if "2 * i \<le> l"
    unfolding ks_def using l that by (intro mm_lt_int) (auto simp: max_kid_max_def)
  have lm: "mm_lt h (int i) (int (min_kid_max ks i l)) = Inr (ks ! i < ks ! min_kid_max ks i l)"
    unfolding ks_def using l i by (intro mm_lt_int) (auto simp: min_kid_max_def)
  have g: "\<not> int (2 * i - 1) < 0" by simp
  show ?thesis
    unfolding mm_siftDownMax_loop.simps [of h "int i"] Let_def ix mn of_nat_le_iff of_nat_less_iff
    using l(2) mx lx lm g by (cases "2 * i \<le> l") (simp_all del: of_nat_add of_nat_mult of_nat_Suc of_nat_diff)
qed

lemma max_loop_stop: "l < 2 * i - 1 \<Longrightarrow> mm_siftDownMax_loop h (int i) (int l) = Inr (h, int i)"
  by (auto simp: mm_siftDownMax_loop.simps [of h "int i"] Let_def)

lemma siftDownMax_ok:
  assumes "hole_hi m (mm_Keys h) i l" "mm_wf h" "l < length (mm_Keys h)"
  shows "\<exists>h' i'. mm_siftDownMax_loop h (int i) (int l) = Inr (h', i') \<and> shuffles l h h' \<and> smm m (mm_Keys h') l"
  using assms
proof (induction "max_measure h (int i) (int l)" arbitrary: h i rule: less_induct)
  case (less h i)
  let ?ks = "mm_Keys h"
  have i: "even i" "2 \<le> i" using less.prems(1) by (auto simp: hole_hi_def)
  show ?case
  proof (cases "2 * i - 1 \<le> l")
    case False
    then have "smm m ?ks l" using less.prems(1) i by (intro hole_hi_done [of m ?ks i]) (auto simp: kids_def)
    then show ?thesis using False less.prems(2) by (auto simp: max_loop_stop shuffles_refl)
  next
    case True
    note step = max_loop_step [OF less.prems(3) True i(2)]
    let ?x = "max_kid_max ?ks i l" and ?y = "min_kid_max ?ks i l"
    consider (mn) "?ks ! i < ?ks ! ?y"
      | (mx) "\<not> ?ks ! i < ?ks ! ?y" "2 * i \<le> l" "?ks ! i < ?ks ! ?x"
      | (no) "\<not> ?ks ! i < ?ks ! ?y" "\<not> (2 * i \<le> l \<and> ?ks ! i < ?ks ! ?x)" by blast
    then show ?thesis
    proof cases
      case mn
      have y: "?y = 2 * i - 1 \<or> ?y = 2 * i + 1" "?y \<le> l" using True by (auto simp: min_kid_max_def)
      then have il: "1 \<le> ?y" "i \<le> l" "1 \<le> i" using i(2) True by auto
      then obtain h1 where h1: "mm_swap h (int i) (int ?y) = Inr h1" "mm_Keys h1 = sw ?ks i ?y" "shuffles l h h1"
        using mm_swap_ok [OF less.prems(2), of i l ?y] y(2) less.prems(3) by blast
      have hole: "hole_hi m (mm_Keys h1) i l"
        unfolding h1(2) by (rule hole_hi_swap_min [OF less.prems(1,3) y mn])
      have "max_measure h1 (int i) (int l) < max_measure h (int i) (int l)"
      proof (rule max_swap_measure [OF _ _ _ _ _ h1(1)])
        show "down_pick (mm_le h (int (2 * i - 1)) (int (2 * i + 1))) (int (2 * i + 1)) (int l) (int (2 * i - 1)) = Inr (int ?y)"
          by (rule min_pick_max [OF less.prems(3) True])
        show "mm_lt h (int i) (int ?y) = Inr True" using mn y(2) less.prems(3) il(2) by simp
      qed (use i in simp_all)
      from less.hyps [OF this hole] show ?thesis
        using step mn h1 shufflesD [OF h1(3)] less.prems(3) by (auto intro: shuffles_trans)
    next
      case mx
      have x: "?x = 2 * i \<or> ?x = 2 * i + 2" "?x \<le> l" using mx(2) by (auto simp: max_kid_max_def)
      obtain h1 where h1: "mm_swap h (int i) (int ?x) = Inr h1" "mm_Keys h1 = sw ?ks i ?x" "shuffles l h h1"
        using mm_swap_ok [OF less.prems(2), of i l ?x] i x less.prems(3) by auto
      have sib: "?ks ! (?x - 1) \<le> ?ks ! i"
        using mx(1,2) x min_kid_max_greatest [of "?x - 1" i l ?ks] True by auto
      have hole: "hole_hi m (mm_Keys h1) ?x l"
        unfolding h1(2) by (rule hole_hi_move [OF less.prems(1,3) x mx(3) max_kid_max_greatest [OF less.prems(1) mx(2) _ _ mx(1) mx(3)] sib])
      have "max_measure h1 (int ?x) (int l) < max_measure h (int i) (int l)"
        using x i by (auto simp: max_measure_def)
      from less.hyps [OF this hole] show ?thesis
        using step mx h1 shufflesD [OF h1(3)] less.prems(3) by (auto intro: shuffles_trans)
    next
      case no
      have "?ks ! j \<le> ?ks ! i" if "j \<in> kids (i - 1)" "j \<le> l" for j
        using max_kids_below [OF i(2) that] no by simp
      then have "smm m ?ks l" by (rule hole_hi_done [OF less.prems(1)])
      then show ?thesis using step no less.prems(2) by (auto simp: shuffles_refl)
    qed
  qed
qed

lemma siftDownMax_stays:
  assumes "\<And>j. j \<in> kids (i - 1) \<Longrightarrow> j \<le> l \<Longrightarrow> mm_Keys h ! j \<le> mm_Keys h ! i" "l < length (mm_Keys h)" "2 \<le> i"
  shows "mm_siftDownMax_loop h (int i) (int l) = Inr (h, int i)"
proof (cases "2 * i - 1 \<le> l")
  case True
  obtain k where k: "i = Suc k" using assms(3) by (cases i) auto
  have "\<not> mm_Keys h ! i < mm_Keys h ! min_kid_max (mm_Keys h) i l"
    using assms(1) [of "min_kid_max (mm_Keys h) i l"] True by (auto simp: min_kid_max_def kids_def k)
  moreover have "2 * i \<le> l \<Longrightarrow> \<not> mm_Keys h ! i < mm_Keys h ! max_kid_max (mm_Keys h) i l"
    using assms(1) [of "max_kid_max (mm_Keys h) i l"] by (auto simp: max_kid_max_def kids_def k)
  ultimately show ?thesis using max_loop_step [OF assms(2) True assms(3)] by auto
qed (simp add: max_loop_stop)

section \<open>Sifting up\<close>

lemma siftUp_step:
  assumes c: "1 \<le> c" "c < length (mm_Keys h)" and two: "2 < length (mm_Keys h)"
  defines "ks \<equiv> mm_Keys h"
  shows "mm_siftUp h (int c) =
    (if ks ! c < ks ! ln c then rbind (mm_swap h (int (ln c)) (int c)) (\<lambda>h'. mm_siftUp h' (int (ln c)))
     else if ks ! rn c < ks ! c then rbind (mm_swap h (int (rn c)) (int c)) (\<lambda>h'. mm_siftUp h' (int (rn c)))
     else Inr h)"
proof -
  have q: "quot (int c - 3) 4 = int ((c - 3) div 4)"
  proof (cases "3 \<le> c")
    case True
    then show ?thesis by (simp add: quot_nonneg zdiv_int of_nat_diff)
  next
    case False
    then show ?thesis using c(1) by (subst quot_small) auto
  qed
  then have lr: "2 * quot (int c - 3) 4 + 1 = int (ln c)" "int (ln c) + 1 = int (rn c)" by (simp_all add: ln_def rn_def)
  have "rn c < length ks"
  proof (cases "3 \<le> c")
    case True
    then show ?thesis using ln_less [OF True] c(2) by (simp add: ks_def)
  next
    case False
    then have "rn c = 2" by (simp add: rn_def ln_def)
    then show ?thesis using two by (simp add: ks_def)
  qed
  then have "rn c < length (mm_Keys h)" "ln c < length (mm_Keys h)" by (auto simp: ks_def rn_def)
  then have b: "mm_lt h (int c) (int (ln c)) = Inr (ks ! c < ks ! ln c)" "mm_lt h (int (rn c)) (int c) = Inr (ks ! rn c < ks ! c)"
    using c(2) by (simp_all add: ks_def)
  show ?thesis unfolding mm_siftUp.simps [of h "int c"] Let_def lr b using q by simp
qed

lemma siftUp_top:
  assumes "c = 1 \<or> c = 2" "2 < length (mm_Keys h)" "mm_Keys h ! 1 \<le> mm_Keys h ! 2"
  shows "mm_siftUp h (int c) = Inr h"
proof -
  have "ln c = 1" "rn c = 2" using assms(1) by (auto simp: ln_def rn_def)
  then show ?thesis using siftUp_step [of c h] assms by auto
qed

lemma siftUp_stays:
  assumes "smm 1 (mm_Keys h) l" "1 \<le> c" "c \<le> l" "2 \<le> l" "l < length (mm_Keys h)"
  shows "mm_siftUp h (int c) = Inr h"
proof (cases "3 \<le> c")
  case True
  then have "mm_Keys h ! ln c \<le> mm_Keys h ! c" "mm_Keys h ! c \<le> mm_Keys h ! rn c"
    using assms(1,3) ln_pos [of c] losD [of "{}" 1 "mm_Keys h" l c] hisD [of "{}" 1 "mm_Keys h" l c] by (auto simp: smm_def)
  then show ?thesis using siftUp_step [of c h] assms by auto
next
  case False
  then show ?thesis using smm_bounds(2) [OF assms(1), of 1] assms(2-5) by (intro siftUp_top) auto
qed

text \<open>Outside the path from \<open>c\<close> to the root nothing changes; the path of a right node has right nodes only.\<close>

definition above :: "nat \<Rightarrow> 'a list \<Rightarrow> 'a list \<Rightarrow> bool" where
  "above c ks ks' \<longleftrightarrow> (\<forall>j. c < j \<or> odd c \<noteq> odd j \<longrightarrow> ks' ! j = ks ! j)"

lemma above_refl: "above c ks ks"
  by (simp add: above_def)

lemma above_step:
  assumes "above p (sw ks p c) ks'" "p < c" "c < length ks" "odd p = odd c"
  shows "above c ks ks'"
  using assms by (auto simp: above_def sw_nth)

lemma siftUp_hi:
  assumes "up_hi X (mm_Keys h) c l" "mm_wf h" "2 \<le> l" "l < length (mm_Keys h)"
  shows "\<exists>h'. mm_siftUp h (int c) = Inr h' \<and> shuffles l h h' \<and> (even c \<longrightarrow> above c (mm_Keys h) (mm_Keys h')) \<and>
     sibs 1 (mm_Keys h') l \<and> los X 1 (mm_Keys h') l \<and> his {} 1 (mm_Keys h') l"
  using assms
proof (induction c arbitrary: h rule: less_induct)
  case (less c)
  let ?ks = "mm_Keys h"
  have c: "1 \<le> c" "c \<le> l" "sibs 1 ?ks l" using less.prems(1) by (auto simp: up_hi_def)
  show ?case
  proof (cases "3 \<le> c \<and> ?ks ! rn c < ?ks ! c")
    case True
    then have p: "rn c < c" "2 \<le> rn c" using ln_less ln_pos by auto
    obtain h1 where h1: "mm_swap h (int (rn c)) (int c) = Inr h1" "mm_Keys h1 = sw ?ks (rn c) c" "shuffles l h h1"
      using mm_swap_ok [OF less.prems(2), of "rn c" l c] p c less.prems(4) by auto
    have "up_hi X (mm_Keys h1) (rn c) l"
      unfolding h1(2) using True by (intro up_hi_step [OF less.prems(1,4)]) auto
    from less.IH [OF p(1) this] obtain h2 where h2: "mm_siftUp h1 (int (rn c)) = Inr h2" "shuffles l h1 h2"
      "above (rn c) (mm_Keys h1) (mm_Keys h2)" "sibs 1 (mm_Keys h2) l" "los X 1 (mm_Keys h2) l" "his {} 1 (mm_Keys h2) l"
      using shufflesD [OF h1(3)] less.prems(3,4) by auto
    have "\<not> ?ks ! c < ?ks ! ln c" using less.prems(1) True by (auto simp: up_hi_def)
    then have "mm_siftUp h (int c) = Inr h2" using siftUp_step [of c h] True h1(1) h2(1) c less.prems(3,4) by simp
    moreover have "even c \<longrightarrow> above c ?ks (mm_Keys h2)"
      using above_step [of "rn c" ?ks c "mm_Keys h2"] h2(3) p c(2) less.prems(4) by (auto simp: h1(2))
    ultimately show ?thesis using shuffles_trans [OF h1(3) h2(2)] h2(4-6) by blast
  next
    case False
    have "mm_siftUp h (int c) = Inr h"
    proof (cases "3 \<le> c")
      case True
      then have "?ks ! ln c \<le> ?ks ! c" using less.prems(1) by (simp add: up_hi_def)
      then show ?thesis using siftUp_step [of c h] True False c less.prems(3,4) by auto
    next
      case 2: False
      then show ?thesis using sibsD [OF c(3), of 1] c(1) less.prems(3,4) by (intro siftUp_top) (auto simp: numeral_2_eq_2)
    qed
    then show ?thesis using up_hi_done [OF less.prems(1)] False less.prems(2) by (auto simp: shuffles_refl above_refl)
  qed
qed

lemma siftUp_lo:
  assumes "up_lo X (mm_Keys h) c l" "mm_wf h" "2 \<le> l" "l < length (mm_Keys h)"
  shows "\<exists>h'. mm_siftUp h (int c) = Inr h' \<and> shuffles l h h' \<and> (odd c \<longrightarrow> above c (mm_Keys h) (mm_Keys h')) \<and>
     sibs 1 (mm_Keys h') l \<and> los {} 1 (mm_Keys h') l \<and> his X 1 (mm_Keys h') l"
  using assms
proof (induction c arbitrary: h rule: less_induct)
  case (less c)
  let ?ks = "mm_Keys h"
  have c: "1 \<le> c" "c \<le> l" "sibs 1 ?ks l" using less.prems(1) by (auto simp: up_lo_def)
  show ?case
  proof (cases "3 \<le> c \<and> ?ks ! c < ?ks ! ln c")
    case True
    then have p: "ln c < c" "1 \<le> ln c" using ln_less ln_pos by auto
    obtain h1 where h1: "mm_swap h (int (ln c)) (int c) = Inr h1" "mm_Keys h1 = sw ?ks (ln c) c" "shuffles l h h1"
      using mm_swap_ok [OF less.prems(2), of "ln c" l c] p c less.prems(4) by auto
    have "up_lo X (mm_Keys h1) (ln c) l"
      unfolding h1(2) using True by (intro up_lo_step [OF less.prems(1,4)]) auto
    from less.IH [OF p(1) this] obtain h2 where h2: "mm_siftUp h1 (int (ln c)) = Inr h2" "shuffles l h1 h2"
      "above (ln c) (mm_Keys h1) (mm_Keys h2)" "sibs 1 (mm_Keys h2) l" "los {} 1 (mm_Keys h2) l" "his X 1 (mm_Keys h2) l"
      using shufflesD [OF h1(3)] less.prems(3,4) by auto
    have "mm_siftUp h (int c) = Inr h2" using siftUp_step [of c h] True h1(1) h2(1) c less.prems(3,4) by simp
    moreover have "odd c \<longrightarrow> above c ?ks (mm_Keys h2)"
      using above_step [of "ln c" ?ks c "mm_Keys h2"] h2(3) p c(2) less.prems(4) by (auto simp: h1(2))
    ultimately show ?thesis using shuffles_trans [OF h1(3) h2(2)] h2(4-6) by blast
  next
    case False
    have "mm_siftUp h (int c) = Inr h"
    proof (cases "3 \<le> c")
      case True
      then have "?ks ! c \<le> ?ks ! rn c" using less.prems(1) by (simp add: up_lo_def)
      then show ?thesis using siftUp_step [of c h] True False c less.prems(3,4) by auto
    next
      case 2: False
      then show ?thesis using sibsD [OF c(3), of 1] c(1) less.prems(3,4) by (intro siftUp_top) (auto simp: numeral_2_eq_2)
    qed
    then show ?thesis using up_lo_done [OF less.prems(1)] False less.prems(2) by (auto simp: shuffles_refl above_refl)
  qed
qed

text \<open>A node that may be out of place in either direction.\<close>

lemma siftUp_any:
  assumes c: "1 \<le> c" "c \<le> l" and s: "sibs 1 (mm_Keys h) l" "los {c} 1 (mm_Keys h) l" "his {c} 1 (mm_Keys h) l"
    and k: "\<And>j. 3 \<le> j \<Longrightarrow> j \<le> l \<Longrightarrow> ln j = c \<Longrightarrow> 3 \<le> c \<Longrightarrow> mm_Keys h ! ln c \<le> mm_Keys h ! j"
      "\<And>j. 3 \<le> j \<Longrightarrow> j \<le> l \<Longrightarrow> rn j = c \<Longrightarrow> 3 \<le> c \<Longrightarrow> mm_Keys h ! j \<le> mm_Keys h ! rn c"
    and l: "mm_wf h" "2 \<le> l" "l < length (mm_Keys h)"
  shows "\<exists>h'. mm_siftUp h (int c) = Inr h' \<and> shuffles l h h' \<and> smm 1 (mm_Keys h') l"
proof (cases "3 \<le> c \<and> mm_Keys h ! c < mm_Keys h ! ln c")
  case True
  have "mm_Keys h ! ln c \<le> mm_Keys h ! rn c"
    using sibsD [OF s(1) ln_odd, of c] ln_less [of c] ln_pos(1) [of c] c(2) True by (simp add: rn_def)
  then have "up_lo {} (mm_Keys h) c l" using c s k True by (auto simp: up_lo_def his_def)
  then show ?thesis using siftUp_lo [OF _ l] by (force simp: smm_def)
next
  case False
  then have "up_hi {} (mm_Keys h) c l" using c s k by (auto simp: up_hi_def los_def)
  then show ?thesis using siftUp_hi [OF _ l] by (force simp: smm_def)
qed

end
