(* ===== verification/Min_Max_Update.thy ===== *)
theory Min_Max_Update
  imports Min_Max_Proofs
begin

text \<open>
  Replacing one key of a double-ended heap: whichever key is put at a node, \<^verbatim>\<open>updateMin\<close> and \<^verbatim>\<open>updateMax\<close>
  restore the order. This is what \<^verbatim>\<open>Remove\<close> and \<^verbatim>\<open>Update\<close> rest on.
\<close>

section \<open>Keys in order but for one node\<close>

lemma smm_cong:
  assumes "\<And>j. 1 \<le> j \<Longrightarrow> j \<le> l \<Longrightarrow> ks ! j = ks' ! j"
  shows "smm 1 ks l = smm 1 ks' l"
proof -
  have "sibs 1 ks l = sibs 1 ks' l" using assms by (auto simp: sibs_def)
  moreover have e: "ks ! j = ks' ! j \<and> ks ! ln j = ks' ! ln j \<and> ks ! rn j = ks' ! rn j" if "3 \<le> j" "j \<le> l" for j
    using assms [of j] assms [of "ln j"] assms [of "rn j"] that ln_less [of j] ln_pos [of j] by auto
  ultimately show ?thesis by (auto simp: smm_def los_def his_def)
qed

lemma smm_shorter: "smm m ks l \<Longrightarrow> l' \<le> l \<Longrightarrow> smm m ks l'"
  by (auto simp: smm_def sibs_def los_def his_def)

definition order_but :: "nat \<Rightarrow> 'a::linorder list \<Rightarrow> nat \<Rightarrow> bool" where
  "order_but i ks l \<longleftrightarrow> (\<exists>ks0. smm 1 ks0 l \<and> (\<forall>j. 1 \<le> j \<longrightarrow> j \<le> l \<longrightarrow> j \<noteq> i \<longrightarrow> ks ! j = ks0 ! j))"

lemma order_but_odd:
  assumes b: "order_but i ks l" and i: "odd i"
  shows "\<And>j. odd j \<Longrightarrow> j \<noteq> i \<Longrightarrow> j < l \<Longrightarrow> ks ! j \<le> ks ! Suc j"
    and "\<And>j. 3 \<le> j \<Longrightarrow> j \<le> l \<Longrightarrow> j \<noteq> i \<Longrightarrow> j \<notin> kids i \<Longrightarrow> ks ! ln j \<le> ks ! j"
    and "\<And>j. 3 \<le> j \<Longrightarrow> j \<le> l \<Longrightarrow> j \<noteq> i \<Longrightarrow> ks ! j \<le> ks ! rn j"
    and "\<And>j. j \<in> kids i \<Longrightarrow> j \<le> l \<Longrightarrow> 3 \<le> i \<Longrightarrow> ks ! ln i \<le> ks ! j"
proof -
  obtain ks0 where k: "smm 1 ks0 l" "\<And>j. 1 \<le> j \<Longrightarrow> j \<le> l \<Longrightarrow> j \<noteq> i \<Longrightarrow> ks ! j = ks0 ! j"
    using b by (auto simp: order_but_def)
  have o: "sibs 1 ks0 l" "los {} 1 ks0 l" "his {} 1 ks0 l" using k(1) by (auto simp: smm_def)
  show "ks ! j \<le> ks ! Suc j" if "odd j" "j \<noteq> i" "j < l" for j
  proof -
    have "Suc j \<noteq> i" "1 \<le> j" using that(1) i by (auto intro: Suc_leI odd_pos)
    then show ?thesis using sibsD [OF o(1) that(1)] k(2) [of j] k(2) [of "Suc j"] that by simp
  qed
  show "ks ! ln j \<le> ks ! j" if j: "3 \<le> j" "j \<le> l" "j \<noteq> i" "j \<notin> kids i" for j
    using losD [OF o(2) j(1,2)] ln_iff [OF j(1) i] k(2) [of j] k(2) [of "ln j"] j ln_less [OF j(1)] ln_pos [of j] by auto
  show "ks ! j \<le> ks ! rn j" if j: "3 \<le> j" "j \<le> l" "j \<noteq> i" for j
  proof -
    have "rn j \<noteq> i" using i rn_even by metis
    then show ?thesis using hisD [OF o(3) j(1,2)] k(2) [of j] k(2) [of "rn j"] j ln_less [OF j(1)] ln_pos [of j] by auto
  qed
  show "ks ! ln i \<le> ks ! j" if j: "j \<in> kids i" "j \<le> l" "3 \<le> i" for j
  proof -
    have j': "3 \<le> j" "ln j = i" "i < j" using kids_ge [of j i] j ln_iff [OF _ i] by auto
    have "ks0 ! ln i \<le> ks0 ! i" "ks0 ! i \<le> ks0 ! j"
      using losD [OF o(2) j(3)] losD [OF o(2) j'(1) j(2)] j' j(2,3) ln_pos(1) [of i] by auto
    then have "ks0 ! ln i \<le> ks0 ! j" by simp
    then show ?thesis using k(2) [of "ln i"] k(2) [of j] j j' ln_less [OF j(3)] ln_pos [of i] by auto
  qed
qed

lemma order_but_odd_up:
  assumes b: "order_but i ks l" "odd i" and s: "i < l \<Longrightarrow> ks ! i \<le> ks ! Suc i"
    and k: "\<And>j. j \<in> kids i \<Longrightarrow> j \<le> l \<Longrightarrow> ks ! i \<le> ks ! j"
  shows "sibs 1 ks l" "los {i} 1 ks l" "his {i} 1 ks l"
proof -
  note o = order_but_odd [OF b]
  show "sibs 1 ks l" using o(1) s by (auto simp: sibs_def)
  show "los {i} 1 ks l" unfolding los_def
  proof (intro allI impI)
    fix j assume j: "3 \<le> j" "j \<le> l" "1 \<le> ln j" "j \<notin> {i}"
    then show "ks ! ln j \<le> ks ! j" using o(2) [of j] k [of j] ln_iff [OF j(1) b(2)] by (cases "j \<in> kids i") auto
  qed
  show "his {i} 1 ks l" using o(3) by (auto simp: his_def)
qed

lemma order_but_odd_hole:
  assumes b: "order_but i ks l" "odd i" and s: "ks ! i \<le> ks ! Suc i" and k: "k \<in> kids i" "k \<le> l" "ks ! k < ks ! i"
  shows "hole_lo 1 ks i l"
proof -
  note o = order_but_odd [OF b]
  have i: "1 \<le> i" "i < l" using b(2) kids_ge(1) [OF k(1)] k(2) by (auto intro: Suc_leI odd_pos)
  have "sibs 1 ks l" using o(1) s by (auto simp: sibs_def)
  moreover have "ks ! ln i \<le> ks ! i" if "3 \<le> i" using o(4) [OF k(1,2) that] k(3) by simp
  then have "los (kids i) 1 ks l" using o(2) by (auto simp: los_def)
  moreover have "ks ! i \<le> ks ! rn i" if "3 \<le> i"
    using o(3) [of "Suc i"] ln_sib [OF that b(2)] i(2) that s by simp
  then have "his {} 1 ks l" using o(3) by (auto simp: his_def)
  ultimately show ?thesis using b(2) i o(4) by (auto simp: hole_lo_def)
qed

lemma order_but_odd_swap:
  assumes b: "order_but i ks l" "odd i" and i: "i < l" "l < length ks" and s: "ks ! Suc i < ks ! i"
  shows "up_hi (kids i) (sw ks i (Suc i)) (Suc i) l"
    and "\<And>j. j \<in> kids i \<Longrightarrow> j \<le> l \<Longrightarrow> 3 \<le> i \<Longrightarrow> sw ks i (Suc i) ! ln i \<le> sw ks i (Suc i) ! j"
proof -
  note o = order_but_odd [OF b]
  let ?k = "sw ks i (Suc i)"
  have i1: "1 \<le> i" using b(2) by (auto intro: Suc_leI odd_pos)
  have n: "?k ! x = (if x = i then ks ! Suc i else if x = Suc i then ks ! i else ks ! x)" for x
    using i by (intro sw_nth) auto
  have "sibs 1 ?k l" unfolding sibs_def
  proof (intro allI impI)
    fix j assume "odd j" "1 \<le> j" "j < l"
    moreover from this have "j \<noteq> Suc i" "Suc j \<noteq> i" using b(2) by auto
    ultimately show "?k ! j \<le> ?k ! Suc j" using o(1) [of j] s by (auto simp: n)
  qed
  moreover have l: "ks ! ln i \<le> ks ! Suc i" if "3 \<le> i"
    using o(2) [of "Suc i"] ln_sib [OF that b(2)] i that by (auto simp: kids_def)
  have "los (kids i) 1 ?k l" unfolding los_def
  proof (intro allI impI)
    fix j assume j: "3 \<le> j" "j \<le> l" "1 \<le> ln j" "j \<notin> kids i"
    have ne: "ln j \<noteq> i" "ln j \<noteq> Suc i" using ln_iff [OF j(1) b(2)] j(4) b(2) by (auto simp: ln_def)
    consider "j = i" | "j = Suc i" "3 \<le> i" | "j = Suc i" "i < 3" | "j \<noteq> i" "j \<noteq> Suc i" by linarith
    then show "?k ! ln j \<le> ?k ! j"
    proof cases
      case 2
      then show ?thesis using l ln_sib [OF 2(2) b(2)] ne s by (auto simp: n)
    next
      case 3
      then have "i = 1 \<or> i = 2" "j = Suc i" using i1 by auto
      then show ?thesis using j(1) b(2) by auto
    qed (use o(2) [OF j(1,2) _ j(4)] ne l j in \<open>auto simp: n\<close>)
  qed
  moreover have h: "ks ! Suc i \<le> ks ! rn (Suc i)" if "3 \<le> Suc i"
    using o(3) [OF that] i by simp
  have "his {Suc i} 1 ?k l" unfolding his_def
  proof (intro allI impI)
    fix j assume j: "3 \<le> j" "j \<le> l" "1 \<le> rn j" "j \<notin> {Suc i}"
    have "rn j \<noteq> i" using b(2) rn_even by metis
    moreover have "rn i \<noteq> Suc i" if "j = i" using ln_less [OF j(1)] that by auto
    ultimately show "?k ! j \<le> ?k ! rn j"
      using o(3) [OF j(1,2)] h ln_sib [OF _ b(2)] s j by (cases "j = i") (auto simp: n)
  qed
  moreover have "?k ! ln (Suc i) \<le> ?k ! Suc i" if "3 \<le> Suc i"
  proof -
    have "3 \<le> i" using that b(2) by (cases "i = 2") auto
    then show ?thesis using l ln_sib [OF _ b(2)] ln_less [of i] s by (auto simp: n)
  qed
  moreover have "?k ! j \<le> ?k ! rn (Suc i)" if j: "3 \<le> j" "j \<le> l" "rn j = Suc i" "3 \<le> Suc i" for j
  proof -
    have "i < j" "j \<noteq> Suc i" using ln_less [OF j(1)] j(3) by auto
    moreover have "ks ! j \<le> ks ! Suc i" using o(3) [OF j(1,2)] j(3) \<open>i < j\<close> by auto
    moreover have "rn (Suc i) \<noteq> i" using b(2) rn_even by metis
    moreover have "rn (Suc i) \<noteq> Suc i" using ln_less [OF j(4)] by auto
    ultimately show ?thesis using h [OF j(4)] by (auto simp: n)
  qed
  ultimately show "up_hi (kids i) ?k (Suc i) l" using i i1 by (auto simp: up_hi_def kids_def)
  show "?k ! ln i \<le> ?k ! j" if j: "j \<in> kids i" "j \<le> l" "3 \<le> i" for j
    using o(4) [OF j] kids_ge(1) [OF j(1)] ln_less [OF j(3)] j(3) by (auto simp: n)
qed

lemma ln_not_even: "odd p \<Longrightarrow> ln j \<noteq> Suc p"
  using ln_odd [of j] by (metis even_Suc)

lemma order_but_even:
  assumes b: "order_but (Suc p) ks l" and p: "odd p"
  shows "\<And>j. odd j \<Longrightarrow> j \<noteq> p \<Longrightarrow> j < l \<Longrightarrow> ks ! j \<le> ks ! Suc j"
    and "\<And>j. 3 \<le> j \<Longrightarrow> j \<le> l \<Longrightarrow> j \<noteq> Suc p \<Longrightarrow> ks ! ln j \<le> ks ! j"
    and "\<And>j. 3 \<le> j \<Longrightarrow> j \<le> l \<Longrightarrow> j \<noteq> Suc p \<Longrightarrow> j \<notin> kids p \<Longrightarrow> ks ! j \<le> ks ! rn j"
    and "\<And>j. j \<in> kids p \<Longrightarrow> j \<le> l \<Longrightarrow> 3 \<le> p \<Longrightarrow> ks ! j \<le> ks ! rn p"
proof -
  obtain ks0 where k: "smm 1 ks0 l" "\<And>j. 1 \<le> j \<Longrightarrow> j \<le> l \<Longrightarrow> j \<noteq> Suc p \<Longrightarrow> ks ! j = ks0 ! j"
    using b by (auto simp: order_but_def)
  have o: "sibs 1 ks0 l" "los {} 1 ks0 l" "his {} 1 ks0 l" using k(1) by (auto simp: smm_def)
  show "ks ! j \<le> ks ! Suc j" if "odd j" "j \<noteq> p" "j < l" for j
  proof -
    have "j \<noteq> Suc p" "1 \<le> j" using that(1) p by (auto intro: Suc_leI odd_pos)
    then show ?thesis using sibsD [OF o(1) that(1)] k(2) [of j] k(2) [of "Suc j"] that by simp
  qed
  show "ks ! ln j \<le> ks ! j" if j: "3 \<le> j" "j \<le> l" "j \<noteq> Suc p" for j
  proof -
    have "ln j \<noteq> Suc p" using p by (rule ln_not_even)
    then show ?thesis using losD [OF o(2) j(1,2)] k(2) [of j] k(2) [of "ln j"] j ln_less [OF j(1)] ln_pos [of j] by auto
  qed
  have r: "rn j = Suc p \<longleftrightarrow> j \<in> kids p" if "3 \<le> j" for j using ln_iff [OF that p] by (simp add: rn_def)
  show "ks ! j \<le> ks ! rn j" if j: "3 \<le> j" "j \<le> l" "j \<noteq> Suc p" "j \<notin> kids p" for j
    using hisD [OF o(3) j(1,2)] r [OF j(1)] k(2) [of j] k(2) [of "rn j"] j ln_less [OF j(1)] ln_pos [of j] by auto
  show "ks ! j \<le> ks ! rn p" if j: "j \<in> kids p" "j \<le> l" "3 \<le> p" for j
  proof -
    have j': "3 \<le> j" "Suc p < j" using kids_ge(1) [OF j(1)] j(3) by auto
    have "ks0 ! j \<le> ks0 ! Suc p" "ks0 ! Suc p \<le> ks0 ! rn p"
      using hisD [OF o(3) j'(1) j(2)] hisD [OF o(3), of "Suc p"] r [OF j'(1)] ln_sib [OF j(3) p] j j' ln_pos(2) [of p] by auto
    then have "ks0 ! j \<le> ks0 ! rn p" by simp
    then show ?thesis using k(2) [of "rn p"] k(2) [of j] j j' ln_less [OF j(3)] ln_pos [of p] by auto
  qed
qed

lemma order_but_even_up:
  assumes b: "order_but (Suc p) ks l" "odd p" and s: "ks ! p \<le> ks ! Suc p"
    and k: "\<And>j. j \<in> kids p \<Longrightarrow> j \<le> l \<Longrightarrow> ks ! j \<le> ks ! Suc p"
  shows "sibs 1 ks l" "los {Suc p} 1 ks l" "his {Suc p} 1 ks l"
proof -
  note o = order_but_even [OF b]
  show "sibs 1 ks l" unfolding sibs_def
  proof (intro allI impI)
    fix j assume "odd j" "1 \<le> j" "j < l"
    then show "ks ! j \<le> ks ! Suc j" using o(1) [of j] s by (cases "j = p") auto
  qed
  show "his {Suc p} 1 ks l" unfolding his_def
  proof (intro allI impI)
    fix j assume j: "3 \<le> j" "j \<le> l" "1 \<le> rn j" "j \<notin> {Suc p}"
    then show "ks ! j \<le> ks ! rn j" using o(3) [of j] k [of j] ln_iff [OF j(1) b(2)] by (cases "j \<in> kids p") (auto simp: rn_def)
  qed
  show "los {Suc p} 1 ks l" using o(2) by (auto simp: los_def)
qed

lemma order_but_even_hole:
  assumes b: "order_but (Suc p) ks l" "odd p" and s: "ks ! p \<le> ks ! Suc p" and k: "k \<in> kids p" "k \<le> l" "ks ! Suc p < ks ! k"
  shows "hole_hi 1 ks (Suc p) l"
proof -
  note o = order_but_even [OF b]
  have p: "1 \<le> p" using b(2) by (auto intro: Suc_leI odd_pos)
  then have pk: "Suc p < k" using kids_ge(1) [OF k(1)] by auto
  have p3: "3 \<le> p" if "3 \<le> Suc p" using that b(2) by (cases "p = 2") auto
  have r: "rn (Suc p) = rn p" if "3 \<le> Suc p" using ln_sib [OF p3 [OF that] b(2)] by simp
  have "sibs 1 ks l" unfolding sibs_def
  proof (intro allI impI)
    fix j assume "odd j" "1 \<le> j" "j < l"
    then show "ks ! j \<le> ks ! Suc j" using o(1) [of j] s by (cases "j = p") auto
  qed
  moreover have "ks ! ln (Suc p) \<le> ks ! Suc p" if "3 \<le> Suc p"
    using o(2) [of p] ln_sib [OF p3 [OF that] b(2)] p3 [OF that] s pk k(2) by simp
  then have "los {} 1 ks l" unfolding los_def using o(2) by metis
  moreover have "ks ! Suc p \<le> ks ! rn (Suc p)" if "3 \<le> Suc p"
    using o(4) [OF k(1,2) p3 [OF that]] r [OF that] k(3) by simp
  then have "his (kids p) 1 ks l" unfolding his_def using o(3) by metis
  moreover have "ks ! j \<le> ks ! rn (Suc p)" if "j \<in> kids p" "j \<le> l" "3 \<le> Suc p" for j
    using o(4) [OF that(1,2) p3 [OF that(3)]] r [OF that(3)] by simp
  ultimately show ?thesis using b(2) p by (auto simp: hole_hi_def)
qed

lemma order_but_even_swap:
  assumes b: "order_but (Suc p) ks l" "odd p" and i: "Suc p \<le> l" "l < length ks" and s: "ks ! Suc p < ks ! p"
  shows "up_lo (kids p) (sw ks (Suc p) p) p l"
    and "\<And>j. j \<in> kids p \<Longrightarrow> j \<le> l \<Longrightarrow> 3 \<le> p \<Longrightarrow> sw ks (Suc p) p ! j \<le> sw ks (Suc p) p ! rn p"
proof -
  note o = order_but_even [OF b]
  let ?k = "sw ks (Suc p) p"
  have p1: "1 \<le> p" using b(2) by (auto intro: Suc_leI odd_pos)
  have n: "?k ! x = (if x = Suc p then ks ! p else if x = p then ks ! Suc p else ks ! x)" for x
    using i by (intro sw_nth) auto
  have p3: "3 \<le> p" if "3 \<le> Suc p" using that b(2) by (cases "p = 2") auto
  have sib: "ln (Suc p) = ln p" "rn (Suc p) = rn p" if "3 \<le> Suc p" using ln_sib [OF p3 [OF that] b(2)] by auto
  have lo: "ks ! ln p \<le> ks ! p" and hi: "ks ! p \<le> ks ! rn p" if "3 \<le> p"
    using o(2) [OF that] o(3) [OF that] i by (auto simp: kids_def)
  have "sibs 1 ?k l" unfolding sibs_def
  proof (intro allI impI)
    fix j assume "odd j" "1 \<le> j" "j < l"
    moreover from this have "j \<noteq> Suc p" "Suc j \<noteq> p" using b(2) by auto
    ultimately show "?k ! j \<le> ?k ! Suc j" using o(1) [of j] s by (auto simp: n)
  qed
  moreover have "los {p} 1 ?k l" unfolding los_def
  proof (intro allI impI)
    fix j assume j: "3 \<le> j" "j \<le> l" "1 \<le> ln j" "j \<notin> {p}"
    have ne: "ln j \<noteq> Suc p" "ln j < j" using ln_not_even [of p j] b(2) ln_less [OF j(1)] by auto
    show "?k ! ln j \<le> ?k ! j"
    proof (cases "j = Suc p")
      case True
      then show ?thesis using lo [OF p3] sib(1) j(1) ln_less [of p] p3 s by (auto simp: n)
    next
      case False
      then show ?thesis using o(2) [OF j(1,2) False] ne j(4) s by (auto simp: n)
    qed
  qed
  moreover have "his (kids p) 1 ?k l" unfolding his_def
  proof (intro allI impI)
    fix j assume j: "3 \<le> j" "j \<le> l" "1 \<le> rn j" "j \<notin> kids p"
    have ne: "rn j \<noteq> p" "rn j \<noteq> Suc p" using rn_even [of j] b(2) ln_iff [OF j(1) b(2)] j(4) by (auto simp: rn_def)
    show "?k ! j \<le> ?k ! rn j"
    proof (cases "j = p \<or> j = Suc p")
      case True
      then have "3 \<le> p" "rn j = rn p" using p3 sib j(1) by auto
      then show ?thesis using hi True ne s by (auto simp: n)
    next
      case False
      then show ?thesis using o(3) [OF j(1,2) _ j(4)] ne by (auto simp: n)
    qed
  qed
  moreover have "?k ! p \<le> ?k ! rn p" if "3 \<le> p" using hi [OF that] s ln_less [OF that] by (auto simp: n)
  moreover have "?k ! ln p \<le> ?k ! j" if j: "3 \<le> j" "j \<le> l" "ln j = p" "3 \<le> p" for j
  proof -
    have "j \<in> kids p" using ln_iff [OF j(1) b(2)] j(3) by simp
    then have "Suc p < j" using kids_ge(1) [of j p] p1 by simp
    moreover have "ks ! p \<le> ks ! j" using o(2) [OF j(1,2)] j(3) \<open>Suc p < j\<close> by simp
    ultimately show ?thesis using lo [OF j(4)] ln_less [OF j(4)] by (auto simp: n)
  qed
  ultimately show "up_lo (kids p) ?k p l" using i p1 by (auto simp: up_lo_def kids_def)
  show "?k ! j \<le> ?k ! rn p" if j: "j \<in> kids p" "j \<le> l" "3 \<le> p" for j
    using o(4) [OF j] kids_ge(1) [OF j(1)] ln_less [OF j(3)] j(3) by (auto simp: n)
qed

section \<open>Updating a node\<close>

lemma updateMin_swap:
  assumes b: "order_but i (mm_Keys h) l" "odd i" and l: "i < l" "2 \<le> l" "l < length (mm_Keys h)" "mm_wf h"
    and s: "mm_Keys h ! Suc i < mm_Keys h ! i"
  shows "\<exists>h1 h2 h3 i3. mm_swap h (int i) (int (Suc i)) = Inr h1 \<and> mm_siftUp h1 (int (Suc i)) = Inr h2 \<and>
     mm_siftDownMin_loop h2 (int i) (int l) = Inr (h3, i3) \<and> shuffles l h h3 \<and> smm 1 (mm_Keys h3) l"
proof -
  have i: "1 \<le> i" using b(2) by (auto intro: Suc_leI odd_pos)
  obtain h1 where h1: "mm_swap h (int i) (int (Suc i)) = Inr h1" "mm_Keys h1 = sw (mm_Keys h) i (Suc i)" "shuffles l h h1"
    using mm_swap_ok [OF l(4), of i l "Suc i"] i l by auto
  note k = order_but_odd_swap [OF b l(1,3) s, folded h1(2)]
  have l1: "mm_wf h1" "l < length (mm_Keys h1)" using shufflesD [OF h1(3)] l(3) by auto
  obtain h2 where h2: "mm_siftUp h1 (int (Suc i)) = Inr h2" "shuffles l h1 h2" "above (Suc i) (mm_Keys h1) (mm_Keys h2)"
    "sibs 1 (mm_Keys h2) l" "los (kids i) 1 (mm_Keys h2) l" "his {} 1 (mm_Keys h2) l"
    using siftUp_hi [OF k(1) l1(1) l(2) l1(2)] b(2) by auto
  have "mm_Keys h2 ! ln i \<le> mm_Keys h2 ! j" if j: "j \<in> kids i" "j \<le> l" "3 \<le> i" for j
  proof -
    have "Suc i < j" using kids_ge(1) [OF j(1)] j(3) by simp
    then show ?thesis using k(2) [OF j] h2(3) b(2) by (auto simp: above_def)
  qed
  then have "hole_lo 1 (mm_Keys h2) i l" using b(2) i h2(4-6) by (auto simp: hole_lo_def)
  from siftDownMin_ok [OF this] obtain h3 i3 where
    "mm_siftDownMin_loop h2 (int i) (int l) = Inr (h3, i3)" "shuffles l h2 h3" "smm 1 (mm_Keys h3) l"
    using shufflesD [OF h2(2)] l1 by auto
  then show ?thesis using h1(1) h2(1) shuffles_trans [OF shuffles_trans [OF h1(3) h2(2)]] by blast
qed

lemma updateMin_ok:
  assumes b: "order_but i (mm_Keys h) l" "odd i" and l: "i \<le> l" "2 \<le> l" "l < length (mm_Keys h)" "mm_wf h"
  shows "\<exists>h'. mm_updateMin h (int i) (int l) = Inr h' \<and> shuffles l h h' \<and> smm 1 (mm_Keys h') l"
proof -
  have i: "1 \<le> i" using b(2) by (auto intro: Suc_leI odd_pos)
  have g: "(if int i + 1 \<le> int l then mm_lt h (int i + 1) (int i) else Inr False) = Inr (i < l \<and> mm_Keys h ! Suc i < mm_Keys h ! i)"
    using mm_lt_int [of "Suc i" h i] l by (auto simp: add.commute)
  consider (sw) "i < l" "mm_Keys h ! Suc i < mm_Keys h ! i"
    | (up) "i < l \<Longrightarrow> mm_Keys h ! i \<le> mm_Keys h ! Suc i" "\<And>j. j \<in> kids i \<Longrightarrow> j \<le> l \<Longrightarrow> mm_Keys h ! i \<le> mm_Keys h ! j"
    | (down) k where "i < l \<Longrightarrow> mm_Keys h ! i \<le> mm_Keys h ! Suc i" "k \<in> kids i" "k \<le> l" "mm_Keys h ! k < mm_Keys h ! i"
    by (meson not_le)
  then show ?thesis
  proof cases
    case sw
    obtain h1 h2 h3 i3 where "mm_swap h (int i) (int (Suc i)) = Inr h1" "mm_siftUp h1 (int (Suc i)) = Inr h2"
      "mm_siftDownMin_loop h2 (int i) (int l) = Inr (h3, i3)" "shuffles l h h3" "smm 1 (mm_Keys h3) l"
      using updateMin_swap [OF b sw(1) l(2-4) sw(2)] by blast
    then show ?thesis unfolding mm_updateMin_def g using sw by (simp add: mm_siftDownMin_def add.commute)
  next
    case up
    note o = order_but_odd_up [OF b up] and k = order_but_odd(4) [OF b]
    have "\<exists>h'. mm_siftUp h (int i) = Inr h' \<and> shuffles l h h' \<and> smm 1 (mm_Keys h') l"
    proof (rule siftUp_any [OF i l(1) o _ _ l(4,2,3)])
      show "mm_Keys h ! ln i \<le> mm_Keys h ! j" if "3 \<le> j" "j \<le> l" "ln j = i" "3 \<le> i" for j
        using k [of j] that ln_iff [OF that(1) b(2)] by simp
      show "mm_Keys h ! j \<le> mm_Keys h ! rn i" if "rn j = i" for j
        using that b(2) rn_even [of j] by simp
    qed
    moreover have "\<not> (i < l \<and> mm_Keys h ! Suc i < mm_Keys h ! i)" using up(1) by auto
    ultimately show ?thesis
      unfolding mm_updateMin_def g using siftDownMin_stays [OF up(2) l(3)] by (auto simp: mm_siftDownMin_def)
  next
    case down
    have il: "i < l" using kids_ge(1) [OF down(2)] down(3) i by simp
    have "hole_lo 1 (mm_Keys h) i l" by (rule order_but_odd_hole [OF b down(1) [OF il] down(2-4)])
    then obtain h' i' where h': "mm_siftDownMin_loop h (int i) (int l) = Inr (h', i')" "shuffles l h h'" "smm 1 (mm_Keys h') l"
      using siftDownMin_ok [OF _ l(4,3)] by blast
    moreover have "mm_siftUp h' (int i) = Inr h'" using siftUp_stays [OF h'(3) i l(1,2)] shufflesD [OF h'(2)] l(3) by simp
    ultimately show ?thesis unfolding mm_updateMin_def g using down(1) [OF il] by (auto simp: mm_siftDownMin_def)
  qed
qed

lemma updateMax_swap:
  assumes b: "order_but (Suc p) (mm_Keys h) l" "odd p" and l: "Suc p \<le> l" "2 \<le> l" "l < length (mm_Keys h)" "mm_wf h"
    and s: "mm_Keys h ! Suc p < mm_Keys h ! p"
  shows "\<exists>h1 h2 h3 i3. mm_swap h (int (Suc p)) (int p) = Inr h1 \<and> mm_siftUp h1 (int p) = Inr h2 \<and>
     mm_siftDownMax_loop h2 (int (Suc p)) (int l) = Inr (h3, i3) \<and> shuffles l h h3 \<and> smm 1 (mm_Keys h3) l"
proof -
  have p: "1 \<le> p" using b(2) by (auto intro: Suc_leI odd_pos)
  obtain h1 where h1: "mm_swap h (int (Suc p)) (int p) = Inr h1" "mm_Keys h1 = sw (mm_Keys h) (Suc p) p" "shuffles l h h1"
    using mm_swap_ok [OF l(4), of "Suc p" l p] p l by auto
  note k = order_but_even_swap [OF b l(1,3) s, folded h1(2)]
  have l1: "mm_wf h1" "l < length (mm_Keys h1)" using shufflesD [OF h1(3)] l(3) by auto
  obtain h2 where h2: "mm_siftUp h1 (int p) = Inr h2" "shuffles l h1 h2" "above p (mm_Keys h1) (mm_Keys h2)"
    "sibs 1 (mm_Keys h2) l" "los {} 1 (mm_Keys h2) l" "his (kids p) 1 (mm_Keys h2) l"
    using siftUp_lo [OF k(1) l1(1) l(2) l1(2)] b(2) by auto
  have "mm_Keys h2 ! j \<le> mm_Keys h2 ! rn (Suc p)" if j: "j \<in> kids p" "j \<le> l" "3 \<le> Suc p" for j
  proof -
    have p3: "3 \<le> p" using j(3) b(2) by (cases "p = 2") auto
    then have "p < j" using kids_ge(1) [OF j(1)] by simp
    then show ?thesis using k(2) [OF j(1,2) p3] h2(3) b(2) ln_sib [OF p3 b(2)] by (auto simp: above_def)
  qed
  then have "hole_hi 1 (mm_Keys h2) (Suc p) l" using b(2) p h2(4-6) by (auto simp: hole_hi_def)
  from siftDownMax_ok [OF this] obtain h3 i3 where
    "mm_siftDownMax_loop h2 (int (Suc p)) (int l) = Inr (h3, i3)" "shuffles l h2 h3" "smm 1 (mm_Keys h3) l"
    using shufflesD [OF h2(2)] l1 by auto
  then show ?thesis using h1(1) h2(1) shuffles_trans [OF shuffles_trans [OF h1(3) h2(2)]] by blast
qed

lemma updateMax_ok:
  assumes b: "order_but (Suc p) (mm_Keys h) l" "odd p" and l: "Suc p \<le> l" "2 \<le> l" "l < length (mm_Keys h)" "mm_wf h"
  shows "\<exists>h'. mm_updateMax h (int (Suc p)) (int l) = Inr h' \<and> shuffles l h h' \<and> smm 1 (mm_Keys h') l"
proof -
  have p: "1 \<le> p" using b(2) by (auto intro: Suc_leI odd_pos)
  have e: "int (Suc p) - 1 = int p" by simp
  have g: "mm_lt h (int (Suc p)) (int p) = Inr (mm_Keys h ! Suc p < mm_Keys h ! p)"
    using l by (intro mm_lt_int) auto
  consider (sw) "mm_Keys h ! Suc p < mm_Keys h ! p"
    | (up) "mm_Keys h ! p \<le> mm_Keys h ! Suc p" "\<And>j. j \<in> kids p \<Longrightarrow> j \<le> l \<Longrightarrow> mm_Keys h ! j \<le> mm_Keys h ! Suc p"
    | (down) k where "mm_Keys h ! p \<le> mm_Keys h ! Suc p" "k \<in> kids p" "k \<le> l" "mm_Keys h ! Suc p < mm_Keys h ! k"
    by (meson not_le)
  then show ?thesis
  proof cases
    case sw
    obtain h1 h2 h3 i3 where "mm_swap h (int (Suc p)) (int p) = Inr h1" "mm_siftUp h1 (int p) = Inr h2"
      "mm_siftDownMax_loop h2 (int (Suc p)) (int l) = Inr (h3, i3)" "shuffles l h h3" "smm 1 (mm_Keys h3) l"
      using updateMax_swap [OF b l sw] by blast
    then show ?thesis unfolding mm_updateMax_def e g using sw by (simp add: mm_siftDownMax_def)
  next
    case up
    note o = order_but_even_up [OF b up] and k = order_but_even(4) [OF b]
    have "\<exists>h'. mm_siftUp h (int (Suc p)) = Inr h' \<and> shuffles l h h' \<and> smm 1 (mm_Keys h') l"
    proof (rule siftUp_any [OF _ l(1) o _ _ l(4,2,3)])
      show "mm_Keys h ! ln (Suc p) \<le> mm_Keys h ! j" if "ln j = Suc p" for j
        using that ln_not_even [OF b(2)] by blast
      show "mm_Keys h ! j \<le> mm_Keys h ! rn (Suc p)" if j: "3 \<le> j" "j \<le> l" "rn j = Suc p" "3 \<le> Suc p" for j
      proof -
        have p3: "3 \<le> p" using j(4) b(2) by (cases "p = 2") auto
        then show ?thesis using k [OF _ j(2) p3] j ln_iff [OF j(1) b(2)] ln_sib [OF p3 b(2)] by (simp add: rn_def)
      qed
    qed simp
    moreover have "mm_siftDownMax_loop h (int (Suc p)) (int l) = Inr (h, int (Suc p))"
      using up(2) l(3) p by (intro siftDownMax_stays) auto
    moreover have "\<not> mm_Keys h ! Suc p < mm_Keys h ! p" using up(1) by simp
    ultimately show ?thesis unfolding mm_updateMax_def e g by (auto simp: mm_siftDownMax_def)
  next
    case down
    have "hole_hi 1 (mm_Keys h) (Suc p) l" by (rule order_but_even_hole [OF b down])
    then obtain h' i' where h': "mm_siftDownMax_loop h (int (Suc p)) (int l) = Inr (h', i')" "shuffles l h h'" "smm 1 (mm_Keys h') l"
      using siftDownMax_ok [OF _ l(4,3)] by blast
    moreover have "mm_siftUp h' (int (Suc p)) = Inr h'"
      using siftUp_stays [OF h'(3) _ l(1,2)] shufflesD [OF h'(2)] l(3) by simp
    moreover have "\<not> mm_Keys h ! Suc p < mm_Keys h ! p" using down(1) by simp
    ultimately show ?thesis unfolding mm_updateMax_def e g by (auto simp: mm_siftDownMax_def)
  qed
qed

lemma remn_two: "remn (int i) 2 = int (i mod 2)"
  by (simp add: zmod_int)

lemma remn_odd: "odd i \<Longrightarrow> remn (int i) 2 = 1"
  by (simp add: remn_two odd_iff_mod_2_eq_one)

lemma remn_even: "even i \<Longrightarrow> remn (int i) 2 \<noteq> 1"
  by (simp add: remn_two even_iff_mod_2_eq_zero)

lemma mm_update_ok:
  assumes b: "order_but i (mm_Keys h) l" and i: "1 \<le> i" "i \<le> l" and l: "2 \<le> l" "l < length (mm_Keys h)" "mm_wf h"
  shows "\<exists>h'. mm_update h (int i) (int l) = Inr h' \<and> shuffles l h h' \<and> smm 1 (mm_Keys h') l"
proof (cases "odd i")
  case True
  then have "remn (int i) 2 = 1" by (rule remn_odd)
  then show ?thesis using updateMin_ok [OF b True i(2) l] by (simp add: mm_update_def)
next
  case False
  then obtain p where p: "i = Suc p" "odd p" using i(1) by (cases i) auto
  have "remn (int i) 2 \<noteq> 1" using False by (intro remn_even) simp
  then show ?thesis using updateMax_ok [OF b [unfolded p(1)] p(2)] i(2) l by (simp add: mm_update_def p(1))
qed

end
