(* ===== verification/Min_Max_Queue.thy ===== *)
theory Min_Max_Queue
  imports Min_Max_Update
begin

text \<open>
  The operations of the double-ended heap. The invariant is the order of the keys after the dummy root;
  what a heap holds is the multiset of its entries. \<^verbatim>\<open>Push\<close>, \<^verbatim>\<open>PopMin\<close> and \<^verbatim>\<open>PopMax\<close> meet the contract of
  a double-ended priority queue, from which draining a heap in order and the bounded variants follow.
\<close>

section \<open>Invariant and contents\<close>

definition mm_inv :: "('k::linorder, 'v) MinMax \<Rightarrow> bool" where
  "mm_inv h \<longleftrightarrow> mm_wf h \<and> mm_Keys h \<noteq> [] \<and> smm 1 (mm_Keys h) (length (mm_Keys h) - 1)"

definition mm_items :: "('k, 'v) MinMax \<Rightarrow> ('k \<times> 'v) multiset" where
  "mm_items h = mset (tl (entries h))"

lemma shuffles_items:
  assumes "shuffles l h h'" "mm_wf h" "mm_Keys h \<noteq> []"
  shows "mm_items h' = mm_items h"
proof -
  have len: "length (entries h) = length (mm_Keys h)" "length (entries h') = length (mm_Keys h)"
    using assms by (auto simp: shuffles_def mm_wf_def)
  then obtain e t e' t' where e: "entries h = e # t" "entries h' = e' # t'"
    using assms(3) by (metis length_0_conv list.exhaust)
  have "entries h' ! 0 = entries h ! 0" using assms(1,3) by (auto simp: shuffles_def)
  then show ?thesis using assms(1) e by (simp add: shuffles_def mm_items_def)
qed

lemma mm_swap_entries:
  assumes "mm_swap h (int i) (int j) = Inr h'" "mm_wf h"
  shows "entries h' = sw (entries h) i j"
  using assms unfolding mm_swap_def sw_def mm_wf_def
  by (auto simp: rbind_eq_Inr zip_update dest!: g_swap_eq split: if_splits)

lemma mm_truncate_ok:
  assumes "mm_wf h" "length (mm_Keys h) = Suc n" "1 \<le> n" "smm 1 (mm_Keys h) (n - 1)"
  shows "\<exists>h'. mm_truncate h (int n) = Inr h' \<and> mm_inv h' \<and> mm_items h = add_mset (entries h ! n) (mm_items h')"
proof -
  let ?h = "h\<lparr>mm_Keys := take n (mm_Keys h), mm_Vals := take n (mm_Vals h)\<rparr>"
  have "mm_truncate h (int n) = Inr ?h" using assms(1,2) by (simp add: mm_truncate_def mm_wf_def)
  moreover have "smm 1 (take n (mm_Keys h)) (n - 1)"
    using assms(3,4) smm_cong [of "n - 1" "take n (mm_Keys h)" "mm_Keys h"] by (simp add: nth_take)
  then have "mm_inv ?h" using assms(1-3) by (auto simp: mm_inv_def mm_wf_def)
  moreover have "mm_items h = add_mset (entries h ! n) (mm_items ?h)"
  proof -
    have len: "length (entries h) = Suc n" using assms(1,2) by (simp add: mm_wf_def)
    then have "entries h = take n (entries h) @ [entries h ! n]" using take_Suc_conv_app_nth [of n "entries h"] by simp
    moreover have "take n (entries h) \<noteq> []" using assms(1-3) by (auto simp: mm_wf_def)
    ultimately have "tl (entries h) = tl (take n (entries h)) @ [entries h ! n]" by (metis tl_append2)
    then show ?thesis by (simp add: mm_items_def take_zip)
  qed
  ultimately show ?thesis by blast
qed


section \<open>Building a heap\<close>

lemma levels_ok: "2 \<le> n \<Longrightarrow> \<exists>li. levels n = Some li \<and> 1 \<le> li \<and> 2 ^ li \<le> n \<and> n < 2 ^ (li + 1)"
proof (induction n rule: less_induct)
  case (less n)
  show ?case
  proof (cases "n div 2 = 1")
    case True
    then show ?thesis using less.prems by (intro exI [of _ 1]) (auto simp: levels.simps [of n])
  next
    case False
    then have "2 \<le> n div 2" using less.prems by linarith
    then obtain li where "levels (n div 2) = Some li" "1 \<le> li" "2 ^ li \<le> n div 2" "n div 2 < 2 ^ (li + 1)"
      using less.IH [of "n div 2"] less.prems by auto
    then show ?thesis using less.prems False by (intro exI [of _ "Suc li"]) (auto simp: levels.simps [of n])
  qed
qed

lemma cond_swap_ok:
  assumes "mm_wf h" "l < length (mm_Keys h)" "b \<Longrightarrow> 1 \<le> i \<and> i \<le> l \<and> 1 \<le> j \<and> j \<le> l"
  shows "\<exists>h1. (if b then mm_swap h (int i) (int j) else Inr h) = Inr h1 \<and> shuffles l h h1 \<and>
     mm_Keys h1 = (if b then sw (mm_Keys h) i j else mm_Keys h)"
  using mm_swap_ok [OF assms(1), of i l j] assms by (cases b) (auto simp: shuffles_refl)

lemma leaves_ok:
  assumes "even i" "2 \<le> i" "sibs a (mm_Keys h) (i - 1)" "mm_wf h" "n = length (mm_Keys h)" "1 \<le> n"
  shows "\<exists>h'. mm_leaves h (int i) (int n) = Inr h' \<and> shuffles (n - 1) h h' \<and> sibs a (mm_Keys h') (n - 1)"
  using assms
proof (induction "n - i" arbitrary: i h rule: less_induct)
  case (less i h)
  show ?case
  proof (cases "i < n")
    case False
    then have "sibs a (mm_Keys h) (n - 1)" using less.prems(3) by (auto simp: sibs_def)
    then show ?thesis using False less.prems(4) by (auto simp: mm_leaves.simps [of h "int i"] shuffles_refl)
  next
    case True
    let ?ks = "mm_Keys h"
    have e: "int i - 1 = int (i - 1)" "int i + 2 = int (i + 2)" using less.prems(2) by auto
    have lt: "mm_lt h (int i) (int (i - 1)) = Inr (?ks ! i < ?ks ! (i - 1))" using True less.prems(5) by (intro mm_lt_int) auto
    have b: "n - 1 < length ?ks" "1 \<le> i \<and> i \<le> n - 1 \<and> 1 \<le> i - 1 \<and> i - 1 \<le> n - 1" using True less.prems(2,5) by auto
    obtain h1 where h1: "(if ?ks ! i < ?ks ! (i - 1) then mm_swap h (int i) (int (i - 1)) else Inr h) = Inr h1"
      "shuffles (n - 1) h h1" "mm_Keys h1 = (if ?ks ! i < ?ks ! (i - 1) then sw ?ks i (i - 1) else ?ks)"
      using cond_swap_ok [OF less.prems(4) b] by blast
    have n: "sw ?ks i (i - Suc 0) ! x = (if x = i then ?ks ! (i - Suc 0) else if x = i - Suc 0 then ?ks ! i else ?ks ! x)" for x
      using True less.prems(5) by (intro sw_nth) auto
    have "sibs a (mm_Keys h1) (i + 2 - 1)" unfolding sibs_def
    proof (intro allI impI)
      fix j assume j: "odd j" "a \<le> j" "j < i + 2 - 1"
      have "j \<noteq> i" "Suc j \<noteq> i - 1" using j(1) less.prems(1,2) by presburger+
      moreover have "?ks ! j \<le> ?ks ! Suc j" if "j \<noteq> i - 1" using sibsD [OF less.prems(3) j(1,2)] that j(3) \<open>j \<noteq> i\<close> by simp
      ultimately show "mm_Keys h1 ! j \<le> mm_Keys h1 ! Suc j" using less.prems(2) by (cases "j = i - 1") (auto simp: h1(3) n)
    qed
    moreover have "mm_wf h1" "n = length (mm_Keys h1)" using shufflesD [OF h1(2)] less.prems(5) by auto
    ultimately obtain h2 where h2: "mm_leaves h1 (int (i + 2)) (int n) = Inr h2" "shuffles (n - 1) h1 h2" "sibs a (mm_Keys h2) (n - 1)"
      using less.hyps [of "i + 2" h1] True less.prems(1,2,6) diff_less_mono2 [of i "i + 2" n] by auto
    have "mm_leaves h (int i) (int n) = Inr h2"
      unfolding mm_leaves.simps [of h "int i"] e lt using True h1(1) h2(1) by simp
    then show ?thesis using shuffles_trans [OF h1(2) h2(2)] h2(3) by blast
  qed
qed

text \<open>Node \<open>i\<close> is put in order once all the nodes after it are.\<close>

lemma stage_even:
  assumes "smm (Suc i) ks l" "even i" "2 \<le> i"
  shows "hole_hi i ks i l"
proof -
  have "sibs i ks l" using assms(1,2) by (auto simp: smm_def sibs_def) (metis Suc_leI le_neq_implies_less)
  moreover have "los {} i ks l" unfolding los_def
  proof (intro allI impI)
    fix j assume j: "3 \<le> j" "j \<le> l" "i \<le> ln j" "j \<notin> {}"
    then have "Suc i \<le> ln j" using ln_odd [of j] assms(2) by (metis Suc_leI le_neq_implies_less)
    then show "ks ! ln j \<le> ks ! j" using assms(1) losD [of "{}" "Suc i" ks l j] j by (simp add: smm_def)
  qed
  moreover have "his (kids (i - 1)) i ks l" unfolding his_def
  proof (intro allI impI)
    fix j assume j: "3 \<le> j" "j \<le> l" "i \<le> rn j" "j \<notin> kids (i - 1)"
    then have "Suc i \<le> rn j" using rn_iff [OF j(1) assms(2,3)] by auto
    then show "ks ! j \<le> ks ! rn j" using assms(1) hisD [of "{}" "Suc i" ks l j] j by (simp add: smm_def)
  qed
  moreover have "\<not> i \<le> rn i" if "3 \<le> i" using ln_less [OF that] by simp
  ultimately show ?thesis using assms(2,3) by (auto simp: hole_hi_def)
qed

lemma stage_odd:
  assumes s: "smm (Suc i) ks l" and i: "odd i" "i \<le> l" "l < length ks"
    and ks': "ks' = (if i < l \<and> ks ! Suc i < ks ! i then sw ks i (Suc i) else ks)"
  shows "hole_lo i ks' i l"
proof -
  have o: "sibs (Suc i) ks l" "los {} (Suc i) ks l" "his {} (Suc i) ks l" using s by (auto simp: smm_def)
  have i1: "1 \<le> i" using i(1) by (auto intro: Suc_leI odd_pos)
  have n: "i < l \<Longrightarrow> sw ks i (Suc i) ! x = (if x = i then ks ! Suc i else if x = Suc i then ks ! i else ks ! x)" for x
    using i by (intro sw_nth) auto
  have same: "ks' ! j = ks ! j" if "Suc i < j" for j using that n by (auto simp: ks')
  have up: "ks ! Suc i \<le> ks' ! Suc i" using n by (auto simp: ks')
  have pair: "ks' ! i \<le> ks' ! Suc i" if "i < l" using n that by (auto simp: ks')
  have "sibs i ks' l" unfolding sibs_def
  proof (intro allI impI)
    fix j assume j: "odd j" "i \<le> j" "j < l"
    show "ks' ! j \<le> ks' ! Suc j"
    proof (cases "j = i")
      case False
      then have "Suc i < j" using j i(1) by (metis Suc_leI even_Suc le_neq_implies_less)
      then show ?thesis using sibsD [OF o(1) j(1)] same j(3) by simp
    qed (use pair j in auto)
  qed
  moreover have "los (kids i) i ks' l" unfolding los_def
  proof (intro allI impI)
    fix j assume j: "3 \<le> j" "j \<le> l" "i \<le> ln j" "j \<notin> kids i"
    then have "Suc i \<le> ln j" using ln_iff [OF j(1) i(1)] by auto
    moreover from this have "Suc i < ln j" using ln_not_even [OF i(1), of j] by simp
    ultimately show "ks' ! ln j \<le> ks' ! j" using losD [OF o(2) j(1,2)] same ln_less [OF j(1)] by simp
  qed
  moreover have "his {} i ks' l" unfolding his_def
  proof (intro allI impI)
    fix j assume j: "3 \<le> j" "j \<le> l" "i \<le> rn j" "j \<notin> {}"
    then have r: "Suc i \<le> rn j" using i(1) rn_even [of j] by (metis Suc_leI le_neq_implies_less)
    then have "ks ! j \<le> ks ! rn j" "ks' ! j = ks ! j" using hisD [OF o(3) j(1,2)] same [of j] ln_less [OF j(1)] by auto
    then show "ks' ! j \<le> ks' ! rn j" using up same [of "rn j"] r by (cases "rn j = Suc i") auto
  qed
  moreover have "\<not> i \<le> ln i" if "3 \<le> i" using ln_less [OF that] by simp
  ultimately show ?thesis using i(1) by (auto simp: hole_lo_def)
qed

lemma sifts_ok:
  assumes "smm (Suc i) (mm_Keys h) l" "i \<le> l" "mm_wf h" "l < length (mm_Keys h)"
  shows "\<exists>h'. mm_sifts h (int i) (int l) = Inr h' \<and> shuffles l h h' \<and> smm 1 (mm_Keys h') l"
  using assms
proof (induction i arbitrary: h)
  case 0
  then show ?case by (auto simp: mm_sifts.simps [of h 0] shuffles_refl)
next
  case (Suc i)
  let ?ks = "mm_Keys h" and ?i = "int (Suc i)"
  have e: "?i - 1 = int i" "?i + 1 = int (Suc (Suc i))" by auto
  have "\<exists>h1. (if remn ?i 2 = 1
                 then rbind (if ?i + 1 \<le> int l then mm_lt h (?i + 1) ?i else Inr False) (\<lambda>b.
                      rbind (if b then mm_swap h ?i (?i + 1) else Inr h) (\<lambda>h1.
                      rbind (mm_siftDownMin h1 ?i (int l)) (\<lambda>(h2, _). Inr h2)))
                 else rbind (mm_siftDownMax h ?i (int l)) (\<lambda>(h2, _). Inr h2)) = Inr h1 \<and>
      shuffles l h h1 \<and> smm (Suc i) (mm_Keys h1) l"
  proof (cases "odd (Suc i)")
    case True
    have g: "(if ?i + 1 \<le> int l then mm_lt h (?i + 1) ?i else Inr False) = Inr (Suc i < l \<and> ?ks ! Suc (Suc i) < ?ks ! Suc i)"
      unfolding e using mm_lt_int [of "Suc (Suc i)" h "Suc i"] Suc.prems(2,4) by (auto simp del: of_nat_Suc)
    obtain h1 where h1: "(if Suc i < l \<and> ?ks ! Suc (Suc i) < ?ks ! Suc i then mm_swap h ?i (?i + 1) else Inr h) = Inr h1"
      "shuffles l h h1" "mm_Keys h1 = (if Suc i < l \<and> ?ks ! Suc (Suc i) < ?ks ! Suc i then sw ?ks (Suc i) (Suc (Suc i)) else ?ks)"
      unfolding e using cond_swap_ok [OF Suc.prems(3,4), of "Suc i < l \<and> ?ks ! Suc (Suc i) < ?ks ! Suc i" "Suc i" "Suc (Suc i)"] by auto
    have "hole_lo (Suc i) (mm_Keys h1) (Suc i) l" by (rule stage_odd [OF Suc.prems(1) True Suc.prems(2,4) h1(3)])
    from siftDownMin_ok [OF this] obtain h2 i2 where
      h2: "mm_siftDownMin_loop h1 ?i (int l) = Inr (h2, i2)" "shuffles l h1 h2" "smm (Suc i) (mm_Keys h2) l"
      using shufflesD [OF h1(2)] Suc.prems(4) by auto
    have "remn ?i 2 = 1" using True by (rule remn_odd)
    then show ?thesis using g h1(1) h2 shuffles_trans [OF h1(2) h2(2)] by (simp add: mm_siftDownMin_def del: of_nat_Suc)
  next
    case False
    then have "hole_hi (Suc i) ?ks (Suc i) l" using Suc.prems(1) by (intro stage_even) (auto elim!: oddE)
    from siftDownMax_ok [OF this Suc.prems(3,4)] obtain h2 i2 where
      h2: "mm_siftDownMax_loop h ?i (int l) = Inr (h2, i2)" "shuffles l h h2" "smm (Suc i) (mm_Keys h2) l" by auto
    have "remn ?i 2 \<noteq> 1" using False by (intro remn_even) simp
    then show ?thesis using h2 by (simp add: mm_siftDownMax_def del: of_nat_Suc)
  qed
  then obtain h1 where h1: "(if remn ?i 2 = 1
                 then rbind (if ?i + 1 \<le> int l then mm_lt h (?i + 1) ?i else Inr False) (\<lambda>b.
                      rbind (if b then mm_swap h ?i (?i + 1) else Inr h) (\<lambda>h1.
                      rbind (mm_siftDownMin h1 ?i (int l)) (\<lambda>(h2, _). Inr h2)))
                 else rbind (mm_siftDownMax h ?i (int l)) (\<lambda>(h2, _). Inr h2)) = Inr h1"
      "shuffles l h h1" "smm (Suc i) (mm_Keys h1) l" by blast
  then obtain h2 where h2: "mm_sifts h1 (int i) (int l) = Inr h2" "shuffles l h1 h2" "smm 1 (mm_Keys h2) l"
    using Suc.IH [of h1] shufflesD [OF h1(2)] Suc.prems(2,4) by auto
  have "mm_sifts h ?i (int l) = Inr h2" unfolding mm_sifts.simps [of h ?i] h1(1) using h2(1) by simp
  then show ?case using shuffles_trans [OF h1(2) h2(2)] h2(3) by blast
qed

lemma heapify_ok:
  assumes wf: "mm_wf h" and n: "2 \<le> length (mm_Keys h)"
  shows "\<exists>h'. mm_heapify h = Some (Inr h') \<and> mm_inv h' \<and> mm_items h' = mm_items h \<and> length (mm_Keys h') = length (mm_Keys h)"
proof -
  define l where "l = length (mm_Keys h) - 1"
  obtain li where li: "levels (length (mm_Keys h)) = Some li" "1 \<le> li" "2 ^ li \<le> length (mm_Keys h)"
    "length (mm_Keys h) < 2 ^ (li + 1)" using levels_ok [OF n] by blast
  let ?m = "2 ^ li :: nat"
  obtain k where k: "li = Suc k" using li(2) by (cases li) auto
  have m: "even ?m" "2 \<le> ?m" by (auto simp: k)
  have "sibs ?m (mm_Keys h) (?m - 1)" by (auto simp: sibs_def)
  from leaves_ok [OF m this wf refl] n obtain h1 where
    h1: "mm_leaves h (int ?m) (int (length (mm_Keys h))) = Inr h1" "shuffles l h h1" "sibs ?m (mm_Keys h1) l"
    by (auto simp: l_def)
  have far: "\<not> (3 \<le> j \<and> j \<le> l \<and> ?m \<le> rn j)" for j
  proof
    assume j: "3 \<le> j \<and> j \<le> l \<and> ?m \<le> rn j"
    then have "2 * ?m \<le> 2 * rn j" "2 * rn j \<le> j + 1" by (auto simp: rn_def ln_def)
    then show False using j li(4) n by (auto simp: l_def)
  qed
  have "los {} ?m (mm_Keys h1) l" unfolding los_def using far by (auto simp: rn_def dest: le_SucI)
  moreover have "his {} ?m (mm_Keys h1) l" unfolding his_def using far by blast
  ultimately have "smm (Suc (?m - 1)) (mm_Keys h1) l" using h1(3) m(2) by (simp add: smm_def)
  moreover have "?m - 1 \<le> l" "l < length (mm_Keys h1)" "mm_wf h1" using shufflesD [OF h1(2)] li(3) n by (auto simp: l_def)
  ultimately obtain h2 where h2: "mm_sifts h1 (int (?m - 1)) (int l) = Inr h2" "shuffles l h1 h2" "smm 1 (mm_Keys h2) l"
    using sifts_ok [of "?m - 1" h1 l] by blast
  have e: "int (?m - 1) = 2 ^ li - 1" "int ?m = 2 ^ li" "int l = int (length (mm_Keys h)) - 1"
    using n by (auto simp: l_def of_nat_diff)
  have "mm_heapify h = Some (Inr h2)" using h1(1) h2(1) unfolding mm_heapify_def Let_def li(1) e by simp
  moreover have sh: "shuffles l h h2" by (rule shuffles_trans [OF h1(2) h2(2)])
  moreover have "mm_inv h2" using h2(3) shufflesD [OF sh] n by (auto simp: mm_inv_def l_def)
  moreover have "mm_Keys h \<noteq> []" using n by auto
  ultimately show ?thesis using shuffles_items [OF sh wf] shufflesD [OF sh] by auto
qed

section \<open>Push\<close>

lemma adjustSiblings_int:
  assumes "2 \<le> n" "n < length (mm_Keys h)"
  shows "mm_adjustSiblings h (int n) =
    (if even n \<and> mm_Keys h ! n < mm_Keys h ! (n - 1)
     then rbind (mm_swap h (int n) (int (n - 1))) (\<lambda>h'. Inr (h', int (n - 1))) else Inr (h, int n))"
proof -
  have e: "int n - 1 = int (n - 1)" "int n \<ge> 2" using assms(1) by auto
  have "mm_lt h (int n) (int (n - 1)) = Inr (mm_Keys h ! n < mm_Keys h ! (n - 1))" using assms by (intro mm_lt_int) auto
  then show ?thesis unfolding mm_adjustSiblings_def e(1) remn_two using e(2) by (auto simp: even_iff_mod_2_eq_zero)
qed

lemma siftUp_new:
  assumes s: "smm 1 (mm_Keys h) (n - 1)" and n: "2 \<le> n" "n < length (mm_Keys h)" "mm_wf h"
    and sib: "even n \<Longrightarrow> mm_Keys h ! (n - 1) \<le> mm_Keys h ! n"
  shows "\<exists>h'. mm_siftUp h (int n) = Inr h' \<and> shuffles n h h' \<and> smm 1 (mm_Keys h') n"
proof (rule siftUp_any [OF _ order_refl _ _ _ _ _ n(3,1,2)])
  have o: "sibs 1 (mm_Keys h) (n - 1)" "los {} 1 (mm_Keys h) (n - 1)" "his {} 1 (mm_Keys h) (n - 1)" using s by (auto simp: smm_def)
  show "sibs 1 (mm_Keys h) n" unfolding sibs_def
  proof (intro allI impI)
    fix j assume j: "odd j" "1 \<le> j" "j < n"
    then show "mm_Keys h ! j \<le> mm_Keys h ! Suc j" using sibsD [OF o(1) j(1,2)] sib by (cases "Suc j = n") auto
  qed
  show "los {n} 1 (mm_Keys h) n" "his {n} 1 (mm_Keys h) n" using o(2,3) by (auto simp: los_def his_def)
  show "mm_Keys h ! ln n \<le> mm_Keys h ! j" if "3 \<le> j" "j \<le> n" "ln j = n" for j using ln_less [OF that(1)] that(2,3) by simp
  show "mm_Keys h ! j \<le> mm_Keys h ! rn n" if "3 \<le> j" "j \<le> n" "rn j = n" for j using ln_less [OF that(1)] that(2,3) by simp
qed (use n in simp)

lemma siftUp_new_left:
  assumes s: "smm 1 ks p" and p: "odd p" "Suc p < length ks" and less: "ks ! Suc p < ks ! p"
    and h: "mm_Keys h = sw ks (Suc p) p" "mm_wf h"
  shows "\<exists>h'. mm_siftUp h (int p) = Inr h' \<and> shuffles (Suc p) h h' \<and> smm 1 (mm_Keys h') (Suc p)"
proof -
  let ?k = "mm_Keys h"
  have p1: "1 \<le> p" using p(1) by (auto intro: Suc_leI odd_pos)
  have o: "sibs 1 ks p" "los {} 1 ks p" "his {} 1 ks p" using s by (auto simp: smm_def)
  have n: "?k ! x = (if x = Suc p then ks ! p else if x = p then ks ! Suc p else ks ! x)" for x
    unfolding h(1) using p by (intro sw_nth) auto
  have p3: "3 \<le> p" if "3 \<le> Suc p" using that p(1) by (cases "p = 2") auto
  have sib: "ln (Suc p) = ln p" "rn (Suc p) = rn p" "ln p < p" "rn p < p" if "3 \<le> Suc p"
    using ln_sib [OF p3 [OF that] p(1)] ln_less [OF p3 [OF that]] by auto
  have "sibs 1 ?k (Suc p)" unfolding sibs_def
  proof (intro allI impI)
    fix j assume j: "odd j" "1 \<le> j" "j < Suc p"
    then have "Suc j \<noteq> p" using p(1) by auto
    then show "?k ! j \<le> ?k ! Suc j" using sibsD [OF o(1) j(1,2)] j(3) less by (auto simp: n)
  qed
  moreover have "los {p} 1 ?k (Suc p)" unfolding los_def
  proof (intro allI impI)
    fix j assume j: "3 \<le> j" "j \<le> Suc p" "1 \<le> ln j" "j \<notin> {p}"
    show "?k ! ln j \<le> ?k ! j"
    proof (cases "j = Suc p")
      case True
      then show ?thesis using losD [OF o(2), of p] p3 sib j ln_pos(1) [of p] by (auto simp: n)
    next
      case False
      then show ?thesis using losD [OF o(2) j(1)] j ln_less [OF j(1)] by (auto simp: n)
    qed
  qed
  moreover have "his {p} 1 ?k (Suc p)" unfolding his_def
  proof (intro allI impI)
    fix j assume j: "3 \<le> j" "j \<le> Suc p" "1 \<le> rn j" "j \<notin> {p}"
    show "?k ! j \<le> ?k ! rn j"
    proof (cases "j = Suc p")
      case True
      then show ?thesis using hisD [OF o(3), of p] p3 sib j ln_pos(2) [of p] by (auto simp: n)
    next
      case False
      then show ?thesis using hisD [OF o(3) j(1)] j ln_less [OF j(1)] by (auto simp: n)
    qed
  qed
  moreover have "\<not> (3 \<le> j \<and> j \<le> Suc p \<and> 3 \<le> p \<and> (ln j = p \<or> rn j = p))" for j
  proof
    assume j: "3 \<le> j \<and> j \<le> Suc p \<and> 3 \<le> p \<and> (ln j = p \<or> rn j = p)"
    then have "ln j = p" using p(1) rn_even [of j] by auto
    then have "2 * p < j" using kids_ge(1) [of j p] ln_iff [OF _ p(1)] j by auto
    then show False using j by simp
  qed
  ultimately show ?thesis using p p1 h by (intro siftUp_any) auto
qed

lemma mm_Push_ok:
  assumes inv: "mm_inv h"
  shows "\<exists>h'. mm_Push h k v = Inr h' \<and> mm_inv h' \<and> mm_items h' = add_mset (k, v) (mm_items h)"
proof -
  define n where "n = length (mm_Keys h)"
  define g where "g = h\<lparr>mm_Keys := mm_Keys h @ [k], mm_Vals := mm_Vals h @ [v]\<rparr>"
  have n1: "1 \<le> n" "mm_wf h" "length (mm_Vals h) = n" "smm 1 (mm_Keys h) (n - 1)"
    using inv by (auto simp: mm_inv_def n_def Suc_le_eq mm_wf_def)
  have g: "mm_wf g" "length (mm_Keys g) = Suc n" "mm_Keys g \<noteq> []" using n1(2) by (auto simp: g_def mm_wf_def n_def)
  have "mm_Keys g ! j = mm_Keys h ! j" if "j \<le> n - 1" for j using that n1(1) by (auto simp: g_def nth_append n_def)
  then have sg: "smm 1 (mm_Keys g) (n - 1)" using n1(4) smm_cong [of "n - 1" "mm_Keys g" "mm_Keys h"] by simp
  have "entries g = entries h @ [(k, v)]" using n1(2) by (simp add: g_def mm_wf_def)
  moreover have "entries h \<noteq> []" using n1(1,3) by (auto simp: n_def)
  ultimately have items: "mm_items g = add_mset (k, v) (mm_items h)" by (simp add: mm_items_def)
  show ?thesis
  proof (cases "n = 1")
    case True
    then have "smm 1 (mm_Keys g) n" by (auto simp: smm_def sibs_def los_def his_def)
    then have "mm_inv g" "mm_inv (g\<lparr>mm_calls := c\<rparr>)" "mm_items (g\<lparr>mm_calls := c\<rparr>) = mm_items g" for c
      using g(1,3) arg_cong [OF g(2), of "\<lambda>x. x - 1"] by (simp_all add: mm_inv_def mm_items_def mm_wf_def)
    then show ?thesis using True items by (auto simp: mm_Push_def Let_def n_def g_def)
  next
    case False
    then have n2: "2 \<le> n" using n1(1) by simp
    have push: "mm_Push h k v = rbind (mm_adjustSiblings g (int n)) (\<lambda>(h1, i). mm_siftUp h1 i)"
      using False by (simp add: mm_Push_def Let_def n_def g_def)
    have fin: "mm_inv h' \<and> mm_items h' = mm_items g" if "shuffles n g h'" "smm 1 (mm_Keys h') n" for h'
      using that shufflesD [OF that(1)] shuffles_items [OF that(1) g(1,3)] g(2) by (auto simp: mm_inv_def)
    show ?thesis
    proof (cases "even n \<and> mm_Keys g ! n < mm_Keys g ! (n - 1)")
      case True
      obtain p where p: "n = Suc p" "odd p" using True n2 by (cases n) auto
      obtain h1 where h1: "mm_swap g (int n) (int p) = Inr h1" "mm_Keys h1 = sw (mm_Keys g) n p" "shuffles n g h1"
        using mm_swap_ok [OF g(1), of n n p] n2 g(2) p(1) by auto
      have "mm_adjustSiblings g (int n) = Inr (h1, int p)"
        using h1(1) True n2 g(2) by (subst adjustSiblings_int) (auto simp: p)
      moreover obtain h2 where h2: "mm_siftUp h1 (int p) = Inr h2" "shuffles n h1 h2" "smm 1 (mm_Keys h2) n"
        using siftUp_new_left [of "mm_Keys g" p h1] sg g(2) True h1(2) shufflesD [OF h1(3)] p by auto
      ultimately show ?thesis using push fin [OF shuffles_trans [OF h1(3) h2(2)] h2(3)] items by simp
    next
      case 2: False
      have "mm_adjustSiblings g (int n) = Inr (g, int n)"
        using 2 n2 g(2) by (subst adjustSiblings_int) auto
      moreover obtain h2 where h2: "mm_siftUp g (int n) = Inr h2" "shuffles n g h2" "smm 1 (mm_Keys h2) n"
        using siftUp_new [OF sg n2 _ g(1)] 2 g(2) by (auto simp: not_less)
      ultimately show ?thesis using push fin [OF h2(2,3)] items by simp
    qed
  qed
qed

section \<open>Removing entries\<close>

text \<open>
  \<^verbatim>\<open>PopMin\<close>, \<^verbatim>\<open>PopMax\<close> and \<^verbatim>\<open>Remove\<close> exchange the entry with the last one, restore the order of the others and
  drop the last entry.
\<close>

lemma swap_out:
  assumes inv: "mm_inv h" and n: "length (mm_Keys h) = Suc n" and i: "1 \<le> i" "i \<le> n"
  obtains h1 where "mm_swap h (int i) (int n) = Inr h1" "shuffles n h h1" "mm_wf h1" "length (mm_Keys h1) = Suc n"
    "mm_Keys h1 = sw (mm_Keys h) i n" "entries h1 ! n = entries h ! i" "order_but i (mm_Keys h1) (n - 1)"
proof -
  have wf: "mm_wf h" "smm 1 (mm_Keys h) n" using inv n by (auto simp: mm_inv_def)
  obtain h1 where h1: "mm_swap h (int i) (int n) = Inr h1" "mm_Keys h1 = sw (mm_Keys h) i n" "shuffles n h h1"
    using mm_swap_ok [OF wf(1), of i n n] i n by auto
  have "entries h1 ! n = entries h ! i" using mm_swap_entries [OF h1(1) wf(1)] i n wf(1) by (simp add: sw_nth mm_wf_def)
  moreover have "smm 1 (mm_Keys h) (n - 1)" by (rule smm_shorter [OF wf(2)]) simp
  then have "order_but i (mm_Keys h1) (n - 1)" unfolding order_but_def h1(2)
    using i n by (intro exI [of _ "mm_Keys h"]) (auto simp: sw_nth)
  ultimately show ?thesis using that h1 shufflesD [OF h1(3)] n by simp
qed

lemma drop_out:
  assumes inv: "mm_inv h" and n: "length (mm_Keys h) = Suc n" "1 \<le> n"
    and h1: "shuffles n h h1" "length (mm_Keys h1) = Suc n" and h2: "shuffles (n - 1) h1 h2" "smm 1 (mm_Keys h2) (n - 1)"
  obtains h3 where "mm_truncate h2 (int n) = Inr h3" "mm_inv h3" "mm_items h = add_mset (entries h1 ! n) (mm_items h3)"
proof -
  have w: "mm_wf h2" "length (mm_Keys h2) = Suc n" using shufflesD [OF h2(1)] h1(2) by auto
  have "mm_Keys h1 \<noteq> []" using h1(2) by auto
  then have "mm_items h2 = mm_items h1" "mm_items h1 = mm_items h"
    using shuffles_items [OF h2(1)] shuffles_items [OF h1(1)] shufflesD [OF h1(1)] inv by (auto simp: mm_inv_def)
  moreover have "entries h2 ! n = entries h1 ! n" using h2(1) h1(2) n(2) by (auto simp: shuffles_def)
  ultimately show ?thesis using mm_truncate_ok [OF w n(2) h2(2)] that by metis
qed

lemma mm_entry_int: "mm_wf h \<Longrightarrow> i < length (mm_Keys h) \<Longrightarrow> mm_entry h (int i) = Inr (entries h ! i)"
  by (simp add: mm_entry_def mm_wf_def)

lemma items_iff: "mm_wf h \<Longrightarrow> x \<in># mm_items h \<longleftrightarrow> (\<exists>j. 1 \<le> j \<and> j < length (mm_Keys h) \<and> x = entries h ! j)"
proof -
  assume wf: "mm_wf h"
  then have len: "length (entries h) = length (mm_Keys h)" by (simp add: mm_wf_def)
  show ?thesis
  proof
    assume "x \<in># mm_items h"
    then obtain j where "j < length (tl (entries h))" "x = tl (entries h) ! j" by (auto simp: mm_items_def in_set_conv_nth)
    then show "\<exists>j. 1 \<le> j \<and> j < length (mm_Keys h) \<and> x = entries h ! j"
      using len by (intro exI [of _ "Suc j"]) (simp add: nth_tl)
  next
    assume "\<exists>j. 1 \<le> j \<and> j < length (mm_Keys h) \<and> x = entries h ! j"
    then obtain j where "1 \<le> j" "j < length (mm_Keys h)" "x = entries h ! j" by blast
    then have "j - 1 < length (tl (entries h))" "x = tl (entries h) ! (j - 1)" using len by (auto simp: nth_tl)
    then show "x \<in># mm_items h" unfolding mm_items_def by (metis nth_mem set_mset_mset)
  qed
qed

lemma items_bounds:
  assumes "mm_inv h" "x \<in># mm_items h"
  shows "mm_Keys h ! 1 \<le> fst x" "3 \<le> length (mm_Keys h) \<Longrightarrow> fst x \<le> mm_Keys h ! 2"
proof -
  have wf: "mm_wf h" "smm 1 (mm_Keys h) (length (mm_Keys h) - 1)" using assms(1) by (auto simp: mm_inv_def)
  obtain j where j: "1 \<le> j" "j < length (mm_Keys h)" "x = entries h ! j" using assms(2) items_iff [OF wf(1)] by blast
  then have "fst x = mm_Keys h ! j" using wf(1) by (simp add: mm_wf_def)
  then show "mm_Keys h ! 1 \<le> fst x" "3 \<le> length (mm_Keys h) \<Longrightarrow> fst x \<le> mm_Keys h ! 2"
    using smm_bounds [OF wf(2) j(1)] j(2) by auto
qed

lemma mm_PopMin_ok:
  assumes inv: "mm_inv h" and ne: "mm_items h \<noteq> {#}"
  shows "\<exists>kv h'. mm_PopMin h = Inr (kv, h') \<and> mm_inv h' \<and> mm_items h = add_mset kv (mm_items h') \<and>
     (\<forall>x\<in>#mm_items h. fst kv \<le> fst x)"
proof -
  have wf: "mm_wf h" "mm_Keys h \<noteq> []" "smm 1 (mm_Keys h) (length (mm_Keys h) - 1)" using inv by (auto simp: mm_inv_def)
  obtain x where "x \<in># mm_items h" using ne by blast
  then have "2 \<le> length (mm_Keys h)" using items_iff [OF wf(1)] by fastforce
  then obtain n where n: "length (mm_Keys h) = Suc n" "1 \<le> n" by (cases "length (mm_Keys h)") auto
  obtain h1 where h1: "mm_swap h (int 1) (int n) = Inr h1" "shuffles n h h1" "mm_wf h1" "length (mm_Keys h1) = Suc n"
    "mm_Keys h1 = sw (mm_Keys h) 1 n" "entries h1 ! n = entries h ! 1" "order_but 1 (mm_Keys h1) (n - 1)"
    by (rule swap_out [OF inv n(1) order_refl n(2)])
  note o = order_but_odd [OF h1(7) odd_one]
  have "mm_Keys h1 ! 1 \<le> mm_Keys h1 ! 2" if "2 < n"
    using smm_bounds(2) [OF wf(3), of n] n that by (simp add: h1(5) sw_nth)
  then have "mm_Keys h1 ! j \<le> mm_Keys h1 ! Suc j" if "odd j" "j < n - 1" for j
    using o(1) [OF that(1) _ that(2)] that(2) by (cases "j = 1") (auto simp: numeral_2_eq_2)
  then have "sibs 1 (mm_Keys h1) (n - 1)" by (simp add: sibs_def)
  then have "hole_lo 1 (mm_Keys h1) 1 (n - 1)" using o(2,3) by (auto simp: hole_lo_def los_def his_def)
  moreover have "n - 1 < length (mm_Keys h1)" using h1(4) by simp
  ultimately obtain h2 i2 where
    h2: "mm_siftDownMin_loop h1 (int 1) (int (n - 1)) = Inr (h2, i2)" "shuffles (n - 1) h1 h2" "smm 1 (mm_Keys h2) (n - 1)"
    using siftDownMin_ok [OF _ h1(3)] by blast
  obtain h3 where h3: "mm_truncate h2 (int n) = Inr h3" "mm_inv h3" "mm_items h = add_mset (entries h1 ! n) (mm_items h3)"
    by (rule drop_out [OF inv n h1(2,4) h2(2,3)])
  have e: "int (length (mm_Keys h)) - 1 = int n" "int n - 1 = int (n - 1)" using n by auto
  have "mm_PopMin h = Inr (entries h ! 1, h3)"
    unfolding mm_PopMin_def Let_def e using mm_entry_int [OF wf(1), of 1] h1(1) h2(1) h3(1) n by (simp add: mm_siftDownMin_def)
  moreover have "fst (entries h ! 1) = mm_Keys h ! 1" using n wf(1) by (simp add: mm_wf_def)
  ultimately show ?thesis using h3(2,3) h1(6) items_bounds(1) [OF inv] by auto
qed

lemma mm_PopMax_ok:
  assumes inv: "mm_inv h" and ne: "mm_items h \<noteq> {#}"
  shows "\<exists>kv h'. mm_PopMax h = Inr (kv, h') \<and> mm_inv h' \<and> mm_items h = add_mset kv (mm_items h') \<and>
     (\<forall>x\<in>#mm_items h. fst x \<le> fst kv)"
proof -
  have wf: "mm_wf h" "mm_Keys h \<noteq> []" "smm 1 (mm_Keys h) (length (mm_Keys h) - 1)" using inv by (auto simp: mm_inv_def)
  obtain x where "x \<in># mm_items h" using ne by blast
  then have "2 \<le> length (mm_Keys h)" using items_iff [OF wf(1)] by fastforce
  then obtain n where n: "length (mm_Keys h) = Suc n" "1 \<le> n" by (cases "length (mm_Keys h)") auto
  have e: "int (length (mm_Keys h)) - 1 = int n" "int n - 1 = int (n - 1)" using n by auto
  show ?thesis
  proof (cases "n = 1")
    case True
    have "smm 1 (mm_Keys h) 0" by (auto simp: smm_def sibs_def los_def his_def)
    then obtain h1 where h1: "mm_truncate h (int n) = Inr h1" "mm_inv h1" "mm_items h = add_mset (entries h ! n) (mm_items h1)"
      using mm_truncate_ok [OF wf(1) n] True by auto
    have "mm_PopMax h = Inr (entries h ! 1, h1)"
      unfolding mm_PopMax_def Let_def e using True mm_entry_int [OF wf(1), of 1] h1(1) n by simp
    moreover have "mm_items h1 = {#}"
    proof -
      have "size (mm_items h) = n" using wf(1) n by (simp add: mm_items_def mm_wf_def)
      then show ?thesis using h1(3) True by simp
    qed
    ultimately show ?thesis using h1 True by auto
  next
    case False
    then have n2: "2 \<le> n" using n by simp
    obtain h1 where h1: "mm_swap h (int 2) (int n) = Inr h1" "shuffles n h h1" "mm_wf h1" "length (mm_Keys h1) = Suc n"
      "mm_Keys h1 = sw (mm_Keys h) 2 n" "entries h1 ! n = entries h ! 2" "order_but 2 (mm_Keys h1) (n - 1)"
      by (rule swap_out [OF inv n(1) _ n2]) auto
    have "order_but (Suc 1) (mm_Keys h1) (n - 1)" using h1(7) by (simp add: numeral_2_eq_2)
    note o = order_but_even [OF this odd_one]
    have "mm_Keys h1 ! 1 \<le> mm_Keys h1 ! 2"
      using smm_bounds(1) [OF wf(3), of n] n n2 by (simp add: h1(5) sw_nth)
    then have "mm_Keys h1 ! j \<le> mm_Keys h1 ! Suc j" if "odd j" "j < n - 1" for j
      using o(1) [OF that(1) _ that(2)] by (cases "j = 1") (auto simp: numeral_2_eq_2)
    then have "hole_hi 1 (mm_Keys h1) 2 (n - 1)" using o(2,3) by (auto simp: hole_hi_def sibs_def los_def his_def)
    moreover have "n - 1 < length (mm_Keys h1)" using h1(4) by simp
    ultimately obtain h2 i2 where
      h2: "mm_siftDownMax_loop h1 (int 2) (int (n - 1)) = Inr (h2, i2)" "shuffles (n - 1) h1 h2" "smm 1 (mm_Keys h2) (n - 1)"
      using siftDownMax_ok [OF _ h1(3)] by blast
    obtain h3 where h3: "mm_truncate h2 (int n) = Inr h3" "mm_inv h3" "mm_items h = add_mset (entries h1 ! n) (mm_items h3)"
      by (rule drop_out [OF inv n h1(2,4) h2(2,3)])
    have "mm_PopMax h = Inr (entries h ! 2, h3)"
      unfolding mm_PopMax_def Let_def e using mm_entry_int [OF wf(1), of 2] h1(1) h2(1) h3(1) n n2 False by (simp add: mm_siftDownMax_def)
    moreover have "fst (entries h ! 2) = mm_Keys h ! 2" using n n2 wf(1) by (simp add: mm_wf_def)
    ultimately show ?thesis using h3(2,3) h1(6) items_bounds(2) [OF inv] n n2 by auto
  qed
qed

lemma mm_Remove_ok:
  assumes inv: "mm_inv h" and i: "1 \<le> i" "i < length (mm_Keys h)"
  shows "\<exists>h'. mm_Remove zk zv h (int i) = Inr (entries h ! i, h') \<and> mm_inv h' \<and> mm_items h = add_mset (entries h ! i) (mm_items h')"
proof -
  have wf: "mm_wf h" using inv by (simp add: mm_inv_def)
  obtain n where n: "length (mm_Keys h) = Suc n" "1 \<le> n" "i \<le> n" using i by (cases "length (mm_Keys h)") auto
  have e: "int (length (mm_Keys h)) - 1 = int n" "int n - 1 = int (n - 1)" using n by auto
  have g: "\<not> (int i > int n \<or> int i = 0)" using i n(3) by simp
  show ?thesis
  proof (cases "i < n")
    case False
    have "smm 1 (mm_Keys h) (n - 1)" using inv n(1) smm_shorter [of 1 "mm_Keys h" n "n - 1"] by (simp add: mm_inv_def)
    then obtain h1 where "mm_truncate h (int n) = Inr h1" "mm_inv h1" "mm_items h = add_mset (entries h ! n) (mm_items h1)"
      using mm_truncate_ok [OF wf n(1,2)] by auto
    then show ?thesis unfolding mm_Remove_def Let_def e using g False n(3) mm_entry_int [OF wf i(2)] by simp
  next
    case True
    obtain h1 where h1: "mm_swap h (int i) (int n) = Inr h1" "shuffles n h h1" "mm_wf h1" "length (mm_Keys h1) = Suc n"
      "entries h1 ! n = entries h ! i" "order_but i (mm_Keys h1) (n - 1)"
      by (rule swap_out [OF inv n(1) i(1) n(3)])
    obtain h2 where h2: "(if int n > 2 then mm_update h1 (int i) (int (n - 1)) else Inr h1) = Inr h2" "shuffles (n - 1) h1 h2"
      "smm 1 (mm_Keys h2) (n - 1)"
    proof (cases "2 < n")
      case 2: True
      then have "i \<le> n - 1" "2 \<le> n - 1" "n - 1 < length (mm_Keys h1)" "int n > 2" using True h1(4) by auto
      then show ?thesis using mm_update_ok [OF h1(6) i(1) _ _ _ h1(3)] that by fastforce
    next
      case 2: False
      then have "n - 1 \<le> 1" by simp
      then have "smm 1 (mm_Keys h1) (n - 1)" by (auto simp: smm_def sibs_def los_def his_def)
      then show ?thesis using that 2 shuffles_refl [OF h1(3)] by simp
    qed
    obtain h3 where h3: "mm_truncate h2 (int n) = Inr h3" "mm_inv h3" "mm_items h = add_mset (entries h1 ! n) (mm_items h3)"
      by (rule drop_out [OF inv n(1,2) h1(2,4) h2(2,3)])
    then show ?thesis
      unfolding mm_Remove_def Let_def e using g True mm_entry_int [OF wf i(2)] h1(1,5) h2(1) by simp
  qed
qed

lemma tl_update_Suc: "tl (xs[Suc i := x]) = (tl xs)[i := x]"
  by (cases xs) auto

lemma mm_Update_ok:
  assumes inv: "mm_inv h" and i: "1 \<le> i" "i < length (mm_Keys h)"
  shows "\<exists>h'. mm_Update h (int i) k v = Inr h' \<and> mm_inv h' \<and>
     mm_items h' = add_mset (k, v) (mm_items h - {#entries h ! i#})"
proof -
  define g where "g = h\<lparr>mm_Keys := (mm_Keys h)[i := k], mm_Vals := (mm_Vals h)[i := v]\<rparr>"
  have wf: "mm_wf h" "smm 1 (mm_Keys h) (length (mm_Keys h) - 1)" using inv by (auto simp: mm_inv_def)
  obtain n where n: "length (mm_Keys h) = Suc n" "1 \<le> n" "i \<le> n" using i by (cases "length (mm_Keys h)") auto
  have e: "int (length (mm_Keys h)) - 1 = int n" using n by simp
  have gw: "mm_wf g" "length (mm_Keys g) = Suc n" "mm_Keys g \<noteq> []" using wf(1) n(1) by (auto simp: g_def mm_wf_def)
  have "entries g = (entries h)[i := (k, v)]" using wf(1) by (simp add: g_def mm_wf_def update_zip)
  then have "tl (entries g) = (tl (entries h))[i - 1 := (k, v)]" using i(1) tl_update_Suc [of "entries h" "i - 1"] by simp
  moreover have "i - 1 < length (tl (entries h))" "tl (entries h) ! (i - 1) = entries h ! i"
    using i wf(1) by (simp_all add: nth_tl mm_wf_def)
  ultimately have items: "mm_items g = add_mset (k, v) (mm_items h - {#entries h ! i#})"
    using mset_update [of "i - 1" "tl (entries h)" "(k, v)"] by (simp add: mm_items_def)
  obtain h' where h': "(if int (length (mm_Keys h)) = 2 then Inr g else mm_update g (int i) (int n)) = Inr h'" "shuffles n g h'"
    "smm 1 (mm_Keys h') n"
  proof (cases "n = 1")
    case True
    then have "smm 1 (mm_Keys g) n" by (auto simp: smm_def sibs_def los_def his_def)
    then show ?thesis using that True n(1) shuffles_refl [OF gw(1)] by simp
  next
    case False
    have "order_but i (mm_Keys g) n" unfolding order_but_def
      using wf(2) n(1) by (intro exI [of _ "mm_Keys h"]) (auto simp: g_def)
    then show ?thesis using mm_update_ok [of i g n] i(1) n False gw(1,2) that by auto
  qed
  have "mm_Update h (int i) k v = Inr h'"
    unfolding mm_Update_def Let_def e using h'(1) [unfolded g_def] i wf(1) by (simp add: mm_wf_def)
  moreover have "mm_inv h'" "mm_items h' = mm_items g"
    using h'(3) shufflesD [OF h'(2)] gw shuffles_items [OF h'(2) gw(1,3)] by (auto simp: mm_inv_def)
  ultimately show ?thesis using items by simp
qed

end
