(* ===== verification/Double_Ended.thy ===== *)
theory Double_Ended
  imports Min_Max_Queue
begin

text \<open>
  Double-ended priority queues. Two contracts are stated as locales, their clients are proved against
  them and both are interpreted on the operations of \<^verbatim>\<open>algo/container/heap/minmax.go\<close>: popping in order
  rests on \<^verbatim>\<open>PopMin\<close> and \<^verbatim>\<open>PopMax\<close>, keeping the extreme entries of a stream on \<^verbatim>\<open>PushMaxN\<close> and \<^verbatim>\<open>PushMinN\<close>.
\<close>

section \<open>Popping in order\<close>

primrec drain :: "('h \<Rightarrow> ('a \<times> 'h) res) \<Rightarrow> nat \<Rightarrow> 'h \<Rightarrow> ('a list \<times> 'h) res" where
  "drain pop 0 h = Inr ([], h)"
| "drain pop (Suc n) h = rbind (pop h) (\<lambda>(x, h'). rbind (drain pop n h') (\<lambda>(xs, h''). Inr (x # xs, h'')))"

locale ordered_pop =
  fixes inv :: "'h \<Rightarrow> bool"
    and items :: "'h \<Rightarrow> 'a multiset"
    and pop :: "'h \<Rightarrow> ('a \<times> 'h) res"
    and le :: "'a \<Rightarrow> 'a \<Rightarrow> bool"
  assumes pop_first: "inv h \<Longrightarrow> items h \<noteq> {#} \<Longrightarrow>
      \<exists>x h'. pop h = Inr (x, h') \<and> inv h' \<and> items h = add_mset x (items h') \<and> (\<forall>y\<in>#items h. le x y)"
begin

lemma drain_in_order:
  "inv h \<Longrightarrow> n \<le> size (items h) \<Longrightarrow>
     \<exists>xs h'. drain pop n h = Inr (xs, h') \<and> inv h' \<and> length xs = n \<and> items h = mset xs + items h' \<and>
       sorted_wrt le xs \<and> (\<forall>x\<in>set xs. \<forall>y\<in>#items h'. le x y)"
proof (induction n arbitrary: h)
  case (Suc n)
  have "items h \<noteq> {#}" using Suc.prems(2) by auto
  then obtain x h1 where h1: "pop h = Inr (x, h1)" "inv h1" "items h = add_mset x (items h1)" "\<forall>y\<in>#items h. le x y"
    using pop_first [OF Suc.prems(1)] by blast
  have "n \<le> size (items h1)" using Suc.prems(2) h1(3) by simp
  then obtain xs h2 where h2: "drain pop n h1 = Inr (xs, h2)" "inv h2" "length xs = n" "items h1 = mset xs + items h2"
    "sorted_wrt le xs" "\<forall>x\<in>set xs. \<forall>y\<in>#items h2. le x y" using Suc.IH [OF h1(2)] by blast
  have "\<forall>y\<in>set xs. le x y" "\<forall>y\<in>#items h2. le x y" using h1(3,4) h2(4) by auto
  then show ?case using h1(1,3) h2 by (intro exI [of _ "x # xs"] exI [of _ h2]) simp
qed simp

lemma drain_all:
  assumes "inv h"
  shows "\<exists>xs h'. drain pop (size (items h)) h = Inr (xs, h') \<and> inv h' \<and> items h' = {#} \<and> items h = mset xs \<and> sorted_wrt le xs"
proof -
  obtain xs h' where d: "drain pop (size (items h)) h = Inr (xs, h')" "inv h'" "length xs = size (items h)"
    "items h = mset xs + items h'" "sorted_wrt le xs" using drain_in_order [OF assms order_refl] by blast
  have "items h' = {#}" using arg_cong [OF d(4), of size] d(3) by simp
  then show ?thesis using d(1,2,4,5) by (intro exI [of _ xs] exI [of _ h']) simp
qed

end

interpretation pop_min: ordered_pop mm_inv mm_items mm_PopMin "\<lambda>x y. fst x \<le> fst y"
  by unfold_locales (rule mm_PopMin_ok)

interpretation pop_max: ordered_pop mm_inv mm_items mm_PopMax "\<lambda>x y. fst y \<le> fst x"
  by unfold_locales (rule mm_PopMax_ok)

section \<open>Keeping the extreme entries\<close>

locale bounded_push =
  fixes inv :: "'h \<Rightarrow> bool"
    and items :: "'h \<Rightarrow> 'a multiset"
    and push :: "'a \<Rightarrow> 'h \<Rightarrow> 'h res"
    and n :: nat
    and le :: "'a \<Rightarrow> 'a \<Rightarrow> bool"
  assumes le_trans: "le x y \<Longrightarrow> le y z \<Longrightarrow> le x z"
    and push_bounded: "inv h \<Longrightarrow> size (items h) \<le> n \<Longrightarrow>
      \<exists>h' d. push e h = Inr h' \<and> inv h' \<and> size (items h') = min n (Suc (size (items h))) \<and>
        add_mset e (items h) = items h' + d \<and> (\<forall>x\<in>#d. \<forall>y\<in>#items h'. le x y)"
begin

definition keeps :: "'a multiset \<Rightarrow> 'h \<Rightarrow> bool" where
  "keeps s h \<longleftrightarrow> inv h \<and> size (items h) = min n (size s) \<and> (\<exists>d. s = items h + d \<and> (\<forall>x\<in>#d. \<forall>y\<in>#items h. le x y))"

lemma keeps_push:
  assumes "keeps s h"
  shows "\<exists>h'. push e h = Inr h' \<and> keeps (add_mset e s) h'"
proof -
  obtain d where d: "inv h" "size (items h) = min n (size s)" "s = items h + d" "\<forall>x\<in>#d. \<forall>y\<in>#items h. le x y"
    using assms unfolding keeps_def by blast
  have "size (items h) \<le> n" using d(2) by simp
  from push_bounded [OF d(1) this, of e] obtain h' d' where h': "push e h = Inr h'" "inv h'" "size (items h') = min n (Suc (size (items h)))"
    "add_mset e (items h) = items h' + d'" "\<forall>x\<in>#d'. \<forall>y\<in>#items h'. le x y"
    by (elim exE conjE) (rule that)
  have "le x y" if x: "x \<in># d" and y: "y \<in># items h'" for x y
  proof (cases "y \<in># items h")
    case True
    then show ?thesis using d(4) x by blast
  next
    case False
    have "0 < size d" using x by (auto simp flip: nonempty_has_size)
    then have "size (items h) = n" "size (items h') = n" using d(2,3) h'(3) by auto
    moreover have "Suc (size (items h)) = size (items h') + size d'" using arg_cong [OF h'(4), of size] by simp
    ultimately have "size d' = 1" by simp
    then obtain m where m: "d' = {#m#}" by (meson size_1_singleton_mset)
    have ye: "y = e" using False y h'(4) by (metis insert_iff set_mset_add_mset_insert union_iff)
    have "m \<in># items h"
    proof (rule ccontr)
      assume "m \<notin># items h"
      then have "m = e" using h'(4) m by (metis insert_iff set_mset_add_mset_insert union_iff union_single_eq_member add.commute)
      then have "items h' = items h" using h'(4) m by simp
      then show False using False y by simp
    qed
    then have "le x m" "le m y" using d(4) x h'(5) m y by auto
    then show ?thesis by (rule le_trans)
  qed
  moreover have "add_mset e s = items h' + (d' + d)" using h'(4) d(3) by (simp add: union_assoc flip: union_mset_add_mset_left)
  moreover have "size (items h') = min n (size (add_mset e s))" using d(2) h'(3) by simp
  ultimately have "keeps (add_mset e s) h'"
    unfolding keeps_def using h'(2,5) by (intro conjI exI [of _ "d' + d"]) auto
  then show ?thesis using h'(1) by blast
qed

lemma keeps_stream:
  "keeps s h \<Longrightarrow> \<exists>h'. rfold push xs h = Inr h' \<and> keeps (s + mset xs) h'"
proof (induction xs arbitrary: s h)
  case (Cons x xs)
  obtain h1 where h1: "push x h = Inr h1" "keeps (add_mset x s) h1" using keeps_push [OF Cons.prems] by blast
  then show ?case using Cons.IH [OF h1(2)] by simp
qed simp

end

lemma mm_inv_length: "mm_inv h \<Longrightarrow> length (mm_Keys h) = Suc (size (mm_items h))"
  by (cases "mm_Keys h") (auto simp: mm_inv_def mm_wf_def mm_items_def)

lemma key_in_items: "mm_inv h \<Longrightarrow> 1 \<le> j \<Longrightarrow> j < length (mm_Keys h) \<Longrightarrow> \<exists>v. (mm_Keys h ! j, v) \<in># mm_items h"
proof -
  assume a: "mm_inv h" "1 \<le> j" "j < length (mm_Keys h)"
  then have "entries h ! j \<in># mm_items h" using items_iff [of h "entries h ! j"] by (auto simp: mm_inv_def)
  then show ?thesis using a by (auto simp: mm_inv_def mm_wf_def)
qed

lemma mm_PushMaxN_ok:
  assumes inv: "mm_inv h" and n: "size (mm_items h) \<le> Suc m"
  shows "\<exists>h' d. mm_PushMaxN h k v (int (Suc m)) = Inr h' \<and> mm_inv h' \<and> size (mm_items h') = min (Suc m) (Suc (size (mm_items h))) \<and>
     add_mset (k, v) (mm_items h) = mm_items h' + d \<and> (\<forall>x\<in>#d. \<forall>y\<in>#mm_items h'. fst x \<le> fst y)"
proof -
  note len = mm_inv_length [OF inv]
  consider (room) "size (mm_items h) < Suc m" | (small) "size (mm_items h) = Suc m" "k < mm_Keys h ! 1"
    | (full) "size (mm_items h) = Suc m" "\<not> k < mm_Keys h ! 1" using n by linarith
  then show ?thesis
  proof cases
    case room
    obtain h' where "mm_Push h k v = Inr h'" "mm_inv h'" "mm_items h' = add_mset (k, v) (mm_items h)"
      using mm_Push_ok [OF inv] by blast
    then show ?thesis using room len by (intro exI [of _ h'] exI [of _ "{#}"]) (simp add: mm_PushMaxN_def Let_def)
  next
    case small
    have "sl_get (mm_Keys h) 1 = Inr (mm_Keys h ! 1)" using sl_get_int [of 1 "mm_Keys h"] small(1) len by simp
    then have "mm_PushMaxN h k v (int (Suc m)) = Inr h" using small len by (simp add: mm_PushMaxN_def Let_def)
    moreover have "k \<le> fst y" if "y \<in># mm_items h" for y using items_bounds(1) [OF inv that] small(2) by simp
    ultimately show ?thesis using inv small(1) by (intro exI [of _ h] exI [of _ "{#(k, v)#}"]) simp
  next
    case full
    obtain e h1 where h1: "mm_PopMin h = Inr (e, h1)" "mm_inv h1" "mm_items h = add_mset e (mm_items h1)"
      "\<forall>x\<in>#mm_items h. fst e \<le> fst x" using mm_PopMin_ok [OF inv] full(1) by fastforce
    obtain h' where h': "mm_Push h1 k v = Inr h'" "mm_inv h'" "mm_items h' = add_mset (k, v) (mm_items h1)"
      using mm_Push_ok [OF h1(2)] by blast
    obtain w where "(mm_Keys h ! 1, w) \<in># mm_items h" using key_in_items [OF inv, of 1] full(1) len by auto
    then have "fst e \<le> k" using h1(4) full(2) by fastforce
    then have "\<forall>y\<in>#mm_items h'. fst e \<le> fst y" using h1(3,4) h'(3) by auto
    moreover have "sl_get (mm_Keys h) 1 = Inr (mm_Keys h ! 1)" using sl_get_int [of 1 "mm_Keys h"] full(1) len by simp
    then have "mm_PushMaxN h k v (int (Suc m)) = Inr h'" using full len h1(1) h'(1) by (simp add: mm_PushMaxN_def Let_def)
    moreover have "add_mset (k, v) (mm_items h) = mm_items h' + {#e#}" "size (mm_items h') = Suc m"
      using h1(3) h'(3) full(1) by auto
    ultimately show ?thesis using h'(2) full(1) by (intro exI [of _ h'] exI [of _ "{#e#}"]) simp
  qed
qed

lemma max_key:
  assumes inv: "mm_inv h" and ne: "mm_items h \<noteq> {#}"
  defines "j \<equiv> if length (mm_Keys h) = 2 then 1 else 2"
  shows "1 \<le> j" "j < length (mm_Keys h)" "x \<in># mm_items h \<Longrightarrow> fst x \<le> mm_Keys h ! j"
proof -
  note len = mm_inv_length [OF inv]
  have "0 < size (mm_items h)" using ne by (simp flip: nonempty_has_size)
  then show j: "1 \<le> j" "j < length (mm_Keys h)" using len by (auto simp: j_def)
  show "fst x \<le> mm_Keys h ! j" if x: "x \<in># mm_items h"
  proof (cases "length (mm_Keys h) = 2")
    case True
    have wf: "mm_wf h" using inv by (simp add: mm_inv_def)
    then obtain i where "1 \<le> i" "i < length (mm_Keys h)" "x = entries h ! i" using items_iff x by blast
    moreover from this have "i = 1" using True by simp
    ultimately show ?thesis using True wf by (simp add: j_def mm_wf_def)
  next
    case False
    then show ?thesis using items_bounds(2) [OF inv x] j by (simp add: j_def)
  qed
qed

lemma mm_PushMinN_ok:
  assumes inv: "mm_inv h" and n: "size (mm_items h) \<le> Suc m"
  shows "\<exists>h' d. mm_PushMinN h k v (int (Suc m)) = Inr h' \<and> mm_inv h' \<and> size (mm_items h') = min (Suc m) (Suc (size (mm_items h))) \<and>
     add_mset (k, v) (mm_items h) = mm_items h' + d \<and> (\<forall>x\<in>#d. \<forall>y\<in>#mm_items h'. fst y \<le> fst x)"
proof -
  note len = mm_inv_length [OF inv]
  let ?j = "if length (mm_Keys h) = 2 then 1 else 2"
  consider (room) "size (mm_items h) < Suc m" | (large) "size (mm_items h) = Suc m" "mm_Keys h ! ?j < k"
    | (full) "size (mm_items h) = Suc m" "k \<le> mm_Keys h ! ?j" using n le_neq_implies_less not_less by blast
  then show ?thesis
  proof cases
    case room
    obtain h' where "mm_Push h k v = Inr h'" "mm_inv h'" "mm_items h' = add_mset (k, v) (mm_items h)"
      using mm_Push_ok [OF inv] by blast
    then show ?thesis using room len by (intro exI [of _ h'] exI [of _ "{#}"]) (simp add: mm_PushMinN_def Let_def)
  next
    case large
    then have ne: "mm_items h \<noteq> {#}" by auto
    note mk = max_key [OF inv ne]
    have "sl_get (mm_Keys h) (if int (length (mm_Keys h)) = 2 then 1 else 2) = Inr (mm_Keys h ! ?j)"
      using mk(2) sl_get_int [of 1 "mm_Keys h"] sl_get_int [of 2 "mm_Keys h"] by (auto split: if_splits)
    then have "mm_PushMinN h k v (int (Suc m)) = Inr h" using large len by (simp add: mm_PushMinN_def Let_def)
    moreover have "fst y \<le> k" if "y \<in># mm_items h" for y using mk(3) [OF that] large(2) by simp
    ultimately show ?thesis using inv large(1) by (intro exI [of _ h] exI [of _ "{#(k, v)#}"]) simp
  next
    case full
    then have ne: "mm_items h \<noteq> {#}" by auto
    note mk = max_key [OF inv ne]
    obtain e h1 where h1: "mm_PopMax h = Inr (e, h1)" "mm_inv h1" "mm_items h = add_mset e (mm_items h1)"
      "\<forall>x\<in>#mm_items h. fst x \<le> fst e" using mm_PopMax_ok [OF inv ne] by blast
    obtain h' where h': "mm_Push h1 k v = Inr h'" "mm_inv h'" "mm_items h' = add_mset (k, v) (mm_items h1)"
      using mm_Push_ok [OF h1(2)] by blast
    obtain w where "(mm_Keys h ! ?j, w) \<in># mm_items h" using key_in_items [OF inv mk(1,2)] by blast
    then have "k \<le> fst e" using h1(4) full(2) by fastforce
    then have "\<forall>y\<in>#mm_items h'. fst y \<le> fst e" using h1(3,4) h'(3) by auto
    moreover have "sl_get (mm_Keys h) (if int (length (mm_Keys h)) = 2 then 1 else 2) = Inr (mm_Keys h ! ?j)"
      using mk(2) sl_get_int [of 1 "mm_Keys h"] sl_get_int [of 2 "mm_Keys h"] by (auto split: if_splits)
    then have "mm_PushMinN h k v (int (Suc m)) = Inr h'" using full len h1(1) h'(1) by (simp add: mm_PushMinN_def Let_def not_less)
    moreover have "add_mset (k, v) (mm_items h) = mm_items h' + {#e#}" "size (mm_items h') = Suc m"
      using h1(3) h'(3) full(1) by auto
    ultimately show ?thesis using h'(2) full(1) by (intro exI [of _ h'] exI [of _ "{#e#}"]) simp
  qed
qed

interpretation push_max: bounded_push mm_inv mm_items "\<lambda>(k, v) h. mm_PushMaxN h k v (int (Suc m))" "Suc m" "\<lambda>x y. fst x \<le> fst y" for m
proof unfold_locales
  show "\<exists>h' d. (case e of (k, v) \<Rightarrow> \<lambda>h. mm_PushMaxN h k v (int (Suc m))) h = Inr h' \<and> mm_inv h' \<and>
      size (mm_items h') = min (Suc m) (Suc (size (mm_items h))) \<and> add_mset e (mm_items h) = mm_items h' + d \<and>
      (\<forall>x\<in>#d. \<forall>y\<in>#mm_items h'. fst x \<le> fst y)" if "mm_inv h" "size (mm_items h) \<le> Suc m"
    for h :: "('a::linorder, 'b) MinMax" and e
    using mm_PushMaxN_ok [OF that, of "fst e" "snd e"] by (cases e) (simp only: prod.case fst_conv snd_conv)
qed (rule order_trans)

interpretation push_min: bounded_push mm_inv mm_items "\<lambda>(k, v) h. mm_PushMinN h k v (int (Suc m))" "Suc m" "\<lambda>x y. fst y \<le> fst x" for m
proof unfold_locales
  show "\<exists>h' d. (case e of (k, v) \<Rightarrow> \<lambda>h. mm_PushMinN h k v (int (Suc m))) h = Inr h' \<and> mm_inv h' \<and>
      size (mm_items h') = min (Suc m) (Suc (size (mm_items h))) \<and> add_mset e (mm_items h) = mm_items h' + d \<and>
      (\<forall>x\<in>#d. \<forall>y\<in>#mm_items h'. fst y \<le> fst x)" if "mm_inv h" "size (mm_items h) \<le> Suc m"
    for h :: "('a::linorder, 'b) MinMax" and e
    using mm_PushMinN_ok [OF that, of "fst e" "snd e"] by (cases e) (simp only: prod.case fst_conv snd_conv)
qed (rule order_trans)

section \<open>Properties\<close>



lemma push_stream:
  "mm_inv h \<Longrightarrow> \<exists>h'. rfold (\<lambda>(k, v) h. mm_Push h k v) xs h = Inr h' \<and> mm_inv h' \<and> mm_items h' = mm_items h + mset xs"
proof (induction xs arbitrary: h)
  case (Cons x xs)
  obtain k v where x: "x = (k, v)" by (cases x)
  obtain h1 where h1: "mm_Push h k v = Inr h1" "mm_inv h1" "mm_items h1 = add_mset (k, v) (mm_items h)"
    using mm_Push_ok [OF Cons.prems] by blast
  then show ?case using Cons.IH [OF h1(2)] by (auto simp: x)
qed simp

lemma NewMinMax_data:
  assumes "length ks = length vs"
  shows "NewMinMax zk zv [WithData (Some ks) (Some vs)] =
    mm_heapify \<lparr>mm_Keys = ks, mm_Vals = vs, mm_callback = False, mm_calls = []\<rparr>"
  using assms by (simp add: NewMinMax_def len_nil_def)

text \<open>
  C6: \<^verbatim>\<open>NewMinMax\<close> arranges any data with at least one entry after the dummy root into a heap; popping the minima
  of it, after any further entries have been pushed, returns all the entries in ascending order of the
  keys and popping the maxima in descending order. Given no entry besides a dummy root, or not even
  that, \<^verbatim>\<open>NewMinMax\<close> never returns: \<^verbatim>\<open>heapify\<close> halves the length until it is 1, which it never is.
\<close>

theorem min_max_sorts:
  assumes "length ks = length vs"
  shows "(length ks < 2 \<longrightarrow> NewMinMax zk zv [WithData (Some ks) (Some vs)] = None) \<and>
    (2 \<le> length ks \<longrightarrow>
      (\<exists>h0 h. NewMinMax zk zv [WithData (Some ks) (Some vs)] = Some (Inr h0) \<and>
        rfold (\<lambda>(k, v) h. mm_Push h k v) kvs h0 = Inr h \<and> mm_inv h \<and>
        (\<exists>xs h'. drain mm_PopMin (length ks - 1 + length kvs) h = Inr (xs, h') \<and> mm_Len h' = 0 \<and>
          sorted (map fst xs) \<and> mset xs = mset (tl (zip ks vs) @ kvs)) \<and>
        (\<exists>xs h'. drain mm_PopMax (length ks - 1 + length kvs) h = Inr (xs, h') \<and> mm_Len h' = 0 \<and>
          sorted (rev (map fst xs)) \<and> mset xs = mset (tl (zip ks vs) @ kvs))))"
proof (intro conjI impI)
  assume "length ks < 2"
  then show "NewMinMax zk zv [WithData (Some ks) (Some vs)] = None"
    unfolding NewMinMax_data [OF assms] by (simp add: mm_heapify_def levels.simps [of "length ks"])
next
  assume two: "2 \<le> length ks"
  let ?g = "\<lparr>mm_Keys = ks, mm_Vals = vs, mm_callback = False, mm_calls = []\<rparr>"
  have g: "mm_items ?g = mset (tl (zip ks vs))" by (simp add: mm_items_def)
  obtain h0 where h0: "mm_heapify ?g = Some (Inr h0)" "mm_inv h0" "mm_items h0 = mset (tl (zip ks vs))"
    using heapify_ok [of ?g] assms two unfolding g by (auto simp: mm_wf_def)
  obtain h where h: "rfold (\<lambda>(k, v) h. mm_Push h k v) kvs h0 = Inr h" "mm_inv h" "mm_items h = mset (tl (zip ks vs) @ kvs)"
    using push_stream [OF h0(2)] h0(3) by fastforce
  have n: "size (mm_items h) = length ks - 1 + length kvs" unfolding h(3) using assms by simp
  have len: "mm_Len h' = 0" if "mm_inv h'" "mm_items h' = {#}" for h' :: "('a, 'b) MinMax"
    using mm_inv_length [OF that(1)] that(2) by (simp add: mm_Len_def)
  have "\<exists>xs h'. drain mm_PopMin (length ks - 1 + length kvs) h = Inr (xs, h') \<and> mm_Len h' = 0 \<and>
      sorted (map fst xs) \<and> mset xs = mset (tl (zip ks vs) @ kvs)"
    using pop_min.drain_all [OF h(2), unfolded n, unfolded h(3)] by (auto simp: sorted_wrt_map dest: len)
  moreover have "\<exists>xs h'. drain mm_PopMax (length ks - 1 + length kvs) h = Inr (xs, h') \<and> mm_Len h' = 0 \<and>
      sorted (rev (map fst xs)) \<and> mset xs = mset (tl (zip ks vs) @ kvs)"
    using pop_max.drain_all [OF h(2), unfolded n, unfolded h(3)] by (auto simp: sorted_wrt_rev sorted_wrt_map dest: len)
  ultimately show "\<exists>h0 h. NewMinMax zk zv [WithData (Some ks) (Some vs)] = Some (Inr h0) \<and>
        rfold (\<lambda>(k, v) h. mm_Push h k v) kvs h0 = Inr h \<and> mm_inv h \<and>
        (\<exists>xs h'. drain mm_PopMin (length ks - 1 + length kvs) h = Inr (xs, h') \<and> mm_Len h' = 0 \<and>
          sorted (map fst xs) \<and> mset xs = mset (tl (zip ks vs) @ kvs)) \<and>
        (\<exists>xs h'. drain mm_PopMax (length ks - 1 + length kvs) h = Inr (xs, h') \<and> mm_Len h' = 0 \<and>
          sorted (rev (map fst xs)) \<and> mset xs = mset (tl (zip ks vs) @ kvs))"
    unfolding NewMinMax_data [OF assms] using h0(1) h(1,2) by blast
qed

theorem min_max_sorts_witness:
  "NewMinMax (0::nat) '''' [WithData (Some [0]) (Some [''''])] = None \<and>
   (\<exists>h0 h. NewMinMax (0::nat) '''' [WithData (Some [0, 3, 1]) (Some ['''', ''c'', ''a''])] = Some (Inr h0) \<and>
      rfold (\<lambda>(k, v) h. mm_Push h k v) [(2, ''b'')] h0 = Inr h \<and>
      (\<exists>xs h'. drain mm_PopMin 3 h = Inr (xs, h') \<and> sorted (map fst xs) \<and> mset xs = {#(3, ''c''), (1, ''a''), (2, ''b'')#}))"
proof -
  have e: "length [0::nat, 3, 1] - 1 + length [(2::nat, ''b'')] = 3"
    "mset (tl (zip [0::nat, 3, 1] ['''', ''c'', ''a'']) @ [(2, ''b'')]) = {#(3, ''c''), (1, ''a''), (2, ''b'')#}" by simp_all
  have l: "length [0::nat] < 2" "length [0::nat] = length ['''']" "2 \<le> length [0::nat, 3, 1]"
    "length [0::nat, 3, 1] = length ['''', ''c'', ''a'']" by simp_all
  show ?thesis
    using min_max_sorts [OF l(2), of 0 "''''" "[]"] l(1) min_max_sorts [OF l(4), of 0 "''''" "[(2, ''b'')]", unfolded e] l(3) by blast
qed

lemma NewMinMax_empty:
  "NewMinMax zk zv [] = Some (Inr \<lparr>mm_Keys = [zk], mm_Vals = [zv], mm_callback = False, mm_calls = []\<rparr>)"
  "mm_inv \<lparr>mm_Keys = [zk], mm_Vals = [zv], mm_callback = False, mm_calls = []\<rparr>"
  "mm_items \<lparr>mm_Keys = [zk], mm_Vals = [zv], mm_callback = False, mm_calls = []\<rparr> = {#}"
  by (auto simp: NewMinMax_def mm_inv_def mm_wf_def smm_def sibs_def los_def his_def mm_items_def)



text \<open>With a bound of 0 both panic on a heap that is empty.\<close>

lemma push_n_of_nothing:
  "mm_PushMaxN \<lparr>mm_Keys = [zk], mm_Vals = [zv], mm_callback = c, mm_calls = []\<rparr> k v 0 = Inl IndexOutOfRange"
  "mm_PushMinN \<lparr>mm_Keys = [zk], mm_Vals = [zv], mm_callback = c, mm_calls = []\<rparr> k v 0 = Inl IndexOutOfRange"
  by (simp_all add: mm_PushMaxN_def mm_PushMinN_def mm_PopMin_def mm_entry_def sl_get_def Let_def)

end
