(* ===== verification/Linked_Lists.thy ===== *)
theory Linked_Lists
  imports Prelude
begin

text \<open>
  The linked lists of \<^verbatim>\<open>algo/container/list\<close>: \<^verbatim>\<open>Double\<close> (\<^verbatim>\<open>double.go\<close>) and \<^verbatim>\<open>Single\<close> (\<^verbatim>\<open>single.go\<close>). A list is
  a ring of items through a sentinel that is a field of the list. The items live in a store from
  addresses to items; the sentinel has the address 0 and \<^verbatim>\<open>new\<close> hands out the next free address. A
  pointer is an optional address, \<^verbatim>\<open>nil\<close> being \<open>None\<close>. Loops that follow pointers are partial functions
  whose value is \<open>None\<close> when they never end. The zero value of the element type is the parameter \<open>z\<close>.
\<close>

type_synonym ptr = "nat option"

section \<open>Model of double.go\<close>

record 'a doubleItem =
  d_next :: ptr
  d_prev :: ptr
  d_T :: 'a

record 'a Double =
  d_items :: "nat \<Rightarrow> 'a doubleItem"
  d_brk :: nat
  d_len :: int

definition d_zero :: "'a \<Rightarrow> 'a doubleItem" where
  "d_zero z = \<lparr>d_next = None, d_prev = None, d_T = z\<rparr>"

definition d_load :: "'a Double \<Rightarrow> ptr \<Rightarrow> 'a doubleItem res" where
  "d_load dl p = (case p of None \<Rightarrow> Inl NilDereference | Some a \<Rightarrow> Inr (d_items dl a))"

definition d_store :: "'a Double \<Rightarrow> ptr \<Rightarrow> ('a doubleItem \<Rightarrow> 'a doubleItem) \<Rightarrow> 'a Double res" where
  "d_store dl p f = (case p of None \<Rightarrow> Inl NilDereference
     | Some a \<Rightarrow> Inr (dl\<lparr>d_items := (d_items dl)(a := f (d_items dl a))\<rparr>))"

definition d_Reset :: "'a Double \<Rightarrow> 'a Double" where
  "d_Reset dl = dl\<lparr>d_len := 0,
     d_items := (d_items dl)(0 := (d_items dl 0)\<lparr>d_next := Some 0, d_prev := Some 0\<rparr>)\<rparr>"

definition NewDouble :: "'a \<Rightarrow> 'a Double" where
  "NewDouble z = d_Reset \<lparr>d_items = (\<lambda>_. d_zero z), d_brk = 1, d_len = 0\<rparr>"

definition d_Len :: "'a Double \<Rightarrow> int" where
  "d_Len dl = d_len dl"

text \<open>The iterators call \<^verbatim>\<open>yield\<close>, which is given and returns the state of its closure.\<close>

partial_function (option) d_forward_loop ::
    "('s \<Rightarrow> 'a \<Rightarrow> 's \<times> bool) \<Rightarrow> 'a Double \<Rightarrow> ptr \<Rightarrow> 's \<Rightarrow> 's res option" where
  "d_forward_loop yield dl n s =
     (if n = Some 0 then Some (Inr s)
      else case d_load dl n of Inl e \<Rightarrow> Some (Inl e)
      | Inr it \<Rightarrow> (case yield s (d_T it) of (s', more') \<Rightarrow>
          if more' then d_forward_loop yield dl (d_next it) s' else Some (Inr s')))"

definition d_Forward :: "'a Double \<Rightarrow> ('s \<Rightarrow> 'a \<Rightarrow> 's \<times> bool) \<Rightarrow> 's \<Rightarrow> 's res option" where
  "d_Forward dl yield s = d_forward_loop yield dl (d_next (d_items dl 0)) s"

partial_function (option) d_reverse_loop ::
    "('s \<Rightarrow> 'a \<Rightarrow> 's \<times> bool) \<Rightarrow> 'a Double \<Rightarrow> ptr \<Rightarrow> 's \<Rightarrow> 's res option" where
  "d_reverse_loop yield dl n s =
     (if n = Some 0 then Some (Inr s)
      else case d_load dl n of Inl e \<Rightarrow> Some (Inl e)
      | Inr it \<Rightarrow> (case yield s (d_T it) of (s', more') \<Rightarrow>
          if more' then d_reverse_loop yield dl (d_prev it) s' else Some (Inr s')))"

definition d_Reverse :: "'a Double \<Rightarrow> ('s \<Rightarrow> 'a \<Rightarrow> 's \<times> bool) \<Rightarrow> 's \<Rightarrow> 's res option" where
  "d_Reverse dl yield s = d_reverse_loop yield dl (d_prev (d_items dl 0)) s"

text \<open>The expressions \<^verbatim>\<open>n.prev.next = n\<close> and \<^verbatim>\<open>n.next.prev = n\<close> are evaluated after the assignments before them.\<close>

definition d_insertAfterItem :: "'a \<Rightarrow> 'a Double \<Rightarrow> 'a \<Rightarrow> ptr \<Rightarrow> ('a Double \<times> ptr) res" where
  "d_insertAfterItem z dl val it =
     (let a = d_brk dl; n = Some a;
          dl1 = dl\<lparr>d_brk := Suc a, d_items := (d_items dl)(a := (d_zero z)\<lparr>d_T := val\<rparr>)\<rparr>
      in rbind (d_store dl1 n (d_prev_update (\<lambda>_. it))) (\<lambda>dl2.
         rbind (d_load dl2 it) (\<lambda>i.
         rbind (d_store dl2 n (d_next_update (\<lambda>_. d_next i))) (\<lambda>dl3.
         rbind (d_store dl3 (d_prev (d_items dl3 a)) (d_next_update (\<lambda>_. n))) (\<lambda>dl4.
         rbind (d_store dl4 (d_next (d_items dl4 a)) (d_prev_update (\<lambda>_. n))) (\<lambda>dl5.
         Inr (dl5\<lparr>d_len := d_len dl5 + 1\<rparr>, n)))))))"

definition d_Head :: "'a Double \<Rightarrow> 'a res" where
  "d_Head dl = (if d_len dl = 0 then Inr (d_T (d_items dl 0))
     else rbind (d_load dl (d_next (d_items dl 0))) (\<lambda>it. Inr (d_T it)))"

definition d_Tail :: "'a Double \<Rightarrow> 'a res" where
  "d_Tail dl = (if d_len dl = 0 then Inr (d_T (d_items dl 0))
     else rbind (d_load dl (d_prev (d_items dl 0))) (\<lambda>it. Inr (d_T it)))"

definition d_Append :: "'a \<Rightarrow> 'a Double \<Rightarrow> 'a \<Rightarrow> ('a Double \<times> ptr) res" where
  "d_Append z dl val = d_insertAfterItem z dl val (d_prev (d_items dl 0))"

definition d_Prepend :: "'a \<Rightarrow> 'a Double \<Rightarrow> 'a \<Rightarrow> ('a Double \<times> ptr) res" where
  "d_Prepend z dl val = d_insertAfterItem z dl val (Some 0)"

definition d_removeItem :: "'a \<Rightarrow> 'a Double \<Rightarrow> ptr \<Rightarrow> 'a Double res" where
  "d_removeItem z dl0 it =
     (let dl = dl0\<lparr>d_len := d_len dl0 - 1\<rparr>
      in rbind (d_load dl it) (\<lambda>i.
         rbind (d_store dl (d_prev i) (d_next_update (\<lambda>_. d_next i))) (\<lambda>dl1.
         rbind (d_load dl1 it) (\<lambda>i1.
         rbind (d_store dl1 (d_next i1) (d_prev_update (\<lambda>_. d_prev i1))) (\<lambda>dl2.
         d_store dl2 it (\<lambda>_. d_zero z))))))"

definition d_RemoveItem :: "'a \<Rightarrow> 'a Double \<Rightarrow> ptr \<Rightarrow> 'a Double res" where
  "d_RemoveItem z dl id' = d_removeItem z dl id'"

partial_function (option) d_remove_loop ::
    "'a \<Rightarrow> ('a \<Rightarrow> 'a \<Rightarrow> bool) \<Rightarrow> 'a \<Rightarrow> 'a Double \<Rightarrow> ptr \<Rightarrow> 'a Double res option" where
  "d_remove_loop z cmp val dl n =
     (case n of None \<Rightarrow> Some (Inr dl)
      | Some a \<Rightarrow> if cmp (d_T (d_items dl a)) val then Some (d_removeItem z dl n)
                 else d_remove_loop z cmp val dl (d_next (d_items dl a)))"

definition d_Remove :: "'a \<Rightarrow> 'a Double \<Rightarrow> 'a \<Rightarrow> ('a \<Rightarrow> 'a \<Rightarrow> bool) \<Rightarrow> 'a Double res option" where
  "d_Remove z dl val cmp = d_remove_loop z cmp val dl (d_next (d_items dl 0))"

partial_function (option) d_remove_reverse_loop ::
    "'a \<Rightarrow> ('a \<Rightarrow> 'a \<Rightarrow> bool) \<Rightarrow> 'a \<Rightarrow> 'a Double \<Rightarrow> ptr \<Rightarrow> 'a Double res option" where
  "d_remove_reverse_loop z cmp val dl n =
     (case n of None \<Rightarrow> Some (Inr dl)
      | Some a \<Rightarrow> if cmp (d_T (d_items dl a)) val then Some (d_removeItem z dl n)
                 else d_remove_reverse_loop z cmp val dl (d_prev (d_items dl a)))"

definition d_RemoveReverse :: "'a \<Rightarrow> 'a Double \<Rightarrow> 'a \<Rightarrow> ('a \<Rightarrow> 'a \<Rightarrow> bool) \<Rightarrow> 'a Double res option" where
  "d_RemoveReverse z dl val cmp = d_remove_reverse_loop z cmp val dl (d_prev (d_items dl 0))"

section \<open>Model of single.go\<close>

record 'a singleItem =
  s_next :: ptr
  s_T :: 'a

record 'a Single =
  s_items :: "nat \<Rightarrow> 'a singleItem"
  s_brk :: nat
  s_tail :: ptr
  s_len :: int

definition s_zero :: "'a \<Rightarrow> 'a singleItem" where
  "s_zero z = \<lparr>s_next = None, s_T = z\<rparr>"

definition s_load :: "'a Single \<Rightarrow> ptr \<Rightarrow> 'a singleItem res" where
  "s_load sl p = (case p of None \<Rightarrow> Inl NilDereference | Some a \<Rightarrow> Inr (s_items sl a))"

definition s_store :: "'a Single \<Rightarrow> ptr \<Rightarrow> ('a singleItem \<Rightarrow> 'a singleItem) \<Rightarrow> 'a Single res" where
  "s_store sl p f = (case p of None \<Rightarrow> Inl NilDereference
     | Some a \<Rightarrow> Inr (sl\<lparr>s_items := (s_items sl)(a := f (s_items sl a))\<rparr>))"

definition s_Reset :: "'a Single \<Rightarrow> 'a Single" where
  "s_Reset sl = sl\<lparr>s_len := 0, s_items := (s_items sl)(0 := (s_items sl 0)\<lparr>s_next := Some 0\<rparr>),
     s_tail := Some 0\<rparr>"

definition NewSingle :: "'a \<Rightarrow> 'a Single" where
  "NewSingle z = s_Reset \<lparr>s_items = (\<lambda>_. s_zero z), s_brk = 1, s_tail = None, s_len = 0\<rparr>"

definition s_Len :: "'a Single \<Rightarrow> int" where
  "s_Len sl = s_len sl"

partial_function (option) s_forward_loop ::
    "('s \<Rightarrow> 'a \<Rightarrow> 's \<times> bool) \<Rightarrow> 'a Single \<Rightarrow> ptr \<Rightarrow> 's \<Rightarrow> 's res option" where
  "s_forward_loop yield sl n s =
     (if n = Some 0 then Some (Inr s)
      else case s_load sl n of Inl e \<Rightarrow> Some (Inl e)
      | Inr it \<Rightarrow> (case yield s (s_T it) of (s', more') \<Rightarrow>
          if more' then s_forward_loop yield sl (s_next it) s' else Some (Inr s')))"

definition s_Forward :: "'a Single \<Rightarrow> ('s \<Rightarrow> 'a \<Rightarrow> 's \<times> bool) \<Rightarrow> 's \<Rightarrow> 's res option" where
  "s_Forward sl yield s = s_forward_loop yield sl (s_next (s_items sl 0)) s"

definition s_insertAfterItem :: "'a \<Rightarrow> 'a Single \<Rightarrow> 'a \<Rightarrow> ptr \<Rightarrow> ('a Single \<times> ptr) res" where
  "s_insertAfterItem z sl val it =
     (let a = s_brk sl; n = Some a;
          sl1 = sl\<lparr>s_brk := Suc a, s_items := (s_items sl)(a := (s_zero z)\<lparr>s_T := val\<rparr>)\<rparr>
      in rbind (s_load sl1 it) (\<lambda>i.
         rbind (s_store sl1 n (s_next_update (\<lambda>_. s_next i))) (\<lambda>sl2.
         rbind (s_store sl2 it (s_next_update (\<lambda>_. n))) (\<lambda>sl3.
         Inr (sl3\<lparr>s_len := s_len sl3 + 1\<rparr>, n)))))"

definition s_Head :: "'a Single \<Rightarrow> 'a res" where
  "s_Head sl = (if s_len sl = 0 then Inr (s_T (s_items sl 0))
     else rbind (s_load sl (s_next (s_items sl 0))) (\<lambda>it. Inr (s_T it)))"

definition s_Append :: "'a \<Rightarrow> 'a Single \<Rightarrow> 'a \<Rightarrow> ('a Single \<times> ptr) res" where
  "s_Append z sl val = rbind (s_insertAfterItem z sl val (s_tail sl)) (\<lambda>(sl1, n).
     Inr (sl1\<lparr>s_tail := n\<rparr>, n))"

definition s_Prepend :: "'a \<Rightarrow> 'a Single \<Rightarrow> 'a \<Rightarrow> ('a Single \<times> ptr) res" where
  "s_Prepend z sl val = rbind (s_insertAfterItem z sl val (Some 0)) (\<lambda>(sl1, n).
     Inr (if s_len sl1 = 1 then sl1\<lparr>s_tail := n\<rparr> else sl1, n))"

definition s_removeItem :: "'a \<Rightarrow> 'a Single \<Rightarrow> ptr \<Rightarrow> ptr \<Rightarrow> 'a Single res" where
  "s_removeItem z sl0 prev it =
     (let sl = sl0\<lparr>s_len := s_len sl0 - 1\<rparr>
      in rbind (s_load sl it) (\<lambda>i.
         rbind (s_store sl prev (s_next_update (\<lambda>_. s_next i))) (\<lambda>sl1.
         s_store (if s_tail sl1 = it then sl1\<lparr>s_tail := prev\<rparr> else sl1) it (\<lambda>_. s_zero z))))"

partial_function (option) s_findPrev_loop :: "'a Single \<Rightarrow> ptr \<Rightarrow> ptr \<Rightarrow> ptr \<Rightarrow> ptr res option" where
  "s_findPrev_loop sl it prev n =
     (if n = Some 0 then Some (Inr None)
      else if n = it then Some (Inr prev)
      else case s_load sl n of Inl e \<Rightarrow> Some (Inl e)
      | Inr i \<Rightarrow> s_findPrev_loop sl it n (s_next i))"

definition s_findPrev :: "'a Single \<Rightarrow> ptr \<Rightarrow> ptr res option" where
  "s_findPrev sl it = s_findPrev_loop sl it (Some 0) (s_next (s_items sl 0))"

definition s_RemoveItem :: "'a \<Rightarrow> 'a Single \<Rightarrow> ptr \<Rightarrow> 'a Single res option" where
  "s_RemoveItem z sl id' =
     map_option (\<lambda>r. rbind r (\<lambda>prev. if prev \<noteq> None then s_removeItem z sl prev id' else Inr sl))
       (s_findPrev sl id')"

partial_function (option) s_remove_loop ::
    "'a \<Rightarrow> ('a \<Rightarrow> 'a \<Rightarrow> bool) \<Rightarrow> 'a \<Rightarrow> 'a Single \<Rightarrow> ptr \<Rightarrow> ptr \<Rightarrow> 'a Single res option" where
  "s_remove_loop z cmp val sl prev n =
     (if n = Some 0 then Some (Inr sl)
      else case s_load sl n of Inl e \<Rightarrow> Some (Inl e)
      | Inr i \<Rightarrow> if cmp (s_T i) val then Some (s_removeItem z sl prev n)
                else s_remove_loop z cmp val sl n (s_next i))"

definition s_Remove :: "'a \<Rightarrow> 'a Single \<Rightarrow> 'a \<Rightarrow> ('a \<Rightarrow> 'a \<Rightarrow> bool) \<Rightarrow> 'a Single res option" where
  "s_Remove z sl val cmp = s_remove_loop z cmp val sl (Some 0) (s_next (s_items sl 0))"

section \<open>Sequences of operations\<close>

text \<open>
  What a client does with a list. An item is named by the number of the call that inserted it: the
  client keeps the identifiers it is given. The abstract list is the sequence of the numbers and
  values of its items. \<open>seq_op\<close> is undefined for a use that the doubly linked list does not
  support: the removal of an item that is not in the list, or of a value that does not occur.
\<close>

datatype 'a list_op = AppendOp 'a | PrependOp 'a | RemoveItemOp nat | RemoveOp 'a | ResetOp

definition remove_first :: "('b \<Rightarrow> bool) \<Rightarrow> 'b list \<Rightarrow> 'b list" where
  "remove_first P xs = takeWhile (\<lambda>x. \<not> P x) xs @ drop 1 (dropWhile (\<lambda>x. \<not> P x) xs)"

fun seq_op :: "('a \<Rightarrow> 'a \<Rightarrow> bool) \<Rightarrow> 'a list_op \<Rightarrow> (nat \<times> 'a) list \<times> nat \<Rightarrow> ((nat \<times> 'a) list \<times> nat) option" where
  "seq_op cmp (AppendOp v) (xs, n) = Some (xs @ [(n, v)], Suc n)"
| "seq_op cmp (PrependOp v) (xs, n) = Some ((n, v) # xs, Suc n)"
| "seq_op cmp (RemoveItemOp k) (xs, n) =
     (if k \<in> fst ` set xs then Some (remove_first (\<lambda>p. fst p = k) xs, n) else None)"
| "seq_op cmp (RemoveOp v) (xs, n) =
     (if list_ex (\<lambda>p. cmp (snd p) v) xs then Some (remove_first (\<lambda>p. cmp (snd p) v) xs, n) else None)"
| "seq_op cmp ResetOp (xs, n) = Some ([], n)"

fun seq_run :: "('a \<Rightarrow> 'a \<Rightarrow> bool) \<Rightarrow> 'a list_op list \<Rightarrow> (nat \<times> 'a) list \<times> nat \<Rightarrow> ((nat \<times> 'a) list \<times> nat) option" where
  "seq_run cmp [] s = Some s"
| "seq_run cmp (op # ops) s = Option.bind (seq_op cmp op s) (seq_run cmp ops)"

record ('l, 'a) list_ops =
  lo_Append :: "'l \<Rightarrow> 'a \<Rightarrow> ('l \<times> ptr) res"
  lo_Prepend :: "'l \<Rightarrow> 'a \<Rightarrow> ('l \<times> ptr) res"
  lo_RemoveItem :: "'l \<Rightarrow> ptr \<Rightarrow> 'l res option"
  lo_Remove :: "'l \<Rightarrow> 'a \<Rightarrow> ('a \<Rightarrow> 'a \<Rightarrow> bool) \<Rightarrow> 'l res option"
  lo_Reset :: "'l \<Rightarrow> 'l"

definition double_ops :: "'a \<Rightarrow> ('a Double, 'a) list_ops" where
  "double_ops z = \<lparr>lo_Append = d_Append z, lo_Prepend = d_Prepend z,
     lo_RemoveItem = (\<lambda>l i. Some (d_RemoveItem z l i)), lo_Remove = d_Remove z, lo_Reset = d_Reset\<rparr>"

definition single_ops :: "'a \<Rightarrow> ('a Single, 'a) list_ops" where
  "single_ops z = \<lparr>lo_Append = s_Append z, lo_Prepend = s_Prepend z,
     lo_RemoveItem = s_RemoveItem z, lo_Remove = s_Remove z, lo_Reset = s_Reset\<rparr>"

definition inserted :: "ptr list \<Rightarrow> ('l \<times> ptr) res \<Rightarrow> ('l \<times> ptr list) res option" where
  "inserted hs r = Some (rbind r (\<lambda>(l, p). Inr (l, hs @ [p])))"

definition keeping :: "ptr list \<Rightarrow> 'l res option \<Rightarrow> ('l \<times> ptr list) res option" where
  "keeping hs r = map_option (\<lambda>r. rbind r (\<lambda>l. Inr (l, hs))) r"

fun exec_op :: "('l, 'a) list_ops \<Rightarrow> ('a \<Rightarrow> 'a \<Rightarrow> bool) \<Rightarrow> 'a list_op \<Rightarrow> 'l \<times> ptr list \<Rightarrow> ('l \<times> ptr list) res option" where
  "exec_op lo cmp (AppendOp v) (l, hs) = inserted hs (lo_Append lo l v)"
| "exec_op lo cmp (PrependOp v) (l, hs) = inserted hs (lo_Prepend lo l v)"
| "exec_op lo cmp (RemoveItemOp k) (l, hs) = keeping hs (lo_RemoveItem lo l (hs ! k))"
| "exec_op lo cmp (RemoveOp v) (l, hs) = keeping hs (lo_Remove lo l v cmp)"
| "exec_op lo cmp ResetOp (l, hs) = Some (Inr (lo_Reset lo l, hs))"

fun exec_run :: "('l, 'a) list_ops \<Rightarrow> ('a \<Rightarrow> 'a \<Rightarrow> bool) \<Rightarrow> 'a list_op list \<Rightarrow> 'l \<times> ptr list \<Rightarrow> ('l \<times> ptr list) res option" where
  "exec_run lo cmp [] s = Some (Inr s)"
| "exec_run lo cmp (op # ops) s = Option.bind (exec_op lo cmp op s)
     (\<lambda>r. case r of Inl e \<Rightarrow> Some (Inl e) | Inr s' \<Rightarrow> exec_run lo cmp ops s')"

lemma remove_first_split:
  assumes "\<exists>x\<in>set xs. P x"
  obtains us x vs where "xs = us @ x # vs" "P x" "\<forall>u\<in>set us. \<not> P u" "remove_first P xs = us @ vs"
proof -
  obtain us x vs where xs: "xs = us @ x # vs" and P: "P x" "\<forall>u\<in>set us. \<not> P u"
    using split_list_first_prop [OF assms] by metis
  then have "remove_first P xs = us @ vs"
    by (simp add: remove_first_def takeWhile_tail dropWhile_append2)
  with xs P show ?thesis by (rule that)
qed

section \<open>The contract of a linked list\<close>

text \<open>\<open>rep l xs\<close>: the list \<open>l\<close> is well formed and has the items \<open>xs\<close>, pairs of an address and a value.\<close>

locale linked_list =
  fixes rep :: "'l \<Rightarrow> (nat \<times> 'a) list \<Rightarrow> bool" and lo :: "('l, 'a) list_ops"
  assumes rep_distinct: "rep l xs \<Longrightarrow> distinct (map fst xs)"
    and append_law: "rep l xs \<Longrightarrow> \<exists>l' i. lo_Append lo l v = Inr (l', Some i) \<and> rep l' (xs @ [(i, v)])"
    and prepend_law: "rep l xs \<Longrightarrow> \<exists>l' i. lo_Prepend lo l v = Inr (l', Some i) \<and> rep l' ((i, v) # xs)"
    and remove_item_law: "rep l (us @ (i, v) # vs) \<Longrightarrow>
          \<exists>l'. lo_RemoveItem lo l (Some i) = Some (Inr l') \<and> rep l' (us @ vs)"
    and remove_law: "rep l (us @ (i, x) # vs) \<Longrightarrow> \<forall>p\<in>set us. \<not> cmp (snd p) v \<Longrightarrow> cmp x v \<Longrightarrow>
          \<exists>l'. lo_Remove lo l v cmp = Some (Inr l') \<and> rep l' (us @ vs)"
    and reset_law: "rep l xs \<Longrightarrow> rep (lo_Reset lo l) []"
begin

text \<open>The relation between the abstract list and the concrete one, given the identifiers handed out.\<close>

definition named :: "ptr list \<Rightarrow> (nat \<times> 'a) list \<Rightarrow> (nat \<times> 'a) list \<Rightarrow> bool" where
  "named hs xs ys \<longleftrightarrow> list_all2 (\<lambda>(k, v) (i, w). k < length hs \<and> hs ! k = Some i \<and> v = w) xs ys"

definition sim :: "nat \<Rightarrow> ptr list \<Rightarrow> (nat \<times> 'a) list \<Rightarrow> 'l \<Rightarrow> bool" where
  "sim n hs xs l \<longleftrightarrow> length hs = n \<and> distinct (map fst xs) \<and> (\<exists>ys. rep l ys \<and> named hs xs ys)"

lemma named_extend: "named hs xs ys \<Longrightarrow> named (hs @ [p]) xs ys"
  unfolding named_def by (erule list_all2_mono) (auto simp: nth_append)

lemma named_split:
  assumes "named hs (us @ (k, v) # vs) ys"
  obtains us' i vs' where "ys = us' @ (i, v) # vs'" "hs ! k = Some i" "k < length hs"
    "named hs us us'" "named hs vs vs'"
  using assms unfolding named_def list_all2_append1 list_all2_Cons1 by fastforce

lemma named_keys: "named hs xs ys \<Longrightarrow> k \<in> fst ` set xs \<Longrightarrow> k < length hs"
  unfolding named_def by (induction rule: list_all2_induct) auto

lemma named_values: "named hs xs ys \<Longrightarrow> map snd ys = map snd xs"
  unfolding named_def by (induction rule: list_all2_induct) auto

lemma named_app: "named hs us us' \<Longrightarrow> named hs vs vs' \<Longrightarrow> named hs (us @ vs) (us' @ vs')"
  unfolding named_def by (rule list_all2_appendI)

lemma named_new: "length hs = n \<Longrightarrow> named (hs @ [Some i]) [(n, v)] [(i, v)]"
  by (auto simp: named_def)

lemma sim_insert:
  assumes s: "sim n hs xs l" and r: "\<And>ys. rep l ys \<Longrightarrow> \<exists>l' i. r = Inr (l', Some i) \<and> rep l' (ins (i, v) ys)"
    and ins: "(ins = (\<lambda>x ys. ys @ [x]) \<and> xs' = xs @ [(n, v)]) \<or> (ins = (#) \<and> xs' = (n, v) # xs)"
  shows "\<exists>l' hs'. inserted hs r = Some (Inr (l', hs')) \<and> sim (Suc n) hs' xs' l'"
proof -
  obtain ys where ys: "length hs = n" "distinct (map fst xs)" "rep l ys" "named hs xs ys"
    using s by (auto simp: sim_def)
  obtain l' i where l': "r = Inr (l', Some i)" "rep l' (ins (i, v) ys)" using r [OF ys(3)] by blast
  have fresh: "n \<notin> fst ` set xs" using named_keys [OF ys(4)] ys(1) by blast
  have ext: "named (hs @ [Some i]) xs ys" by (rule named_extend [OF ys(4)])
  have "named (hs @ [Some i]) xs' (ins (i, v) ys)"
    using ins named_app [OF ext named_new [OF ys(1)]] named_app [OF named_new [OF ys(1)] ext] by auto
  moreover have "distinct (map fst xs')" using ins ys(2) fresh by auto
  ultimately have "sim (Suc n) (hs @ [Some i]) xs' l'" using ys(1) l'(2) by (auto simp: sim_def)
  then show ?thesis by (simp add: inserted_def l'(1))
qed

lemma sim_remove:
  assumes s: "sim n hs (us @ (k, x) # vs) l"
    and r: "\<And>us' i vs'. rep l (us' @ (i, x) # vs') \<Longrightarrow> hs ! k = Some i \<Longrightarrow> map snd us' = map snd us \<Longrightarrow>
              \<exists>l'. r = Some (Inr l') \<and> rep l' (us' @ vs')"
  shows "\<exists>l' hs'. keeping hs r = Some (Inr (l', hs')) \<and> sim n hs' (us @ vs) l'"
proof -
  obtain ys where ys: "length hs = n" "distinct (map fst (us @ (k, x) # vs))" "rep l ys"
    "named hs (us @ (k, x) # vs) ys" using s by (auto simp: sim_def)
  obtain us' i vs' where sp: "ys = us' @ (i, x) # vs'" "hs ! k = Some i" "named hs us us'" "named hs vs vs'"
    using named_split [OF ys(4)] by metis
  obtain l' where l': "r = Some (Inr l')" "rep l' (us' @ vs')"
    using r [of us' i vs'] ys(3) sp named_values [OF sp(3)] by auto
  have "sim n hs (us @ vs) l'" using ys(1,2) l'(2) named_app [OF sp(3,4)] by (auto simp: sim_def)
  then show ?thesis by (simp add: keeping_def l'(1))
qed

lemma sim_step:
  assumes s: "sim n hs xs l" and op: "seq_op cmp op (xs, n) = Some (xs', n')"
  shows "\<exists>l' hs'. exec_op lo cmp op (l, hs) = Some (Inr (l', hs')) \<and> sim n' hs' xs' l'"
proof (cases op)
  case (AppendOp v)
  then show ?thesis
    using op sim_insert [OF s, where r = "lo_Append lo l v" and v = v and ins = "\<lambda>x ys. ys @ [x]" and xs' = xs'] append_law [of l _ v]
    by simp
next
  case (PrependOp v)
  then show ?thesis
    using op sim_insert [OF s, where r = "lo_Prepend lo l v" and v = v and ins = "(#)" and xs' = xs'] prepend_law [of l _ v]
    by simp
next
  case (RemoveItemOp k)
  then have k: "\<exists>p\<in>set xs. fst p = k" and xs': "xs' = remove_first (\<lambda>p. fst p = k) xs" "n' = n"
    using op by (auto split: if_splits)
  obtain us p vs where sp: "xs = us @ p # vs" "fst p = k" "xs' = us @ vs"
    using remove_first_split [OF k] xs'(1) by metis
  obtain x where p: "p = (k, x)" using sp(2) by (cases p) simp
  show ?thesis unfolding RemoveItemOp exec_op.simps sp(3) xs'(2)
    by (rule sim_remove [OF s [unfolded sp(1) p]]) (use remove_item_law in auto)
next
  case (RemoveOp v)
  then have k: "\<exists>p\<in>set xs. cmp (snd p) v" and xs': "xs' = remove_first (\<lambda>p. cmp (snd p) v) xs" "n' = n"
    using op by (auto simp: list_ex_iff split: if_splits)
  obtain us p vs where sp: "xs = us @ p # vs" "cmp (snd p) v" "xs' = us @ vs" "\<forall>u\<in>set us. \<not> cmp (snd u) v"
    using remove_first_split [OF k] xs'(1) by metis
  obtain j x where p: "p = (j, x)" by (cases p) simp
  have "\<forall>u\<in>set us'. \<not> cmp (snd u) v" if e: "map snd us' = map snd us" for us' :: "(nat \<times> 'a) list"
    using sp(4) e by (metis image_eqI image_iff list.set_map)
  then show ?thesis unfolding RemoveOp exec_op.simps sp(3) xs'(2)
    by (intro sim_remove [OF s [unfolded sp(1) p]]) (use remove_law sp(2) p in auto)
next
  case ResetOp
  then show ?thesis using op s reset_law by (auto simp: sim_def named_def)
qed

lemma sim_run:
  "sim n hs xs l \<Longrightarrow> seq_run cmp ops (xs, n) = Some (xs', n') \<Longrightarrow>
     \<exists>l' hs'. exec_run lo cmp ops (l, hs) = Some (Inr (l', hs')) \<and> sim n' hs' xs' l'"
proof (induction ops arbitrary: n hs xs l)
  case (Cons op ops)
  then obtain xs1 n1 where s1: "seq_op cmp op (xs, n) = Some (xs1, n1)"
    "seq_run cmp ops (xs1, n1) = Some (xs', n')" by (auto simp: bind_eq_Some_conv)
  with sim_step [OF Cons.prems(1) s1(1)] Cons.IH [of n1 _ xs1] show ?case by fastforce
qed simp

text \<open>A program that starts with an empty list ends with the values the sequence has.\<close>

lemma run_refines:
  assumes "rep l []" and "seq_run cmp ops ([], 0) = Some (xs, n)"
  shows "\<exists>l' hs ys. exec_run lo cmp ops (l, []) = Some (Inr (l', hs)) \<and> rep l' ys \<and> map snd ys = map snd xs"
proof -
  have "sim 0 [] [] l" using assms(1) by (auto simp: sim_def named_def)
  from sim_run [OF this assms(2)] show ?thesis unfolding sim_def using named_values by blast
qed

end

section \<open>The doubly linked list\<close>

text \<open>\<open>dseg h p as q\<close>: the items at \<open>as\<close> are linked in both directions between \<open>p\<close> and \<open>q\<close>.\<close>

fun dseg :: "(nat \<Rightarrow> 'a doubleItem) \<Rightarrow> nat \<Rightarrow> nat list \<Rightarrow> nat \<Rightarrow> bool" where
  "dseg h p [] q \<longleftrightarrow> d_next (h p) = Some q \<and> d_prev (h q) = Some p"
| "dseg h p (a # as) q \<longleftrightarrow> d_next (h p) = Some a \<and> d_prev (h a) = Some p \<and> dseg h a as q"

definition d_rep :: "'a \<Rightarrow> 'a Double \<Rightarrow> (nat \<times> 'a) list \<Rightarrow> bool" where
  "d_rep z dl xs \<longleftrightarrow> dseg (d_items dl) 0 (map fst xs) 0 \<and> distinct (map fst xs) \<and>
     (\<forall>a\<in>fst ` set xs. 0 < a \<and> a < d_brk dl) \<and> 0 < d_brk dl \<and>
     (\<forall>p\<in>set xs. d_T (d_items dl (fst p)) = snd p) \<and> d_T (d_items dl 0) = z \<and> d_len dl = int (length xs)"

lemma dseg_append: "dseg h p (us @ a # vs) q \<longleftrightarrow> dseg h p us a \<and> dseg h a vs q"
  by (induction us arbitrary: p) auto

lemma dseg_next: "dseg h p as q \<Longrightarrow> d_next (h p) = Some (hd (as @ [q]))"
  by (cases as) auto

lemma dseg_prev: "dseg h p as q \<Longrightarrow> d_prev (h q) = Some (last (p # as))"
  by (induction as arbitrary: p) auto

lemma dseg_frame:
  "\<forall>x\<in>set (p # as). d_next (h' x) = d_next (h x) \<Longrightarrow> \<forall>x\<in>set (as @ [q]). d_prev (h' x) = d_prev (h x) \<Longrightarrow>
     dseg h' p as q = dseg h p as q"
  by (induction as arbitrary: p) auto

text \<open>Linking \<open>n\<close> in front of the first item, or behind the last.\<close>

lemma dseg_prepend:
  assumes "dseg h p as q" and b: "b = hd (as @ [q])" and "distinct as" and "n \<notin> set as" "n \<noteq> p" "n \<noteq> q" "q \<notin> set as" "p \<notin> set as"
    and n: "d_next (h' n) = Some b" "d_prev (h' n) = Some p" "d_next (h' p) = Some n" "d_prev (h' b) = Some n"
    and nx: "\<forall>x. x \<noteq> p \<and> x \<noteq> n \<longrightarrow> d_next (h' x) = d_next (h x)"
    and pv: "\<forall>x. x \<noteq> b \<and> x \<noteq> n \<longrightarrow> d_prev (h' x) = d_prev (h x)"
  shows "dseg h' p (n # as) q"
proof (cases as)
  case Nil
  then show ?thesis using assms by simp
next
  case (Cons a vs)
  then have "dseg h' a vs q = dseg h a vs q"
    using assms by (intro dseg_frame) auto
  then show ?thesis using assms Cons by auto
qed

lemma dseg_append_last:
  assumes "dseg h p as q" and a: "a = last (p # as)" and "distinct as" and "n \<notin> set as" "n \<noteq> p" "n \<noteq> q" "q \<notin> set as" "p \<notin> set as"
    and n: "d_next (h' n) = Some q" "d_prev (h' n) = Some a" "d_next (h' a) = Some n" "d_prev (h' q) = Some n"
    and nx: "\<forall>x. x \<noteq> a \<and> x \<noteq> n \<longrightarrow> d_next (h' x) = d_next (h x)"
    and pv: "\<forall>x. x \<noteq> q \<and> x \<noteq> n \<longrightarrow> d_prev (h' x) = d_prev (h x)"
  shows "dseg h' p (as @ [n]) q"
proof (cases as rule: rev_cases)
  case Nil
  then show ?thesis using assms by simp
next
  case (snoc us u)
  then have "dseg h' p us u = dseg h p us u"
    using assms by (intro dseg_frame) auto
  moreover have "dseg h p us u" using assms(1) snoc by (simp add: dseg_append)
  ultimately have "dseg h' p us u \<and> dseg h' u [n] q" using assms snoc by auto
  then show ?thesis by (simp add: snoc dseg_append [of h' p us u "[n]" q])
qed

text \<open>Linking the neighbours of an item to each other.\<close>

lemma dseg_join:
  assumes "dseg h p us a" "dseg h a vs q" "distinct (us @ vs)" "p \<notin> set (us @ vs)" "q \<notin> set (us @ vs)"
    and "a \<notin> set (us @ vs)" "a \<noteq> p" "a \<noteq> q"
    and "d_next (h' (last (p # us))) = Some (hd (vs @ [q]))" "d_prev (h' (hd (vs @ [q]))) = Some (last (p # us))"
    and nx: "\<forall>x. x \<noteq> last (p # us) \<and> x \<noteq> a \<longrightarrow> d_next (h' x) = d_next (h x)"
    and pv: "\<forall>x. x \<noteq> hd (vs @ [q]) \<and> x \<noteq> a \<longrightarrow> d_prev (h' x) = d_prev (h x)"
  shows "dseg h' p (us @ vs) q"
  using assms
proof (induction us arbitrary: p)
  case Nil
  show ?case
  proof (cases vs)
    case (Cons v ws)
    then have "dseg h' v ws q = dseg h v ws q" using Nil by (intro dseg_frame) auto
    then show ?thesis using Nil Cons by auto
  qed (use Nil in auto)
next
  case (Cons u us)
  have "hd (vs @ [q]) \<noteq> u" using Cons.prems by (cases vs) auto
  moreover have "last (u # us) \<noteq> p" using Cons.prems by (metis append_Cons last_in_set Un_iff set_append list.distinct(1))
  moreover have "dseg h' u (us @ vs) q" using Cons.prems by (intro Cons.IH) auto
  ultimately show ?case using Cons.prems by auto
qed

lemma d_insertAfterItem_eq:
  assumes "d_next (d_items dl a) = Some b" "d_brk dl = n" "a < n" "b < n"
  obtains dl' where "d_insertAfterItem z dl v (Some a) = Inr (dl', Some n)" "d_brk dl' = Suc n"
    "d_len dl' = d_len dl + 1"
    "d_next (d_items dl' n) = Some b" "d_prev (d_items dl' n) = Some a"
    "d_next (d_items dl' a) = Some n" "d_prev (d_items dl' b) = Some n"
    "\<forall>x. x \<noteq> a \<and> x \<noteq> n \<longrightarrow> d_next (d_items dl' x) = d_next (d_items dl x)"
    "\<forall>x. x \<noteq> b \<and> x \<noteq> n \<longrightarrow> d_prev (d_items dl' x) = d_prev (d_items dl x)"
    "\<forall>x. x \<noteq> n \<longrightarrow> d_T (d_items dl' x) = d_T (d_items dl x)" "d_T (d_items dl' n) = v"
  using assms by (simp add: d_insertAfterItem_def d_store_def d_load_def Let_def)

lemma d_removeItem_eq:
  assumes "d_prev (d_items dl a) = Some p" "d_next (d_items dl a) = Some q" "p \<noteq> a" "q \<noteq> a"
  obtains dl' where "d_removeItem z dl (Some a) = Inr dl'" "d_brk dl' = d_brk dl" "d_len dl' = d_len dl - 1"
    "d_next (d_items dl' p) = Some q" "d_prev (d_items dl' q) = Some p"
    "\<forall>x. x \<noteq> p \<and> x \<noteq> a \<longrightarrow> d_next (d_items dl' x) = d_next (d_items dl x)"
    "\<forall>x. x \<noteq> q \<and> x \<noteq> a \<longrightarrow> d_prev (d_items dl' x) = d_prev (d_items dl x)"
    "\<forall>x. x \<noteq> a \<longrightarrow> d_T (d_items dl' x) = d_T (d_items dl x)"
  using assms by (simp add: d_removeItem_def d_store_def d_load_def Let_def)

lemma d_rep_new: "d_rep z (NewDouble z) []"
  by (simp add: d_rep_def NewDouble_def d_Reset_def d_zero_def)

lemma d_rep_reset: "d_rep z dl xs \<Longrightarrow> d_rep z (d_Reset dl) []"
  by (auto simp: d_rep_def d_Reset_def)

lemma d_rep_length: "d_rep z dl xs \<Longrightarrow> d_len dl = int (length xs) \<and> distinct (map fst xs)"
  by (simp add: d_rep_def)

lemma d_rep_addresses:
  assumes "d_rep z dl xs"
  shows "0 \<notin> fst ` set xs" "d_brk dl \<notin> fst ` set xs" "0 < d_brk dl"
    "hd (map fst xs @ [0]) < d_brk dl" "last (0 # map fst xs) < d_brk dl"
proof -
  have b: "\<forall>a\<in>fst ` set xs. 0 < a \<and> a < d_brk dl" "0 < d_brk dl" using assms by (auto simp: d_rep_def)
  then show "0 \<notin> fst ` set xs" "d_brk dl \<notin> fst ` set xs" "0 < d_brk dl" by auto
  have "hd (map fst xs @ [0]) \<in> insert 0 (fst ` set xs)" by (cases xs) auto
  then show "hd (map fst xs @ [0]) < d_brk dl" using b by auto
  have "last (0 # map fst xs) \<in> insert 0 (fst ` set xs)" by (cases xs rule: rev_cases) auto
  then show "last (0 # map fst xs) < d_brk dl" using b by auto
qed

lemma d_values_frame:
  assumes "d_rep z dl xs" "\<forall>x. x \<noteq> n \<longrightarrow> d_T (d_items dl' x) = d_T (d_items dl x)" "n \<notin> fst ` set xs" "n \<noteq> 0"
  shows "\<forall>p\<in>set xs. d_T (d_items dl' (fst p)) = snd p" "d_T (d_items dl' 0) = z"
proof -
  have "\<forall>p\<in>set xs. fst p \<noteq> n" using assms(3) by blast
  then show "\<forall>p\<in>set xs. d_T (d_items dl' (fst p)) = snd p" using assms(1,2) by (simp add: d_rep_def)
  show "d_T (d_items dl' 0) = z" using assms(1,2,4) by (simp add: d_rep_def)
qed

lemma d_bounds_frame:
  assumes "d_rep z dl xs" "d_brk dl' = Suc (d_brk dl)"
  shows "\<forall>a\<in>fst ` set xs. 0 < a \<and> a < d_brk dl'" "0 < d_brk dl'"
  using assms by (auto simp: d_rep_def less_Suc_eq)

lemma d_append:
  assumes r: "d_rep z dl xs"
  shows "\<exists>dl' i. d_Append z dl v = Inr (dl', Some i) \<and> d_rep z dl' (xs @ [(i, v)])"
proof -
  let ?a = "last (0 # map fst xs)" and ?n = "d_brk dl"
  have seg: "dseg (d_items dl) 0 (map fst xs) 0" using r by (simp add: d_rep_def)
  have nx: "d_next (d_items dl ?a) = Some 0"
    using seg by (cases xs rule: rev_cases) (auto simp: dseg_append)
  note ad = d_rep_addresses [OF r]
  obtain dl' where dl': "d_insertAfterItem z dl v (Some ?a) = Inr (dl', Some ?n)" "d_brk dl' = Suc ?n"
    "d_len dl' = d_len dl + 1" and l: "d_next (d_items dl' ?n) = Some 0" "d_prev (d_items dl' ?n) = Some ?a"
    "d_next (d_items dl' ?a) = Some ?n" "d_prev (d_items dl' 0) = Some ?n"
    "\<forall>x. x \<noteq> ?a \<and> x \<noteq> ?n \<longrightarrow> d_next (d_items dl' x) = d_next (d_items dl x)"
    "\<forall>x. x \<noteq> 0 \<and> x \<noteq> ?n \<longrightarrow> d_prev (d_items dl' x) = d_prev (d_items dl x)"
    and t: "\<forall>x. x \<noteq> ?n \<longrightarrow> d_T (d_items dl' x) = d_T (d_items dl x)" "d_T (d_items dl' ?n) = v"
    by (rule d_insertAfterItem_eq [OF nx refl ad(5,3), of z v]) (rule that)
  have "dseg (d_items dl') 0 (map fst xs @ [?n]) 0"
    using ad r by (intro dseg_append_last [OF seg refl _ _ _ _ _ _ l]) (auto simp: d_rep_def)
  then have "d_rep z dl' (xs @ [(?n, v)])"
    using t(2) dl'(2,3) ad(1-3) d_values_frame [OF r t(1) ad(2)] d_bounds_frame [OF r dl'(2)] d_rep_length [OF r]
    by (simp add: d_rep_def [of _ dl'])
  then show ?thesis using dl'(1) dseg_prev [OF seg] by (auto simp: d_Append_def)
qed

lemma d_prepend:
  assumes r: "d_rep z dl xs"
  shows "\<exists>dl' i. d_Prepend z dl v = Inr (dl', Some i) \<and> d_rep z dl' ((i, v) # xs)"
proof -
  let ?b = "hd (map fst xs @ [0])" and ?n = "d_brk dl"
  have seg: "dseg (d_items dl) 0 (map fst xs) 0" using r by (simp add: d_rep_def)
  note ad = d_rep_addresses [OF r]
  obtain dl' where dl': "d_insertAfterItem z dl v (Some 0) = Inr (dl', Some ?n)" "d_brk dl' = Suc ?n"
    "d_len dl' = d_len dl + 1" and l: "d_next (d_items dl' ?n) = Some ?b" "d_prev (d_items dl' ?n) = Some 0"
    "d_next (d_items dl' 0) = Some ?n" "d_prev (d_items dl' ?b) = Some ?n"
    "\<forall>x. x \<noteq> 0 \<and> x \<noteq> ?n \<longrightarrow> d_next (d_items dl' x) = d_next (d_items dl x)"
    "\<forall>x. x \<noteq> ?b \<and> x \<noteq> ?n \<longrightarrow> d_prev (d_items dl' x) = d_prev (d_items dl x)"
    and t: "\<forall>x. x \<noteq> ?n \<longrightarrow> d_T (d_items dl' x) = d_T (d_items dl x)" "d_T (d_items dl' ?n) = v"
    by (rule d_insertAfterItem_eq [OF dseg_next [OF seg] refl ad(3,4), of z v]) (rule that)
  have "dseg (d_items dl') 0 (?n # map fst xs) 0"
    using ad r by (intro dseg_prepend [OF seg refl _ _ _ _ _ _ l]) (auto simp: d_rep_def)
  then have "d_rep z dl' ((?n, v) # xs)"
    using t(2) dl'(2,3) ad(1-3) d_values_frame [OF r t(1) ad(2)] d_bounds_frame [OF r dl'(2)] d_rep_length [OF r]
    by (simp add: d_rep_def [of _ dl'])
  then show ?thesis using dl'(1) by (auto simp: d_Prepend_def)
qed

lemma d_remove_item:
  assumes r: "d_rep z dl (us @ (i, v) # vs)"
  shows "\<exists>dl'. d_removeItem z dl (Some i) = Inr dl' \<and> d_rep z dl' (us @ vs)"
proof -
  let ?p = "last (0 # map fst us)" and ?q = "hd (map fst vs @ [0])"
  have seg: "dseg (d_items dl) 0 (map fst us) i" "dseg (d_items dl) i (map fst vs) 0"
    and d: "distinct (map fst us @ i # map fst vs)" and z: "0 \<notin> fst ` set us" "0 \<notin> fst ` set vs" "i \<noteq> 0"
    using r d_rep_addresses(1) [OF r] by (auto simp: d_rep_def dseg_append)
  have p: "?p \<noteq> i" using d z(3) by (cases us rule: rev_cases) auto
  have q: "?q \<noteq> i" using d z(3) by (cases vs) auto
  obtain dl' where dl': "d_removeItem z dl (Some i) = Inr dl'" "d_brk dl' = d_brk dl" "d_len dl' = d_len dl - 1"
    and l: "d_next (d_items dl' ?p) = Some ?q" "d_prev (d_items dl' ?q) = Some ?p"
    "\<forall>x. x \<noteq> ?p \<and> x \<noteq> i \<longrightarrow> d_next (d_items dl' x) = d_next (d_items dl x)"
    "\<forall>x. x \<noteq> ?q \<and> x \<noteq> i \<longrightarrow> d_prev (d_items dl' x) = d_prev (d_items dl x)"
    and t: "\<forall>x. x \<noteq> i \<longrightarrow> d_T (d_items dl' x) = d_T (d_items dl x)"
    by (rule d_removeItem_eq [OF dseg_prev [OF seg(1)] dseg_next [OF seg(2)] p q, of z]) (rule that)
  have "dseg (d_items dl') 0 (map fst us @ map fst vs) 0"
    using d z by (intro dseg_join [OF seg _ _ _ _ _ _ l]) auto
  moreover have "\<forall>p\<in>set (us @ vs). fst p \<noteq> i" using d by auto
  ultimately have "d_rep z dl' (us @ vs)" using r t z(3) dl'(2,3) d by (simp add: d_rep_def ball_Un)
  with dl'(1) show ?thesis by blast
qed

text \<open>The loops along the links, from an item or from the sentinel to the next item.\<close>

lemma d_forward_loop_seg:
  "dseg (d_items dl) p as 0 \<Longrightarrow> 0 \<notin> set as \<Longrightarrow>
     d_forward_loop yield dl (d_next (d_items dl p)) s = Some (Inr (iter_seq yield (map (\<lambda>a. d_T (d_items dl a)) as) s))"
proof (induction as arbitrary: p s)
  case Nil
  then show ?case by (simp add: d_forward_loop.simps)
next
  case (Cons a as)
  then show ?case by (subst d_forward_loop.simps) (auto simp: d_load_def split: prod.splits)
qed

lemma d_reverse_loop_seg:
  "dseg (d_items dl) 0 as q \<Longrightarrow> 0 \<notin> set as \<Longrightarrow>
     d_reverse_loop yield dl (d_prev (d_items dl q)) s = Some (Inr (iter_seq yield (map (\<lambda>a. d_T (d_items dl a)) (rev as)) s))"
proof (induction as arbitrary: q s rule: rev_induct)
  case Nil
  then show ?case by (simp add: d_reverse_loop.simps)
next
  case (snoc a as)
  then show ?case
    by (subst d_reverse_loop.simps) (auto simp: d_load_def dseg_append split: prod.splits)
qed

lemma d_remove_loop_seg:
  "dseg (d_items dl) p (us @ a # vs) q \<Longrightarrow> \<forall>u\<in>set us. \<not> cmp (d_T (d_items dl u)) v \<Longrightarrow> cmp (d_T (d_items dl a)) v \<Longrightarrow>
     d_remove_loop z cmp v dl (d_next (d_items dl p)) = Some (d_removeItem z dl (Some a))"
proof (induction us arbitrary: p)
  case Nil
  then show ?case by (subst d_remove_loop.simps) simp
next
  case (Cons u us)
  then show ?case by (subst d_remove_loop.simps) simp
qed

lemma d_remove_reverse_loop_seg:
  "dseg (d_items dl) p (us @ a # vs) q \<Longrightarrow> \<forall>u\<in>set vs. \<not> cmp (d_T (d_items dl u)) v \<Longrightarrow> cmp (d_T (d_items dl a)) v \<Longrightarrow>
     d_remove_reverse_loop z cmp v dl (d_prev (d_items dl q)) = Some (d_removeItem z dl (Some a))"
proof (induction vs arbitrary: q rule: rev_induct)
  case Nil
  then show ?case by (subst d_remove_reverse_loop.simps) (simp add: dseg_append)
next
  case (snoc u vs)
  have "dseg (d_items dl) p (us @ a # vs) u" "d_prev (d_items dl q) = Some u"
    using snoc.prems(1) dseg_append [of "d_items dl" p "us @ a # vs" u "[]" q] by auto
  then show ?case using snoc by (subst d_remove_reverse_loop.simps) simp
qed

lemma d_rep_values:
  "d_rep z dl xs \<Longrightarrow> p \<in> set xs \<Longrightarrow> d_T (d_items dl (fst p)) = snd p"
  by (auto simp: d_rep_def)

lemma d_rep_map: "d_rep z dl xs \<Longrightarrow> map ((\<lambda>a. d_T (d_items dl a)) \<circ> fst) xs = map snd xs"
  by (auto simp: d_rep_values)

lemma d_remove:
  assumes r: "d_rep z dl (us @ (i, x) # vs)" and "\<forall>p\<in>set us. \<not> cmp (snd p) v" and "cmp x v"
  shows "\<exists>dl'. d_Remove z dl v cmp = Some (Inr dl') \<and> d_rep z dl' (us @ vs)"
proof -
  have "dseg (d_items dl) 0 (map fst us @ i # map fst vs) 0" using r by (simp add: d_rep_def)
  moreover have "\<forall>u\<in>set (map fst us). \<not> cmp (d_T (d_items dl u)) v" "cmp (d_T (d_items dl i)) v"
    using assms d_rep_values [OF r, of "(i, x)"] d_rep_values [OF r] by auto
  ultimately have "d_Remove z dl v cmp = Some (d_removeItem z dl (Some i))"
    unfolding d_Remove_def by (rule d_remove_loop_seg)
  then show ?thesis using d_remove_item [OF r] by auto
qed

lemma d_remove_reverse:
  assumes r: "d_rep z dl (us @ (i, x) # vs)" and "\<forall>p\<in>set vs. \<not> cmp (snd p) v" and "cmp x v"
  shows "\<exists>dl'. d_RemoveReverse z dl v cmp = Some (Inr dl') \<and> d_rep z dl' (us @ vs)"
proof -
  have "dseg (d_items dl) 0 (map fst us @ i # map fst vs) 0" using r by (simp add: d_rep_def)
  moreover have "\<forall>u\<in>set (map fst vs). \<not> cmp (d_T (d_items dl u)) v" "cmp (d_T (d_items dl i)) v"
    using assms d_rep_values [OF r, of "(i, x)"] d_rep_values [OF r] by auto
  ultimately have "d_RemoveReverse z dl v cmp = Some (d_removeItem z dl (Some i))"
    unfolding d_RemoveReverse_def by (rule d_remove_reverse_loop_seg)
  then show ?thesis using d_remove_item [OF r] by auto
qed

interpretation double: linked_list "d_rep z" "double_ops z" for z
proof unfold_locales
  show "d_rep z l xs \<Longrightarrow> distinct (map fst xs)" for l xs by (simp add: d_rep_def)
qed (simp_all add: double_ops_def d_RemoveItem_def d_append d_prepend d_remove_item d_remove d_rep_reset)

lemma d_observe:
  assumes r: "d_rep z dl xs"
  shows "d_Len dl = int (length xs)"
    and "d_Forward dl yield s = Some (Inr (iter_seq yield (map snd xs) s))"
    and "d_Reverse dl yield s = Some (Inr (iter_seq yield (rev (map snd xs)) s))"
    and "d_Head dl = Inr (if xs = [] then z else snd (hd xs))"
    and "d_Tail dl = Inr (if xs = [] then z else snd (last xs))"
proof -
  have seg: "dseg (d_items dl) 0 (map fst xs) 0" and z: "0 \<notin> set (map fst xs)"
    using r d_rep_addresses [OF r] by (auto simp: d_rep_def)
  show "d_Len dl = int (length xs)" using r by (simp add: d_Len_def d_rep_def)
  show "d_Forward dl yield s = Some (Inr (iter_seq yield (map snd xs) s))"
    using d_forward_loop_seg [OF seg z] by (simp add: d_Forward_def d_rep_map [OF r])
  show "d_Reverse dl yield s = Some (Inr (iter_seq yield (rev (map snd xs)) s))"
    using d_reverse_loop_seg [OF seg z] by (simp add: d_Reverse_def rev_map [symmetric] d_rep_map [OF r])
  show "d_Head dl = Inr (if xs = [] then z else snd (hd xs))"
    using r dseg_next [OF seg] by (cases xs) (auto simp: d_Head_def d_rep_def d_load_def)
  show "d_Tail dl = Inr (if xs = [] then z else snd (last xs))"
    using r dseg_prev [OF seg] d_rep_values [OF r]
    by (cases xs rule: rev_cases) (auto simp: d_Tail_def d_rep_def d_load_def)
qed

section \<open>The singly linked list\<close>

fun sseg :: "(nat \<Rightarrow> 'a singleItem) \<Rightarrow> nat \<Rightarrow> nat list \<Rightarrow> nat \<Rightarrow> bool" where
  "sseg h p [] q \<longleftrightarrow> s_next (h p) = Some q"
| "sseg h p (a # as) q \<longleftrightarrow> s_next (h p) = Some a \<and> sseg h a as q"

definition s_rep :: "'a \<Rightarrow> 'a Single \<Rightarrow> (nat \<times> 'a) list \<Rightarrow> bool" where
  "s_rep z sl xs \<longleftrightarrow> sseg (s_items sl) 0 (map fst xs) 0 \<and> distinct (map fst xs) \<and>
     (\<forall>a\<in>fst ` set xs. 0 < a \<and> a < s_brk sl) \<and> 0 < s_brk sl \<and>
     (\<forall>p\<in>set xs. s_T (s_items sl (fst p)) = snd p) \<and> s_T (s_items sl 0) = z \<and>
     s_len sl = int (length xs) \<and> s_tail sl = Some (last (0 # map fst xs))"

lemma sseg_append: "sseg h p (us @ a # vs) q \<longleftrightarrow> sseg h p us a \<and> sseg h a vs q"
  by (induction us arbitrary: p) auto

lemma sseg_last: "sseg h p us q \<Longrightarrow> s_next (h (last (p # us))) = Some q"
  by (induction us arbitrary: p) auto

lemma sseg_frame: "\<forall>x\<in>set (p # as). s_next (h' x) = s_next (h x) \<Longrightarrow> sseg h' p as q = sseg h p as q"
  by (induction as arbitrary: p) auto

lemma sseg_insert:
  assumes "sseg h p (us @ vs) q" "distinct (p # us @ vs)" "n \<notin> set (p # us @ vs)"
    "s_next (h' n) = s_next (h (last (p # us)))" "s_next (h' (last (p # us))) = Some n"
    "\<forall>x. x \<noteq> last (p # us) \<and> x \<noteq> n \<longrightarrow> s_next (h' x) = s_next (h x)"
  shows "sseg h' p (us @ n # vs) q"
  using assms
proof (induction us arbitrary: p)
  case Nil
  show ?case
  proof (cases vs)
    case (Cons v ws)
    then have "sseg h' v ws q = sseg h v ws q" using Nil by (intro sseg_frame) auto
    then show ?thesis using Nil Cons by auto
  qed (use Nil in auto)
next
  case (Cons u us)
  have "last (u # us) \<noteq> p" using Cons.prems by (cases us rule: rev_cases) auto
  moreover have "sseg h' u (us @ n # vs) q" using Cons.prems by (intro Cons.IH) auto
  ultimately show ?case using Cons.prems by auto
qed

lemma sseg_join:
  assumes "sseg h p (us @ a # vs) q" "distinct (p # us @ a # vs)" "s_next (h' (last (p # us))) = s_next (h a)"
    "\<forall>x. x \<noteq> last (p # us) \<and> x \<noteq> a \<longrightarrow> s_next (h' x) = s_next (h x)"
  shows "sseg h' p (us @ vs) q"
  using assms
proof (induction us arbitrary: p)
  case Nil
  show ?case
  proof (cases vs)
    case (Cons v ws)
    then have "sseg h' v ws q = sseg h v ws q" using Nil by (intro sseg_frame) auto
    then show ?thesis using Nil Cons by auto
  qed (use Nil in auto)
next
  case (Cons u us)
  have "last (u # us) \<noteq> p" using Cons.prems by (cases us rule: rev_cases) auto
  moreover have "sseg h' u (us @ vs) q" using Cons.prems by (intro Cons.IH) auto
  ultimately show ?case using Cons.prems by auto
qed

lemma s_insertAfterItem_eq:
  assumes "s_brk sl = n" "a < n"
  obtains sl' where "s_insertAfterItem z sl v (Some a) = Inr (sl', Some n)" "s_brk sl' = Suc n"
    "s_len sl' = s_len sl + 1" "s_tail sl' = s_tail sl"
    "s_next (s_items sl' n) = s_next (s_items sl a)" "s_next (s_items sl' a) = Some n"
    "\<forall>x. x \<noteq> a \<and> x \<noteq> n \<longrightarrow> s_next (s_items sl' x) = s_next (s_items sl x)"
    "\<forall>x. x \<noteq> n \<longrightarrow> s_T (s_items sl' x) = s_T (s_items sl x)" "s_T (s_items sl' n) = v"
  using assms by (simp add: s_insertAfterItem_def s_store_def s_load_def Let_def)

lemma s_removeItem_eq:
  assumes "p \<noteq> a"
  obtains sl' where "s_removeItem z sl (Some p) (Some a) = Inr sl'" "s_brk sl' = s_brk sl" "s_len sl' = s_len sl - 1"
    "s_tail sl' = (if s_tail sl = Some a then Some p else s_tail sl)"
    "s_next (s_items sl' p) = s_next (s_items sl a)"
    "\<forall>x. x \<noteq> p \<and> x \<noteq> a \<longrightarrow> s_next (s_items sl' x) = s_next (s_items sl x)"
    "\<forall>x. x \<noteq> a \<longrightarrow> s_T (s_items sl' x) = s_T (s_items sl x)"
  using assms by (simp add: s_removeItem_def s_store_def s_load_def Let_def)

lemma s_rep_new: "s_rep z (NewSingle z) []"
  by (simp add: s_rep_def NewSingle_def s_Reset_def s_zero_def)

lemma s_rep_reset: "s_rep z sl xs \<Longrightarrow> s_rep z (s_Reset sl) []"
  by (auto simp: s_rep_def s_Reset_def)

lemma s_rep_addresses:
  assumes "s_rep z sl xs"
  shows "0 \<notin> fst ` set xs" "s_brk sl \<notin> fst ` set xs" "0 < s_brk sl" "last (0 # map fst xs) < s_brk sl"
proof -
  have b: "\<forall>a\<in>fst ` set xs. 0 < a \<and> a < s_brk sl" "0 < s_brk sl" using assms by (auto simp: s_rep_def)
  then show "0 \<notin> fst ` set xs" "s_brk sl \<notin> fst ` set xs" "0 < s_brk sl" by auto
  have "last (0 # map fst xs) \<in> insert 0 (fst ` set xs)" by (cases xs rule: rev_cases) auto
  then show "last (0 # map fst xs) < s_brk sl" using b by auto
qed

text \<open>Inserting behind the items \<open>us\<close>, where the tail is set as it has to be.\<close>

lemma s_insert:
  assumes r: "s_rep z sl (us @ vs)"
  obtains sl' where "s_insertAfterItem z sl v (Some (last (0 # map fst us))) = Inr (sl', Some (s_brk sl))"
    "s_len sl' = int (length (us @ vs)) + 1" "s_tail sl' = s_tail sl"
    "\<And>t. t = Some (last (0 # map fst (us @ (s_brk sl, v) # vs))) \<Longrightarrow> s_rep z (sl'\<lparr>s_tail := t\<rparr>) (us @ (s_brk sl, v) # vs)"
proof -
  let ?a = "last (0 # map fst us)" and ?n = "s_brk sl"
  note ad = s_rep_addresses [OF r]
  have a: "?a < ?n" using r ad(3) by (cases us rule: rev_cases) (auto simp: s_rep_def)
  obtain sl' where sl': "s_insertAfterItem z sl v (Some ?a) = Inr (sl', Some ?n)" "s_brk sl' = Suc ?n"
    "s_len sl' = s_len sl + 1" "s_tail sl' = s_tail sl"
    and l: "s_next (s_items sl' ?n) = s_next (s_items sl ?a)" "s_next (s_items sl' ?a) = Some ?n"
    "\<forall>x. x \<noteq> ?a \<and> x \<noteq> ?n \<longrightarrow> s_next (s_items sl' x) = s_next (s_items sl x)"
    and t: "\<forall>x. x \<noteq> ?n \<longrightarrow> s_T (s_items sl' x) = s_T (s_items sl x)" "s_T (s_items sl' ?n) = v"
    by (rule s_insertAfterItem_eq [OF refl a, of z v]) (rule that)
  have "sseg (s_items sl') 0 (map fst us @ ?n # map fst vs) 0"
    using r ad by (intro sseg_insert [OF _ _ _ l]) (auto simp: s_rep_def)
  moreover have "\<forall>p\<in>set (us @ vs). fst p \<noteq> ?n" using ad(2) by force
  ultimately have "s_rep z (sl'\<lparr>s_tail := Some (last (0 # map fst (us @ (?n, v) # vs)))\<rparr>) (us @ (?n, v) # vs)"
    using r t sl'(2,3) ad(1-3) by (auto simp: s_rep_def ball_Un less_Suc_eq)
  moreover have "s_len sl = int (length (us @ vs))" using r by (simp add: s_rep_def)
  ultimately show ?thesis using that sl' by simp
qed

lemma s_append:
  assumes r: "s_rep z sl xs"
  shows "\<exists>sl' i. s_Append z sl v = Inr (sl', Some i) \<and> s_rep z sl' (xs @ [(i, v)])"
proof -
  obtain sl' where "s_insertAfterItem z sl v (Some (last (0 # map fst xs))) = Inr (sl', Some (s_brk sl))"
    "\<And>t. t = Some (last (0 # map fst (xs @ (s_brk sl, v) # []))) \<Longrightarrow> s_rep z (sl'\<lparr>s_tail := t\<rparr>) (xs @ (s_brk sl, v) # [])"
    using s_insert [of z sl xs "[]" v] r by auto
  moreover have "s_tail sl = Some (last (0 # map fst xs))" using r by (simp add: s_rep_def)
  ultimately show ?thesis by (simp add: s_Append_def)
qed

lemma s_prepend:
  assumes r: "s_rep z sl xs"
  shows "\<exists>sl' i. s_Prepend z sl v = Inr (sl', Some i) \<and> s_rep z sl' ((i, v) # xs)"
proof -
  obtain sl' where sl': "s_insertAfterItem z sl v (Some 0) = Inr (sl', Some (s_brk sl))"
    "s_len sl' = int (length xs) + 1" "s_tail sl' = s_tail sl"
    "\<And>t. t = Some (last (0 # map fst ((s_brk sl, v) # xs))) \<Longrightarrow> s_rep z (sl'\<lparr>s_tail := t\<rparr>) ((s_brk sl, v) # xs)"
    using s_insert [of z sl "[]" xs v] r by auto
  have "s_tail sl = Some (last (0 # map fst xs))" using r by (simp add: s_rep_def)
  then have "xs \<noteq> [] \<Longrightarrow> sl'\<lparr>s_tail := Some (last (0 # map fst ((s_brk sl, v) # xs)))\<rparr> = sl'" using sl'(3) by simp
  then show ?thesis using sl'(1,2) sl'(4) [OF refl] by (cases xs) (auto simp: s_Prepend_def)
qed

lemma s_remove_item:
  assumes r: "s_rep z sl (us @ (i, v) # vs)"
  shows "\<exists>sl'. s_removeItem z sl (Some (last (0 # map fst us))) (Some i) = Inr sl' \<and> s_rep z sl' (us @ vs)"
proof -
  let ?p = "last (0 # map fst us)"
  have seg: "sseg (s_items sl) 0 (map fst us @ i # map fst vs) 0"
    and d: "distinct (0 # map fst us @ i # map fst vs)"
    using r s_rep_addresses(1) [OF r] by (auto simp: s_rep_def)
  have p: "?p \<noteq> i" using d by (cases us rule: rev_cases) auto
  obtain sl' where sl': "s_removeItem z sl (Some ?p) (Some i) = Inr sl'" "s_brk sl' = s_brk sl" "s_len sl' = s_len sl - 1"
    "s_tail sl' = (if s_tail sl = Some i then Some ?p else s_tail sl)"
    and l: "s_next (s_items sl' ?p) = s_next (s_items sl i)"
    "\<forall>x. x \<noteq> ?p \<and> x \<noteq> i \<longrightarrow> s_next (s_items sl' x) = s_next (s_items sl x)"
    and t: "\<forall>x. x \<noteq> i \<longrightarrow> s_T (s_items sl' x) = s_T (s_items sl x)"
    by (rule s_removeItem_eq [OF p, of z]) (rule that)
  have "sseg (s_items sl') 0 (map fst us @ map fst vs) 0" by (rule sseg_join [OF seg d l])
  moreover have "\<forall>p\<in>set (us @ vs). fst p \<noteq> i" using d by auto
  moreover have "s_tail sl' = Some (last (0 # map fst (us @ vs)))"
    using r d sl'(4) by (cases vs rule: rev_cases) (auto simp: s_rep_def)
  ultimately have "s_rep z sl' (us @ vs)" using r t sl'(2,3) d by (simp add: s_rep_def ball_Un)
  with sl'(1) show ?thesis by blast
qed

lemma s_forward_loop_seg:
  "sseg (s_items sl) p as 0 \<Longrightarrow> 0 \<notin> set as \<Longrightarrow>
     s_forward_loop yield sl (s_next (s_items sl p)) s = Some (Inr (iter_seq yield (map (\<lambda>a. s_T (s_items sl a)) as) s))"
proof (induction as arbitrary: p s)
  case Nil
  then show ?case by (simp add: s_forward_loop.simps)
next
  case (Cons a as)
  then show ?case by (subst s_forward_loop.simps) (auto simp: s_load_def split: prod.splits)
qed

lemma s_findPrev_loop_seg:
  "sseg (s_items sl) p (us @ a # vs) q \<Longrightarrow> 0 \<notin> set (us @ [a]) \<Longrightarrow> a \<notin> set us \<Longrightarrow>
     s_findPrev_loop sl (Some a) (Some p) (s_next (s_items sl p)) = Some (Inr (Some (last (p # us))))"
proof (induction us arbitrary: p)
  case Nil
  then show ?case by (subst s_findPrev_loop.simps) simp
next
  case (Cons u us)
  then show ?case by (subst s_findPrev_loop.simps) (auto simp: s_load_def)
qed

lemma s_findPrev_loop_absent:
  "sseg (s_items sl) p as 0 \<Longrightarrow> 0 \<notin> set as \<Longrightarrow> \<forall>a\<in>set as. it \<noteq> Some a \<Longrightarrow>
     s_findPrev_loop sl it prev (s_next (s_items sl p)) = Some (Inr None)"
proof (induction as arbitrary: p prev)
  case Nil
  then show ?case by (subst s_findPrev_loop.simps) simp
next
  case (Cons u us)
  then show ?case by (subst s_findPrev_loop.simps) (auto simp: s_load_def)
qed

lemma s_remove_loop_seg:
  "sseg (s_items sl) p (us @ a # vs) q \<Longrightarrow> 0 \<notin> set (us @ [a]) \<Longrightarrow>
   \<forall>u\<in>set us. \<not> cmp (s_T (s_items sl u)) v \<Longrightarrow> cmp (s_T (s_items sl a)) v \<Longrightarrow>
     s_remove_loop z cmp v sl (Some p) (s_next (s_items sl p)) = Some (s_removeItem z sl (Some (last (p # us))) (Some a))"
proof (induction us arbitrary: p)
  case Nil
  then show ?case by (subst s_remove_loop.simps) (simp add: s_load_def)
next
  case (Cons u us)
  then show ?case by (subst s_remove_loop.simps) (auto simp: s_load_def)
qed

lemma s_remove_loop_absent:
  "sseg (s_items sl) p as 0 \<Longrightarrow> 0 \<notin> set as \<Longrightarrow> \<forall>a\<in>set as. \<not> cmp (s_T (s_items sl a)) v \<Longrightarrow>
     s_remove_loop z cmp v sl prev (s_next (s_items sl p)) = Some (Inr sl)"
proof (induction as arbitrary: p prev)
  case Nil
  then show ?case by (subst s_remove_loop.simps) simp
next
  case (Cons u us)
  then show ?case by (subst s_remove_loop.simps) (auto simp: s_load_def)
qed

lemma s_rep_values: "s_rep z sl xs \<Longrightarrow> p \<in> set xs \<Longrightarrow> s_T (s_items sl (fst p)) = snd p"
  by (auto simp: s_rep_def)

lemma s_rep_map: "s_rep z sl xs \<Longrightarrow> map ((\<lambda>a. s_T (s_items sl a)) \<circ> fst) xs = map snd xs"
  by (auto simp: s_rep_values)

lemma s_RemoveItem_present:
  assumes r: "s_rep z sl (us @ (i, v) # vs)"
  shows "\<exists>sl'. s_RemoveItem z sl (Some i) = Some (Inr sl') \<and> s_rep z sl' (us @ vs)"
proof -
  have "sseg (s_items sl) 0 (map fst us @ i # map fst vs) 0" "0 \<notin> set (map fst us @ [i])" "i \<notin> set (map fst us)"
    using r s_rep_addresses(1) [OF r] by (auto simp: s_rep_def)
  then have "s_findPrev sl (Some i) = Some (Inr (Some (last (0 # map fst us))))"
    unfolding s_findPrev_def by (rule s_findPrev_loop_seg)
  then show ?thesis using s_remove_item [OF r] by (simp add: s_RemoveItem_def)
qed

lemma s_remove:
  assumes r: "s_rep z sl (us @ (i, x) # vs)" and "\<forall>p\<in>set us. \<not> cmp (snd p) v" and "cmp x v"
  shows "\<exists>sl'. s_Remove z sl v cmp = Some (Inr sl') \<and> s_rep z sl' (us @ vs)"
proof -
  have "sseg (s_items sl) 0 (map fst us @ i # map fst vs) 0" "0 \<notin> set (map fst us @ [i])"
    using r s_rep_addresses(1) [OF r] by (auto simp: s_rep_def)
  moreover have "\<forall>u\<in>set (map fst us). \<not> cmp (s_T (s_items sl u)) v" "cmp (s_T (s_items sl i)) v"
    using assms s_rep_values [OF r, of "(i, x)"] s_rep_values [OF r] by auto
  ultimately have "s_Remove z sl v cmp = Some (s_removeItem z sl (Some (last (0 # map fst us))) (Some i))"
    unfolding s_Remove_def by (rule s_remove_loop_seg)
  then show ?thesis using s_remove_item [OF r] by auto
qed

text \<open>What is not in the list is not removed, and the list is left as it was.\<close>

lemma s_remove_absent:
  assumes r: "s_rep z sl xs"
  shows "(\<And>a. i = Some a \<Longrightarrow> a \<notin> fst ` set xs) \<Longrightarrow> s_RemoveItem z sl i = Some (Inr sl)"
    and "\<forall>x\<in>snd ` set xs. \<not> cmp x v \<Longrightarrow> s_Remove z sl v cmp = Some (Inr sl)"
proof -
  have seg: "sseg (s_items sl) 0 (map fst xs) 0" "0 \<notin> set (map fst xs)"
    using r s_rep_addresses(1) [OF r] by (auto simp: s_rep_def)
  show "s_RemoveItem z sl i = Some (Inr sl)" if i: "\<And>a. i = Some a \<Longrightarrow> a \<notin> fst ` set xs"
  proof -
    have "\<forall>a\<in>set (map fst xs). i \<noteq> Some a" using i by auto
    from s_findPrev_loop_absent [OF seg this] show ?thesis by (simp add: s_RemoveItem_def s_findPrev_def)
  qed
  show "s_Remove z sl v cmp = Some (Inr sl)" if v: "\<forall>x\<in>snd ` set xs. \<not> cmp x v"
  proof -
    have "\<forall>a\<in>set (map fst xs). \<not> cmp (s_T (s_items sl a)) v" using v s_rep_values [OF r] by auto
    from s_remove_loop_absent [where cmp = cmp and v = v, OF seg this] show ?thesis by (simp add: s_Remove_def)
  qed
qed

interpretation single: linked_list "s_rep z" "single_ops z" for z
proof unfold_locales
  show "s_rep z l xs \<Longrightarrow> distinct (map fst xs)" for l xs by (simp add: s_rep_def)
qed (simp_all add: single_ops_def s_append s_prepend s_RemoveItem_present s_remove s_rep_reset)

lemma s_observe:
  assumes r: "s_rep z sl xs"
  shows "s_Len sl = int (length xs)"
    and "s_Forward sl yield s = Some (Inr (iter_seq yield (map snd xs) s))"
    and "s_Head sl = Inr (if xs = [] then z else snd (hd xs))"
proof -
  have seg: "sseg (s_items sl) 0 (map fst xs) 0" "0 \<notin> set (map fst xs)"
    using r s_rep_addresses(1) [OF r] by (auto simp: s_rep_def)
  show "s_Len sl = int (length xs)" using r by (simp add: s_Len_def s_rep_def)
  show "s_Forward sl yield s = Some (Inr (iter_seq yield (map snd xs) s))"
    using s_forward_loop_seg [OF seg] by (simp add: s_Forward_def s_rep_map [OF r])
  show "s_Head sl = Inr (if xs = [] then z else snd (hd xs))"
    using r by (cases xs) (auto simp: s_Head_def s_rep_def s_load_def)
qed

section \<open>Properties\<close>

text \<open>A removal returns only if the ring it follows has an item that is to be removed.\<close>

lemma d_remove_loop_returns:
  "d_remove_loop z cmp v dl n = Some r \<Longrightarrow> \<forall>a\<in>R. \<exists>b\<in>R. d_next (d_items dl a) = Some b \<Longrightarrow>
     \<forall>a\<in>R. \<not> cmp (d_T (d_items dl a)) v \<Longrightarrow> n \<notin> Some ` R"
proof (induction z cmp v dl n r rule: d_remove_loop.raw_induct [rotated 1, consumes 1])
  case (1 f z cmp v dl n r)
  show ?case
  proof
    assume "n \<in> Some ` R"
    then obtain a where n: "n = Some a" and a: "a \<in> R" by auto
    obtain b where b: "b \<in> R" "d_next (d_items dl a) = Some b" by (rule bexE [OF bspec [OF 1(3) a]])
    have "\<not> cmp (d_T (d_items dl a)) v" by (rule bspec [OF 1(4) a])
    then have "f z cmp v dl (Some b) = Some r" using 1(2) n b(2) by simp
    from 1(1) [OF this 1(3,4)] show False using b(1) by simp
  qed
qed

lemma d_remove_reverse_loop_returns:
  "d_remove_reverse_loop z cmp v dl n = Some r \<Longrightarrow> \<forall>a\<in>R. \<exists>b\<in>R. d_prev (d_items dl a) = Some b \<Longrightarrow>
     \<forall>a\<in>R. \<not> cmp (d_T (d_items dl a)) v \<Longrightarrow> n \<notin> Some ` R"
proof (induction z cmp v dl n r rule: d_remove_reverse_loop.raw_induct [rotated 1, consumes 1])
  case (1 f z cmp v dl n r)
  show ?case
  proof
    assume "n \<in> Some ` R"
    then obtain a where n: "n = Some a" and a: "a \<in> R" by auto
    obtain b where b: "b \<in> R" "d_prev (d_items dl a) = Some b" by (rule bexE [OF bspec [OF 1(3) a]])
    have "\<not> cmp (d_T (d_items dl a)) v" by (rule bspec [OF 1(4) a])
    then have "f z cmp v dl (Some b) = Some r" using 1(2) n b(2) by simp
    from 1(1) [OF this 1(3,4)] show False using b(1) by simp
  qed
qed

lemma dseg_ring:
  "dseg h p as q \<Longrightarrow> a \<in> set (p # as) \<Longrightarrow> \<exists>b\<in>set (as @ [q]). d_next (h a) = Some b"
  "dseg h p as q \<Longrightarrow> a \<in> set (as @ [q]) \<Longrightarrow> \<exists>b\<in>set (p # as). d_prev (h a) = Some b"
  by (induction as arbitrary: p) auto

lemma d_remove_absent:
  assumes r: "d_rep z dl xs" and no: "\<forall>x\<in>snd ` set xs. \<not> cmp x v" "\<not> cmp z v"
  shows "d_Remove z dl v cmp = None" "d_RemoveReverse z dl v cmp = None"
proof -
  let ?R = "insert 0 (fst ` set xs)"
  have seg: "dseg (d_items dl) 0 (map fst xs) 0" using r by (simp add: d_rep_def)
  have nx: "\<forall>a\<in>?R. \<exists>b\<in>?R. d_next (d_items dl a) = Some b"
    using dseg_ring(1) [OF seg] by auto
  have pv: "\<forall>a\<in>?R. \<exists>b\<in>?R. d_prev (d_items dl a) = Some b"
    using dseg_ring(2) [OF seg] by auto
  have nc: "\<forall>a\<in>?R. \<not> cmp (d_T (d_items dl a)) v" using r no by (auto simp: d_rep_def)
  have "d_remove_loop z cmp v dl (d_next (d_items dl 0)) \<noteq> Some y" for y
    using d_remove_loop_returns [where cmp = cmp and v = v and dl = dl, OF _ nx nc] nx by force
  then show "d_Remove z dl v cmp = None" unfolding d_Remove_def by (metis option.exhaust)
  have "d_remove_reverse_loop z cmp v dl (d_prev (d_items dl 0)) \<noteq> Some y" for y
    using d_remove_reverse_loop_returns [where cmp = cmp and v = v and dl = dl, OF _ pv nc] pv by force
  then show "d_RemoveReverse z dl v cmp = None" unfolding d_RemoveReverse_def by (metis option.exhaust)
qed

lemma d_remove_sentinel:
  assumes r: "d_rep z dl xs" and no: "\<forall>x\<in>snd ` set xs. \<not> cmp x v" and z: "cmp z v"
  shows "\<exists>dl'. d_Remove z dl v cmp = Some (Inr dl') \<and> d_Len dl' = int (length xs) - 1 \<and>
           (\<forall>w. d_Append z dl' w = Inl NilDereference)"
proof -
  have seg: "dseg (d_items dl) 0 (map fst xs) 0" and t: "d_T (d_items dl 0) = z" using r by (simp_all add: d_rep_def)
  then have "dseg (d_items dl) 0 (map fst xs @ 0 # map fst xs) 0" by (simp add: dseg_append)
  moreover have "\<forall>u\<in>set (map fst xs). \<not> cmp (d_T (d_items dl u)) v" using no d_rep_values [OF r] by auto
  ultimately have "d_Remove z dl v cmp = Some (d_removeItem z dl (Some 0))"
    unfolding d_Remove_def using t z by (intro d_remove_loop_seg) auto
  moreover have "\<exists>dl'. d_removeItem z dl (Some 0) = Inr dl' \<and> d_items dl' 0 = d_zero z \<and> d_len dl' = d_len dl - 1"
    using dseg_next [OF seg] dseg_prev [OF seg]
    by (simp add: d_removeItem_def d_store_def d_load_def Let_def)
  ultimately show ?thesis
    using r by (auto simp: d_Append_def d_insertAfterItem_def d_store_def d_load_def d_zero_def Let_def d_Len_def d_rep_def)
qed

lemma same_values:
  assumes "map f us = map f xs"
  shows "length us = length xs" "us = [] \<longleftrightarrow> xs = []"
    "us \<noteq> [] \<Longrightarrow> f (hd us) = f (hd xs)" "us \<noteq> [] \<Longrightarrow> f (last us) = f (last xs)"
proof -
  show l: "length us = length xs" using map_eq_imp_length_eq [OF assms] .
  show e: "us = [] \<longleftrightarrow> xs = []" using l by (cases us; cases xs) auto
  show "us \<noteq> [] \<Longrightarrow> f (hd us) = f (hd xs)" using assms e by (metis hd_map)
  show "us \<noteq> [] \<Longrightarrow> f (last us) = f (last xs)" using assms e by (metis last_map)
qed

text \<open>
  C28: Every program of Append, Prepend, RemoveItem, Remove and Reset calls on a new list that only removes
  items and values that are in the list runs without a panic, ends, and leaves the list that the
  operations on sequences give: Len, Head, Tail and the iterators in both directions show it, for the
  doubly and for the singly linked list.
\<close>

theorem linked_lists_are_sequences:
  assumes "seq_run cmp ops ([], 0) = Some (xs, n)"
  shows "(\<exists>dl hs. exec_run (double_ops z) cmp ops (NewDouble z, []) = Some (Inr (dl, hs)) \<and>
            d_Len dl = int (length xs) \<and>
            (\<forall>(yield :: 's \<Rightarrow> 'a \<Rightarrow> 's \<times> bool) s. d_Forward dl yield s = Some (Inr (iter_seq yield (map snd xs) s))) \<and>
            (\<forall>(yield :: 's \<Rightarrow> 'a \<Rightarrow> 's \<times> bool) s. d_Reverse dl yield s = Some (Inr (iter_seq yield (rev (map snd xs)) s))) \<and>
            d_Head dl = Inr (if xs = [] then z else snd (hd xs)) \<and>
            d_Tail dl = Inr (if xs = [] then z else snd (last xs))) \<and>
         (\<exists>sl hs. exec_run (single_ops z) cmp ops (NewSingle z, []) = Some (Inr (sl, hs)) \<and>
            s_Len sl = int (length xs) \<and>
            (\<forall>(yield :: 's \<Rightarrow> 'a \<Rightarrow> 's \<times> bool) s. s_Forward sl yield s = Some (Inr (iter_seq yield (map snd xs) s))) \<and>
            s_Head sl = Inr (if xs = [] then z else snd (hd xs)))"
proof (rule conjI)
  obtain dl hs ys where dl: "exec_run (double_ops z) cmp ops (NewDouble z, []) = Some (Inr (dl, hs))"
    "d_rep z dl ys" "map snd ys = map snd xs"
    using double.run_refines [OF d_rep_new assms] by blast
  obtain sl hs' zs where sl: "exec_run (single_ops z) cmp ops (NewSingle z, []) = Some (Inr (sl, hs'))"
    "s_rep z sl zs" "map snd zs = map snd xs"
    using single.run_refines [OF s_rep_new assms] by blast
  show "\<exists>dl hs. exec_run (double_ops z) cmp ops (NewDouble z, []) = Some (Inr (dl, hs)) \<and>
            d_Len dl = int (length xs) \<and>
            (\<forall>(yield :: 's \<Rightarrow> 'a \<Rightarrow> 's \<times> bool) s. d_Forward dl yield s = Some (Inr (iter_seq yield (map snd xs) s))) \<and>
            (\<forall>(yield :: 's \<Rightarrow> 'a \<Rightarrow> 's \<times> bool) s. d_Reverse dl yield s = Some (Inr (iter_seq yield (rev (map snd xs)) s))) \<and>
            d_Head dl = Inr (if xs = [] then z else snd (hd xs)) \<and>
            d_Tail dl = Inr (if xs = [] then z else snd (last xs))"
    by (rule exI [of _ dl], rule exI [of _ hs])
      (use same_values [OF dl(3)] in \<open>simp add: dl(1,3) d_observe [OF dl(2)]\<close>)
  show "\<exists>sl hs. exec_run (single_ops z) cmp ops (NewSingle z, []) = Some (Inr (sl, hs)) \<and>
            s_Len sl = int (length xs) \<and>
            (\<forall>(yield :: 's \<Rightarrow> 'a \<Rightarrow> 's \<times> bool) s. s_Forward sl yield s = Some (Inr (iter_seq yield (map snd xs) s))) \<and>
            s_Head sl = Inr (if xs = [] then z else snd (hd xs))"
    by (rule exI [of _ sl], rule exI [of _ hs'])
      (use same_values [OF sl(3)] in \<open>simp add: sl(1,3) s_observe [OF sl(2)]\<close>)
qed

lemma linked_lists_are_sequences_witness:
  "\<exists>dl hs. exec_run (double_ops (0::int)) (=) [AppendOp 1, PrependOp 2, AppendOp 3, RemoveItemOp 0, RemoveOp 3, AppendOp 4] (NewDouble 0, [])
       = Some (Inr (dl, hs)) \<and> d_Len dl = 2 \<and> d_Head dl = Inr 2 \<and> d_Tail dl = Inr 4 \<and>
     d_Reverse dl (\<lambda>s x. (s @ [x], True)) [] = Some (Inr [4, 2])"
proof -
  have "seq_run (=) [AppendOp (1::int), PrependOp 2, AppendOp 3, RemoveItemOp 0, RemoveOp 3, AppendOp 4] ([], 0)
          = Some ([(1, 2), (3, 4)], 4)" by code_simp
  from linked_lists_are_sequences [where 's = "int list", OF this, of 0, THEN conjunct1]
  show ?thesis by (elim exE conjE) (rule exI, rule exI, intro conjI, assumption, simp_all del: exec_run.simps)
qed

text \<open>
  Removing a value that does not occur: the singly linked list is left as it is, whereas Remove and
  RemoveReverse of the doubly linked list never return, or, if the comparison takes the zero value for
  the one to remove, remove the sentinel, after which an Append panics.
\<close>

theorem remove_of_absent_value:
  assumes "\<forall>x\<in>snd ` set xs. \<not> cmp x v" and "s_rep z sl xs" and "d_rep z dl ys" and "map snd ys = map snd xs"
  shows "s_Remove z sl v cmp = Some (Inr sl) \<and>
         (if cmp z v
          then \<exists>dl'. d_Remove z dl v cmp = Some (Inr dl') \<and> d_Len dl' = int (length xs) - 1 \<and>
                 (\<forall>w. d_Append z dl' w = Inl NilDereference)
          else d_Remove z dl v cmp = None \<and> d_RemoveReverse z dl v cmp = None)"
proof -
  have ys: "\<forall>x\<in>snd ` set ys. \<not> cmp x v" using assms(1,4) by (metis list.set_map)
  show ?thesis
    using s_remove_absent(2) [where cmp = cmp and v = v, OF assms(2,1)] d_remove_absent [where cmp = cmp and v = v, OF assms(3) ys] d_remove_sentinel [where cmp = cmp and v = v, OF assms(3) ys]
      same_values(1) [OF assms(4)] by simp
qed

lemma remove_of_absent_value_witness:
  "s_Remove (0::int) (NewSingle 0) 7 (=) = Some (Inr (NewSingle 0)) \<and> d_Remove (0::int) (NewDouble 0) 7 (=) = None"
  using remove_of_absent_value [of "[]" "(=)" "7::int" 0 "NewSingle 0" "NewDouble 0" "[]"]
  by (simp add: s_rep_new d_rep_new)

end
