(* ===== verification/Bitmap.thy ===== *)
theory Bitmap
  imports Prelude
begin

text \<open>
  The bitmap of \<^verbatim>\<open>algo/container/bitmap/bitmap.go\<close> and the tracker of a contiguous run of set
  bits of \<^verbatim>\<open>contiguous.go\<close>. A bitmap is its slice of 64 bit words and the operations are the
  word operations of the source. The abstraction \<open>bits_of\<close> is the set of the indices of the bits
  that are set.
\<close>

unbundle bit_operations_syntax

section \<open>Model of bitmap.go\<close>

type_synonym bitmap_T = "64 word list"

definition New :: "int \<Rightarrow> bitmap_T" where
  "New sz = (if sz \<le> 0 then [] else replicate (nat (quot (sz + 63) 64)) 0)"

text \<open>The mask \<^verbatim>\<open>1 << (i % 64)\<close>; Go panics on a negative shift count.\<close>

definition bit_mask :: "int \<Rightarrow> 64 word res" where
  "bit_mask i = (let n = remn i 64 in if n < 0 then Inl NegativeShift else Inr (push_bit (nat n) 1))"

definition SetUnsafe :: "bitmap_T \<Rightarrow> int \<Rightarrow> bitmap_T res" where
  "SetUnsafe b i =
     rbind (sl_get b (quot i 64)) (\<lambda>w. rbind (bit_mask i) (\<lambda>m. sl_set b (quot i 64) (w OR m)))"

definition bm_Set :: "bitmap_T \<Rightarrow> int \<Rightarrow> bitmap_T res" where
  "bm_Set b i = (if i < 0 \<or> i \<ge> int (length b) * 64 then Inr b else SetUnsafe b i)"

definition ClearUnsafe :: "bitmap_T \<Rightarrow> int \<Rightarrow> bitmap_T res" where
  "ClearUnsafe b i =
     rbind (sl_get b (quot i 64)) (\<lambda>w. rbind (bit_mask i) (\<lambda>m. sl_set b (quot i 64) (w AND NOT m)))"

definition bm_Clear :: "bitmap_T \<Rightarrow> int \<Rightarrow> bitmap_T res" where
  "bm_Clear b i = (if i < 0 \<or> i \<ge> int (length b) * 64 then Inr b else ClearUnsafe b i)"

definition IsSetUnsafe :: "bitmap_T \<Rightarrow> int \<Rightarrow> bool res" where
  "IsSetUnsafe b i = rbind (sl_get b (quot i 64)) (\<lambda>w. rbind (bit_mask i) (\<lambda>m. Inr (w AND m \<noteq> 0)))"

definition bm_IsSet :: "bitmap_T \<Rightarrow> int \<Rightarrow> bool res" where
  "bm_IsSet b i = (if i < 0 \<or> i \<ge> int (length b) * 64 then Inr False else IsSetUnsafe b i)"

function next_set_loop :: "bitmap_T \<Rightarrow> int \<Rightarrow> int \<Rightarrow> int res" where
  "next_set_loop b nb lim =
     (if nb < lim
      then rbind (sl_get b (quot nb 64)) (\<lambda>w.
           if remn nb 64 = 0 \<and> w = 0 then next_set_loop b (nb + 64) lim
           else rbind (bit_mask nb) (\<lambda>m.
                if w AND m \<noteq> 0 then Inr nb else next_set_loop b (nb + 1) lim))
      else Inr (- 1))"
  by pat_completeness auto
termination
  by (relation "measure (\<lambda>(b, nb, lim). nat (lim - nb))") auto

definition NextSet :: "bitmap_T \<Rightarrow> int \<Rightarrow> int \<Rightarrow> int res" where
  "NextSet b start sz =
     (let lim = min (int (length b) * 64) sz
      in if start < 0 \<or> start \<ge> lim then Inr (- 1) else next_set_loop b start lim)"

function next_clear_loop :: "bitmap_T \<Rightarrow> int \<Rightarrow> int \<Rightarrow> int res" where
  "next_clear_loop b nb lim =
     (if nb < lim
      then rbind (sl_get b (quot nb 64)) (\<lambda>w.
           if remn nb 64 = 0 \<and> w = 0xffffffffffffffff then next_clear_loop b (nb + 64) lim
           else rbind (bit_mask nb) (\<lambda>m.
                if w AND m = 0 then Inr nb else next_clear_loop b (nb + 1) lim))
      else Inr (- 1))"
  by pat_completeness auto
termination
  by (relation "measure (\<lambda>(b, nb, lim). nat (lim - nb))") auto

definition NextClear :: "bitmap_T \<Rightarrow> int \<Rightarrow> int \<Rightarrow> int res" where
  "NextClear b start sz =
     (let lim = min (int (length b) * 64) sz
      in if start < 0 \<or> start \<ge> lim then Inr (- 1) else next_clear_loop b start lim)"

declare next_set_loop.simps [simp del] next_clear_loop.simps [simp del]

section \<open>Bits as a set of indices\<close>

definition bits_of :: "bitmap_T \<Rightarrow> int set" where
  "bits_of b = {i \<in> {0..<int (length b) * 64}. bit (b ! nat (i div 64)) (nat (i mod 64))}"

lemma bits_of_range: "i \<in> bits_of b \<Longrightarrow> 0 \<le> i \<and> i < int (length b) * 64"
  by (simp add: bits_of_def)

lemma bit_mask_nonneg [simp]: "0 \<le> i \<Longrightarrow> bit_mask i = Inr (push_bit (nat (i mod 64)) 1)"
  by (simp add: bit_mask_def Let_def)

lemma word_index:
  "0 \<le> i \<Longrightarrow> i < int (length b) * 64 \<Longrightarrow> sl_get b (i div 64) = Inr (b ! nat (i div 64))"
  by (auto simp: sl_get_def div_less_iff_less_mult mult.commute)

lemma word_set:
  "0 \<le> i \<Longrightarrow> i < int (length b) * 64 \<Longrightarrow> sl_set b (i div 64) w = Inr (b[nat (i div 64) := w])"
  by (auto simp: sl_set_def div_less_iff_less_mult mult.commute)

lemma bit_mask_test [simp]: "(w :: 64 word) AND 2 ^ n = 0 \<longleftrightarrow> \<not> bit w n"
  by (simp add: and_exp_eq_0_iff_not_bit)

lemma nat_mod_64: "nat (i mod 64) < 64"
  by (simp add: nat_less_iff)

lemma IsSetUnsafe_bits:
  "0 \<le> i \<Longrightarrow> i < int (length b) * 64 \<Longrightarrow> IsSetUnsafe b i = Inr (i \<in> bits_of b)"
  by (simp add: IsSetUnsafe_def word_index bits_of_def)

lemma IsSet_bits: "bm_IsSet b i = Inr (i \<in> bits_of b)"
  using IsSetUnsafe_bits [of i b] bits_of_range [of i b] by (auto simp: bm_IsSet_def)

lemma word_bound: "0 \<le> i \<Longrightarrow> i < int (length b) * 64 \<Longrightarrow> nat (i div 64) < length b"
  by (simp add: nat_less_iff div_less_iff_less_mult mult.commute)

lemma div_mod_nat_eq:
  assumes "0 \<le> i" "0 \<le> j" "nat (i div 64) = nat (j div 64)" "nat (i mod 64) = nat (j mod 64)"
  shows "i = (j :: int)"
proof -
  have "i div 64 = j div 64" "i mod 64 = j mod 64"
    using assms by (auto simp: eq_nat_nat_iff pos_imp_zdiv_nonneg_iff)
  then show ?thesis by (metis div_mult_mod_eq)
qed

lemma bits_of_update:
  assumes i: "0 \<le> i" "i < int (length b) * 64"
    and w: "\<And>n. n < 64 \<Longrightarrow> bit w n \<longleftrightarrow> (if n = nat (i mod 64) then v else bit (b ! nat (i div 64)) n)"
  shows "bits_of (b[nat (i div 64) := w]) = (if v then insert i (bits_of b) else bits_of b - {i})"
proof (intro set_eqI)
  fix j
  show "j \<in> bits_of (b[nat (i div 64) := w]) \<longleftrightarrow>
      j \<in> (if v then insert i (bits_of b) else bits_of b - {i})"
  proof (cases "0 \<le> j \<and> j < int (length b) * 64")
    case True
    then have j: "j \<in> bits_of c \<longleftrightarrow> bit (c ! nat (j div 64)) (nat (j mod 64))"
      if "length c = length b" for c
      using that by (simp add: bits_of_def)
    show ?thesis
    proof (cases "nat (j div 64) = nat (i div 64)")
      case True
      have "nat (j mod 64) = nat (i mod 64) \<longleftrightarrow> j = i"
        using div_mod_nat_eq [OF _ _ True] \<open>0 \<le> j \<and> _\<close> i(1) by blast
      then show ?thesis using True word_bound [OF i] w [OF nat_mod_64 [of j]] j by auto
    next
      case False
      then have "j \<noteq> i" by auto
      then show ?thesis using False j by simp
    qed
  next
    case False
    then show ?thesis using i by (auto simp: bits_of_def)
  qed
qed

lemma SetUnsafe_bits:
  assumes "0 \<le> i" "i < int (length b) * 64"
  shows "\<exists>b'. SetUnsafe b i = Inr b' \<and> length b' = length b \<and> bits_of b' = insert i (bits_of b)"
proof -
  let ?w = "b ! nat (i div 64) OR push_bit (nat (i mod 64)) 1"
  have "bits_of (b[nat (i div 64) := ?w]) = insert i (bits_of b)"
    using bits_of_update [OF assms, of ?w True] by (auto simp: bit_simps)
  moreover have "SetUnsafe b i = Inr (b[nat (i div 64) := ?w])"
    using assms by (simp add: SetUnsafe_def word_index word_set)
  ultimately show ?thesis by simp
qed

lemma ClearUnsafe_bits:
  assumes "0 \<le> i" "i < int (length b) * 64"
  shows "\<exists>b'. ClearUnsafe b i = Inr b' \<and> length b' = length b \<and> bits_of b' = bits_of b - {i}"
proof -
  let ?w = "b ! nat (i div 64) AND NOT (push_bit (nat (i mod 64)) 1)"
  have "bits_of (b[nat (i div 64) := ?w]) = bits_of b - {i}"
    using bits_of_update [OF assms, of ?w False] by (auto simp: bit_simps)
  moreover have "ClearUnsafe b i = Inr (b[nat (i div 64) := ?w])"
    using assms by (simp add: ClearUnsafe_def word_index word_set)
  ultimately show ?thesis by simp
qed

lemma Set_bits:
  "\<exists>b'. bm_Set b i = Inr b' \<and> length b' = length b \<and>
     bits_of b' = (if 0 \<le> i \<and> i < int (length b) * 64 then insert i (bits_of b) else bits_of b)"
  using SetUnsafe_bits [of i b] by (auto simp: bm_Set_def)

lemma Clear_bits:
  "\<exists>b'. bm_Clear b i = Inr b' \<and> length b' = length b \<and> bits_of b' = bits_of b - {i}"
proof (cases "0 \<le> i \<and> i < int (length b) * 64")
  case True
  then show ?thesis using ClearUnsafe_bits [of i b] by (simp add: bm_Clear_def)
next
  case False
  then have "i \<notin> bits_of b" using bits_of_range by blast
  then show ?thesis using False by (auto simp: bm_Clear_def)
qed

lemma New_bits:
  "bits_of (New sz) = {}" "sz \<le> int (length (New sz)) * 64"
  "0 \<le> sz \<Longrightarrow> int (length (New sz)) * 64 < sz + 64"
proof -
  have "i \<notin> bits_of (replicate n 0)" for n i
  proof
    assume i: "i \<in> bits_of (replicate n 0)"
    then have "nat (i div 64) < n" using bits_of_range [OF i] word_bound [of i "replicate n 0"] by simp
    then show False using i by (simp add: bits_of_def)
  qed
  then show "bits_of (New sz) = {}" by (simp add: New_def bits_of_def)
  have "sz \<le> (sz + 63) div 64 * 64" "(sz + 63) div 64 * 64 < sz + 64"
    using div_mult_mod_eq [of "sz + 63" 64] pos_mod_bound [of 64 "sz + 63"] pos_mod_sign [of 64 "sz + 63"]
    by linarith+
  then show "sz \<le> int (length (New sz)) * 64" "0 \<le> sz \<Longrightarrow> int (length (New sz)) * 64 < sz + 64"
    by (auto simp: New_def)
qed

section \<open>Searching\<close>

text \<open>
  \<open>first_in S lo hi r\<close>: \<open>r\<close> is the first element of \<open>S\<close> in the interval from \<open>lo\<close> up to but not
  including \<open>hi\<close>, or \<open>-1\<close> when there is none.
\<close>

definition first_in :: "int set \<Rightarrow> int \<Rightarrow> int \<Rightarrow> int \<Rightarrow> bool" where
  "first_in S lo hi r \<longleftrightarrow>
     (if r = - 1 then S \<inter> {lo..<hi} = {} else r \<in> S \<and> lo \<le> r \<and> r < hi \<and> S \<inter> {lo..<r} = {})"

lemma first_in_skip:
  assumes "first_in S lo' hi r" "0 \<le> lo" "lo \<le> lo'" "S \<inter> {lo..<lo'} = {}"
  shows "first_in S lo hi r"
proof -
  have "S \<inter> {lo..<x} = {}" if "S \<inter> {lo'..<x} = {}" for x
  proof -
    have "S \<inter> {lo..<x} \<subseteq> (S \<inter> {lo..<lo'}) \<union> (S \<inter> {lo'..<x})" by auto
    then show ?thesis using that assms(4) by simp
  qed
  then show ?thesis
    using assms(1-3) unfolding first_in_def by (auto split: if_splits)
qed

lemma zero_word_block:
  assumes "b ! nat (nb div 64) = 0" "nb mod 64 = 0" "0 \<le> nb"
  shows "bits_of b \<inter> {nb..<nb + 64} = {}"
proof -
  have nb: "nb = 64 * (nb div 64)" using assms(2) mult_div_mod_eq [of 64 nb] by simp
  have "j \<notin> bits_of b" if "nb \<le> j" "j < nb + 64" for j
  proof -
    have "j div 64 = nb div 64"
      using that nb by (intro int_div_pos_eq [of j 64 "nb div 64" "j - nb"]) linarith+
    then show ?thesis using assms(1) by (simp add: bits_of_def)
  qed
  then show ?thesis unfolding disjoint_iff by auto
qed

lemma next_set_loop_first:
  assumes "0 \<le> nb" "lim \<le> int (length b) * 64"
  shows "\<exists>r. next_set_loop b nb lim = Inr r \<and> first_in (bits_of b) nb lim r"
  using assms
proof (induction "nat (lim - nb)" arbitrary: nb rule: less_induct)
  case less
  show ?case
  proof (cases "nb < lim")
    case False
    then show ?thesis by (simp add: next_set_loop.simps [of b nb lim] first_in_def)
  next
    case True
    then have nb: "nb < int (length b) * 64" using less.prems by simp
    consider (skip) "nb mod 64 = 0 \<and> b ! nat (nb div 64) = 0"
      | (found) "nb \<in> bits_of b" | (next_bit) "nb \<notin> bits_of b" "\<not> (nb mod 64 = 0 \<and> b ! nat (nb div 64) = 0)"
      by blast
    then show ?thesis
    proof cases
      case skip
      then show ?thesis
        using less.hyps [of "nb + 64"] True less.prems nb zero_word_block [of b nb]
          first_in_skip [of "bits_of b" "nb + 64" lim _ nb]
        by (auto simp: next_set_loop.simps [of b nb lim] word_index)
    next
      case found
      then have "bit (b ! nat (nb div 64)) (nat (nb mod 64))" by (simp add: bits_of_def)
      then show ?thesis
        using True less.prems nb found
        by (auto simp: next_set_loop.simps [of b nb lim] word_index first_in_def)
    next
      case next_bit
      then have "\<not> bit (b ! nat (nb div 64)) (nat (nb mod 64))"
        using nb less.prems by (simp add: bits_of_def)
      moreover have "bits_of b \<inter> {nb..<nb + 1} = {}" using next_bit(1) by auto
      ultimately show ?thesis
        using less.hyps [of "nb + 1"] True less.prems nb next_bit(2)
          first_in_skip [of "bits_of b" "nb + 1" lim _ nb]
        by (auto simp: next_set_loop.simps [of b nb lim] word_index)
    qed
  qed
qed

text \<open>Searching for a clear bit is searching for a set bit of the complemented words.\<close>

lemma next_clear_loop_complement:
  "0 \<le> nb \<Longrightarrow> lim \<le> int (length b) * 64 \<Longrightarrow>
     next_clear_loop b nb lim = next_set_loop (map NOT b) nb lim"
proof (induction "nat (lim - nb)" arbitrary: nb rule: less_induct)
  case less
  show ?case
  proof (cases "nb < lim")
    case True
    then have nb: "nb < int (length b) * 64" using less.prems by simp
    have "(0xffffffffffffffff :: 64 word) = - 1" by simp
    then have "NOT (w :: 64 word) = 0 \<longleftrightarrow> w = 0xffffffffffffffff" for w
      by (metis bit.double_compl bit.compl_zero)
    then show ?thesis
      using True less nb word_bound [of nb b]
      by (simp add: next_clear_loop.simps [of b nb lim] next_set_loop.simps [of _ nb lim] word_index
          bit_not_iff nat_mod_64)
  qed (simp add: next_clear_loop.simps [of b nb lim] next_set_loop.simps [of _ nb lim])
qed

lemma bits_of_complement: "bits_of (map NOT b) = {0..<int (length b) * 64} - bits_of b"
  by (auto simp: bits_of_def word_bound bit_not_iff nat_mod_64)

lemma NextSet_first:
  assumes "0 \<le> start"
  shows "\<exists>r. NextSet b start sz = Inr r \<and> first_in (bits_of b) start (min (int (length b) * 64) sz) r"
  using next_set_loop_first [of start "min (int (length b) * 64) sz" b] assms
  by (auto simp: NextSet_def Let_def first_in_def)

lemma NextClear_first:
  assumes "0 \<le> start"
  shows "\<exists>r. NextClear b start sz = Inr r \<and>
    first_in (- bits_of b) start (min (int (length b) * 64) sz) r"
proof (cases "start < min (int (length b) * 64) sz")
  case True
  let ?lim = "min (int (length b) * 64) sz"
  have "first_in (bits_of (map NOT b)) start ?lim r \<Longrightarrow> first_in (- bits_of b) start ?lim r" for r
    using assms unfolding bits_of_complement first_in_def disjoint_iff
    by (auto split: if_splits) (meson less_trans order_trans)
  then show ?thesis
    using next_set_loop_first [of start ?lim "map NOT b"] True assms
      next_clear_loop_complement [of start ?lim b]
    by (auto simp: NextClear_def Let_def)
next
  case False
  then show ?thesis by (auto simp: NextClear_def Let_def first_in_def)
qed

section \<open>Iterators\<close>

lemma NextSet_progress:
  assumes "0 \<le> n" "NextSet b (n + 1) sz = Inr r"
  shows "r = - 1 \<or> (n < r \<and> r < sz)"
  using NextSet_first [of "n + 1" b sz] assms by (auto simp: first_in_def split: if_splits)

lemma NextClear_progress:
  assumes "0 \<le> n" "NextClear b (n + 1) sz = Inr r"
  shows "r = - 1 \<or> (n < r \<and> r < sz)"
  using NextClear_first [of "n + 1" b sz] assms by (auto simp: first_in_def split: if_splits)

function all_set_loop ::
  "bitmap_T \<Rightarrow> int \<Rightarrow> ('s \<Rightarrow> int \<Rightarrow> 's \<times> bool) \<Rightarrow> int \<Rightarrow> 's \<Rightarrow> 's res" where
  "all_set_loop b sz yield n s =
     (if n \<ge> 0
      then case yield s n of (s', more) \<Rightarrow>
           if more then rbind (NextSet b (n + 1) sz) (\<lambda>n'. all_set_loop b sz yield n' s') else Inr s'
      else Inr s)"
  by pat_completeness auto
termination
  by (relation "measure (\<lambda>(b, sz, yield, n, s). if n < 0 then 0 else Suc (nat (sz - n)))")
    (auto dest!: NextSet_progress)

definition AllSet :: "bitmap_T \<Rightarrow> int \<Rightarrow> int \<Rightarrow> ('s \<Rightarrow> int \<Rightarrow> 's \<times> bool) \<Rightarrow> 's \<Rightarrow> 's res" where
  "AllSet b start sz yield s = rbind (NextSet b start sz) (\<lambda>n. all_set_loop b sz yield n s)"

function all_clear_loop ::
  "bitmap_T \<Rightarrow> int \<Rightarrow> ('s \<Rightarrow> int \<Rightarrow> 's \<times> bool) \<Rightarrow> int \<Rightarrow> 's \<Rightarrow> 's res" where
  "all_clear_loop b sz yield n s =
     (if n \<ge> 0
      then case yield s n of (s', more) \<Rightarrow>
           if more then rbind (NextClear b (n + 1) sz) (\<lambda>n'. all_clear_loop b sz yield n' s') else Inr s'
      else Inr s)"
  by pat_completeness auto
termination
  by (relation "measure (\<lambda>(b, sz, yield, n, s). if n < 0 then 0 else Suc (nat (sz - n)))")
    (auto dest!: NextClear_progress)

definition AllClear :: "bitmap_T \<Rightarrow> int \<Rightarrow> int \<Rightarrow> ('s \<Rightarrow> int \<Rightarrow> 's \<times> bool) \<Rightarrow> 's \<Rightarrow> 's res" where
  "AllClear b start sz yield s = rbind (NextClear b start sz) (\<lambda>n. all_clear_loop b sz yield n s)"

declare all_set_loop.simps [simp del] all_clear_loop.simps [simp del]

text \<open>
  What the two loops share: a \<^verbatim>\<open>for\<close> statement driven by a search for the next index of a set. The
  loop visits exactly the elements of the set in the interval, in ascending order.
\<close>

locale index_scan =
  fixes S :: "int set" and hi :: int
    and nxt :: "int \<Rightarrow> int res"
    and yield :: "'s \<Rightarrow> int \<Rightarrow> 's \<times> bool"
    and loop :: "int \<Rightarrow> 's \<Rightarrow> 's res"
  assumes nxt_law: "0 \<le> lo \<Longrightarrow> \<exists>r. nxt lo = Inr r \<and> first_in S lo hi r"
    and loop_law: "loop n s = (if n \<ge> 0 then case yield s n of (s', more) \<Rightarrow>
      if more then rbind (nxt (n + 1)) (\<lambda>n'. loop n' s') else Inr s' else Inr s)"
begin

lemma filter_first:
  assumes "0 \<le> lo" "first_in S lo hi r"
  shows "filter (\<lambda>i. i \<in> S) [lo..hi - 1] =
    (if r = - 1 then [] else r # filter (\<lambda>i. i \<in> S) [r + 1..hi - 1])"
proof (cases "r = - 1")
  case True
  then show ?thesis using assms by (auto simp: first_in_def filter_empty_conv)
next
  case False
  then have r: "r \<in> S" "lo \<le> r" "r < hi" "S \<inter> {lo..<r} = {}" using assms by (auto simp: first_in_def)
  have "[lo..hi - 1] = [lo..r - 1] @ r # [r + 1..hi - 1]"
    using r upto_split3 [of lo r "hi - 1"] by simp
  moreover have "filter (\<lambda>i. i \<in> S) [lo..r - 1] = []" using r(4) by (auto simp: filter_empty_conv)
  ultimately show ?thesis using False r(1) by simp
qed

lemma loop_seq:
  "0 \<le> lo \<Longrightarrow> rbind (nxt lo) (\<lambda>n. loop n s) = Inr (iter_seq yield (filter (\<lambda>i. i \<in> S) [lo..hi - 1]) s)"
proof (induction "nat (hi - lo)" arbitrary: lo s rule: less_induct)
  case less
  obtain r where r: "nxt lo = Inr r" "first_in S lo hi r" using nxt_law [OF less.prems] by blast
  show ?case
  proof (cases "r = - 1")
    case True
    then show ?thesis using r filter_first [OF less.prems r(2)] loop_law [of r s] by simp
  next
    case False
    then have "lo \<le> r" "r < hi" using r(2) by (auto simp: first_in_def)
    then have "rbind (nxt (r + 1)) (\<lambda>n. loop n s') =
        Inr (iter_seq yield (filter (\<lambda>i. i \<in> S) [r + 1..hi - 1]) s')" for s'
      using less.hyps [of "r + 1"] less.prems by simp
    then show ?thesis
      using False r filter_first [OF less.prems r(2)] loop_law [of r s] \<open>lo \<le> r\<close> less.prems
      by (simp split: prod.splits)
  qed
qed

end

interpretation set_scan: index_scan "bits_of b" "min (int (length b) * 64) sz" "\<lambda>lo. NextSet b lo sz"
    yield "all_set_loop b sz yield" for b sz yield
  by unfold_locales (rule NextSet_first, assumption, rule all_set_loop.simps)

interpretation clear_scan: index_scan "- bits_of b" "min (int (length b) * 64) sz"
    "\<lambda>lo. NextClear b lo sz" yield "all_clear_loop b sz yield" for b sz yield
  by unfold_locales (rule NextClear_first, assumption, rule all_clear_loop.simps)

section \<open>Model of contiguous.go\<close>

text \<open>
  Channels are numbered in the order they are made; \<open>made\<close> is their number and \<open>closed\<close> the list of
  those that have been closed. Closing a channel twice panics.
\<close>

record Contiguous =
  bits :: bitmap_T
  c_last :: int
  c_start :: int
  firstClear :: int
  ch :: "nat option"
  made :: nat
  closed :: "nat list"

definition close_chan :: "nat \<Rightarrow> Contiguous \<Rightarrow> Contiguous res" where
  "close_chan k c = (if k \<in> set (closed c) then Inl CloseOfClosedChannel else Inr (c\<lparr>closed := k # closed c\<rparr>))"

function extend_loop :: "Contiguous \<Rightarrow> int \<Rightarrow> Contiguous res" where
  "extend_loop c nb =
     (if nb \<le> c_last c
      then rbind (IsSetUnsafe (bits c) nb) (\<lambda>isset.
           if isset then extend_loop (c\<lparr>firstClear := firstClear c + 1\<rparr>) (nb + 1) else Inr c)
      else Inr c)"
  by pat_completeness auto
termination
  by (relation "measure (\<lambda>(c, nb). nat (c_last c + 1 - nb))") auto

definition extend :: "Contiguous \<Rightarrow> int \<Rightarrow> Contiguous res" where
  "extend c start = extend_loop c start"

definition newContiguous :: "bitmap_T \<Rightarrow> int \<Rightarrow> int \<Rightarrow> Contiguous option res" where
  "newContiguous bm start sz =
     (if sz \<le> 0 \<or> start < 0 \<or> start > sz then Inr None
      else rbind (extend \<lparr>bits = bm, c_last = min (int (length bm) * 64) sz - 1, c_start = start,
               firstClear = start, ch = None, made = 0, closed = []\<rparr> start) (\<lambda>c. Inr (Some c)))"

definition NewContiguous :: "int \<Rightarrow> int \<Rightarrow> Contiguous option res" where
  "NewContiguous start sz = newContiguous (New sz) start sz"

definition NewContiguousWithBitmap :: "bitmap_T \<Rightarrow> int \<Rightarrow> int \<Rightarrow> Contiguous option res" where
  "NewContiguousWithBitmap bm start sz =
     (if sz > int (length bm) * 64 then Inr None else newContiguous bm start sz)"

definition Notify :: "Contiguous \<Rightarrow> (nat \<times> Contiguous) res" where
  "Notify c =
     (case ch c of
        Some k \<Rightarrow> Inr (k, c)
      | None \<Rightarrow>
          let k = made c; c = c\<lparr>ch := Some k, made := Suc k\<rparr>
          in rbind (if firstClear c > c_last c then close_chan k c else Inr c) (\<lambda>c. Inr (k, c)))"

definition c_Set :: "Contiguous \<Rightarrow> int \<Rightarrow> Contiguous res" where
  "c_Set c i =
     (if i < 0 \<or> i > c_last c then Inr c
      else rbind (SetUnsafe (bits c) i) (\<lambda>b.
           let c = c\<lparr>bits := b\<rparr>
           in if i \<noteq> firstClear c then Inr c
              else rbind (extend c (firstClear c)) (\<lambda>c.
                   case ch c of
                     None \<Rightarrow> Inr c
                   | Some k \<Rightarrow>
                       if firstClear c \<le> c_start c then Inr c
                       else rbind (close_chan k c) (\<lambda>c. Inr (c\<lparr>ch := None\<rparr>)))))"

definition Tail :: "Contiguous \<Rightarrow> int" where
  "Tail c = (if firstClear c \<le> c_start c then - 1 else firstClear c - 1)"

declare extend_loop.simps [simp del]

section \<open>The contiguous run\<close>

definition contig_inv :: "Contiguous \<Rightarrow> bool" where
  "contig_inv c \<longleftrightarrow>
     0 \<le> c_start c \<and> c_start c \<le> firstClear c \<and> firstClear c \<le> c_last c + 1 \<and>
     c_last c < int (length (bits c)) * 64 \<and>
     {c_start c..<firstClear c} \<subseteq> bits_of (bits c) \<and>
     (firstClear c \<le> c_last c \<longrightarrow> firstClear c \<notin> bits_of (bits c)) \<and>
     set (closed c) \<subseteq> {..<made c} \<and> {..<made c} - set_option (ch c) \<subseteq> set (closed c) \<and>
     pred_option (\<lambda>k. k < made c \<and> (k \<in> set (closed c) \<longleftrightarrow> c_last c < firstClear c)) (ch c)"

lemma extend_loop_run:
  assumes "0 \<le> firstClear c" "firstClear c \<le> c_last c + 1" "c_last c < int (length (bits c)) * 64"
  shows "\<exists>fc. extend_loop c (firstClear c) = Inr (c\<lparr>firstClear := fc\<rparr>) \<and> firstClear c \<le> fc \<and>
    fc \<le> c_last c + 1 \<and> {firstClear c..<fc} \<subseteq> bits_of (bits c) \<and>
    (fc \<le> c_last c \<longrightarrow> fc \<notin> bits_of (bits c)) \<and> (firstClear c \<in> bits_of (bits c) \<and> firstClear c \<le> c_last c \<longrightarrow> firstClear c < fc)"
  using assms
proof (induction "nat (c_last c + 1 - firstClear c)" arbitrary: c rule: less_induct)
  case less
  show ?case
  proof (cases "firstClear c \<le> c_last c \<and> firstClear c \<in> bits_of (bits c)")
    case False
    then show ?thesis
      using less.prems IsSetUnsafe_bits [of "firstClear c" "bits c"]
      by (intro exI [of _ "firstClear c"]) (auto simp: extend_loop.simps [of c])
  next
    case True
    let ?c = "c\<lparr>firstClear := firstClear c + 1\<rparr>"
    have "{firstClear c..<fc} \<subseteq> bits_of (bits c)" if "{firstClear c + 1..<fc} \<subseteq> bits_of (bits c)" for fc
      using that True by (cases "fc \<le> firstClear c") (auto simp: subset_iff, metis add1_zle_eq order_le_less)
    moreover obtain fc where "extend_loop ?c (firstClear c + 1) = Inr (c\<lparr>firstClear := fc\<rparr>)"
        "firstClear c + 1 \<le> fc" "fc \<le> c_last c + 1" "{firstClear c + 1..<fc} \<subseteq> bits_of (bits c)"
        "fc \<le> c_last c \<longrightarrow> fc \<notin> bits_of (bits c)"
      using less.hyps [of ?c] less.prems True by auto
    ultimately show ?thesis
      using less.prems True IsSetUnsafe_bits [of "firstClear c" "bits c"]
      by (intro exI [of _ fc]) (simp add: extend_loop.simps [of c])
  qed
qed

text \<open>
  \<open>contig_step c c' I\<close>: going from \<open>c\<close> to \<open>c'\<close> sets the bits \<open>I\<close>, keeps the invariant and closes the
  channels handed out so far exactly when the run was extended.
\<close>

definition contig_step :: "Contiguous \<Rightarrow> Contiguous \<Rightarrow> int set \<Rightarrow> bool" where
  "contig_step c c' I \<longleftrightarrow>
     contig_inv c' \<and> c_last c' = c_last c \<and> c_start c' = c_start c \<and> length (bits c') = length (bits c) \<and>
     bits_of (bits c') = bits_of (bits c) \<union> I \<and> firstClear c \<le> firstClear c' \<and> made c \<le> made c' \<and>
     (\<forall>k<made c. k \<in> set (closed c') \<longleftrightarrow> k \<in> set (closed c) \<or> firstClear c < firstClear c')"

lemma c_Set_step:
  assumes inv: "contig_inv c"
  shows "\<exists>c'. c_Set c i = Inr c' \<and> contig_step c c' (if 0 \<le> i \<and> i \<le> c_last c then {i} else {})"
proof (cases "0 \<le> i \<and> i \<le> c_last c")
  case False
  then show ?thesis using inv by (auto simp: c_Set_def contig_step_def)
next
  case True
  have len: "i < int (length (bits c)) * 64" using True inv by (auto simp: contig_inv_def)
  obtain b where b: "SetUnsafe (bits c) i = Inr b" "length b = length (bits c)"
      "bits_of b = insert i (bits_of (bits c))"
    using SetUnsafe_bits [of i "bits c"] True len by blast
  show ?thesis
  proof (cases "i = firstClear c")
    case False
    then have "contig_inv (c\<lparr>bits := b\<rparr>)"
      using inv b by (simp add: contig_inv_def subset_insertI2)
    then show ?thesis using False True b by (auto simp: c_Set_def contig_step_def)
  next
    case i: True
    let ?c = "c\<lparr>bits := b\<rparr>"
    obtain fc where fc: "extend ?c (firstClear c) = Inr (?c\<lparr>firstClear := fc\<rparr>)" "firstClear c < fc"
        "fc \<le> c_last c + 1" "{firstClear c..<fc} \<subseteq> bits_of b" "fc \<le> c_last c \<longrightarrow> fc \<notin> bits_of b"
      using extend_loop_run [of ?c] inv b i True by (auto simp: contig_inv_def extend_def)
    have run: "{c_start c..<fc} \<subseteq> bits_of b"
    proof -
      have "{c_start c..<firstClear c} \<subseteq> bits_of b" using inv b(3) by (auto simp: contig_inv_def)
      moreover have "{c_start c..<fc} \<subseteq> {c_start c..<firstClear c} \<union> {firstClear c..<fc}" by auto
      ultimately show ?thesis using fc(4) by blast
    qed
    have start: "c_start c < fc" using fc(2) inv by (auto simp: contig_inv_def)
    have open_ch: "k \<notin> set (closed c)" if "ch c = Some k" for k
      using that inv i True by (auto simp: contig_inv_def)
    let ?c' = "case ch c of None \<Rightarrow> ?c\<lparr>firstClear := fc\<rparr>
      | Some k \<Rightarrow> ?c\<lparr>firstClear := fc, closed := k # closed c, ch := None\<rparr>"
    have "c_Set c i = Inr ?c'"
      using True i b fc(1) start open_ch by (auto simp: c_Set_def close_chan_def split: option.splits)
    moreover have "contig_inv ?c'"
      using inv fc run start b(2) by (auto simp: contig_inv_def split: option.splits)
    ultimately show ?thesis
      using True fc(2) b inv by (auto simp: contig_step_def contig_inv_def split: option.splits)
  qed
qed

lemma Notify_step:
  assumes inv: "contig_inv c"
  shows "\<exists>k c'. Notify c = Inr (k, c') \<and> contig_step c c' {} \<and> k < made c' \<and>
    (k \<in> set (closed c') \<longleftrightarrow> c_last c' < firstClear c')"
proof (cases "ch c")
  case (Some k)
  then show ?thesis using inv by (auto simp: Notify_def contig_step_def contig_inv_def)
next
  case None
  have "made c \<notin> set (closed c)" using inv by (auto simp: contig_inv_def)
  then show ?thesis
    using None inv
    by (auto simp: Notify_def Let_def close_chan_def contig_step_def contig_inv_def less_Suc_eq)
qed

lemma newContiguous_inv:
  assumes "0 < sz" "0 \<le> start" "start \<le> sz" "sz \<le> int (length bm) * 64"
  shows "\<exists>c. newContiguous bm start sz = Inr (Some c) \<and> contig_inv c \<and> bits c = bm \<and>
    c_start c = start \<and> c_last c = sz - 1"
proof -
  let ?c = "\<lparr>bits = bm, c_last = sz - 1, c_start = start, firstClear = start, ch = None, made = 0, closed = []\<rparr>"
  obtain fc where "extend_loop ?c start = Inr (?c\<lparr>firstClear := fc\<rparr>)" "start \<le> fc" "fc \<le> sz"
      "{start..<fc} \<subseteq> bits_of bm" "fc \<le> sz - 1 \<longrightarrow> fc \<notin> bits_of bm"
    using extend_loop_run [of ?c] assms by auto
  then show ?thesis using assms by (auto simp: newContiguous_def extend_def contig_inv_def min_def)
qed

datatype contig_op = CSet int | CNotify

fun run_contig :: "Contiguous \<Rightarrow> contig_op list \<Rightarrow> Contiguous res" where
  "run_contig c [] = Inr c"
| "run_contig c (CSet i # ops) = rbind (c_Set c i) (\<lambda>c. run_contig c ops)"
| "run_contig c (CNotify # ops) = rbind (Notify c) (\<lambda>(_, c). run_contig c ops)"

definition set_by :: "int \<Rightarrow> contig_op list \<Rightarrow> int set" where
  "set_by n ops = {i. CSet i \<in> set ops \<and> 0 \<le> i \<and> i < n}"

lemma contig_step_trans:
  "contig_step a b I \<Longrightarrow> contig_step b c J \<Longrightarrow> contig_step a c (I \<union> J)"
  by (auto simp: contig_step_def)

lemma run_contig_step:
  "contig_inv c \<Longrightarrow> \<exists>c'. run_contig c ops = Inr c' \<and> contig_step c c' (set_by (c_last c + 1) ops)"
proof (induction ops arbitrary: c)
  case Nil
  then show ?case by (auto simp: contig_step_def set_by_def)
next
  case (Cons a ops)
  show ?case
  proof (cases a)
    case (CSet i)
    obtain c1 where c1: "c_Set c i = Inr c1" "contig_step c c1 (if 0 \<le> i \<and> i \<le> c_last c then {i} else {})"
      using c_Set_step [OF Cons.prems] by blast
    then obtain c2 where c2: "run_contig c1 ops = Inr c2" "contig_step c1 c2 (set_by (c_last c + 1) ops)"
      using Cons.IH [of c1] by (auto simp: contig_step_def)
    have "(if 0 \<le> i \<and> i \<le> c_last c then {i} else {}) \<union> set_by (c_last c + 1) ops =
        set_by (c_last c + 1) (a # ops)"
      using CSet by (auto simp: set_by_def)
    then show ?thesis using CSet c1(1) c2(1) contig_step_trans [OF c1(2) c2(2)] by simp
  next
    case CNotify
    obtain k c1 where c1: "Notify c = Inr (k, c1)" "contig_step c c1 {}"
      using Notify_step [OF Cons.prems] by blast
    then obtain c2 where c2: "run_contig c1 ops = Inr c2" "contig_step c1 c2 (set_by (c_last c + 1) ops)"
      using Cons.IH [of c1] by (auto simp: contig_step_def)
    have "{} \<union> set_by (c_last c + 1) ops = set_by (c_last c + 1) (a # ops)"
      using CNotify by (auto simp: set_by_def)
    then show ?thesis using CNotify c1(1) c2(1) contig_step_trans [OF c1(2) c2(2)] by simp
  qed
qed

section \<open>Properties\<close>

text \<open>
  the bitmap is a set of indices below 64 times its length. \<^verbatim>\<open>New(size)\<close> is the empty set with
  room for at least \<^verbatim>\<open>size\<close> and at most \<^verbatim>\<open>size+63\<close> bits, \<^verbatim>\<open>Set\<close> inserts (and ignores an index out of
  bounds), \<^verbatim>\<open>Clear\<close> removes and \<^verbatim>\<open>IsSet\<close> decides membership, for every index and without a panic.
\<close>

theorem bitmap_is_a_set:
  "bits_of (New sz) = {} \<and> sz \<le> int (length (New sz)) * 64 \<and>
   (\<exists>b1 b2. bm_Set b i = Inr b1 \<and> length b1 = length b \<and>
      bits_of b1 = (if 0 \<le> i \<and> i < int (length b) * 64 then insert i (bits_of b) else bits_of b) \<and>
      bm_Clear b i = Inr b2 \<and> length b2 = length b \<and> bits_of b2 = bits_of b - {i} \<and>
      bm_IsSet b j = Inr (j \<in> bits_of b) \<and>
      bm_IsSet b1 j = Inr (j \<in> bits_of b \<or> (j = i \<and> 0 \<le> i \<and> i < int (length b) * 64)) \<and>
      bm_IsSet b2 j = Inr (j \<in> bits_of b \<and> j \<noteq> i))"
proof -
  obtain b1 where "bm_Set b i = Inr b1" "length b1 = length b"
      "bits_of b1 = (if 0 \<le> i \<and> i < int (length b) * 64 then insert i (bits_of b) else bits_of b)"
    using Set_bits by blast
  moreover obtain b2 where "bm_Clear b i = Inr b2" "length b2 = length b" "bits_of b2 = bits_of b - {i}"
    using Clear_bits by blast
  ultimately show ?thesis using New_bits(1,2) by (simp add: IsSet_bits) blast
qed

text \<open>
  C8: the searches that skip whole words agree with a bit by bit scan. \<^verbatim>\<open>NextSet\<close> (\<^verbatim>\<open>NextClear\<close>)
  returns the first set (clear) index from \<^verbatim>\<open>start\<close> below the size and the capacity, or -1, and the
  iterators \<^verbatim>\<open>AllSet\<close> and \<^verbatim>\<open>AllClear\<close> pass exactly those indices to \<^verbatim>\<open>yield\<close>, in ascending order,
  until it returns false.
\<close>

theorem bitmap_searches:
  assumes "0 \<le> start"
  shows "(\<exists>r. NextSet b start sz = Inr r \<and> first_in (bits_of b) start (min (int (length b) * 64) sz) r) \<and>
    (\<exists>r. NextClear b start sz = Inr r \<and> first_in (- bits_of b) start (min (int (length b) * 64) sz) r) \<and>
    AllSet b start sz yield s =
      Inr (iter_seq yield (filter (\<lambda>i. i \<in> bits_of b) [start..min (int (length b) * 64) sz - 1]) s) \<and>
    AllClear b start sz yield s =
      Inr (iter_seq yield (filter (\<lambda>i. i \<in> - bits_of b) [start..min (int (length b) * 64) sz - 1]) s)"
  unfolding AllSet_def AllClear_def
  by (intro conjI NextSet_first NextClear_first set_scan.loop_seq clear_scan.loop_seq assms)

theorem bitmap_searches_witness:
  "(0::int) \<le> 0 \<and> NextSet [0, 9] 0 68 = Inr 64 \<and> first_in (bits_of [0, 9]) 0 68 64 \<and>
   AllSet [0, 9] 0 68 (\<lambda>s i. (s @ [i], True)) [] = Inr [64, 67]"
proof -
  have start: "(0::int) \<le> 0" by simp
  have n: "NextSet [0, 9] 0 68 = Inr 64" by code_simp
  have "first_in (bits_of [0, 9]) 0 68 64"
    using bitmap_searches [OF start, of "[0, 9]" 68 "\<lambda>s i. (s, True)" "()"] n by simp
  moreover have "AllSet [0, 9] 0 68 (\<lambda>s i. (s @ [i], True)) [] = Inr [64, 67]" by code_simp
  ultimately show ?thesis using n by simp
qed

text \<open>
  C9: for every sequence of \<^verbatim>\<open>Set\<close> and \<^verbatim>\<open>Notify\<close> calls on a new \<^verbatim>\<open>Contiguous\<close>, no call panics (in
  particular no channel is closed twice), the bitmap holds exactly the indices that were set, the
  tracked run from \<^verbatim>\<open>start\<close> up to \<^verbatim>\<open>firstClear\<close> is the longest run of set bits there, which is what
  \<^verbatim>\<open>Tail\<close> reports, and a channel handed out earlier is closed after a \<^verbatim>\<open>Set\<close> exactly when the run
  was extended since.
\<close>

theorem contiguous_tracks_run:
  assumes "0 < sz" "0 \<le> start" "start \<le> sz"
  shows "\<exists>c0 c c' fc. NewContiguous start sz = Inr (Some c0) \<and> run_contig c0 ops = Inr c \<and>
    bits_of (bits c) = set_by sz ops \<and> fc = firstClear c \<and>
    start \<le> fc \<and> fc \<le> sz \<and> {start..<fc} \<subseteq> set_by sz ops \<and> (fc < sz \<longrightarrow> fc \<notin> set_by sz ops) \<and>
    Tail c = (if fc = start then - 1 else fc - 1) \<and>
    c_Set c i = Inr c' \<and> firstClear c \<le> firstClear c' \<and>
    (\<forall>k<made c. k \<in> set (closed c') \<longleftrightarrow> k \<in> set (closed c) \<or> firstClear c < firstClear c')"
proof -
  obtain c0 where c0: "NewContiguous start sz = Inr (Some c0)" "contig_inv c0" "bits c0 = New sz"
      "c_start c0 = start" "c_last c0 = sz - 1"
    using newContiguous_inv [OF assms New_bits(2)] by (auto simp: NewContiguous_def)
  then obtain c where c: "run_contig c0 ops = Inr c" "contig_step c0 c (set_by sz ops)"
    using run_contig_step [OF c0(2), of ops] by auto
  then have inv: "contig_inv c" by (simp add: contig_step_def)
  have bits: "bits_of (bits c) = set_by sz ops" using c(2) c0(3) New_bits(1) by (simp add: contig_step_def)
  obtain c' where c': "c_Set c i = Inr c'" "firstClear c \<le> firstClear c'"
      "\<forall>k<made c. k \<in> set (closed c') \<longleftrightarrow> k \<in> set (closed c) \<or> firstClear c < firstClear c'"
    using c_Set_step [OF inv, of i] unfolding contig_step_def by blast
  have "c_start c = start" "c_last c = sz - 1" using c(2) c0 by (auto simp: contig_step_def)
  with inv bits have "start \<le> firstClear c" "firstClear c \<le> sz" "{start..<firstClear c} \<subseteq> set_by sz ops"
      "firstClear c < sz \<longrightarrow> firstClear c \<notin> set_by sz ops"
      "Tail c = (if firstClear c = start then - 1 else firstClear c - 1)"
    by (simp_all add: contig_inv_def Tail_def)
  then show ?thesis
    using c0(1) c(1) bits c' by (intro exI [of _ c0] exI [of _ c] exI [of _ c'] exI [of _ "firstClear c"]) simp
qed

theorem contiguous_tracks_run_witness:
  "\<exists>c0 c c'. NewContiguous 0 70 = Inr (Some c0) \<and> run_contig c0 [CSet 1, CNotify, CSet 0] = Inr c \<and>
    bits_of (bits c) = set_by 70 [CSet 1, CNotify, CSet 0] \<and> Tail c = 1 \<and>
    c_Set c 2 = Inr c' \<and> firstClear c \<le> firstClear c'"
proof -
  have h: "(0::int) < 70" "(0::int) \<le> 0" "(0::int) \<le> 70" by simp_all
  have "rbind (NewContiguous 0 70) (\<lambda>c. run_contig (the c) [CSet 1, CNotify, CSet 0]) =
      Inr \<lparr>bits = [3, 0], c_last = 69, c_start = 0, firstClear = 2, ch = None, made = 1, closed = [0]\<rparr>"
    by code_simp
  then show ?thesis
    using contiguous_tracks_run [OF h, of "[CSet 1, CNotify, CSet 0]" 2] by (force simp: Tail_def)
qed

end
