(* ===== verification/Byte_Ranges.thy ===== *)
theory Byte_Ranges
  imports Bitmap
begin

text \<open>
  The byte ranges of \<^verbatim>\<open>file/largefile\<close>: the division of a file into blocks
  (\<^verbatim>\<open>large_file.go\<close>: \<^verbatim>\<open>ByteRange\<close>, \<^verbatim>\<open>NumBlocks\<close>, \<^verbatim>\<open>Ranges\<close>, \<^verbatim>\<open>RangeForIndex\<close>) and the trackers of the blocks
  that have been processed (\<^verbatim>\<open>byte_ranges.go\<close>), clients of the bitmap and of its contiguous run.
  Sizes and positions are \<open>int\<close>: a content size that fits an \<^verbatim>\<open>int64\<close> keeps every product and sum
  below within 63 bits. The read-write lock of \<^verbatim>\<open>ByteRanges\<close> serialises its operations, which are
  therefore functions on the state.
\<close>

section \<open>Blocks of a file\<close>

record ByteRange =
  From :: int
  To :: int

definition range_Size :: "ByteRange \<Rightarrow> int" where
  "range_Size r = (if From r < 0 \<or> To r < From r then 0 else To r - From r + 1)"

definition NumBlocks :: "int \<Rightarrow> int \<Rightarrow> int res" where
  "NumBlocks contentSize blockSize =
     (if blockSize = 0 then Inl DivideByZero
      else let nb = quot contentSize blockSize
           in Inr (if remn contentSize blockSize \<noteq> 0 then nb + 1 else nb))"

function ranges_loop ::
  "int \<Rightarrow> int \<Rightarrow> int \<Rightarrow> int \<Rightarrow> ('s \<Rightarrow> ByteRange \<Rightarrow> 's \<times> bool) \<Rightarrow> int \<Rightarrow> 's \<Rightarrow> 's" where
  "ranges_loop from to blockSize nb yield i s =
     (if i < nb
      then let start = from + i * blockSize;
               fin = min (start + blockSize) (to + 1) - 1
           in case yield s \<lparr>From = start, To = fin\<rparr> of (s', cont) \<Rightarrow>
              if cont then ranges_loop from to blockSize nb yield (i + 1) s' else s'
      else s)"
  by pat_completeness auto
termination
  by (relation "measure (\<lambda>(from, to, blockSize, nb, yield, i, s). nat (nb - i))") auto

definition Ranges :: "int \<Rightarrow> int \<Rightarrow> int \<Rightarrow> ('s \<Rightarrow> ByteRange \<Rightarrow> 's \<times> bool) \<Rightarrow> 's \<Rightarrow> 's res" where
  "Ranges from to blockSize yield s =
     (let sz = to - from + 1
      in if blockSize \<le> 0 then Inr s
         else rbind (NumBlocks sz blockSize) (\<lambda>nb. Inr (ranges_loop from to blockSize nb yield 0 s)))"

definition RangeForIndex :: "int \<Rightarrow> int \<Rightarrow> int \<Rightarrow> ByteRange" where
  "RangeForIndex index contentSize blockSize =
     (if index < 0 \<or> contentSize \<le> 0 \<or> blockSize \<le> 0 then \<lparr>From = - 1, To = - 1\<rparr>
      else let from = index * blockSize
           in \<lparr>From = from, To = min (from + blockSize) contentSize - 1\<rparr>)"

declare ranges_loop.simps [simp del]

section \<open>The trackers\<close>

record byteRanges =
  contentSize :: int
  bitmapSize :: int
  blockSize :: int
  bitmap :: bitmap_T

definition newByteRanges :: "int \<Rightarrow> int \<Rightarrow> byteRanges res" where
  "newByteRanges cs bs =
     rbind (NumBlocks cs bs) (\<lambda>nb.
     Inr \<lparr>contentSize = cs, bitmapSize = nb, blockSize = bs, bitmap = New nb\<rparr>)"

definition br_NextClear :: "byteRanges \<Rightarrow> int \<Rightarrow> (int \<times> ByteRange option) res" where
  "br_NextClear br start =
     rbind (NextClear (bitmap br) start (bitmapSize br)) (\<lambda>i.
     if i < 0 then Inr (- 1, None)
     else Inr (i + 1, Some (RangeForIndex i (contentSize br) (blockSize br))))"

definition br_NextSet :: "byteRanges \<Rightarrow> int \<Rightarrow> (int \<times> ByteRange option) res" where
  "br_NextSet br start =
     rbind (NextSet (bitmap br) start (bitmapSize br)) (\<lambda>i.
     if i < 0 then Inr (- 1, None)
     else Inr (i + 1, Some (RangeForIndex i (contentSize br) (blockSize br))))"

definition Block :: "byteRanges \<Rightarrow> int \<Rightarrow> int res" where
  "Block br pos =
     (if pos < 0 \<or> pos \<ge> contentSize br then Inr (- 1)
      else if blockSize br = 0 then Inl DivideByZero
      else let blockIndex = quot pos (blockSize br)
           in if blockIndex < 0 \<or> blockIndex \<ge> bitmapSize br then Inr (- 1) else Inr blockIndex)"

definition br_Set :: "byteRanges \<Rightarrow> int \<Rightarrow> byteRanges res" where
  "br_Set br pos =
     rbind (Block br pos) (\<lambda>i.
     if i \<ge> 0 then rbind (SetUnsafe (bitmap br) i) (\<lambda>b. Inr (br\<lparr>bitmap := b\<rparr>)) else Inr br)"

definition br_clear :: "byteRanges \<Rightarrow> int \<Rightarrow> byteRanges res" where
  "br_clear br pos =
     rbind (Block br pos) (\<lambda>i.
     if i \<ge> 0 then rbind (bm_Clear (bitmap br) i) (\<lambda>b. Inr (br\<lparr>bitmap := b\<rparr>)) else Inr br)"

definition br_IsSet :: "byteRanges \<Rightarrow> int \<Rightarrow> bool res" where
  "br_IsSet br pos = rbind (Block br pos) (\<lambda>i. if i \<ge> 0 then IsSetUnsafe (bitmap br) i else Inr False)"

definition br_IsClear :: "byteRanges \<Rightarrow> int \<Rightarrow> bool res" where
  "br_IsClear br pos =
     rbind (Block br pos) (\<lambda>i.
     if i \<ge> 0 then rbind (bm_IsSet (bitmap br) i) (\<lambda>b. Inr (\<not> b)) else Inr False)"

text \<open>
  \<^verbatim>\<open>ByteRanges\<close> embeds \<^verbatim>\<open>byteRanges\<close> and a pointer to a \<^verbatim>\<open>Contiguous\<close> over the same bitmap slice. A \<^verbatim>\<open>Set\<close>
  through the pointer changes the words both of them see: \<open>sync_bitmap\<close> is that aliasing.
\<close>

record ByteRanges = byteRanges +
  contiguous :: "Contiguous option"

definition sync_bitmap :: "ByteRanges \<Rightarrow> Contiguous \<Rightarrow> ByteRanges" where
  "sync_bitmap br c = br\<lparr>bitmap := bits c, contiguous := Some c\<rparr>"

definition NewByteRanges :: "int \<Rightarrow> int \<Rightarrow> ByteRanges res" where
  "NewByteRanges cs bs =
     rbind (newByteRanges cs bs) (\<lambda>br.
     rbind (NewContiguousWithBitmap (bitmap br) 0 (bitmapSize br)) (\<lambda>c.
     Inr (byteRanges.extend br \<lparr>contiguous = c\<rparr>)))"

definition brs_NextClear :: "ByteRanges \<Rightarrow> int \<Rightarrow> (int \<times> ByteRange option) res" where
  "brs_NextClear br start = br_NextClear (byteRanges.truncate br) start"

definition brs_NextSet :: "ByteRanges \<Rightarrow> int \<Rightarrow> (int \<times> ByteRange option) res" where
  "brs_NextSet br start = br_NextSet (byteRanges.truncate br) start"

definition brs_AllClear :: "ByteRanges \<Rightarrow> int \<Rightarrow> ('s \<Rightarrow> ByteRange \<Rightarrow> 's \<times> bool) \<Rightarrow> 's \<Rightarrow> 's res" where
  "brs_AllClear br start yield s =
     AllClear (bitmap br) start (bitmapSize br)
       (\<lambda>s i. yield s (RangeForIndex i (contentSize br) (blockSize br))) s"

definition brs_AllSet :: "ByteRanges \<Rightarrow> int \<Rightarrow> ('s \<Rightarrow> ByteRange \<Rightarrow> 's \<times> bool) \<Rightarrow> 's \<Rightarrow> 's res" where
  "brs_AllSet br start yield s =
     AllSet (bitmap br) start (bitmapSize br)
       (\<lambda>s i. yield s (RangeForIndex i (contentSize br) (blockSize br))) s"

definition brs_Set :: "ByteRanges \<Rightarrow> int \<Rightarrow> ByteRanges res" where
  "brs_Set br pos =
     rbind (Block (byteRanges.truncate br) pos) (\<lambda>i.
     if i \<ge> 0
     then case contiguous br of
            None \<Rightarrow> Inl NilDereference
          | Some c \<Rightarrow> rbind (c_Set c i) (\<lambda>c'. Inr (sync_bitmap br c'))
     else Inr br)"

definition brs_IsSet :: "ByteRanges \<Rightarrow> int \<Rightarrow> bool res" where
  "brs_IsSet br pos = br_IsSet (byteRanges.truncate br) pos"

definition brs_IsClear :: "ByteRanges \<Rightarrow> int \<Rightarrow> bool res" where
  "brs_IsClear br pos = br_IsClear (byteRanges.truncate br) pos"

definition brs_Notify :: "ByteRanges \<Rightarrow> (nat \<times> ByteRanges) res" where
  "brs_Notify br =
     (case contiguous br of
        None \<Rightarrow> Inl NilDereference
      | Some c \<Rightarrow> rbind (Notify c) (\<lambda>(k, c'). Inr (k, sync_bitmap br c')))"

definition brs_Tail :: "ByteRanges \<Rightarrow> (ByteRange \<times> bool) res" where
  "brs_Tail br =
     (case contiguous br of
        None \<Rightarrow> Inl NilDereference
      | Some c \<Rightarrow>
          let blk = Tail c
          in if blk < 0 then Inr (\<lparr>From = 0, To = 0\<rparr>, False)
             else Inr (\<lparr>From = 0, To = min ((blk + 1) * blockSize br) (contentSize br) - 1\<rparr>, True))"

definition NewByteRangesTracker :: "int \<Rightarrow> int \<Rightarrow> byteRanges res" where
  "NewByteRangesTracker cs bs = newByteRanges cs bs"

definition tracker_Clear :: "byteRanges \<Rightarrow> int \<Rightarrow> byteRanges res" where
  "tracker_Clear br pos = br_clear br pos"

section \<open>The division into blocks\<close>

lemma NumBlocks_pos:
  assumes "0 < bs" "0 \<le> cs"
  shows "\<exists>nb. NumBlocks cs bs = Inr nb \<and> 0 \<le> nb \<and> cs \<le> nb * bs \<and> nb * bs < cs + bs"
proof -
  have "cs = bs * (cs div bs) + cs mod bs" by simp
  moreover have "0 \<le> cs mod bs" "cs mod bs < bs" "0 \<le> cs div bs"
    using assms by (auto simp: pos_imp_zdiv_nonneg_iff)
  ultimately have "cs \<le> bs + bs * (cs div bs)" "bs * (cs div bs) \<le> cs" "cs < bs * (cs div bs) + bs"
      "cs mod bs = 0 \<Longrightarrow> cs = bs * (cs div bs)" "cs mod bs \<noteq> 0 \<Longrightarrow> bs * (cs div bs) < cs"
    by linarith+
  then show ?thesis using assms \<open>0 \<le> cs div bs\<close>
    by (cases "cs mod bs = 0") (auto simp: NumBlocks_def Let_def algebra_simps)
qed

lemma block_in_file:
  assumes "0 < bs" "cs \<le> nb * bs" "nb * bs < cs + bs"
  shows "i * bs < cs \<longleftrightarrow> i < (nb::int)"
proof
  assume "i * bs < cs"
  then have "i * bs < nb * bs" using assms(2) by linarith
  then show "i < nb" using assms(1) by (simp add: mult_less_cancel_right)
next
  assume "i < nb"
  then have "(i + 1) * bs \<le> nb * bs" using assms(1) by (intro mult_right_mono) auto
  then show "i * bs < cs" using assms(3) by (simp add: algebra_simps)
qed

definition block_range :: "int \<Rightarrow> int \<Rightarrow> int \<Rightarrow> int \<Rightarrow> ByteRange" where
  "block_range from to bs i = \<lparr>From = from + i * bs, To = min (from + i * bs + bs) (to + 1) - 1\<rparr>"

lemma ranges_loop_seq:
  "ranges_loop from to bs nb yield i s = iter_seq yield (map (block_range from to bs) [i..nb - 1]) s"
proof (induction "nat (nb - i)" arbitrary: i s rule: less_induct)
  case less
  show ?case
  proof (cases "i < nb")
    case True
    then have "[i..nb - 1] = i # [i + 1..nb - 1]" by (simp add: upto_rec1)
    then show ?thesis
      using True less [of "i + 1"]
      by (auto simp: ranges_loop.simps [of _ _ _ nb yield i] block_range_def Let_def split: prod.splits)
  qed (simp add: ranges_loop.simps [of _ _ _ nb yield i])
qed

lemma upto_join: "a \<le> b \<Longrightarrow> b \<le> c + 1 \<Longrightarrow> [a..b - 1] @ [b..c] = [a..(c::int)]"
  using upto_split1 [of a b c] by (cases "b = c + 1") auto

lemma block_ranges_cover:
  assumes "0 < bs" "to - from + 1 \<le> nb * bs" "nb * bs < to - from + 1 + bs" "0 \<le> i" "i \<le> nb"
  shows "concat (map (\<lambda>r. [From r..To r]) (map (block_range from to bs) [i..nb - 1])) =
    [from + i * bs..to]"
  using assms(4,5)
proof (induction "nat (nb - i)" arbitrary: i rule: less_induct)
  case less
  show ?case
  proof (cases "i < nb")
    case True
    have start: "from + i * bs \<le> to" using True block_in_file [OF assms(1-3), of i] by simp
    have split: "[i..nb - 1] = i # [i + 1..nb - 1]" using True by (simp add: upto_rec1)
    have next_start: "from + (i + 1) * bs = from + i * bs + bs" by (simp add: algebra_simps)
    have IH: "concat (map (\<lambda>r. [From r..To r]) (map (block_range from to bs) [i + 1..nb - 1])) =
        [from + i * bs + bs..to]"
      using less.hyps [of "i + 1"] less.prems True unfolding next_start by simp
    have "[from + i * bs..min (from + i * bs + bs) (to + 1) - 1] @ [from + i * bs + bs..to] =
        [from + i * bs..to]"
      using start assms(1) upto_join [of "from + i * bs" "from + i * bs + bs" to] by (auto simp: min_def)
    then show ?thesis unfolding split using IH by (simp add: block_range_def)
  next
    case False
    then have "i = nb" using less.prems by simp
    then show ?thesis using assms(2) by simp
  qed
qed

section \<open>The trackers as sets of blocks\<close>

definition br_inv :: "'a byteRanges_scheme \<Rightarrow> bool" where
  "br_inv br \<longleftrightarrow> 0 < blockSize br \<and> 0 \<le> contentSize br \<and> 0 \<le> bitmapSize br \<and>
     contentSize br \<le> bitmapSize br * blockSize br \<and>
     bitmapSize br * blockSize br < contentSize br + blockSize br \<and>
     bitmapSize br \<le> int (length (bitmap br)) * 64 \<and> bits_of (bitmap br) \<subseteq> {0..<bitmapSize br}"

lemma div_less_blocks:
  assumes "0 < b" "a < n * b"
  shows "a div b < (n::int)"
proof (rule ccontr)
  assume "\<not> a div b < n"
  then have "n * b \<le> a div b * b" using assms(1) by (intro mult_right_mono) auto
  also have "\<dots> \<le> a" using div_mult_mod_eq [of a b] pos_mod_sign [OF assms(1), of a] by linarith
  finally show False using assms(2) by simp
qed

lemma block_index_bound:
  assumes "br_inv br" "0 \<le> pos" "pos < contentSize br"
  shows "0 \<le> pos div blockSize br" "pos div blockSize br < bitmapSize br"
    "pos div blockSize br < int (length (bitmap br)) * 64"
proof -
  have inv: "0 < blockSize br" "contentSize br \<le> bitmapSize br * blockSize br"
    "bitmapSize br \<le> int (length (bitmap br)) * 64"
    using assms by (auto simp: br_inv_def)
  then show "0 \<le> pos div blockSize br" using assms by (simp add: pos_imp_zdiv_nonneg_iff)
  show "pos div blockSize br < bitmapSize br" using inv assms(3) by (intro div_less_blocks) linarith+
  then show "pos div blockSize br < int (length (bitmap br)) * 64" using inv(3) by simp
qed

lemma Block_eq:
  assumes "br_inv br"
  shows "Block br pos = Inr (if 0 \<le> pos \<and> pos < contentSize br then pos div blockSize br else - 1)"
proof (cases "0 \<le> pos \<and> pos < contentSize br")
  case True
  have "0 < blockSize br" using assms by (simp add: br_inv_def)
  then show ?thesis using True block_index_bound [OF assms, of pos] by (simp add: Block_def Let_def)
qed (auto simp: Block_def)

lemma newByteRanges_inv:
  assumes "0 < bs" "0 \<le> cs"
  shows "\<exists>br. newByteRanges cs bs = Inr br \<and> br_inv br \<and> contentSize br = cs \<and> blockSize br = bs \<and>
    bits_of (bitmap br) = {} \<and> bitmap br = New (bitmapSize br)"
  using NumBlocks_pos [OF assms] assms New_bits by (auto simp: newByteRanges_def br_inv_def)

text \<open>
  What the two trackers promise their clients. \<open>marked\<close> is the set of blocks that have been set.
\<close>

fun set_all :: "('t \<Rightarrow> int \<Rightarrow> 't res) \<Rightarrow> 't \<Rightarrow> int list \<Rightarrow> 't res" where
  "set_all setp t [] = Inr t"
| "set_all setp t (p # ps) = rbind (setp t p) (\<lambda>t'. set_all setp t' ps)"

locale range_tracker =
  fixes inv :: "'t \<Rightarrow> bool"
    and cs bs :: "'t \<Rightarrow> int"
    and marked :: "'t \<Rightarrow> int set"
    and setp :: "'t \<Rightarrow> int \<Rightarrow> 't res"
    and issetp :: "'t \<Rightarrow> int \<Rightarrow> bool res"
  assumes set_law: "inv t \<Longrightarrow> \<exists>t'. setp t p = Inr t' \<and> inv t' \<and> cs t' = cs t \<and> bs t' = bs t \<and>
      marked t' = (if 0 \<le> p \<and> p < cs t then insert (p div bs t) (marked t) else marked t)"
    and isset_law: "inv t \<Longrightarrow> issetp t p = Inr (0 \<le> p \<and> p < cs t \<and> p div bs t \<in> marked t)"
begin

lemma set_all_marked:
  "inv t \<Longrightarrow> \<exists>t'. set_all setp t ps = Inr t' \<and> inv t' \<and> cs t' = cs t \<and> bs t' = bs t \<and>
     marked t' = marked t \<union> (\<lambda>p. p div bs t) ` {p \<in> set ps. 0 \<le> p \<and> p < cs t}"
proof (induction ps arbitrary: t)
  case (Cons p ps)
  obtain t1 where t1: "setp t p = Inr t1" "inv t1" "cs t1 = cs t" "bs t1 = bs t"
      "marked t1 = (if 0 \<le> p \<and> p < cs t then insert (p div bs t) (marked t) else marked t)"
    using set_law [OF Cons.prems] by blast
  then obtain t2 where "set_all setp t1 ps = Inr t2" "inv t2" "cs t2 = cs t" "bs t2 = bs t"
      "marked t2 = marked t1 \<union> (\<lambda>p. p div bs t) ` {p \<in> set ps. 0 \<le> p \<and> p < cs t}"
    using Cons.IH [OF t1(2)] by auto
  then show ?case using t1 by (auto split: if_splits)
qed simp

lemma isset_after:
  assumes "inv t" "marked t = {}"
  shows "\<exists>t'. set_all setp t ps = Inr t' \<and> inv t' \<and>
    issetp t' p = Inr (0 \<le> p \<and> p < cs t \<and> (\<exists>q\<in>set ps. 0 \<le> q \<and> q < cs t \<and> q div bs t = p div bs t))"
proof -
  obtain t' where t': "set_all setp t ps = Inr t'" "inv t'" "cs t' = cs t" "bs t' = bs t"
      "marked t' = (\<lambda>p. p div bs t) ` {p \<in> set ps. 0 \<le> p \<and> p < cs t}"
    using set_all_marked [OF assms(1), of ps] assms(2) by auto
  then show ?thesis using isset_law [OF t'(2), of p] by (auto simp: image_iff)
qed

end

lemma br_Set_ok:
  assumes "br_inv br"
  shows "\<exists>br'. br_Set br p = Inr br' \<and> br_inv br' \<and> contentSize br' = contentSize br \<and>
    blockSize br' = blockSize br \<and> bits_of (bitmap br') =
    (if 0 \<le> p \<and> p < contentSize br then insert (p div blockSize br) (bits_of (bitmap br)) else bits_of (bitmap br))"
proof (cases "0 \<le> p \<and> p < contentSize br")
  case True
  note idx = block_index_bound [OF assms, of p]
  obtain b where "SetUnsafe (bitmap br) (p div blockSize br) = Inr b" "length b = length (bitmap br)"
      "bits_of b = insert (p div blockSize br) (bits_of (bitmap br))"
    using SetUnsafe_bits [of "p div blockSize br" "bitmap br"] True idx by blast
  then show ?thesis using True idx assms by (auto simp: br_Set_def Block_eq br_inv_def)
next
  case False
  then show ?thesis using assms by (auto simp: br_Set_def Block_eq)
qed

lemma br_clear_ok:
  assumes "br_inv br"
  shows "\<exists>br'. br_clear br p = Inr br' \<and> br_inv br' \<and> contentSize br' = contentSize br \<and>
    blockSize br' = blockSize br \<and> bits_of (bitmap br') =
    (if 0 \<le> p \<and> p < contentSize br then bits_of (bitmap br) - {p div blockSize br} else bits_of (bitmap br))"
proof (cases "0 \<le> p \<and> p < contentSize br")
  case True
  obtain b where "bm_Clear (bitmap br) (p div blockSize br) = Inr b" "length b = length (bitmap br)"
      "bits_of b = bits_of (bitmap br) - {p div blockSize br}"
    using Clear_bits by blast
  then show ?thesis using True block_index_bound [OF assms, of p] assms
    by (auto simp: br_clear_def Block_eq br_inv_def)
next
  case False
  then show ?thesis using assms by (auto simp: br_clear_def Block_eq)
qed

lemma br_IsSet_ok:
  assumes "br_inv br"
  shows "br_IsSet br p = Inr (0 \<le> p \<and> p < contentSize br \<and> p div blockSize br \<in> bits_of (bitmap br))"
  using assms block_index_bound [OF assms, of p] IsSetUnsafe_bits [of "p div blockSize br" "bitmap br"]
  by (auto simp: br_IsSet_def Block_eq)

lemma br_IsClear_ok:
  assumes "br_inv br"
  shows "br_IsClear br p = Inr (0 \<le> p \<and> p < contentSize br \<and> p div blockSize br \<notin> bits_of (bitmap br))"
  using assms block_index_bound [OF assms, of p] by (auto simp: br_IsClear_def Block_eq IsSet_bits)

interpretation tracker: range_tracker br_inv contentSize blockSize "\<lambda>br. bits_of (bitmap br)" br_Set br_IsSet
  by unfold_locales (rule br_Set_ok br_IsSet_ok, assumption)+

text \<open>The invariant of \<^verbatim>\<open>ByteRanges\<close>: the contiguous run is that of the shared bitmap.\<close>

definition brs_inv :: "ByteRanges \<Rightarrow> bool" where
  "brs_inv br \<longleftrightarrow> br_inv br \<and>
     (if contentSize br = 0 then contiguous br = None
      else \<exists>c. contiguous br = Some c \<and> contig_inv c \<and> bits c = bitmap br \<and> c_start c = 0 \<and>
             c_last c = bitmapSize br - 1)"

lemma truncate_fields [simp]:
  "contentSize (byteRanges.truncate br) = contentSize br"
  "blockSize (byteRanges.truncate br) = blockSize br"
  "bitmapSize (byteRanges.truncate br) = bitmapSize br"
  "bitmap (byteRanges.truncate br) = bitmap br"
  by (simp_all add: byteRanges.truncate_def)

lemma br_inv_truncate [simp]: "br_inv (byteRanges.truncate br) = br_inv br"
  by (simp add: br_inv_def)

lemma brs_Set_ok:
  assumes "brs_inv br"
  shows "\<exists>br'. brs_Set br p = Inr br' \<and> brs_inv br' \<and> contentSize br' = contentSize br \<and>
    blockSize br' = blockSize br \<and> bits_of (bitmap br') =
    (if 0 \<le> p \<and> p < contentSize br then insert (p div blockSize br) (bits_of (bitmap br)) else bits_of (bitmap br))"
proof (cases "0 \<le> p \<and> p < contentSize br")
  case True
  have inv: "br_inv br" using assms by (simp add: brs_inv_def)
  note idx = block_index_bound [OF inv, of p]
  obtain c where c: "contiguous br = Some c" "contig_inv c" "bits c = bitmap br" "c_start c = 0"
      "c_last c = bitmapSize br - 1"
    using assms True by (auto simp: brs_inv_def)
  obtain c' where c': "c_Set c (p div blockSize br) = Inr c'" "contig_step c c' {p div blockSize br}"
    using c_Set_step [OF c(2), of "p div blockSize br"] True idx c(5) by auto
  have "brs_inv (sync_bitmap br c')"
    using c' c inv idx True by (auto simp: brs_inv_def br_inv_def contig_step_def sync_bitmap_def)
  then show ?thesis
    using True c(1) c' c(3) inv idx
    by (auto simp: brs_Set_def Block_eq contig_step_def sync_bitmap_def)
next
  case False
  then show ?thesis using assms by (auto simp: brs_Set_def Block_eq brs_inv_def)
qed

lemma brs_IsSet_ok:
  assumes "brs_inv br"
  shows "brs_IsSet br p = Inr (0 \<le> p \<and> p < contentSize br \<and> p div blockSize br \<in> bits_of (bitmap br))"
  using assms br_IsSet_ok [of "byteRanges.truncate br" p] by (simp add: brs_IsSet_def brs_inv_def)

interpretation ranges: range_tracker brs_inv contentSize blockSize "\<lambda>br. bits_of (bitmap br)" brs_Set brs_IsSet
  by unfold_locales (rule brs_Set_ok brs_IsSet_ok, assumption)+

lemma NewByteRanges_inv:
  assumes "0 < bs" "0 \<le> cs"
  shows "\<exists>br. NewByteRanges cs bs = Inr br \<and> brs_inv br \<and> contentSize br = cs \<and> blockSize br = bs \<and>
    bits_of (bitmap br) = {}"
proof -
  obtain br where br: "newByteRanges cs bs = Inr br" "br_inv br" "contentSize br = cs" "blockSize br = bs"
      "bits_of (bitmap br) = {}"
    using newByteRanges_inv [OF assms] by blast
  show ?thesis
  proof (cases "cs = 0")
    case True
    then have "bitmapSize br = 0"
      using br(2-4) by (auto simp: br_inv_def mult_le_0_iff mult_less_cancel_right2)
    then show ?thesis
      using br True by (auto simp: NewByteRanges_def NewContiguousWithBitmap_def newContiguous_def
          brs_inv_def br_inv_def byteRanges.defs)
  next
    case False
    then have "0 < bitmapSize br" "bitmapSize br \<le> int (length (bitmap br)) * 64"
      using br(2-4) assms by (auto simp: br_inv_def zero_less_mult_iff le_less)
    then obtain c where "newContiguous (bitmap br) 0 (bitmapSize br) = Inr (Some c)" "contig_inv c"
        "bits c = bitmap br" "c_start c = 0" "c_last c = bitmapSize br - 1"
      using newContiguous_inv [of "bitmapSize br" 0 "bitmap br"] by auto
    then show ?thesis
      using br False \<open>bitmapSize br \<le> _\<close>
      by (auto simp: NewByteRanges_def NewContiguousWithBitmap_def brs_inv_def br_inv_def byteRanges.defs)
  qed
qed

lemma Tail_ok:
  assumes inv: "brs_inv br" and cs: "0 < contentSize br"
  shows "\<exists>r ok. brs_Tail br = Inr (r, ok) \<and> ok = (0 \<in> bits_of (bitmap br)) \<and>
    (ok \<longrightarrow> From r = 0 \<and> To r < contentSize br \<and> 0 \<le> To r \<and>
      (\<forall>p. 0 \<le> p \<and> p \<le> To r \<longrightarrow> p div blockSize br \<in> bits_of (bitmap br)) \<and>
      (To r + 1 < contentSize br \<longrightarrow> (To r + 1) div blockSize br \<notin> bits_of (bitmap br)))"
proof -
  obtain c where c: "contiguous br = Some c" "contig_inv c" "bits c = bitmap br" "c_start c = 0"
      "c_last c = bitmapSize br - 1"
    using inv cs by (auto simp: brs_inv_def)
  have b: "0 < blockSize br" "bitmapSize br * blockSize br < contentSize br + blockSize br"
      "contentSize br \<le> bitmapSize br * blockSize br"
    using inv by (auto simp: brs_inv_def br_inv_def)
  let ?n = "firstClear c" and ?b = "blockSize br" and ?S = "bits_of (bitmap br)"
  have n: "0 \<le> ?n" "?n \<le> bitmapSize br" "{0..<?n} \<subseteq> ?S" "?n < bitmapSize br \<longrightarrow> ?n \<notin> ?S"
    using c by (auto simp: contig_inv_def)
  show ?thesis
  proof (cases "?n = 0")
    case True
    have "0 < bitmapSize br * ?b" using b(3) cs by linarith
    then have "0 < bitmapSize br" using b(1) by (simp add: zero_less_mult_iff)
    then show ?thesis using True n c by (auto simp: brs_Tail_def Tail_def)
  next
    case False
    let ?to = "min (?n * ?b) (contentSize br) - 1"
    have tail: "brs_Tail br = Inr (\<lparr>From = 0, To = ?to\<rparr>, True)"
      using False n c by (simp add: brs_Tail_def Tail_def)
    have "p div ?b \<in> ?S" if "0 \<le> p" "p \<le> ?to" for p
    proof -
      have "p div ?b < ?n" using that b(1) by (intro div_less_blocks) auto
      moreover have "0 \<le> p div ?b" using that b(1) by (simp add: pos_imp_zdiv_nonneg_iff)
      ultimately show ?thesis using n(3) by auto
    qed
    moreover have "(?to + 1) div ?b \<notin> ?S" if "?to + 1 < contentSize br"
    proof -
      have "?n * ?b < contentSize br" using that by linarith
      then have "?n < bitmapSize br" using b by (simp add: block_in_file)
      then show ?thesis using that n(4) b(1) by simp
    qed
    moreover have "0 \<in> ?S" using False n by auto
    moreover have "0 < ?n * ?b" using False n(1) b(1) by (simp add: zero_less_mult_iff)
    ultimately show ?thesis using tail cs by (auto simp: min_def)
  qed
qed

section \<open>Properties\<close>



text \<open>
  C11: for every list of positions, marking them one after the other with \<^verbatim>\<open>Set\<close> never panics, and
  afterwards \<^verbatim>\<open>IsSet(p)\<close> holds exactly when \<^verbatim>\<open>p\<close> lies inside the file in the same block as one of the
  marked positions. The thread-safe \<^verbatim>\<open>ByteRanges\<close> and the \<^verbatim>\<open>ByteRangesTracker\<close> agree on it; \<^verbatim>\<open>Clear\<close>
  of the latter unmarks exactly one block.
\<close>

theorem byte_ranges_marks:
  assumes "0 < bs" "0 \<le> cs"
  shows "(\<exists>br br'. NewByteRanges cs bs = Inr br \<and> set_all brs_Set br ps = Inr br' \<and>
      brs_IsSet br' p = Inr (0 \<le> p \<and> p < cs \<and> (\<exists>q\<in>set ps. 0 \<le> q \<and> q < cs \<and> q div bs = p div bs))) \<and>
    (\<exists>t t' t''. NewByteRangesTracker cs bs = Inr t \<and> set_all br_Set t ps = Inr t' \<and>
      br_IsSet t' p = Inr (0 \<le> p \<and> p < cs \<and> (\<exists>q\<in>set ps. 0 \<le> q \<and> q < cs \<and> q div bs = p div bs)) \<and>
      tracker_Clear t' c = Inr t'' \<and>
      (0 \<le> c \<and> c < cs \<longrightarrow>
        br_IsSet t'' p = Inr (br_IsSet t' p = Inr True \<and> p div bs \<noteq> c div bs)))"
proof -
  obtain br where br: "NewByteRanges cs bs = Inr br" "brs_inv br" "contentSize br = cs" "blockSize br = bs"
      "bits_of (bitmap br) = {}"
    using NewByteRanges_inv [OF assms] by blast
  obtain t where t: "newByteRanges cs bs = Inr t" "br_inv t" "contentSize t = cs" "blockSize t = bs"
      "bits_of (bitmap t) = {}"
    using newByteRanges_inv [OF assms] by blast
  obtain t' where t': "set_all br_Set t ps = Inr t'" "br_inv t'" "contentSize t' = cs" "blockSize t' = bs"
    using tracker.set_all_marked [OF t(2), of ps] t by auto
  obtain t'' where t'': "br_clear t' c = Inr t''" "br_inv t''" "contentSize t'' = cs" "blockSize t'' = bs"
      "0 \<le> c \<and> c < cs \<longrightarrow> bits_of (bitmap t'') = bits_of (bitmap t') - {c div bs}"
    using br_clear_ok [OF t'(2), of c] t' by auto
  have "0 \<le> c \<and> c < cs \<longrightarrow>
      br_IsSet t'' p = Inr (br_IsSet t' p = Inr True \<and> p div bs \<noteq> c div bs)"
    using br_IsSet_ok [OF t''(2), of p] br_IsSet_ok [OF t'(2), of p] t' t'' by auto
  then show ?thesis
    using br(1) ranges.isset_after [OF br(2,5), of ps p] br(3,4) t(1) tracker.isset_after [OF t(2,5), of ps p]
      t(3,4) t'(1) t''(1)
    by (auto simp: NewByteRangesTracker_def tracker_Clear_def)
qed

theorem byte_ranges_marks_witness:
  "(0::int) < 4 \<and> (0::int) \<le> 10 \<and>
   (\<exists>br br'. NewByteRanges 10 4 = Inr br \<and> set_all brs_Set br [5, 12] = Inr br' \<and>
      brs_IsSet br' 7 = Inr True)"
proof -
  have h: "(0::int) < 4" "(0::int) \<le> 10" by simp_all
  show ?thesis using byte_ranges_marks [OF h, of "[5, 12]" 7 0] h by auto
qed

text \<open>
  after any marks, \<^verbatim>\<open>Tail\<close> returns the longest prefix of the file that is completely marked:
  every byte of it is set, the byte after it (when there is one) is not, and it reports false
  exactly when the first byte is not set.
\<close>

theorem byte_ranges_tail:
  assumes "0 < bs" "0 < cs"
  shows "\<exists>br br' r ok. NewByteRanges cs bs = Inr br \<and> set_all brs_Set br ps = Inr br' \<and>
    brs_Tail br' = Inr (r, ok) \<and> brs_IsSet br' 0 = Inr ok \<and>
    (ok \<longrightarrow> From r = 0 \<and> To r < cs \<and> (\<forall>p. 0 \<le> p \<and> p \<le> To r \<longrightarrow> brs_IsSet br' p = Inr True) \<and>
      (To r + 1 < cs \<longrightarrow> brs_IsSet br' (To r + 1) = Inr False))"
proof -
  obtain br where br: "NewByteRanges cs bs = Inr br" "brs_inv br" "contentSize br = cs" "blockSize br = bs"
    using NewByteRanges_inv [of bs cs] assms by auto
  obtain br' where br': "set_all brs_Set br ps = Inr br'" "brs_inv br'" "contentSize br' = cs" "blockSize br' = bs"
    using ranges.set_all_marked [OF br(2), of ps] br by auto
  obtain r ok where r: "brs_Tail br' = Inr (r, ok)" "ok = (0 \<in> bits_of (bitmap br'))"
      "ok \<longrightarrow> From r = 0 \<and> To r < cs \<and> 0 \<le> To r \<and>
        (\<forall>p. 0 \<le> p \<and> p \<le> To r \<longrightarrow> p div bs \<in> bits_of (bitmap br')) \<and>
        (To r + 1 < cs \<longrightarrow> (To r + 1) div bs \<notin> bits_of (bitmap br'))"
    using Tail_ok [OF br'(2)] br' assms by auto
  then show ?thesis
    using br(1) br' assms brs_IsSet_ok [OF br'(2)]
    by (intro exI [of _ br] exI [of _ br'] exI [of _ r] exI [of _ ok]) auto
qed

theorem byte_ranges_tail_witness:
  "\<exists>br br' r. NewByteRanges 10 4 = Inr br \<and> set_all brs_Set br [9, 1] = Inr br' \<and>
    brs_Tail br' = Inr (r, True) \<and> brs_IsSet br' (To r) = Inr True"
proof -
  have h: "(0::int) < 4" "(0::int) < 10" by simp_all
  have "rbind (NewByteRanges 10 4) (\<lambda>br. rbind (set_all brs_Set br [9, 1]) brs_Tail) =
      Inr (\<lparr>From = 0, To = 3\<rparr>, True)" by code_simp
  then show ?thesis using byte_ranges_tail [OF h, of "[9, 1]"] by fastforce
qed

text \<open>
  what the code does at the edges. \<^verbatim>\<open>RangeForIndex\<close> with an index past the last block does not
  return the invalid range with both ends -1 but a range that starts at or beyond the end of the
  file and has size 0; and on a file of size 0 \<^verbatim>\<open>Tail\<close> and \<^verbatim>\<open>Notify\<close> dereference a nil pointer,
  since no \<^verbatim>\<open>Contiguous\<close> is created for zero blocks.
\<close>

theorem byte_ranges_edges:
  assumes "0 < bs" "0 < cs" "NumBlocks cs bs = Inr nb" "nb \<le> i"
  shows "From (RangeForIndex i cs bs) = i * bs \<and> cs \<le> From (RangeForIndex i cs bs) \<and>
    range_Size (RangeForIndex i cs bs) = 0 \<and>
    (\<exists>br. NewByteRanges 0 bs = Inr br \<and> brs_Tail br = Inl NilDereference \<and>
       brs_Notify br = Inl NilDereference)"
proof -
  have "cs \<le> nb * bs" "nb * bs < cs + bs" "0 \<le> nb" using NumBlocks_pos [of bs cs] assms by auto
  then have "cs \<le> i * bs" "0 \<le> i" using block_in_file [of bs cs nb i] assms by auto
  then have "From (RangeForIndex i cs bs) = i * bs \<and> cs \<le> From (RangeForIndex i cs bs) \<and>
    range_Size (RangeForIndex i cs bs) = 0"
    using assms by (auto simp: RangeForIndex_def range_Size_def Let_def)
  moreover obtain br where "NewByteRanges 0 bs = Inr br" "brs_inv br" "contentSize br = 0"
    using NewByteRanges_inv [of bs 0] assms by auto
  ultimately show ?thesis by (auto simp: brs_inv_def brs_Tail_def brs_Notify_def)
qed

theorem byte_ranges_edges_witness:
  "NumBlocks 10 4 = Inr 3 \<and> From (RangeForIndex 3 10 4) = 12 \<and> range_Size (RangeForIndex 3 10 4) = 0 \<and>
   (\<exists>br. NewByteRanges 0 4 = Inr br \<and> brs_Tail br = Inl NilDereference)"
proof -
  have h: "(0::int) < 4" "(0::int) < 10" "NumBlocks 10 4 = Inr 3" "(3::int) \<le> 3" by (simp_all add: NumBlocks_def)
  show ?thesis using byte_ranges_edges [OF h] h(3) by auto
qed

end
