(* ===== verification/LCS_DP.thy ===== *)
theory LCS_DP
  imports Prelude "HOL-Library.Sublist"
begin

text \<open>
  Longest common subsequences and shortest edit scripts by dynamic programming, \<^verbatim>\<open>algo/lcs/dp.go\<close>
  and \<^verbatim>\<open>algo/lcs/edit.go\<close>. The tables are slices of slices filled by the two nested loops of the
  source, every access with its bounds checked; the recursive functions walk the direction table.
\<close>

section \<open>Model of edit.go\<close>

datatype EditOp = Insert | Delete | Identical

record 'a Edit =
  Op :: EditOp
  A :: int
  B :: int
  Val :: 'a

type_synonym 'a EditScript = "'a Edit list"

definition apply_action :: "'a list \<Rightarrow> 'a Edit \<Rightarrow> 'a list \<Rightarrow> 'a list res" where
  "apply_action a action b =
     (case Op action of
        Insert \<Rightarrow> Inr (b @ [Val action])
      | Identical \<Rightarrow> rbind (sl_get a (A action)) (\<lambda>v. Inr (b @ [v]))
      | Delete \<Rightarrow> Inr b)"

definition Apply :: "'a EditScript \<Rightarrow> 'a list \<Rightarrow> 'a list res" where
  "Apply es a = (if es = [] then Inr a else rfold (apply_action a) es [])"

definition Reverse :: "'a EditScript \<Rightarrow> 'a EditScript" where
  "Reverse es = map (\<lambda>e.
     case Op e of
       Identical \<Rightarrow> \<lparr>Op = Insert, A = B e, B = A e, Val = Val e\<rparr>
     | Delete \<Rightarrow> \<lparr>Op = Insert, A = B e, B = A e, Val = Val e\<rparr>
     | Insert \<Rightarrow> \<lparr>Op = Delete, A = B e, B = A e, Val = Val e\<rparr>) es"

section \<open>Model of dp.go\<close>

datatype direction = diagonal | up | left | upAndLeft

record 'a DP =
  dp_a :: "'a list"
  dp_b :: "'a list"
  filled :: bool
  directions :: "direction list list"

definition get2 :: "'v list list \<Rightarrow> int \<Rightarrow> int \<Rightarrow> 'v res" where
  "get2 t x y = rbind (sl_get t x) (\<lambda>r. sl_get r y)"

definition set2 :: "'v list list \<Rightarrow> int \<Rightarrow> int \<Rightarrow> 'v \<Rightarrow> 'v list list res" where
  "set2 t x y v = rbind (sl_get t x) (\<lambda>r. rbind (sl_set r y v) (\<lambda>r'. sl_set t x r'))"

definition make2 :: "'v \<Rightarrow> nat \<Rightarrow> nat \<Rightarrow> 'v list list" where
  "make2 z m n = replicate m (replicate n z)"

definition NewDP :: "'a list \<Rightarrow> 'a list \<Rightarrow> 'a DP" where
  "NewDP a b = \<lparr>dp_a = a, dp_b = b, filled = False,
     directions = make2 diagonal (length a + 1) (length b + 1)\<rparr>"

type_synonym 'a fill_state = "int list list \<times> direction list list"

definition fill_cell :: "'a list \<Rightarrow> 'a list \<Rightarrow> int \<Rightarrow> int \<Rightarrow> 'a fill_state \<Rightarrow> 'a fill_state res" where
  "fill_cell a b y x s =
     (case s of (table, dirs) \<Rightarrow>
      rbind (sl_get a (x - 1)) (\<lambda>ax. rbind (sl_get b (y - 1)) (\<lambda>bY.
      if ax = bY
      then rbind (get2 table (x - 1) (y - 1)) (\<lambda>t.
           rbind (set2 table x y (t + 1)) (\<lambda>table'.
           rbind (set2 dirs x y diagonal) (\<lambda>dirs'. Inr (table', dirs'))))
      else rbind (get2 table (x - 1) y) (\<lambda>prevLeft. rbind (get2 table x (y - 1)) (\<lambda>prevUp.
           let (d, v) = (if prevUp > prevLeft then (up, prevUp)
                         else if prevLeft > prevUp then (left, prevLeft)
                         else (upAndLeft, prevLeft))
           in rbind (set2 dirs x y d) (\<lambda>dirs'.
              rbind (set2 table x y v) (\<lambda>table'. Inr (table', dirs'))))))))"

definition fill :: "'a DP \<Rightarrow> 'a DP res" where
  "fill dp =
     (if filled dp then Inr dp
      else let a = dp_a dp; b = dp_b dp
           in rbind (rfold (\<lambda>y s. rfold (\<lambda>x s. fill_cell a b y x s) [1..int (length a)] s)
                [1..int (length b)] (make2 0 (length a + 1) (length b + 1), directions dp))
                (\<lambda>(table, dirs). Inr (dp\<lparr>filled := True, directions := dirs\<rparr>)))"

lemma get2_nonneg: "get2 t i j = Inr d \<Longrightarrow> 0 \<le> i \<and> 0 \<le> j"
  by (auto simp: get2_def rbind_eq_Inr sl_get_eq_Inr)

function backtrack :: "'a DP \<Rightarrow> int \<Rightarrow> int \<Rightarrow> 'a list res" where
  "backtrack dp i j =
     (if i = 0 \<or> j = 0 then Inr []
      else rbind (get2 (directions dp) i j) (\<lambda>d.
           if d = diagonal
           then rbind (backtrack dp (i - 1) (j - 1)) (\<lambda>xs.
                rbind (sl_get (dp_a dp) (i - 1)) (\<lambda>v. Inr (xs @ [v])))
           else if d = up \<or> d = upAndLeft then backtrack dp i (j - 1)
           else backtrack dp (i - 1) j))"
  by pat_completeness auto
termination
  by (relation "measure (\<lambda>(dp, i, j). nat i + nat j)") (auto dest: get2_nonneg)

text \<open>
  \<^verbatim>\<open>extend\<close> appends in place to paths that no other part of the result shares: every path starts as
  a fresh slice and is extended only by the call that receives it.
\<close>

definition dp_extend :: "'a DP \<Rightarrow> int \<Rightarrow> 'a list list \<Rightarrow> 'a list list res" where
  "dp_extend dp i bt =
     rbind (sl_get (dp_a dp) i) (\<lambda>v. Inr (if bt = [] then [[v]] else map (\<lambda>p. p @ [v]) bt))"

function backtrackAll :: "'a DP \<Rightarrow> int \<Rightarrow> int \<Rightarrow> 'a list list res" where
  "backtrackAll dp i j =
     (if i = 0 \<or> j = 0 then Inr []
      else rbind (get2 (directions dp) i j) (\<lambda>dir.
           if dir = diagonal
           then rbind (backtrackAll dp (i - 1) (j - 1)) (\<lambda>bt. dp_extend dp (i - 1) bt)
           else rbind (if dir = up \<or> dir = upAndLeft then backtrackAll dp i (j - 1) else Inr []) (\<lambda>paths.
                if dir = left \<or> dir = upAndLeft
                then rbind (backtrackAll dp (i - 1) j) (\<lambda>more. Inr (paths @ more))
                else Inr paths)))"
  by pat_completeness auto
termination
  by (relation "measure (\<lambda>(dp, i, j). nat i + nat j)") (auto dest: get2_nonneg)

function diff :: "'a DP \<Rightarrow> int \<Rightarrow> int \<Rightarrow> 'a EditScript res" where
  "diff dp i j =
     rbind (get2 (directions dp) i j) (\<lambda>dir.
     if i > 0 \<and> j > 0 \<and> dir = diagonal
     then rbind (diff dp (i - 1) (j - 1)) (\<lambda>es. rbind (sl_get (dp_b dp) (j - 1)) (\<lambda>v.
          Inr (es @ [\<lparr>Op = Identical, A = i - 1, B = j - 1, Val = v\<rparr>])))
     else if j > 0 \<and> (i = 0 \<or> dir = up \<or> dir = upAndLeft)
     then rbind (diff dp i (j - 1)) (\<lambda>es. rbind (sl_get (dp_b dp) (j - 1)) (\<lambda>v.
          Inr (es @ [\<lparr>Op = Insert, A = i, B = j - 1, Val = v\<rparr>])))
     else if i > 0 \<and> (j = 0 \<or> dir = left)
     then rbind (diff dp (i - 1) j) (\<lambda>es. rbind (sl_get (dp_a dp) (i - 1)) (\<lambda>v.
          Inr (es @ [\<lparr>Op = Delete, A = i - 1, B = j, Val = v\<rparr>])))
     else Inr [])"
  by pat_completeness auto
termination
  by (relation "measure (\<lambda>(dp, i, j). nat i + nat j)") (auto dest: get2_nonneg)

declare backtrack.simps [simp del] backtrackAll.simps [simp del] diff.simps [simp del]

definition LCS :: "'a DP \<Rightarrow> ('a list \<times> 'a DP) res" where
  "LCS dp = rbind (fill dp) (\<lambda>dp.
     rbind (backtrack dp (int (length (dp_a dp))) (int (length (dp_b dp)))) (\<lambda>r. Inr (r, dp)))"

definition AllLCS :: "'a DP \<Rightarrow> ('a list list \<times> 'a DP) res" where
  "AllLCS dp = rbind (fill dp) (\<lambda>dp.
     rbind (backtrackAll dp (int (length (dp_a dp))) (int (length (dp_b dp)))) (\<lambda>r. Inr (r, dp)))"

definition SES :: "'a DP \<Rightarrow> ('a EditScript \<times> 'a DP) res" where
  "SES dp =
     (if directions dp = [] then Inr ([], dp)
      else rbind (fill dp) (\<lambda>dp.
           rbind (diff dp (int (length (dp_a dp))) (int (length (dp_b dp)))) (\<lambda>r. Inr (r, dp))))"

section \<open>The table computes the lengths of longest common subsequences\<close>

fun L :: "'a list \<Rightarrow> 'a list \<Rightarrow> nat \<Rightarrow> nat \<Rightarrow> nat" where
  "L a b 0 j = 0"
| "L a b i 0 = 0"
| "L a b (Suc i) (Suc j) =
     (if a ! i = b ! j then L a b i j + 1 else max (L a b (Suc i) j) (L a b i (Suc j)))"

definition D :: "'a list \<Rightarrow> 'a list \<Rightarrow> nat \<Rightarrow> nat \<Rightarrow> direction" where
  "D a b i j =
     (if i = 0 \<or> j = 0 \<or> a ! (i - 1) = b ! (j - 1) then diagonal
      else if L a b i (j - 1) > L a b (i - 1) j then up
      else if L a b (i - 1) j > L a b i (j - 1) then left
      else upAndLeft)"

definition grid :: "(int \<times> int \<Rightarrow> 'v) \<Rightarrow> int \<Rightarrow> int \<Rightarrow> 'v list list" where
  "grid f m n = map (\<lambda>x. map (\<lambda>y. f (x, y)) [0..n]) [0..m]"

lemma sl_get_upto: "0 \<le> x \<Longrightarrow> x \<le> m \<Longrightarrow> sl_get (map g [0..m]) x = Inr (g x)"
  by (auto simp: sl_get_def nth_upto)

lemma sl_set_upto: "0 \<le> x \<Longrightarrow> x \<le> m \<Longrightarrow> sl_set (map g [0..m]) x v = Inr (map (g(x := v)) [0..m])"
  by (auto simp: sl_set_def nth_upto intro!: nth_equalityI simp: nth_list_update)

lemma get2_grid:
  "0 \<le> x \<Longrightarrow> x \<le> m \<Longrightarrow> 0 \<le> y \<Longrightarrow> y \<le> n \<Longrightarrow> get2 (grid f m n) x y = Inr (f (x, y))"
  by (simp add: get2_def grid_def sl_get_upto)

lemma set2_grid:
  assumes "0 \<le> x" "x \<le> m" "0 \<le> y" "y \<le> n"
  shows "set2 (grid f m n) x y v = Inr (grid (f((x, y) := v)) m n)"
proof -
  have "map (\<lambda>x'. map (\<lambda>y'. (f((x, y) := v)) (x', y')) [0..n]) [0..m] =
      map ((\<lambda>x. map (\<lambda>y. f (x, y)) [0..n])(x := map ((\<lambda>y. f (x, y))(y := v)) [0..n])) [0..m]"
    by (auto intro!: map_cong)
  then show ?thesis using assms by (simp add: set2_def grid_def sl_get_upto sl_set_upto)
qed

lemma make2_grid: "make2 z (m + 1) (n + 1) = grid (\<lambda>_. z) (int m) (int n)"
proof -
  have "nat (int k + 1) = Suc k" for k by simp
  then show ?thesis by (simp add: make2_def grid_def map_replicate_const)
qed

lemma grid_cong:
  "(\<And>x y. 0 \<le> x \<Longrightarrow> x \<le> m \<Longrightarrow> 0 \<le> y \<Longrightarrow> y \<le> n \<Longrightarrow> f (x, y) = g (x, y)) \<Longrightarrow> grid f m n = grid g m n"
  by (simp add: grid_def)

lemma L_0 [simp]: "L a b i 0 = 0"
  by (cases i) auto

lemma L_pos:
  assumes "0 < i" "0 < j"
  shows "L a b i j = (if a ! (i - 1) = b ! (j - 1) then L a b (i - 1) (j - 1) + 1
    else max (L a b i (j - 1)) (L a b (i - 1) j))"
  using assms by (cases i; cases j) auto

text \<open>The cells written before the inner loop reaches column \<open>x\<close> of row \<open>y\<close>.\<close>

definition part :: "(nat \<Rightarrow> nat \<Rightarrow> 'v) \<Rightarrow> 'v \<Rightarrow> int \<Rightarrow> int \<Rightarrow> int \<times> int \<Rightarrow> 'v" where
  "part f z y x = (\<lambda>(x', y'). if y' < y \<or> y' = y \<and> x' < x then f (nat x') (nat y') else z)"

lemma part_step: "(part f z y x)((x, y) := f (nat x) (nat y)) = part f z y (x + 1)"
  by (rule ext) (auto simp: part_def split: if_splits)

abbreviation tables :: "'a list \<Rightarrow> 'a list \<Rightarrow> int \<Rightarrow> int \<Rightarrow> 'a fill_state" where
  "tables a b y x \<equiv>
     (grid (part (\<lambda>i j. int (L a b i j)) 0 y x) (int (length a)) (int (length b)),
      grid (part (D a b) diagonal y x) (int (length a)) (int (length b)))"

lemma fill_cell_step:
  assumes "1 \<le> x" "x \<le> int (length a)" "1 \<le> y" "y \<le> int (length b)"
  shows "fill_cell a b y x (tables a b y x) = Inr (tables a b y (x + 1))"
proof -
  have nat: "nat (x - 1) = nat x - 1" "nat (y - 1) = nat y - 1" "0 < nat x" "0 < nat y"
    using assms by auto
  have ab: "sl_get a (x - 1) = Inr (a ! (nat x - 1))" "sl_get b (y - 1) = Inr (b ! (nat y - 1))"
    using assms by (auto simp: sl_get_def nat)
  note L = L_pos [OF nat(3,4), of a b]
  note D = D_def [of a b "nat x" "nat y"]
  have cells: "get2 (grid (part f z y x) (int (length a)) (int (length b))) (x - 1) y = Inr (f (nat x - 1) (nat y))"
    "get2 (grid (part f z y x) (int (length a)) (int (length b))) x (y - 1) = Inr (f (nat x) (nat y - 1))"
    "get2 (grid (part f z y x) (int (length a)) (int (length b))) (x - 1) (y - 1) = Inr (f (nat x - 1) (nat y - 1))"
    for f :: "nat \<Rightarrow> nat \<Rightarrow> int" and z
    using assms by (auto simp: get2_grid part_def nat)
  have set: "set2 (grid (part f z y x) (int (length a)) (int (length b))) x y (f (nat x) (nat y)) =
      Inr (grid (part f z y (x + 1)) (int (length a)) (int (length b)))" for f :: "nat \<Rightarrow> nat \<Rightarrow> 'v" and z
    using assms by (simp add: set2_grid part_step)
  have set_t: "set2 (grid (part (\<lambda>i j. int (L a b i j)) 0 y x) (int (length a)) (int (length b))) x y v =
      Inr (grid (part (\<lambda>i j. int (L a b i j)) 0 y (x + 1)) (int (length a)) (int (length b)))"
    if "v = int (L a b (nat x) (nat y))" for v
    unfolding that by (rule set)
  have set_d: "set2 (grid (part (D a b) diagonal y x) (int (length a)) (int (length b))) x y v =
      Inr (grid (part (D a b) diagonal y (x + 1)) (int (length a)) (int (length b)))"
    if "v = D a b (nat x) (nat y)" for v
    unfolding that by (rule set)
  show ?thesis
    using nat(3,4) by (auto simp: fill_cell_def ab cells set_t set_d L D Let_def max_def)
qed

lemma fill_row:
  assumes "1 \<le> x" "x \<le> int (length a) + 1" "1 \<le> y" "y \<le> int (length b)"
  shows "rfold (\<lambda>x s. fill_cell a b y x s) [x..int (length a)] (tables a b y x) =
    Inr (tables a b y (int (length a) + 1))"
  using assms(1,2)
proof (induction "nat (int (length a) + 1 - x)" arbitrary: x rule: less_induct)
  case less
  show ?case
  proof (cases "x \<le> int (length a)")
    case True
    then have "[x..int (length a)] = x # [x + 1..int (length a)]" by (simp add: upto_rec1)
    then show ?thesis
      using True less.hyps [of "x + 1"] less.prems fill_cell_step [of x a y b] assms by simp
  next
    case False
    then have "x = int (length a) + 1" using less.prems by simp
    then show ?thesis by simp
  qed
qed

lemma tables_next_row: "tables a b y (int (length a) + 1) = tables a b (y + 1) 1"
  by (auto intro!: grid_cong simp: part_def D_def)

lemma fill_rows:
  assumes "1 \<le> y" "y \<le> int (length b) + 1"
  shows "rfold (\<lambda>y s. rfold (\<lambda>x s. fill_cell a b y x s) [1..int (length a)] s) [y..int (length b)]
    (tables a b y 1) = Inr (tables a b (int (length b) + 1) 1)"
  using assms
proof (induction "nat (int (length b) + 1 - y)" arbitrary: y rule: less_induct)
  case less
  show ?case
  proof (cases "y \<le> int (length b)")
    case True
    then have "[y..int (length b)] = y # [y + 1..int (length b)]" by (simp add: upto_rec1)
    then show ?thesis
      using True less.hyps [of "y + 1"] less.prems fill_row [of 1 a y b] tables_next_row [of a b y] by simp
  next
    case False
    then have "y = int (length b) + 1" using less.prems by simp
    then show ?thesis by simp
  qed
qed

definition filled_dp :: "'a list \<Rightarrow> 'a list \<Rightarrow> 'a DP" where
  "filled_dp a b = \<lparr>dp_a = a, dp_b = b, filled = True,
     directions = grid (\<lambda>(x, y). D a b (nat x) (nat y)) (int (length a)) (int (length b))\<rparr>"

lemma fill_NewDP: "fill (NewDP a b) = Inr (filled_dp a b)"
proof -
  have "(make2 0 (length a + 1) (length b + 1), make2 diagonal (length a + 1) (length b + 1)) =
      tables a b 1 1"
    unfolding make2_grid by (auto intro!: grid_cong simp: part_def D_def)
  moreover have "snd (tables a b (int (length b) + 1) 1) = directions (filled_dp a b)"
    by (auto intro!: grid_cong simp: part_def filled_dp_def)
  ultimately show ?thesis
    using fill_rows [of 1 b a] by (simp add: fill_def NewDP_def filled_dp_def)
qed

lemma filled_dp_fields [simp]: "dp_a (filled_dp a b) = a" "dp_b (filled_dp a b) = b"
  by (simp_all add: filled_dp_def)

lemma fill_filled [simp]: "fill (filled_dp a b) = Inr (filled_dp a b)"
  by (simp add: fill_def filled_dp_def)

lemma dir_filled:
  "i \<le> length a \<Longrightarrow> j \<le> length b \<Longrightarrow> get2 (directions (filled_dp a b)) (int i) (int j) = Inr (D a b i j)"
  by (simp add: filled_dp_def get2_grid)

section \<open>Longest common subsequences\<close>

definition common :: "'a list \<Rightarrow> 'a list \<Rightarrow> 'a list \<Rightarrow> bool" where
  "common zs xs ys \<longleftrightarrow> subseq zs xs \<and> subseq zs ys"

definition is_lcs :: "'a list \<Rightarrow> 'a list \<Rightarrow> 'a list \<Rightarrow> bool" where
  "is_lcs zs xs ys \<longleftrightarrow> common zs xs ys \<and> (\<forall>ws. common ws xs ys \<longrightarrow> length ws \<le> length zs)"

lemma subseq_snoc:
  "subseq zs (xs @ [x]) \<longleftrightarrow> subseq zs xs \<or> (\<exists>ws. zs = ws @ [x] \<and> subseq ws xs)"
proof
  assume "subseq zs (xs @ [x])"
  then obtain us vs where "zs = us @ vs" "subseq us xs" "subseq vs [x]"
    by (auto simp: subseq_append_iff)
  then show "subseq zs xs \<or> (\<exists>ws. zs = ws @ [x] \<and> subseq ws xs)"
    by (cases vs) (auto split: if_splits)
qed (auto intro: list_emb_append2 subseq_order.trans list_emb_append_mono)

lemma common_nil [simp]: "common zs [] ys \<longleftrightarrow> zs = []" "common zs xs [] \<longleftrightarrow> zs = []"
  by (auto simp: common_def)

lemma subseq_butlast: "subseq (ws @ [x]) xs \<Longrightarrow> subseq ws xs"
  by (meson list_emb_append2 subseq_order.order_refl subseq_order.trans list_emb_prefix)

lemma common_snoc_same:
  "common zs (xs @ [x]) (ys @ [x]) \<longleftrightarrow> common zs xs ys \<or> (\<exists>ws. zs = ws @ [x] \<and> common ws xs ys)"
  unfolding common_def subseq_snoc by (auto dest: subseq_butlast)

lemma common_snoc_diff:
  "x \<noteq> y \<Longrightarrow> common zs (xs @ [x]) (ys @ [y]) \<longleftrightarrow> common zs xs (ys @ [y]) \<or> common zs (xs @ [x]) ys"
  by (auto simp: common_def subseq_snoc)

lemma common_length:
  "i \<le> length a \<Longrightarrow> j \<le> length b \<Longrightarrow> common zs (take i a) (take j b) \<Longrightarrow> length zs \<le> L a b i j"
proof (induction a b i j arbitrary: zs rule: L.induct)
  case (3 a b i j)
  then have t: "take (Suc i) a = take i a @ [a ! i]" "take (Suc j) b = take j b @ [b ! j]"
    by (auto simp: take_Suc_conv_app_nth)
  show ?case
  proof (cases "a ! i = b ! j")
    case True
    then consider "common zs (take i a) (take j b)"
      | ws where "zs = ws @ [b ! j]" "common ws (take i a) (take j b)"
      using "3.prems"(3) unfolding t by (auto simp: common_snoc_same)
    then show ?thesis
      using "3.IH"(1) [OF True] "3.prems"(1,2) True by cases fastforce+
  next
    case False
    then consider "common zs (take (Suc i) a) (take j b)" | "common zs (take i a) (take (Suc j) b)"
      using "3.prems"(3) unfolding t by (auto simp: common_snoc_diff)
    then show ?thesis
      using "3.IH"(2,3) [OF False] "3.prems"(1,2) False by cases fastforce+
  qed
qed auto

section \<open>Backtracking\<close>

lemma backtrack_step:
  assumes "0 < i" "0 < j" "i \<le> length a" "j \<le> length b"
  shows "backtrack (filled_dp a b) (int i) (int j) =
    (case D a b i j of
       diagonal \<Rightarrow> rbind (backtrack (filled_dp a b) (int (i - 1)) (int (j - 1))) (\<lambda>xs. Inr (xs @ [a ! (i - 1)]))
     | left \<Rightarrow> backtrack (filled_dp a b) (int (i - 1)) (int j)
     | _ \<Rightarrow> backtrack (filled_dp a b) (int i) (int (j - 1)))"
proof -
  have i: "int i - 1 = int (i - 1)" "int j - 1 = int (j - 1)" "i - 1 < length a" using assms by auto
  show ?thesis
    unfolding backtrack.simps [of _ "int i" "int j"] dir_filled [OF assms(3,4)] i(1,2)
    using assms i(3) by (simp del: of_nat_diff split: direction.splits)
qed

lemma backtrack_0 [simp]: "backtrack dp 0 j = Inr []" "backtrack dp i 0 = Inr []"
  by (simp_all add: backtrack.simps)

lemma backtrack_lcs:
  "i \<le> length a \<Longrightarrow> j \<le> length b \<Longrightarrow>
   \<exists>zs. backtrack (filled_dp a b) (int i) (int j) = Inr zs \<and> common zs (take i a) (take j b) \<and>
     length zs = L a b i j"
proof (induction a b i j rule: L.induct)
  case (3 a b i j)
  then have t: "take (Suc i) a = take i a @ [a ! i]" "take (Suc j) b = take j b @ [b ! j]"
    by (auto simp: take_Suc_conv_app_nth)
  note step = backtrack_step [of "Suc i" "Suc j" a b]
  show ?case
  proof (cases "a ! i = b ! j")
    case True
    then obtain zs where "backtrack (filled_dp a b) (int i) (int j) = Inr zs"
        "common zs (take i a) (take j b)" "length zs = L a b i j"
      using 3 by auto
    moreover from this(2) True have "common (zs @ [a ! i]) (take (Suc i) a) (take (Suc j) b)"
      unfolding t by (auto simp: common_def)
    ultimately show ?thesis using step True "3.prems" by (simp add: D_def)
  next
    case False
    obtain z1 where "backtrack (filled_dp a b) (int (Suc i)) (int j) = Inr z1"
        "common z1 (take (Suc i) a) (take j b)" "length z1 = L a b (Suc i) j"
      using "3.IH"(2) [OF False] "3.prems" by auto
    moreover obtain z2 where "backtrack (filled_dp a b) (int i) (int (Suc j)) = Inr z2"
        "common z2 (take i a) (take (Suc j) b)" "length z2 = L a b i (Suc j)"
      using "3.IH"(3) [OF False] "3.prems" by auto
    ultimately show ?thesis
      using step False "3.prems" unfolding t by (auto simp: D_def common_snoc_diff max_def)
  qed
qed auto

definition lcs_set :: "'a list \<Rightarrow> 'a list \<Rightarrow> nat \<Rightarrow> nat \<Rightarrow> 'a list set" where
  "lcs_set a b i j = {zs. common zs (take i a) (take j b) \<and> length zs = L a b i j}"

lemma lcs_set_zero: "L a b i j = 0 \<Longrightarrow> lcs_set a b i j = {[]}"
  by (auto simp: lcs_set_def common_def)

lemma lcs_set_same:
  assumes "i < length a" "j < length b" "a ! i = b ! j"
  shows "lcs_set a b (Suc i) (Suc j) = (\<lambda>p. p @ [a ! i]) ` lcs_set a b i j"
proof -
  have t: "take (Suc i) a = take i a @ [a ! i]" "take (Suc j) b = take j b @ [a ! i]"
    using assms by (auto simp: take_Suc_conv_app_nth)
  have "\<not> common zs (take i a) (take j b)" if "length zs = Suc (L a b i j)" for zs
    using common_length [of i a j b zs] assms that by auto
  then show ?thesis using assms(3) unfolding lcs_set_def t by (auto simp: common_snoc_same)
qed

lemma lcs_set_diff:
  assumes "i < length a" "j < length b" "a ! i \<noteq> b ! j"
  shows "lcs_set a b (Suc i) (Suc j) =
    (if L a b i (Suc j) \<le> L a b (Suc i) j then lcs_set a b (Suc i) j else {}) \<union>
    (if L a b (Suc i) j \<le> L a b i (Suc j) then lcs_set a b i (Suc j) else {})"
proof -
  have t: "take (Suc i) a = take i a @ [a ! i]" "take (Suc j) b = take j b @ [b ! j]"
    using assms by (auto simp: take_Suc_conv_app_nth)
  have "length zs \<le> L a b (Suc i) j" if "common zs (take (Suc i) a) (take j b)" for zs
    using common_length [of "Suc i" a j b zs] assms that by auto
  moreover have "length zs \<le> L a b i (Suc j)" if "common zs (take i a) (take (Suc j) b)" for zs
    using common_length [of i a "Suc j" b zs] assms that by auto
  moreover have "common zs (take (Suc i) a) (take (Suc j) b) \<longleftrightarrow>
      common zs (take (Suc i) a) (take j b) \<or> common zs (take i a) (take (Suc j) b)" for zs
    unfolding t using assms(3) by (auto simp: common_snoc_diff)
  ultimately show ?thesis
    using assms(3) unfolding lcs_set_def by (auto simp: max_def) (metis le_antisym le_refl nat_le_linear)+
qed

lemma lcs_set_nonempty: "i \<le> length a \<Longrightarrow> j \<le> length b \<Longrightarrow> lcs_set a b i j \<noteq> {}"
  using backtrack_lcs [of i a j b] by (auto simp: lcs_set_def)

definition all_paths :: "'a list \<Rightarrow> 'a list \<Rightarrow> nat \<Rightarrow> nat \<Rightarrow> 'a list list \<Rightarrow> bool" where
  "all_paths a b i j ps \<longleftrightarrow> (if L a b i j = 0 then ps = [] else set ps = lcs_set a b i j)"

lemma backtrackAll_step:
  assumes "0 < i" "0 < j" "i \<le> length a" "j \<le> length b"
  shows "backtrackAll (filled_dp a b) (int i) (int j) =
    (case D a b i j of
       diagonal \<Rightarrow> rbind (backtrackAll (filled_dp a b) (int (i - 1)) (int (j - 1))) (\<lambda>ps.
         Inr (if ps = [] then [[a ! (i - 1)]] else map (\<lambda>p. p @ [a ! (i - 1)]) ps))
     | up \<Rightarrow> backtrackAll (filled_dp a b) (int i) (int (j - 1))
     | left \<Rightarrow> backtrackAll (filled_dp a b) (int (i - 1)) (int j)
     | upAndLeft \<Rightarrow> rbind (backtrackAll (filled_dp a b) (int i) (int (j - 1))) (\<lambda>ps.
         rbind (backtrackAll (filled_dp a b) (int (i - 1)) (int j)) (\<lambda>qs. Inr (ps @ qs))))"
proof -
  have i: "int i - 1 = int (i - 1)" "int j - 1 = int (j - 1)" "i - 1 < length a" using assms by auto
  have id: "rbind m Inr = m" for m :: "'b res" by (cases m) auto
  show ?thesis
    unfolding backtrackAll.simps [of _ "int i" "int j"] dir_filled [OF assms(3,4)] i(1,2) dp_extend_def
    using assms i(3) by (simp del: of_nat_diff add: id split: direction.splits cong: if_cong)
qed

lemma backtrackAll_lcs:
  "i \<le> length a \<Longrightarrow> j \<le> length b \<Longrightarrow>
   \<exists>ps. backtrackAll (filled_dp a b) (int i) (int j) = Inr ps \<and> all_paths a b i j ps"
proof (induction a b i j rule: L.induct)
  case (3 a b i j)
  note step = backtrackAll_step [of "Suc i" "Suc j" a b]
  have ij: "i < length a" "j < length b" using "3.prems" by auto
  show ?case
  proof (cases "a ! i = b ! j")
    case True
    then obtain ps where "backtrackAll (filled_dp a b) (int i) (int j) = Inr ps" "all_paths a b i j ps"
      using 3 by auto
    then show ?thesis
      using step True "3.prems" lcs_set_same [OF ij True] lcs_set_zero [of a b i j]
        lcs_set_nonempty [of i a j b]
      by (auto simp: D_def all_paths_def split: if_splits)
  next
    case False
    obtain p1 where "backtrackAll (filled_dp a b) (int (Suc i)) (int j) = Inr p1" "all_paths a b (Suc i) j p1"
      using "3.IH"(2) [OF False] "3.prems" by auto
    moreover obtain p2 where "backtrackAll (filled_dp a b) (int i) (int (Suc j)) = Inr p2"
        "all_paths a b i (Suc j) p2"
      using "3.IH"(3) [OF False] "3.prems" by auto
    ultimately show ?thesis
      using step False "3.prems" lcs_set_diff [OF ij False]
      by (auto simp: D_def all_paths_def max_def split: if_splits)
  qed
qed (auto simp: all_paths_def backtrackAll.simps)

section \<open>Edit scripts\<close>

definition identical :: "'a EditScript \<Rightarrow> 'a list" where
  "identical es = map Val (filter (\<lambda>e. Op e = Identical) es)"

definition edits :: "'a EditScript \<Rightarrow> nat" where
  "edits es = length (filter (\<lambda>e. Op e \<noteq> Identical) es)"

text \<open>
  \<open>script es xs ys\<close>: the edits \<open>es\<close> consume \<open>xs\<close> and produce \<open>ys\<close>, each deletion consuming an element,
  each insertion producing one, and each identity doing both.
\<close>

fun script :: "'a EditScript \<Rightarrow> 'a list \<Rightarrow> 'a list \<Rightarrow> bool" where
  "script [] xs ys = (xs = [] \<and> ys = [])"
| "script (e # es) xs ys =
     (case Op e of
        Insert \<Rightarrow> (case ys of [] \<Rightarrow> False | y # ys' \<Rightarrow> y = Val e \<and> script es xs ys')
      | Delete \<Rightarrow> (case xs of [] \<Rightarrow> False | x # xs' \<Rightarrow> x = Val e \<and> script es xs' ys)
      | Identical \<Rightarrow>
          (case (xs, ys) of (x # xs', y # ys') \<Rightarrow> x = Val e \<and> y = Val e \<and> script es xs' ys' | _ \<Rightarrow> False))"

lemma script_common:
  "script es xs ys \<Longrightarrow> common (identical es) xs ys \<and> edits es + 2 * length (identical es) = length xs + length ys"
  by (induction es xs ys rule: script.induct)
    (auto simp: common_def identical_def edits_def split: EditOp.splits list.splits)

lemma script_snoc:
  "script es xs ys \<Longrightarrow> script (es @ [e]) (if Op e = Insert then xs else xs @ [Val e])
     (if Op e = Delete then ys else ys @ [Val e])"
  by (induction es xs ys rule: script.induct) (cases "Op e"; auto split: EditOp.splits list.splits)+

lemma script_minimal:
  assumes "script es xs ys" "is_lcs (identical es) xs ys" "script es' xs ys"
  shows "edits es \<le> edits es'"
  using script_common [OF assms(1)] script_common [OF assms(3)] assms(2) by (force simp: is_lcs_def)

lemma rfold_snoc: "rfold f (xs @ [x]) s = rbind (rfold f xs s) (f x)"
  unfolding rfold_append by (cases "rfold f xs s") (auto, cases "f x (projr (rfold f xs s))", auto)

lemma Reverse_snoc: "Reverse (es @ [e]) = Reverse es @ Reverse [e]"
  by (simp add: Reverse_def)

definition diff_ok :: "'a list \<Rightarrow> 'a list \<Rightarrow> nat \<Rightarrow> nat \<Rightarrow> 'a EditScript \<Rightarrow> bool" where
  "diff_ok a b i j es \<longleftrightarrow> script es (take i a) (take j b) \<and>
     backtrack (filled_dp a b) (int i) (int j) = Inr (identical es) \<and>
     rfold (apply_action a) es [] = Inr (take j b) \<and>
     rfold (apply_action b) (Reverse es) [] = Inr (take i a)"

lemma diff_step:
  assumes "i \<le> length a" "j \<le> length b"
  shows "diff (filled_dp a b) (int i) (int j) =
    (if 0 < i \<and> 0 < j \<and> D a b i j = diagonal
     then rbind (diff (filled_dp a b) (int (i - 1)) (int (j - 1))) (\<lambda>es.
          Inr (es @ [\<lparr>Op = Identical, A = int (i - 1), B = int (j - 1), Val = b ! (j - 1)\<rparr>]))
     else if 0 < j \<and> (i = 0 \<or> D a b i j = up \<or> D a b i j = upAndLeft)
     then rbind (diff (filled_dp a b) (int i) (int (j - 1))) (\<lambda>es.
          Inr (es @ [\<lparr>Op = Insert, A = int i, B = int (j - 1), Val = b ! (j - 1)\<rparr>]))
     else if 0 < i \<and> (j = 0 \<or> D a b i j = left)
     then rbind (diff (filled_dp a b) (int (i - 1)) (int j)) (\<lambda>es.
          Inr (es @ [\<lparr>Op = Delete, A = int (i - 1), B = int j, Val = a ! (i - 1)\<rparr>]))
     else Inr [])"
proof -
  have i: "0 < i \<Longrightarrow> int i - 1 = int (i - 1)" "0 < j \<Longrightarrow> int j - 1 = int (j - 1)" by auto
  have get: "0 < i \<Longrightarrow> sl_get a (int (i - 1)) = Inr (a ! (i - 1))"
    "0 < j \<Longrightarrow> sl_get b (int (j - 1)) = Inr (b ! (j - 1))"
    using assms sl_get_int [of "i - 1" a] sl_get_int [of "j - 1" b] by (auto simp del: of_nat_diff)
  show ?thesis
    unfolding diff.simps [of _ "int i" "int j"] dir_filled [OF assms]
    by (simp del: of_nat_diff One_nat_def add: i get cong: if_cong)
qed

lemma diff_correct:
  "i \<le> length a \<Longrightarrow> j \<le> length b \<Longrightarrow>
     \<exists>es. diff (filled_dp a b) (int i) (int j) = Inr es \<and> diff_ok a b i j es"
proof (induction "i + j" arbitrary: i j rule: less_induct)
  case less
  note step = diff_step [OF less.prems]
  have ta: "take i a = take (i - 1) a @ [a ! (i - 1)]" if "0 < i"
    using that less.prems take_Suc_conv_app_nth [of "i - 1" a] by simp
  have tb: "take j b = take (j - 1) b @ [b ! (j - 1)]" if "0 < j"
    using that less.prems take_Suc_conv_app_nth [of "j - 1" b] by simp
  have hyps: "\<exists>es. diff (filled_dp a b) (int i') (int j') = Inr es \<and> diff_ok a b i' j' es"
    if "i' \<le> i" "j' \<le> j" "i' + j' < i + j" for i' j'
    using less.hyps [of i' j'] that less.prems by simp
  note snoc = diff_ok_def rfold_snoc Reverse_snoc identical_def
  consider (diag) "0 < i" "0 < j" "a ! (i - 1) = b ! (j - 1)" "D a b i j = diagonal"
    | (ins) "0 < j" "i = 0 \<or> D a b i j = up \<or> D a b i j = upAndLeft" "0 < i \<Longrightarrow> D a b i j \<noteq> diagonal"
    | (del) "0 < i" "j = 0 \<or> D a b i j = left" "0 < j \<Longrightarrow> D a b i j \<noteq> diagonal" | (nil) "i = 0" "j = 0"
    using less.prems by (cases "D a b i j") (auto simp: D_def split: if_splits)
  then show ?case
  proof cases
    case diag
    then obtain es where "diff (filled_dp a b) (int (i - 1)) (int (j - 1)) = Inr es" "diff_ok a b (i - 1) (j - 1) es"
      using hyps [of "i - 1" "j - 1"] by auto
    then show ?thesis
      using diag step less.prems backtrack_step [of i j a b] sl_get_int [of "i - 1" a]
        script_snoc [of es _ _ "\<lparr>Op = Identical, A = int (i - 1), B = int (j - 1), Val = b ! (j - 1)\<rparr>"]
      by (auto simp del: of_nat_diff simp: snoc ta tb apply_action_def Reverse_def)
  next
    case ins
    then obtain es where "diff (filled_dp a b) (int i) (int (j - 1)) = Inr es" "diff_ok a b i (j - 1) es"
      using hyps [of i "j - 1"] by auto
    then show ?thesis
      using ins step less.prems backtrack_step [of i j a b]
        script_snoc [of es _ _ "\<lparr>Op = Insert, A = int i, B = int (j - 1), Val = b ! (j - 1)\<rparr>"]
      by (cases "i = 0") (auto simp del: of_nat_diff simp: snoc tb apply_action_def Reverse_def)
  next
    case del
    then obtain es where "diff (filled_dp a b) (int (i - 1)) (int j) = Inr es" "diff_ok a b (i - 1) j es"
      using hyps [of "i - 1" j] by auto
    then show ?thesis
      using del step less.prems backtrack_step [of i j a b]
        script_snoc [of es _ _ "\<lparr>Op = Delete, A = int (i - 1), B = int j, Val = a ! (i - 1)\<rparr>"]
      by (cases "j = 0") (auto simp del: of_nat_diff simp: snoc ta apply_action_def Reverse_def)
  next
    case nil
    then show ?thesis using step by (simp add: diff_ok_def identical_def Reverse_def)
  qed
qed

lemma lcs_full:
  assumes "common zs a b" "length zs = L a b (length a) (length b)"
  shows "is_lcs zs a b"
  using assms common_length [of "length a" a "length b" b] by (auto simp: is_lcs_def)

lemma is_lcs_iff:
  "is_lcs zs a b \<longleftrightarrow> zs \<in> lcs_set a b (length a) (length b)"
proof
  assume zs: "is_lcs zs a b"
  obtain ws where ws: "common ws a b" "length ws = L a b (length a) (length b)"
    using backtrack_lcs [of "length a" a "length b" b] by auto
  then have "length zs = L a b (length a) (length b)"
    using zs common_length [of "length a" a "length b" b zs] by (fastforce simp: is_lcs_def)
  then show "zs \<in> lcs_set a b (length a) (length b)" using zs by (simp add: lcs_set_def is_lcs_def)
qed (auto simp: lcs_set_def intro: lcs_full)

lemma SES_minimal:
  "\<exists>es dp. SES (NewDP a b) = Inr (es, dp) \<and> Apply es a = Inr b \<and> Apply (Reverse es) b = Inr a \<and>
     is_lcs (identical es) a b \<and> script es a b \<and> (\<forall>es'. script es' a b \<longrightarrow> edits es \<le> edits es')"
proof -
  obtain es where es: "diff (filled_dp a b) (int (length a)) (int (length b)) = Inr es"
      "script es a b" "backtrack (filled_dp a b) (int (length a)) (int (length b)) = Inr (identical es)"
      "rfold (apply_action a) es [] = Inr b" "rfold (apply_action b) (Reverse es) [] = Inr a"
    using diff_correct [of "length a" a "length b" b] by (auto simp: diff_ok_def)
  have lcs: "is_lcs (identical es) a b"
    using backtrack_lcs [of "length a" a "length b" b] es(3) lcs_full [of "identical es" a b] by auto
  have "directions (NewDP a b) \<noteq> []" by (simp add: NewDP_def make2_def)
  then have "SES (NewDP a b) = Inr (es, filled_dp a b)" using es(1) by (simp add: SES_def fill_NewDP)
  moreover have "Apply es a = Inr b" "Apply (Reverse es) b = Inr a"
    using es(2,4,5) by (auto simp: Apply_def Reverse_def)
  ultimately show ?thesis using lcs es(2) script_minimal [OF es(2) lcs] by blast
qed

section \<open>Properties\<close>

text \<open>
  C12: for all slices \<^verbatim>\<open>LCS\<close> returns a longest common subsequence and \<^verbatim>\<open>AllLCS\<close> returns exactly the
  longest common subsequences (none at all when the longest one is empty); no table access is out
  of bounds. Calling them again on the filled table gives the same answers.
\<close>

theorem dp_lcs_correct:
  "\<exists>zs ps dp. LCS (NewDP a b) = Inr (zs, dp) \<and> is_lcs zs a b \<and> AllLCS (NewDP a b) = Inr (ps, dp) \<and>
     set ps = (if zs = [] then {} else {ws. is_lcs ws a b}) \<and>
     LCS dp = Inr (zs, dp) \<and> AllLCS dp = Inr (ps, dp)"
proof -
  obtain zs where zs: "backtrack (filled_dp a b) (int (length a)) (int (length b)) = Inr zs"
      "common zs a b" "length zs = L a b (length a) (length b)"
    using backtrack_lcs [of "length a" a "length b" b] by auto
  obtain ps where ps: "backtrackAll (filled_dp a b) (int (length a)) (int (length b)) = Inr ps"
      "all_paths a b (length a) (length b) ps"
    using backtrackAll_lcs [of "length a" a "length b" b] by auto
  have "set ps = (if zs = [] then {} else {ws. is_lcs ws a b})"
    using ps(2) zs(3) by (cases zs) (auto simp: all_paths_def is_lcs_iff)
  then show ?thesis
    using zs ps(1) lcs_full [OF zs(2,3)] by (simp add: LCS_def AllLCS_def fill_NewDP)
qed

text \<open>
  C13: the edit script returned by \<^verbatim>\<open>SES\<close> transforms \<^verbatim>\<open>a\<close> into \<^verbatim>\<open>b\<close> when applied, its \<^verbatim>\<open>Reverse\<close>
  transforms \<^verbatim>\<open>b\<close> back into \<^verbatim>\<open>a\<close>, the values it marks identical are a longest common subsequence,
  and no edit script from \<^verbatim>\<open>a\<close> to \<^verbatim>\<open>b\<close> has fewer insertions and deletions.
\<close>

theorem dp_ses_correct:
  "\<exists>es dp. SES (NewDP a b) = Inr (es, dp) \<and> Apply es a = Inr b \<and> Apply (Reverse es) b = Inr a \<and>
     is_lcs (identical es) a b \<and> script es a b \<and> (\<forall>es'. script es' a b \<longrightarrow> edits es \<le> edits es')"
  by (rule SES_minimal)

theorem dp_ses_correct_witness:
  "\<exists>es dp. SES (NewDP ''abc'' ''acd'') = Inr (es, dp) \<and> Apply es ''abc'' = Inr ''acd'' \<and>
     Apply (Reverse es) ''acd'' = Inr ''abc'' \<and> edits es \<le> 2"
proof -
  let ?es = "[\<lparr>Op = Identical, A = 0, B = 0, Val = CHR ''a''\<rparr>, \<lparr>Op = Delete, A = 1, B = 1, Val = CHR ''b''\<rparr>,
     \<lparr>Op = Identical, A = 2, B = 1, Val = CHR ''c''\<rparr>, \<lparr>Op = Insert, A = 3, B = 2, Val = CHR ''d''\<rparr>]"
  have "script ?es ''abc'' ''acd''" "edits ?es = 2" by (simp_all add: edits_def)
  then show ?thesis using dp_ses_correct [of "''abc''" "''acd''"] by metis
qed

end
