(* ===== verification/Edit_Graph.thy ===== *)
theory Edit_Graph
  imports LCS_DP
begin

text \<open>
  The edit graph of two sequences: \<open>cost m x y\<close> is the least number of horizontal and vertical moves from the
  origin to the point \<open>(x, y)\<close> when the diagonal move from \<open>(i, j)\<close> is free where \<open>m i j\<close> holds. The
  graph has no right or lower border, as the searches of \<^verbatim>\<open>algo/lcs/myers.go\<close> run past the ends of their
  inputs. Costs do not decrease along a diagonal, which is what the searches rest on.
\<close>

section \<open>Costs\<close>

fun cost :: "(nat \<Rightarrow> nat \<Rightarrow> bool) \<Rightarrow> nat \<Rightarrow> nat \<Rightarrow> nat" where
  "cost m 0 y = y"
| "cost m (Suc x) 0 = Suc x"
| "cost m (Suc x) (Suc y) = (if m x y then cost m x y else Suc (min (cost m x (Suc y)) (cost m (Suc x) y)))"

lemma cost_0 [simp]: "cost m x 0 = x"
  by (cases x) auto

text \<open>Neighbours differ by at most 1.\<close>

lemma cost_neighbours:
  "cost m (Suc x) y \<le> Suc (cost m x y) \<and> cost m x (Suc y) \<le> Suc (cost m x y) \<and>
   cost m x y \<le> Suc (cost m (Suc x) y) \<and> cost m x y \<le> Suc (cost m x (Suc y))"
proof (induction "x + y" arbitrary: x y rule: less_induct)
  case less
  have r: "cost m (Suc x) y \<le> Suc (cost m x y) \<and> cost m x y \<le> Suc (cost m (Suc x) y)"
  proof (cases y)
    case (Suc y')
    have "cost m x (Suc y') \<le> Suc (cost m x y')" "cost m x y' \<le> Suc (cost m (Suc x) y')" "cost m x y' \<le> Suc (cost m x (Suc y'))"
      using less [of x y'] Suc by auto
    then show ?thesis using Suc by auto
  qed simp
  have d: "cost m x (Suc y) \<le> Suc (cost m x y) \<and> cost m x y \<le> Suc (cost m x (Suc y))"
  proof (cases x)
    case (Suc x')
    have "cost m (Suc x') y \<le> Suc (cost m x' y)" "cost m x' y \<le> Suc (cost m x' (Suc y))" "cost m x' y \<le> Suc (cost m (Suc x') y)"
      using less [of x' y] Suc by auto
    then show ?thesis using Suc by auto
  qed simp
  show ?case using r d by blast
qed

lemmas cost_right = cost_neighbours [THEN conjunct1]
  and cost_down = cost_neighbours [THEN conjunct2, THEN conjunct1]
  and cost_left = cost_neighbours [THEN conjunct2, THEN conjunct2, THEN conjunct1]
  and cost_up = cost_neighbours [THEN conjunct2, THEN conjunct2, THEN conjunct2]

lemma cost_match: "m x y \<Longrightarrow> cost m (Suc x) (Suc y) = cost m x y"
  by simp

lemma cost_diagonal_step: "cost m x y \<le> cost m (Suc x) (Suc y)"
  using cost_up [of m x y] cost_left [of m x y] by auto

lemma cost_diagonal: "cost m x y \<le> cost m (x + i) (y + i)"
  by (induction i) (auto intro: order_trans cost_diagonal_step simp del: cost.simps)

lemma cost_diagonal_le:
  assumes "x \<le> x'" "int x' - int y' = int x - int y"
  shows "cost m x y \<le> cost m x' y'"
proof -
  have "x' = x + (x' - x)" "y' = y + (x' - x)" using assms by auto
  then show ?thesis using cost_diagonal [of m x y "x' - x"] by simp
qed

lemma cost_add_down: "cost m x (y + j) \<le> cost m x y + j"
proof (induction j)
  case (Suc j)
  then show ?case using cost_down [of m x "y + j"] by (simp del: cost.simps)
qed simp

lemma cost_add_right: "cost m (x + i) y \<le> cost m x y + i"
proof (induction i)
  case (Suc i)
  then show ?case using cost_right [of m "x + i" y] by (simp del: cost.simps)
qed simp

lemma cost_max: "cost m x y \<le> x + y"
  using cost_add_down [of m x 0 y] by simp

lemma cost_min: "x \<le> cost m x y + y" "y \<le> cost m x y + x"
  by (induction m x y rule: cost.induct) auto

lemma cost_parity: "even (cost m x y + x + y)"
  by (induction m x y rule: cost.induct) (auto simp: min_def)

lemma cost_run:
  assumes "\<And>i. i < n \<Longrightarrow> m (x + i) (y + i)"
  shows "cost m (x + n) (y + n) = cost m x y"
  using assms by (induction n) auto

lemma cost_cong:
  assumes "\<And>i j. i < x \<Longrightarrow> j < y \<Longrightarrow> m i j = m' i j"
  shows "cost m x y = cost m' x y"
  using assms by (induction m x y rule: cost.induct) auto

lemma cost_zero: "cost m x y = 0 \<Longrightarrow> x = y \<and> (\<forall>i<x. m i i)"
proof (induction m x y rule: cost.induct)
  case (3 m x y)
  then show ?case by (auto simp: less_Suc_eq split: if_splits)
qed auto

section \<open>Beyond the ends\<close>

definition within :: "(nat \<Rightarrow> nat \<Rightarrow> bool) \<Rightarrow> nat \<Rightarrow> nat \<Rightarrow> bool" where
  "within m N M \<longleftrightarrow> (\<forall>i j. m i j \<longrightarrow> i < N \<and> j < M)"

lemma withinD: "within m N M \<Longrightarrow> m i j \<Longrightarrow> i < N \<and> j < M"
  by (simp add: within_def)

lemma cost_beyond_right_step:
  assumes "within m N M" "N \<le> x"
  shows "cost m (Suc x) y = Suc (cost m x y)"
proof (induction y)
  case (Suc y)
  have "\<not> m x y" using assms(2) withinD [OF assms(1)] by (meson not_le)
  then show ?case using Suc cost_down [of m x y] by (simp del: cost.simps add: cost.simps(3) min_def)
qed simp

lemma cost_beyond_down_step:
  assumes "within m N M" "M \<le> y"
  shows "cost m x (Suc y) = Suc (cost m x y)"
proof (induction x)
  case (Suc x)
  have "\<not> m x y" using assms(2) withinD [OF assms(1)] by (meson not_le)
  then show ?case using Suc cost_right [of m x y] by (simp del: cost.simps add: cost.simps(3) min_def)
qed simp

lemma cost_beyond_right: "within m N M \<Longrightarrow> N \<le> x \<Longrightarrow> cost m x y = cost m N y + (x - N)"
proof (induction "x - N" arbitrary: x)
  case (Suc n)
  then obtain x' where "x = Suc x'" "N \<le> x'" by (cases x) auto
  then show ?case using Suc cost_beyond_right_step [of m N M x' y] by (simp del: cost.simps add: Suc_diff_le)
qed simp

lemma cost_beyond_down: "within m N M \<Longrightarrow> M \<le> y \<Longrightarrow> cost m x y = cost m x M + (y - M)"
proof (induction "y - M" arbitrary: y)
  case (Suc n)
  then obtain y' where "y = Suc y'" "M \<le> y'" by (cases y) auto
  then show ?case using Suc cost_beyond_down_step [of m N M y' x] by (simp del: cost.simps add: Suc_diff_le)
qed simp

text \<open>
  A point of cost at most \<open>d\<close> on a diagonal that \<open>e\<close> moves reach from the end lies within the graph, unless
  the end has a cost of less than \<open>d + e\<close>.
\<close>

lemma cost_inside:
  assumes w: "within m N M" and c: "cost m x y \<le> d" and e: "\<bar>(int N - int M) - (int x - int y)\<bar> \<le> int e"
    and D: "d + e \<le> cost m N M"
  shows "x \<le> N \<and> y \<le> M"
proof (rule ccontr)
  assume "\<not> (x \<le> N \<and> y \<le> M)"
  then consider "N < x" "y \<le> M" | "N < x" "M < y" | "x \<le> N" "M < y" by linarith
  then show False
  proof cases
    case 1
    have "cost m N M \<le> cost m N y + (M - y)" using cost_add_down [of m N y "M - y"] 1 by simp
    then show ?thesis using cost_beyond_right [OF w, of x y] 1 c e D by linarith
  next
    case 2
    then show ?thesis using cost_beyond_right [OF w, of x y] cost_beyond_down [OF w, of y N] c D by linarith
  next
    case 3
    have "cost m N M \<le> cost m x M + (N - x)" using cost_add_right [of m x "N - x" M] 3 by simp
    then show ?thesis using cost_beyond_down [OF w, of y x] 3 c e D by linarith
  qed
qed

section \<open>Costs from the end\<close>

definition flip :: "(nat \<Rightarrow> nat \<Rightarrow> bool) \<Rightarrow> nat \<Rightarrow> nat \<Rightarrow> nat \<Rightarrow> nat \<Rightarrow> bool" where
  "flip m N M i j \<longleftrightarrow> i < N \<and> j < M \<and> m (N - 1 - i) (M - 1 - j)"

lemma flip_within: "within (flip m N M) N M"
  by (auto simp: within_def flip_def)

lemma flip_flip: "within m N M \<Longrightarrow> flip (flip m N M) N M = m"
  by (intro ext) (auto simp: flip_def dest: withinD)

lemma cost_split:
  "i \<le> N \<Longrightarrow> j \<le> M \<Longrightarrow> cost m N M \<le> cost m (N - i) (M - j) + cost (flip m N M) i j"
proof (induction "i + j" arbitrary: i j rule: less_induct)
  case less
  show ?case
  proof (cases "i = 0 \<or> j = 0")
    case True
    then show ?thesis
      using cost_add_down [of m N "M - j" j] cost_add_right [of m "N - i" i M] less.prems by auto
  next
    case False
    then obtain i' j' where ij: "i = Suc i'" "j = Suc j'" by (metis not0_implies_Suc)
    have s: "Suc (N - Suc i') = N - i'" "Suc (M - Suc j') = M - j'" using less.prems ij by auto
    show ?thesis
    proof (cases "flip m N M i' j'")
      case True
      then have "m (N - Suc i') (M - Suc j')" by (auto simp: flip_def)
      then have "cost m (N - i') (M - j') = cost m (N - Suc i') (M - Suc j')" by (metis cost_match s)
      then show ?thesis using less.hyps [of i' j'] less.prems ij True by simp
    next
      case False
      then have "cost (flip m N M) i j = Suc (min (cost (flip m N M) i' j) (cost (flip m N M) i j'))" by (simp add: ij)
      moreover have "cost m N M \<le> cost m (N - i') (M - j) + cost (flip m N M) i' j"
        "cost m N M \<le> cost m (N - i) (M - j') + cost (flip m N M) i j'"
        using less.hyps [of i' j] less.hyps [of i j'] less.prems ij by auto
      moreover have "cost m (N - i') (M - j) \<le> Suc (cost m (N - i) (M - j))" "cost m (N - i) (M - j') \<le> Suc (cost m (N - i) (M - j))"
        using cost_right [of m "N - i" "M - j"] cost_down [of m "N - i" "M - j"] by (auto simp: ij s)
      ultimately show ?thesis by linarith
    qed
  qed
qed

lemma cost_flip: "within m N M \<Longrightarrow> cost (flip m N M) N M = cost m N M"
  using cost_split [of N N M M m] cost_split [of N N M M "flip m N M"] by (simp add: flip_flip)

text \<open>On a shortest path the costs from the start take all values up to the cost of the end.\<close>

lemma cost_midpoint:
  assumes "p \<le> N" "q \<le> M" "cost m p q + cost (flip m N M) (N - p) (M - q) \<le> cost m N M" "e \<le> cost m p q"
  shows "\<exists>p'\<le>N. \<exists>q'\<le>M. cost m p' q' = e \<and> cost (flip m N M) (N - p') (M - q') = cost m N M - e"
  using assms
proof (induction "p + q" arbitrary: p q rule: less_induct)
  case less
  let ?c = "cost m" and ?f = "cost (flip m N M)"
  have eq: "?f (N - p') (M - q') = ?c N M - ?c p' q'" if "p' \<le> N" "q' \<le> M" "?c p' q' + ?f (N - p') (M - q') \<le> ?c N M" for p' q'
    using cost_split [of "N - p'" N "M - q'" M m] that by simp
  show ?case
  proof (cases "e = ?c p q")
    case True
    then show ?thesis using less.prems(1,2) eq [OF less.prems(1-3)] by blast
  next
    case False
    have sN: "p = Suc p' \<Longrightarrow> N - p' = Suc (N - p)" and sM: "q = Suc q' \<Longrightarrow> M - q' = Suc (M - q)" for p' q'
      using less.prems(1,2) by auto
    have go: ?thesis if "p' + q' < p + q" "p' \<le> p" "q' \<le> q" "?c p' q' + ?f (N - p') (M - q') \<le> ?c N M" "e \<le> ?c p' q'" for p' q'
      using less.hyps [OF that(1) _ _ that(4,5)] that(2,3) less.prems(1,2) by simp
    have R: "?f (Suc x) y \<le> Suc (?f x y)" "?f x (Suc y) \<le> Suc (?f x y)" for x y
      using cost_right [of "flip m N M"] cost_down [of "flip m N M"] by auto
    consider (x) p' where "p = Suc p'" "?c p q = Suc (?c p' q)" | (y) q' where "q = Suc q'" "?c p q = Suc (?c p q')"
      | (d) p' q' where "p = Suc p'" "q = Suc q'" "m p' q'"
      using False less.prems(4) by (cases p; cases q) (auto simp: min_def split: if_splits)
    then show ?thesis
    proof cases
      case x
      then show ?thesis using go [of p' q] R(1) [of "N - p" "M - q"] less.prems(3,4) False sN [OF x(1)] by simp
    next
      case y
      then show ?thesis using go [of p q'] R(2) [of "N - p" "M - q"] less.prems(3,4) False sM [OF y(1)] by simp
    next
      case d
      have "flip m N M (N - p) (M - q)" using d less.prems(1,2) by (auto simp: flip_def)
      then have "?f (N - p') (M - q') = ?f (N - p) (M - q)" unfolding sN [OF d(1)] sM [OF d(2)] by (rule cost_match)
      then show ?thesis using go [of p' q'] d less.prems(3,4) by simp
    qed
  qed
qed

lemma cost_middle:
  assumes "e \<le> cost m N M"
  shows "\<exists>p\<le>N. \<exists>q\<le>M. cost m p q = e \<and> cost (flip m N M) (N - p) (M - q) = cost m N M - e"
  by (rule cost_midpoint [of N N M M]) (use assms in auto)

text \<open>Where a search from the start and one from the end overlap they meet on a shortest path.\<close>

lemma cost_overlap:
  assumes w: "within m N M" and c: "cost m x y \<le> d" "cost (flip m N M) i j \<le> e"
    and diag: "int i - int j = (int N - int M) - (int x - int y)" and over: "N \<le> x + i"
    and D: "d + e \<le> cost m N M"
  shows "x \<le> N" "y \<le> M" "cost m x y = d" "cost (flip m N M) (N - x) (M - y) = e" "cost m N M = d + e"
proof -
  have k: "\<bar>(int N - int M) - (int x - int y)\<bar> \<le> int e" "\<bar>(int N - int M) - (int i - int j)\<bar> \<le> int d"
    using cost_min [of i "flip m N M" j] cost_min [of j "flip m N M" i] cost_min [of x m y] cost_min [of y m x] c diag by linarith+
  show xy: "x \<le> N" "y \<le> M" using cost_inside [OF w c(1) k(1) D] by auto
  have "cost (flip m N M) (N - x) (M - y) \<le> cost (flip m N M) i j"
    using xy diag over by (intro cost_diagonal_le) auto
  moreover have "cost m N M \<le> cost m x y + cost (flip m N M) (N - x) (M - y)"
    using cost_split [of "N - x" N "M - y" M m] xy by simp
  ultimately show "cost m x y = d" "cost (flip m N M) (N - x) (M - y) = e" "cost m N M = d + e" using c D by auto
qed

section \<open>Sequences\<close>

definition same :: "'a list \<Rightarrow> 'a list \<Rightarrow> nat \<Rightarrow> nat \<Rightarrow> bool" where
  "same a b i j \<longleftrightarrow> i < length a \<and> j < length b \<and> a ! i = b ! j"

definition dist :: "'a list \<Rightarrow> 'a list \<Rightarrow> nat" where
  "dist a b = cost (same a b) (length a) (length b)"

lemma same_within: "within (same a b) (length a) (length b)"
  by (simp add: within_def same_def)

lemma flip_same: "flip (same a b) (length a) (length b) = same (rev a) (rev b)"
  by (intro ext) (auto simp: flip_def same_def rev_nth)

lemma cost_take:
  assumes "x \<le> length a" "y \<le> length b"
  shows "cost (same a b) x y = dist (take x a) (take y b)"
proof -
  have "cost (same a b) x y = cost (same (take x a) (take y b)) x y" by (rule cost_cong) (use assms in \<open>auto simp: same_def\<close>)
  then show ?thesis using assms by (simp add: dist_def min_absorb2)
qed

lemma dist_rev: "dist (rev a) (rev b) = dist a b"
  using cost_flip [OF same_within, of a b] by (simp add: dist_def flip_same)

lemma cost_drop:
  assumes "x \<le> length a" "y \<le> length b"
  shows "cost (flip (same a b) (length a) (length b)) (length a - x) (length b - y) = dist (drop x a) (drop y b)"
proof -
  have "cost (same (rev a) (rev b)) (length a - x) (length b - y) = dist (take (length a - x) (rev a)) (take (length b - y) (rev b))"
    by (rule cost_take) simp_all
  then show ?thesis using assms dist_rev [of "drop x a" "drop y b"] by (simp add: flip_same take_rev)
qed

lemma cost_L:
  "x \<le> length a \<Longrightarrow> y \<le> length b \<Longrightarrow> cost (same a b) x y + 2 * L a b x y = x + y"
proof (induction a b x y rule: L.induct)
  case (3 a b x y)
  then have "same a b x y \<longleftrightarrow> a ! x = b ! y" by (simp add: same_def)
  then show ?case using 3 by (cases "a ! x = b ! y") (auto simp: min_def max_def)
qed auto

lemma dist_lcs: "dist a b + 2 * L a b (length a) (length b) = length a + length b"
  unfolding dist_def by (rule cost_L) simp_all

text \<open>A common subsequence that accounts for all but the edits is a longest one.\<close>

definition covers :: "'a list \<Rightarrow> 'a list \<Rightarrow> 'a list \<Rightarrow> bool" where
  "covers zs a b \<longleftrightarrow> common zs a b \<and> 2 * length zs + dist a b = length a + length b"

lemma covers_lcs: "covers zs a b \<Longrightarrow> is_lcs zs a b"
  using dist_lcs [of a b] by (intro lcs_full) (auto simp: covers_def)

lemma covers_exists: "\<exists>zs. covers zs a b"
  using backtrack_lcs [of "length a" a "length b" b] dist_lcs [of a b] by (auto simp: covers_def)

lemma covers_short:
  assumes "dist a b \<le> 1"
  shows "covers (if length a < length b then a else b) a b"
proof -
  obtain zs where zs: "subseq zs a" "subseq zs b" "2 * length zs + dist a b = length a + length b"
    using covers_exists [of a b] by (auto simp: covers_def common_def)
  have par: "even (dist a b + length a + length b)" unfolding dist_def by (rule cost_parity)
  have len: "length zs \<le> length a" "length zs \<le> length b" using zs by (auto dest: list_emb_length)
  show ?thesis
  proof (cases "length a < length b")
    case True
    then have "length zs = length a" using zs(3) len assms by linarith
    then have "zs = a" using zs(1) by (metis subseq_same_length)
    then show ?thesis using zs True by (simp add: covers_def common_def)
  next
    case False
    then have "length zs = length b" using zs(3) len assms by linarith
    then have "zs = b" using zs(2) by (metis subseq_same_length)
    then show ?thesis using zs False by (simp add: covers_def common_def)
  qed
qed

lemma dist_zero: "dist a b = 0 \<longleftrightarrow> a = b"
proof
  assume d: "dist a b = 0"
  then have "length a = length b" "\<forall>i<length a. same a b i i" using cost_zero [of "same a b"] by (auto simp: dist_def)
  then show "a = b" by (auto intro: nth_equalityI simp: same_def)
next
  assume "a = b"
  then show "dist a b = 0" using cost_run [of "length a" "same a b" 0 0] by (auto simp: dist_def same_def)
qed

end
