(* ===== verification/Myers.thy ===== *)
theory Myers
  imports Edit_Graph
begin

text \<open>
  Myers' difference algorithm, \<^verbatim>\<open>algo/lcs/myers.go\<close>: two searches, from the start and from the end of the inputs,
  extend furthest reaching paths until they overlap, which gives the middle of a shortest edit script;
  the parts before and after it are solved recursively. The sources keep indices in \<^verbatim>\<open>int32\<close> and the model
  in \<open>int\<close>: it is the program for inputs that have fewer than \<open>2 ^ 31 - 2\<close> elements together, for which no index
  wraps around.
\<close>

section \<open>Model\<close>

record 'a Myers =
  my_a :: "'a list"
  my_b :: "'a list"

definition NewMyers :: "'a list \<Rightarrow> 'a list \<Rightarrow> 'a Myers" where
  "NewMyers a b = \<lparr>my_a = a, my_b = b\<rparr>"

text \<open>The inner loops of the two searches, along matching elements.\<close>

function forward_snake :: "'a list \<Rightarrow> 'a list \<Rightarrow> int \<Rightarrow> int \<Rightarrow> (int \<times> int) res" where
  "forward_snake a b x y =
     (if x < int (length a) \<and> y < int (length b)
      then rbind (sl_get a x) (\<lambda>v. rbind (sl_get b y) (\<lambda>w.
           if v = w then forward_snake a b (x + 1) (y + 1) else Inr (x, y)))
      else Inr (x, y))"
  by pat_completeness auto
termination by (relation "measure (\<lambda>(a, b, x, y). nat (int (length a) - x))") auto

function reverse_snake :: "'a list \<Rightarrow> 'a list \<Rightarrow> int \<Rightarrow> int \<Rightarrow> (int \<times> int) res" where
  "reverse_snake a b x y =
     (if x < int (length a) \<and> y < int (length b)
      then rbind (sl_get a (int (length a) - x - 1)) (\<lambda>v. rbind (sl_get b (int (length b) - y - 1)) (\<lambda>w.
           if v = w then reverse_snake a b (x + 1) (y + 1) else Inr (x, y)))
      else Inr (x, y))"
  by pat_completeness auto
termination by (relation "measure (\<lambda>(a, b, x, y). nat (int (length a) - x))") auto

declare forward_snake.simps [simp del] reverse_snake.simps [simp del]

text \<open>The start of the path on diagonal \<open>k\<close>: a move down or right from the furthest paths with one edit less.\<close>

definition search_start :: "int list \<Rightarrow> int \<Rightarrow> int \<Rightarrow> int \<Rightarrow> int res" where
  "search_start vs d offset k =
     rbind (if k = - d then Inr True
            else if k \<noteq> d
            then rbind (sl_get vs (offset + k - 1)) (\<lambda>l. rbind (sl_get vs (offset + k + 1)) (\<lambda>r. Inr (l < r)))
            else Inr False) (\<lambda>down.
     if down then sl_get vs (offset + k + 1) else rbind (sl_get vs (offset + k - 1)) (\<lambda>l. Inr (l + 1)))"

text \<open>
  The loop over the diagonals, which the two searches share: \<open>snake\<close> is the inner loop and \<open>overlaps\<close> the test
  after it. The result is the path that overlaps, as its first and last points, and the updated slice.
\<close>

function search_loop :: "(int \<Rightarrow> int \<Rightarrow> (int \<times> int) res) \<Rightarrow> (int \<Rightarrow> int list \<Rightarrow> bool res) \<Rightarrow> int \<Rightarrow> int \<Rightarrow> int \<Rightarrow> int list \<Rightarrow>
    ((int \<times> int \<times> int \<times> int) option \<times> int list) res" where
  "search_loop snake overlaps d offset k vs =
     (if k \<le> d
      then rbind (search_start vs d offset k) (\<lambda>mx. let my = mx - k in
           rbind (snake mx my) (\<lambda>(x, y).
           rbind (sl_set vs (offset + k) x) (\<lambda>vs'.
           rbind (overlaps k vs') (\<lambda>hit.
           if hit then Inr (Some (mx, my, x, y), vs') else search_loop snake overlaps d offset (k + 2) vs'))))
      else Inr (None, vs))"
  by pat_completeness auto
termination by (relation "measure (\<lambda>(s, t, d, offset, k, vs). nat (d + 1 - k))") auto

declare search_loop.simps [simp del]

definition forward_overlaps :: "int \<Rightarrow> int \<Rightarrow> int \<Rightarrow> int list \<Rightarrow> int \<Rightarrow> int \<Rightarrow> int list \<Rightarrow> bool res" where
  "forward_overlaps na delta d rs offset k fs =
     (if remn delta 2 \<noteq> 0 \<and> - (k - delta) \<ge> - (d - 1) \<and> - (k - delta) \<le> d - 1
      then rbind (sl_get fs (offset + k)) (\<lambda>f. rbind (sl_get rs (offset - (k - delta))) (\<lambda>r. Inr (f + r \<ge> na)))
      else Inr False)"

definition forwardSearch :: "'a list \<Rightarrow> 'a list \<Rightarrow> int \<Rightarrow> int list \<Rightarrow> int list \<Rightarrow> int \<Rightarrow>
    ((int \<times> int \<times> int \<times> int \<times> int) option \<times> int list) res" where
  "forwardSearch a b d fs rs offset =
     (let na = int (length a); nb = int (length b); delta = na - nb
      in rbind (search_loop (forward_snake a b) (forward_overlaps na delta d rs offset) d offset (- d) fs) (\<lambda>(r, fs').
         Inr (map_option (\<lambda>(mx, my, x, y). (2 * d - 1, mx, my, x, y)) r, fs')))"

definition reverse_overlaps :: "int \<Rightarrow> int \<Rightarrow> int \<Rightarrow> int list \<Rightarrow> int \<Rightarrow> int \<Rightarrow> int list \<Rightarrow> bool res" where
  "reverse_overlaps na delta d fs offset k rs =
     (if remn delta 2 = 0 \<and> - (k - delta) \<ge> - d \<and> - (k - delta) \<le> d
      then rbind (sl_get rs (offset + k)) (\<lambda>r. rbind (sl_get fs (offset - (k - delta))) (\<lambda>f. Inr (r + f \<ge> na)))
      else Inr False)"

definition reverseSearch :: "'a list \<Rightarrow> 'a list \<Rightarrow> int \<Rightarrow> int list \<Rightarrow> int list \<Rightarrow> int \<Rightarrow>
    ((int \<times> int \<times> int \<times> int \<times> int) option \<times> int list) res" where
  "reverseSearch a b d fs rs offset =
     (let na = int (length a); nb = int (length b); delta = na - nb
      in rbind (search_loop (reverse_snake a b) (reverse_overlaps na delta d fs offset) d offset (- d) rs) (\<lambda>(r, rs').
         Inr (map_option (\<lambda>(mx, my, x, y). (2 * d, na - x, nb - y, na - mx, nb - my)) r, rs')))"

function middle_loop :: "'a list \<Rightarrow> 'a list \<Rightarrow> int \<Rightarrow> int \<Rightarrow> int \<Rightarrow> int list \<Rightarrow> int list \<Rightarrow> (int \<times> int \<times> int \<times> int \<times> int) res" where
  "middle_loop a b halfway offset d fs rs =
     (if d \<le> halfway
      then rbind (forwardSearch a b d fs rs offset) (\<lambda>(r, fs').
           case r of Some s \<Rightarrow> Inr s
           | None \<Rightarrow> rbind (reverseSearch a b d fs' rs offset) (\<lambda>(r, rs').
               case r of Some s \<Rightarrow> Inr s
               | None \<Rightarrow> middle_loop a b halfway offset (d + 1) fs' rs'))
      else Inl (Panic ''unreachable''))"
  by pat_completeness auto
termination by (relation "measure (\<lambda>(a, b, halfway, offset, d, fs, rs). nat (halfway + 1 - d))") auto

declare middle_loop.simps [simp del]

definition middleSnake :: "'a list \<Rightarrow> 'a list \<Rightarrow> (int \<times> int \<times> int \<times> int \<times> int) res" where
  "middleSnake a b =
     (let maxe = int (length a) + int (length b)
      in rbind (sl_make 0 (maxe + 2)) (\<lambda>fs. rbind (sl_make 0 (maxe + 2)) (\<lambda>rs.
         let offset = quot (int (length fs)) 2;
             halfway = quot maxe 2 + (if remn maxe 2 \<noteq> 0 then 1 else 0)
         in middle_loop a b halfway offset 0 fs rs)))"

section \<open>Snakes\<close>

lemma forward_snake_ok:
  "\<exists>n. forward_snake a b (int x) (int y) = Inr (int (x + n), int (y + n)) \<and>
     (\<forall>i<n. same a b (x + i) (y + i)) \<and> \<not> same a b (x + n) (y + n)"
proof (induction "length a - x" arbitrary: x y rule: less_induct)
  case less
  show ?case
  proof (cases "same a b x y")
    case True
    then have s: "forward_snake a b (int x) (int y) = forward_snake a b (int (Suc x)) (int (Suc y))"
      by (simp add: forward_snake.simps [of a b "int x"] same_def add.commute)
    obtain n where n: "forward_snake a b (int (Suc x)) (int (Suc y)) = Inr (int (Suc x + n), int (Suc y + n))"
      "\<forall>i<n. same a b (Suc x + i) (Suc y + i)" "\<not> same a b (Suc x + n) (Suc y + n)"
      using less [of "Suc x" "Suc y"] True diff_less_mono2 [of x "Suc x" "length a"] by (auto simp: same_def)
    have "same a b (x + i) (y + i)" if "i < Suc n" for i
      using that n(2) True by (cases i) auto
    then show ?thesis using s n by (intro exI [of _ "Suc n"]) simp
  next
    case False
    then show ?thesis by (intro exI [of _ 0]) (auto simp: forward_snake.simps [of a b "int x"] same_def)
  qed
qed

lemma reverse_snake_eq: "reverse_snake a b (int x) (int y) = forward_snake (rev a) (rev b) (int x) (int y)"
proof (induction "length a - x" arbitrary: x y rule: less_induct)
  case less
  show ?case
  proof (cases "x < length a \<and> y < length b")
    case True
    then have g: "sl_get a (int (length a) - int x - 1) = Inr (rev a ! x)" "sl_get b (int (length b) - int y - 1) = Inr (rev b ! y)"
      by (auto simp: sl_get_def rev_nth nat_diff_distrib intro!: arg_cong [of _ _ "nth _"])
    have "reverse_snake a b (int (Suc x)) (int (Suc y)) = forward_snake (rev a) (rev b) (int (Suc x)) (int (Suc y))"
      using True by (intro less) auto
    then show ?thesis using True g
      by (simp add: reverse_snake.simps [of a b "int x"] forward_snake.simps [of "rev a" "rev b" "int x"] add.commute)
  next
    case False
    then show ?thesis by (auto simp: reverse_snake.simps [of a b "int x"] forward_snake.simps [of "rev a" "rev b" "int x"])
  qed
qed

section \<open>Furthest reaching paths\<close>

text \<open>\<open>furthest m d k v\<close>: the last point of diagonal \<open>k\<close> with a cost of at most \<open>d\<close> has the abscissa \<open>v\<close>.\<close>

definition furthest :: "(nat \<Rightarrow> nat \<Rightarrow> bool) \<Rightarrow> nat \<Rightarrow> int \<Rightarrow> int \<Rightarrow> bool" where
  "furthest m d k v \<longleftrightarrow> (\<exists>x y. v = int x \<and> int x - int y = k \<and> cost m x y \<le> d \<and> d < cost m (Suc x) (Suc y))"

lemma furthest_greatest:
  assumes "furthest m d k v" "int x - int y = k" "cost m x y \<le> d"
  shows "int x \<le> v"
proof (rule ccontr)
  obtain p q where p: "v = int p" "int p - int q = k" "d < cost m (Suc p) (Suc q)" using assms(1) by (auto simp: furthest_def)
  assume "\<not> int x \<le> v"
  then have "cost m (Suc p) (Suc q) \<le> cost m x y" using p assms(2) by (intro cost_diagonal_le) auto
  then show False using p(3) assms(3) by simp
qed

lemma furthest_beyond:
  assumes "furthest m d k v" "int x - int y = k" "v < int x"
  shows "d < cost m x y"
  using furthest_greatest [OF assms(1,2)] assms(3) by force

text \<open>
  A slice during the search with \<open>d\<close> edits, up to diagonal \<open>k\<close>: the entries of the diagonals before \<open>k\<close> are
  up to date and the ones between them are those of the search with one edit less.
\<close>

definition searched :: "(nat \<Rightarrow> nat \<Rightarrow> bool) \<Rightarrow> int \<Rightarrow> nat \<Rightarrow> int \<Rightarrow> int list \<Rightarrow> bool" where
  "searched m offset d k vs \<longleftrightarrow>
     (d = 0 \<longrightarrow> k \<le> 0 \<longrightarrow> vs ! nat (offset + 1) = 0) \<and>
     (\<forall>j. \<bar>j\<bar> < int d \<longrightarrow> odd (j + int d) \<longrightarrow> furthest m (d - 1) j (vs ! nat (offset + j))) \<and>
     (\<forall>j. - int d \<le> j \<longrightarrow> j < k \<longrightarrow> even (j + int d) \<longrightarrow> furthest m d j (vs ! nat (offset + j)))"

definition fits :: "int \<Rightarrow> nat \<Rightarrow> int list \<Rightarrow> bool" where
  "fits offset d vs \<longleftrightarrow> int d < offset + 1 \<and> offset + max 1 (int d) < int (length vs)"

lemma sl_get_fits: "fits offset d vs \<Longrightarrow> \<bar>j\<bar> \<le> int d \<Longrightarrow> sl_get vs (offset + j) = Inr (vs ! nat (offset + j))"
  by (auto simp: fits_def sl_get_def)

text \<open>Where the path on a diagonal starts: it has at most \<open>d\<close> edits and no shorter path gets past it.\<close>

definition started :: "(nat \<Rightarrow> nat \<Rightarrow> bool) \<Rightarrow> nat \<Rightarrow> int \<Rightarrow> nat \<Rightarrow> nat \<Rightarrow> bool" where
  "started m d k x y \<longleftrightarrow> int x - int y = k \<and> cost m x y \<le> d \<and> d \<le> cost m x (Suc y) \<and> d \<le> cost m (Suc x) y \<and>
     (d = 0 \<longrightarrow> x = 0 \<and> y = 0) \<and>
     (0 < d \<longrightarrow> (\<exists>x'. x = Suc x' \<and> cost m x' y \<le> d - 1) \<or> (\<exists>y'. y = Suc y' \<and> cost m x y' \<le> d - 1))"

lemma started_down:
  assumes f: "furthest m (d - 1) (k + 1) v" and d: "0 < d" and g: "\<And>x y. v = int x \<Longrightarrow> int x - int y = k \<Longrightarrow> d \<le> cost m x (Suc y)"
  shows "\<exists>x y. v = int x \<and> started m d k x y"
proof -
  obtain x y where x: "v = int x" "int x - int y = k + 1" "cost m x y \<le> d - 1" "d - 1 < cost m (Suc x) (Suc y)"
    using f by (auto simp: furthest_def)
  then show ?thesis using d g [of x "Suc y"] cost_down [of m x y]
    by (intro exI [of _ x] exI [of _ "Suc y"]) (auto simp: started_def simp del: cost.simps)
qed

lemma started_right:
  assumes f: "furthest m (d - 1) (k - 1) v" and d: "0 < d" and g: "\<And>x y. v + 1 = int x \<Longrightarrow> int x - int y = k \<Longrightarrow> d \<le> cost m (Suc x) y"
  shows "\<exists>x y. v + 1 = int x \<and> started m d k x y"
proof -
  obtain x y where x: "v = int x" "int x - int y = k - 1" "cost m x y \<le> d - 1" "d - 1 < cost m (Suc x) (Suc y)"
    using f by (auto simp: furthest_def)
  then show ?thesis using d g [of "Suc x" y] cost_right [of m x y]
    by (intro exI [of _ "Suc x"] exI [of _ y]) (auto simp: started_def simp del: cost.simps)
qed

lemma search_start_ok:
  assumes s: "searched m offset d k vs" and f: "fits offset d vs" and k: "\<bar>k\<bar> \<le> int d" "even (k + int d)"
  shows "\<exists>x y. search_start vs (int d) offset k = Inr (int x) \<and> started m d k x y"
proof (cases "d = 0")
  case True
  then have "k = 0" "vs ! nat (offset + 1) = 0" using k(1) s by (auto simp: searched_def)
  moreover have "sl_get vs (offset + 1) = Inr (vs ! nat (offset + 1))" using f by (auto simp: fits_def sl_get_def)
  ultimately show ?thesis using True by (intro exI [of _ 0]) (simp add: search_start_def started_def)
next
  case False
  have prev: "furthest m (d - 1) j (vs ! nat (offset + j))" if "\<bar>j\<bar> < int d" "odd (j + int d)" for j
    using s that by (simp add: searched_def)
  have get: "sl_get vs (offset + j) = Inr (vs ! nat (offset + j))" if "\<bar>j\<bar> \<le> int d" for j by (rule sl_get_fits [OF f that])
  let ?l = "vs ! nat (offset + (k - 1))" and ?r = "vs ! nat (offset + (k + 1))"
  have far_lo: "d \<le> cost m x (Suc y)" if "int x - int y = - int d" for x y using cost_min(2) [of "Suc y" m x] that by linarith
  have far_hi: "d \<le> cost m (Suc x) y" if "int x - int y = int d" for x y using cost_min(1) [of "Suc x" m y] that by linarith
  have near: "k \<noteq> int d - 1" "k \<noteq> 1 - int d" using k(2) by auto
  consider (lo) "k = - int d" | (hi) "k = int d" "k \<noteq> - int d" | (mid) "\<bar>k - 1\<bar> < int d" "\<bar>k + 1\<bar> < int d" "k \<noteq> int d" "k \<noteq> - int d"
    using k(1) near by linarith
  then show ?thesis
  proof cases
    case lo
    then have "furthest m (d - 1) (k + 1) ?r" using False k by (intro prev) auto
    then have "\<exists>x y. ?r = int x \<and> started m d k x y" using False far_lo lo by (intro started_down) auto
    moreover have "search_start vs (int d) offset k = Inr ?r" using lo get [of "k + 1"] False by (simp add: search_start_def algebra_simps)
    ultimately show ?thesis by auto
  next
    case hi
    then have "furthest m (d - 1) (k - 1) ?l" using False k by (intro prev) auto
    then have "\<exists>x y. ?l + 1 = int x \<and> started m d k x y" using False far_hi hi by (intro started_right) auto
    moreover have "search_start vs (int d) offset k = Inr (?l + 1)" using hi get [of "k - 1"] False by (simp add: search_start_def algebra_simps)
    ultimately show ?thesis by auto
  next
    case mid
    have l: "furthest m (d - 1) (k - 1) ?l" and r: "furthest m (d - 1) (k + 1) ?r" using mid k(2) prev [of "k - 1"] prev [of "k + 1"] by simp_all
    have st: "search_start vs (int d) offset k = Inr (if ?l < ?r then ?r else ?l + 1)"
      using mid get [of "k - 1"] get [of "k + 1"] by (simp add: search_start_def algebra_simps)
    show ?thesis
    proof (cases "?l < ?r")
      case True
      have "d \<le> cost m x (Suc y)" if "?r = int x" "int x - int y = k" for x y
        using furthest_beyond [OF l, of x "Suc y"] that True False by simp
      then show ?thesis using started_down [OF r] False st True by auto
    next
      case 2: False
      have "d \<le> cost m (Suc x) y" if "?l + 1 = int x" "int x - int y = k" for x y
        using furthest_beyond [OF r, of "Suc x" y] that 2 False by simp
      then show ?thesis using started_right [OF l] False st 2 by auto
    qed
  qed
qed

section \<open>The loop over the diagonals\<close>

text \<open>A path that the loop reports: from the start on a diagonal along matching elements as far as they go.\<close>

definition path_found :: "(nat \<Rightarrow> nat \<Rightarrow> bool) \<Rightarrow> nat \<Rightarrow> int \<Rightarrow> nat \<Rightarrow> nat \<Rightarrow> nat \<Rightarrow> bool" where
  "path_found m d k x y n \<longleftrightarrow> started m d k x y \<and> (\<forall>i<n. m (x + i) (y + i)) \<and> \<not> m (x + n) (y + n)"

lemma path_furthest:
  assumes "path_found m d k x y n"
  shows "furthest m d k (int (x + n))" "cost m (x + n) (y + n) = cost m x y" "cost m x y \<le> d"
proof -
  have s: "int x - int y = k" "cost m x y \<le> d" "d \<le> cost m x (Suc y)" "d \<le> cost m (Suc x) y" "\<not> m (x + n) (y + n)"
    "\<And>i. i < n \<Longrightarrow> m (x + i) (y + i)" using assms by (auto simp: path_found_def started_def)
  show r: "cost m (x + n) (y + n) = cost m x y" using s(6) by (rule cost_run)
  show "cost m x y \<le> d" by (rule s(2))
  have "d \<le> cost m (x + n) (Suc (y + n))" "d \<le> cost m (Suc (x + n)) (y + n)"
    using cost_diagonal [of m x "Suc y" n] cost_diagonal [of m "Suc x" y n] s(3,4) by auto
  then have "d < cost m (Suc (x + n)) (Suc (y + n))" using s(5) by simp
  then show "furthest m d k (int (x + n))"
    unfolding furthest_def using r s(1,2) by (intro exI [of _ "x + n"] exI [of _ "y + n"]) (simp del: cost.simps)
qed

lemma searched_step:
  assumes s: "searched m offset d k vs" and f: "fits offset d vs" and k: "\<bar>k\<bar> \<le> int d" "even (k + int d)"
    and v: "furthest m d k v"
  shows "searched m offset d (k + 2) (vs[nat (offset + k) := v])"
proof -
  have n: "vs[nat (offset + k) := v] ! nat (offset + j) = (if j = k then v else vs ! nat (offset + j))" if "\<bar>j\<bar> \<le> int d" for j
  proof -
    have "nat (offset + k) < length vs" "nat (offset + j) = nat (offset + k) \<longleftrightarrow> j = k" using f k(1) that by (auto simp: fits_def)
    then show ?thesis by (auto simp: nth_list_update)
  qed
  have "k + 2 \<le> 0 \<longrightarrow> d \<noteq> 0" using k(1) by auto
  moreover have "furthest m (d - 1) j (vs[nat (offset + k) := v] ! nat (offset + j))" if "\<bar>j\<bar> < int d" "odd (j + int d)" for j
    using s that n [of j] k(2) by (auto simp: searched_def)
  moreover have "furthest m d j (vs[nat (offset + k) := v] ! nat (offset + j))" if j: "- int d \<le> j" "j < k + 2" "even (j + int d)" for j
  proof -
    have "j \<noteq> k + 1" using j(3) k(2) by auto
    then have "j < k \<or> j = k" "\<bar>j\<bar> \<le> int d" using j(1,2) k(1) by auto
    then show ?thesis using s j(1,3) n [of j] v by (auto simp: searched_def)
  qed
  ultimately show ?thesis by (auto simp: searched_def)
qed

lemma searched_next: "searched m offset d k vs \<Longrightarrow> int d < k \<Longrightarrow> searched m offset (Suc d) (- int (Suc d)) vs"
  by (auto simp: searched_def)

lemma search_loop_ok:
  assumes sn: "\<And>x y. \<exists>n. sn (int x) (int y) = Inr (int (x + n), int (y + n)) \<and> (\<forall>i<n. m (x + i) (y + i)) \<and> \<not> m (x + n) (y + n)"
    and ov: "\<And>k vs'. \<bar>k\<bar> \<le> int d \<Longrightarrow> even (k + int d) \<Longrightarrow> length vs' = length vs \<Longrightarrow> ov k vs' = Inr (test k (vs' ! nat (offset + k)))"
    and f: "fits offset d vs"
    and s: "searched m offset d k vs" "- int d \<le> k" "even (k + int d)"
      "\<And>j. - int d \<le> j \<Longrightarrow> j < k \<Longrightarrow> even (j + int d) \<Longrightarrow> \<not> test j (vs ! nat (offset + j))"
  shows "(\<exists>j x y n vs'. search_loop sn ov (int d) offset k vs = Inr (Some (int x, int y, int (x + n), int (y + n)), vs') \<and>
       \<bar>j\<bar> \<le> int d \<and> even (j + int d) \<and> path_found m d j x y n \<and> test j (int (x + n))) \<or>
     (\<exists>vs'. search_loop sn ov (int d) offset k vs = Inr (None, vs') \<and> length vs' = length vs \<and>
       searched m offset d (int d + 1) vs' \<and> (\<forall>j. \<bar>j\<bar> \<le> int d \<longrightarrow> even (j + int d) \<longrightarrow> \<not> test j (vs' ! nat (offset + j))))"
  using f s ov
proof (induction "nat (int d + 1 - k)" arbitrary: k vs rule: less_induct)
  case (less k vs)
  note f = less.prems(1) and s = less.prems(2-5) and ov = less.prems(6)
  show ?case
  proof (cases "k \<le> int d")
    case False
    then have "searched m offset d (int d + 1) vs" using s(1) by (auto simp: searched_def)
    then show ?thesis using False s(4) by (auto simp: search_loop.simps [of sn ov "int d" offset k])
  next
    case True
    then have k: "\<bar>k\<bar> \<le> int d" using s(2) by simp
    obtain x y where x: "search_start vs (int d) offset k = Inr (int x)" "started m d k x y"
      using search_start_ok [OF s(1) f k s(3)] by blast
    obtain n where n: "sn (int x) (int y) = Inr (int (x + n), int (y + n))" "\<forall>i<n. m (x + i) (y + i)" "\<not> m (x + n) (y + n)"
      using sn by blast
    have y: "int x - k = int y" using x(2) by (auto simp: started_def)
    have p: "path_found m d k x y n" using x(2) n by (simp add: path_found_def)
    let ?vs = "vs[nat (offset + k) := int (x + n)]"
    have i: "0 \<le> offset + k" "offset + k < int (length vs)" using f k by (auto simp: fits_def)
    have step: "search_loop sn ov (int d) offset k vs =
        (if test k (int (x + n)) then Inr (Some (int x, int y, int (x + n), int (y + n)), ?vs) else search_loop sn ov (int d) offset (k + 2) ?vs)"
      using True x(1) n(1) y i ov [OF k s(3), of ?vs] by (simp add: search_loop.simps [of sn ov "int d" offset k] Let_def sl_set_def)
    show ?thesis
    proof (cases "test k (int (x + n))")
      case True
      then show ?thesis using step k s(3) p by (simp only: if_True) blast
    next
      case False
      have s': "searched m offset d (k + 2) ?vs" by (rule searched_step [OF s(1) f k s(3) path_furthest(1) [OF p]])
      have t: "\<not> test j (?vs ! nat (offset + j))" if j: "- int d \<le> j" "j < k + 2" "even (j + int d)" for j
      proof -
        have "j \<noteq> k + 1" using j(3) s(3) by auto
        then consider "j = k" | "j < k" using j(2) by linarith
        then show ?thesis
        proof cases
          case 2
          then have "nat (offset + j) \<noteq> nat (offset + k)" using f j(1) k by (auto simp: fits_def)
          then show ?thesis using s(4) [OF j(1) 2 j(3)] by simp
        qed (use False i in simp)
      qed
      have "nat (int d + 1 - (k + 2)) < nat (int d + 1 - k)" "fits offset d ?vs" "- int d \<le> k + 2" "even (k + 2 + int d)"
        using True f s(2,3) by (auto simp: fits_def)
      from less.hyps [OF this(1,2) s' this(3,4) t] ov show ?thesis
        using step False by simp
    qed
  qed
qed

section \<open>The middle snake\<close>

text \<open>
  What the searches promise: the number of edits, and a run of matching elements in the middle of a
  shortest edit script, which splits it evenly and cannot be extended at one of its ends.
\<close>

definition middle :: "'a list \<Rightarrow> 'a list \<Rightarrow> nat \<Rightarrow> nat \<Rightarrow> nat \<Rightarrow> nat \<Rightarrow> nat \<Rightarrow> bool" where
  "middle a b d x y u v \<longleftrightarrow> dist a b = d \<and> x \<le> u \<and> u \<le> length a \<and> v \<le> length b \<and> u + y = v + x \<and>
     (\<forall>i<u - x. a ! (x + i) = b ! (y + i)) \<and>
     dist (take x a) (take y b) = (d + 1) div 2 \<and> dist (drop u a) (drop v b) = d div 2 \<and>
     (d = 0 \<longrightarrow> u = length a \<and> v = length b) \<and> (odd d \<longrightarrow> \<not> same a b u v) \<and>
     (even d \<longrightarrow> 0 < x \<longrightarrow> 0 < y \<longrightarrow> a ! (x - 1) \<noteq> b ! (y - 1)) \<and>
     (d = 1 \<longrightarrow> (\<exists>x'. x = Suc x' \<and> take x' a = take y b) \<or> (\<exists>y'. y = Suc y' \<and> take x a = take y' b))"

lemma dist_parity: "even (dist a b) \<longleftrightarrow> even (int (length a) - int (length b))"
  using cost_parity [of "same a b" "length a" "length b"] by (auto simp: dist_def)

lemma remn_even_iff: "remn i 2 = 0 \<longleftrightarrow> even i"
proof (cases "0 \<le> i")
  case False
  then have "quot i 2 = - ((- i) div 2)" by (simp add: quot_def sgn_if)
  then have "remn i 2 = - ((- i) mod 2)" by (simp add: remn_def minus_mult_div_eq_mod [symmetric] algebra_simps)
  then show ?thesis by (simp add: even_iff_mod_2_eq_zero mod_minus_eq) presburger
qed (simp add: even_iff_mod_2_eq_zero)

lemma forward_found:
  fixes a b :: "'a list"
  defines "m \<equiv> same a b" and "N \<equiv> length a" and "M \<equiv> length b"
  assumes p: "path_found m d k x y n" and D: "2 * d \<le> Suc (dist a b)"
    and r: "furthest (flip m N M) (d - 1) (int N - int M - k) r" "int N \<le> int (x + n) + r" and d: "0 < d"
  shows "middle a b (2 * d - 1) x y (x + n) (y + n)"
proof -
  have w: "within m N M" unfolding m_def N_def M_def by (rule same_within)
  have k: "int x - int y = k" using p by (simp add: path_found_def started_def)
  obtain i j where ij: "r = int i" "int i - int j = int N - int M - k" "cost (flip m N M) i j \<le> d - 1"
    using r(1) by (auto simp: furthest_def)
  have c: "cost m (x + n) (y + n) = cost m x y" "cost m (x + n) (y + n) \<le> d" using path_furthest [OF p] by auto
  have "int i - int j = int N - int M - (int (x + n) - int (y + n))" "N \<le> x + n + i" "d + (d - 1) \<le> cost m N M"
    using ij k r(2) D d by (auto simp: dist_def m_def N_def M_def)
  note o = cost_overlap [OF w c(2) ij(3) this]
  have "dist (take x a) (take y b) = d"
    using cost_take [of x a y b] o c(1) by (simp add: m_def N_def M_def)
  moreover have "dist (drop (x + n) a) (drop (y + n) b) = d - 1"
    using cost_drop [of "x + n" a "y + n" b] o by (simp add: m_def N_def M_def)
  moreover have "dist a b = 2 * d - 1" using o(5) d by (simp add: dist_def m_def N_def M_def)
  moreover have "a ! (x + i) = b ! (y + i)" if "i < n" for i using p that by (auto simp: path_found_def m_def same_def)
  moreover have "\<not> same a b (x + n) (y + n)" using p by (auto simp: path_found_def m_def)
  moreover have "(\<exists>x'. x = Suc x' \<and> take x' a = take y b) \<or> (\<exists>y'. y = Suc y' \<and> take x a = take y' b)" if "d = 1"
  proof -
    have "(\<exists>x'. x = Suc x' \<and> cost m x' y = 0) \<or> (\<exists>y'. y = Suc y' \<and> cost m x y' = 0)"
      using p that by (simp add: path_found_def started_def)
    then show ?thesis using o(1,2) cost_take [of _ a _ b] by (auto simp: m_def N_def M_def dist_zero)
  qed
  moreover have "2 * d - 1 = 1 \<longrightarrow> d = 1" "odd (2 * d - 1)" "(2 * d - 1 + 1) div 2 = d" "(2 * d - 1) div 2 = d - 1" using d by auto
  ultimately show ?thesis using o(1,2) d unfolding middle_def by (auto simp: N_def M_def)
qed

lemma reverse_found:
  fixes a b :: "'a list"
  defines "m \<equiv> same a b" and "N \<equiv> length a" and "M \<equiv> length b"
  assumes p: "path_found (flip m N M) d k x y n" and D: "2 * d \<le> dist a b"
    and r: "furthest m d (int N - int M - k) r" "int N \<le> int (x + n) + r"
  shows "x + n \<le> N \<and> y + n \<le> M \<and> middle a b (2 * d) (N - (x + n)) (M - (y + n)) (N - x) (M - y)"
proof -
  let ?f = "flip m N M"
  have w: "within m N M" unfolding m_def N_def M_def by (rule same_within)
  have ff: "flip ?f N M = m" by (rule flip_flip [OF w])
  have k: "int x - int y = k" using p by (simp add: path_found_def started_def)
  obtain i j where ij: "r = int i" "int i - int j = int N - int M - k" "cost m i j \<le> d"
    using r(1) by (auto simp: furthest_def)
  have c: "cost ?f (x + n) (y + n) = cost ?f x y" "cost ?f (x + n) (y + n) \<le> d" using path_furthest [OF p] by auto
  have "int i - int j = int N - int M - (int (x + n) - int (y + n))" "N \<le> x + n + i" "d + d \<le> cost ?f N M"
    using ij k r(2) D cost_flip [OF w] by (auto simp: dist_def m_def N_def M_def)
  note o = cost_overlap [OF flip_within c(2), where i = i and j = j and e = d, unfolded ff, OF ij(3) this]
  have s: "N - (N - x) = x" "M - (M - y) = y" "N - x \<le> N" "M - y \<le> M" "N - (x + n) \<le> N" "M - (y + n) \<le> M" using o(1,2) by auto
  have "dist (take (N - (x + n)) a) (take (M - (y + n)) b) = d"
    using cost_take [of "N - (x + n)" a "M - (y + n)" b] o(4) by (simp add: m_def N_def M_def)
  moreover have "dist (drop (N - x) a) (drop (M - y) b) = d"
    using cost_drop [of "N - x" a "M - y" b] o(3) c(1) s by (simp add: m_def N_def M_def)
  moreover have "dist a b = 2 * d" using o(5) cost_flip [OF w] by (simp add: dist_def m_def N_def M_def)
  moreover have "a ! (N - (x + n) + i) = b ! (M - (y + n) + i)" if "i < n" for i
  proof -
    have "n - 1 - i < n" using that by simp
    then have "?f (x + (n - 1 - i)) (y + (n - 1 - i))" using p unfolding path_found_def by blast
    then have "m (N - 1 - (x + (n - 1 - i))) (M - 1 - (y + (n - 1 - i)))" by (simp add: flip_def)
    moreover have "N - 1 - (x + (n - 1 - i)) = N - (x + n) + i" "M - 1 - (y + (n - 1 - i)) = M - (y + n) + i" using that o(1,2) by auto
    ultimately show ?thesis by (simp add: m_def same_def)
  qed
  moreover have "a ! (N - (x + n) - 1) \<noteq> b ! (M - (y + n) - 1)" if "0 < N - (x + n)" "0 < M - (y + n)"
  proof -
    have "\<not> ?f (x + n) (y + n)" using p by (simp add: path_found_def)
    then show ?thesis using that by (auto simp: flip_def m_def same_def N_def M_def diff_diff_add add.commute)
  qed
  moreover have "x = 0 \<and> y = 0" if "d = 0" using p that by (simp add: path_found_def started_def)
  moreover have "N - x - (N - (x + n)) = n" using o(1) by simp
  moreover have "N - x + (M - (y + n)) = M - y + (N - (x + n))" using o(1,2) by simp
  ultimately show ?thesis using o(1,2) unfolding middle_def by (simp add: N_def M_def)
qed

text \<open>If the searches with \<open>d\<close> edits do not overlap, the inputs are further apart.\<close>

lemma forward_missed:
  fixes a b :: "'a list"
  defines "m \<equiv> same a b" and "N \<equiv> length a" and "M \<equiv> length b"
  assumes f: "\<And>j. \<bar>j\<bar> \<le> int d \<Longrightarrow> even (j + int d) \<Longrightarrow> furthest m d j (F j)"
    and r: "\<And>j. \<bar>j\<bar> < int d \<Longrightarrow> odd (j + int d) \<Longrightarrow> furthest (flip m N M) (d - 1) j (R j)"
    and no: "\<And>j. \<bar>j\<bar> \<le> int d \<Longrightarrow> even (j + int d) \<Longrightarrow> odd (int N - int M) \<Longrightarrow> \<bar>int N - int M - j\<bar> < int d \<Longrightarrow>
      \<not> int N \<le> F j + R (int N - int M - j)"
  shows "Suc (dist a b) \<noteq> 2 * d"
proof
  assume D: "Suc (dist a b) = 2 * d"
  then have d: "0 < d" "d \<le> cost m N M" "cost m N M - d = d - 1" by (auto simp: dist_def m_def N_def M_def)
  obtain p q where pq: "p \<le> N" "q \<le> M" "cost m p q = d" "cost (flip m N M) (N - p) (M - q) = d - 1"
    using cost_middle [OF d(2)] d(3) by auto
  let ?k = "int p - int q"
  have "odd (dist a b)" using D by presburger
  then have odd: "odd (int N - int M)" using dist_parity [of a b] by (simp add: N_def M_def)
  have k: "\<bar>?k\<bar> \<le> int d" "even (?k + int d)"
    using cost_min [of p m q] cost_min [of q m p] cost_parity [of m p q] pq(3) by auto
  have l: "\<bar>int N - int M - ?k\<bar> < int d" "odd (int N - int M - ?k + int d)"
    using cost_min(1) [of "N - p" "flip m N M" "M - q"] cost_min(2) [of "M - q" "flip m N M" "N - p"] pq d(1) odd k(2) by auto
  have "int p \<le> F ?k" using furthest_greatest [OF f [OF k], of p q] pq(3) by simp
  moreover have "int (N - p) \<le> R (int N - int M - ?k)"
    using furthest_greatest [OF r [OF l], of "N - p" "M - q"] pq by simp
  ultimately show False using no [OF k odd l(1)] pq(1) by simp
qed

lemma reverse_missed:
  fixes a b :: "'a list"
  defines "m \<equiv> same a b" and "N \<equiv> length a" and "M \<equiv> length b"
  assumes r: "\<And>j. \<bar>j\<bar> \<le> int d \<Longrightarrow> even (j + int d) \<Longrightarrow> furthest (flip m N M) d j (R j)"
    and f: "\<And>j. \<bar>j\<bar> \<le> int d \<Longrightarrow> even (j + int d) \<Longrightarrow> furthest m d j (F j)"
    and no: "\<And>j. \<bar>j\<bar> \<le> int d \<Longrightarrow> even (j + int d) \<Longrightarrow> even (int N - int M) \<Longrightarrow> \<bar>int N - int M - j\<bar> \<le> int d \<Longrightarrow>
      \<not> int N \<le> R j + F (int N - int M - j)"
  shows "dist a b \<noteq> 2 * d"
proof
  assume D: "dist a b = 2 * d"
  then have d: "d \<le> cost m N M" "cost m N M - d = d" by (auto simp: dist_def m_def N_def M_def)
  obtain p q where pq: "p \<le> N" "q \<le> M" "cost m p q = d" "cost (flip m N M) (N - p) (M - q) = d"
    using cost_middle [OF d(1)] d(2) by auto
  let ?k = "int p - int q" and ?l = "int (N - p) - int (M - q)"
  have even: "even (int N - int M)" using D dist_parity [of a b] by (simp add: N_def M_def)
  have k: "\<bar>?k\<bar> \<le> int d" "even (?k + int d)"
    using cost_min [of p m q] cost_min [of q m p] cost_parity [of m p q] pq(3) by auto
  have l: "\<bar>?l\<bar> \<le> int d" "even (?l + int d)" "int N - int M - ?l = ?k"
    using cost_min(1) [of "N - p" "flip m N M" "M - q"] cost_min(2) [of "M - q" "flip m N M" "N - p"] pq even k(2) by auto
  have "int p \<le> F ?k" using furthest_greatest [OF f [OF k], of p q] pq(3) by simp
  moreover have "int (N - p) \<le> R ?l"
    using furthest_greatest [OF r [OF l(1,2)], of "N - p" "M - q"] pq by simp
  ultimately show False using no [OF l(1,2) even] l(3) k(1) pq(1) by simp
qed

text \<open>The tests for an overlap, with their accesses in range.\<close>

lemma forward_overlaps_eq:
  assumes "fits offset d fs" "fits offset d rs" "\<bar>k\<bar> \<le> int d"
  shows "forward_overlaps na delta (int d) rs offset k fs =
    Inr (odd delta \<and> \<bar>delta - k\<bar> < int d \<and> na \<le> fs ! nat (offset + k) + rs ! nat (offset + (delta - k)))"
proof -
  have "sl_get fs (offset + k) = Inr (fs ! nat (offset + k))" by (rule sl_get_fits [OF assms(1,3)])
  moreover have "sl_get rs (offset - (k - delta)) = Inr (rs ! nat (offset + (delta - k)))" if "\<bar>delta - k\<bar> < int d"
    using sl_get_fits [OF assms(2), of "delta - k"] that by (simp add: algebra_simps)
  ultimately show ?thesis by (auto simp: forward_overlaps_def remn_even_iff)
qed

lemma reverse_overlaps_eq:
  assumes "fits offset d fs" "fits offset d rs" "\<bar>k\<bar> \<le> int d"
  shows "reverse_overlaps na delta (int d) fs offset k rs =
    Inr (even delta \<and> \<bar>delta - k\<bar> \<le> int d \<and> na \<le> rs ! nat (offset + k) + fs ! nat (offset + (delta - k)))"
proof -
  have "sl_get rs (offset + k) = Inr (rs ! nat (offset + k))" by (rule sl_get_fits [OF assms(2,3)])
  moreover have "sl_get fs (offset - (k - delta)) = Inr (fs ! nat (offset + (delta - k)))" if "\<bar>delta - k\<bar> \<le> int d"
    using sl_get_fits [OF assms(1) that] by (simp add: algebra_simps)
  ultimately show ?thesis by (auto simp: reverse_overlaps_def remn_even_iff)
qed

definition ready :: "'a list \<Rightarrow> 'a list \<Rightarrow> int \<Rightarrow> nat \<Rightarrow> int list \<Rightarrow> int list \<Rightarrow> bool" where
  "ready a b offset d fs rs \<longleftrightarrow> fits offset d fs \<and> length rs = length fs \<and>
     searched (same a b) offset d (- int d) fs \<and>
     searched (flip (same a b) (length a) (length b)) offset d (- int d) rs \<and> 2 * d \<le> Suc (dist a b)"

lemma forwardSearch_ok:
  assumes "ready a b offset d fs rs"
  shows "(\<exists>d' x y u v fs'. forwardSearch a b (int d) fs rs offset = Inr (Some (int d', int x, int y, int u, int v), fs') \<and> middle a b d' x y u v) \<or>
     (\<exists>fs'. forwardSearch a b (int d) fs rs offset = Inr (None, fs') \<and> length fs' = length fs \<and>
       searched (same a b) offset d (int d + 1) fs' \<and> Suc (dist a b) \<noteq> 2 * d)"
proof -
  let ?m = "same a b" and ?N = "int (length a)" and ?M = "int (length b)"
  have r: "fits offset d fs" "fits offset d rs" "length rs = length fs" "searched ?m offset d (- int d) fs"
    "searched (flip ?m (length a) (length b)) offset d (- int d) rs" "2 * d \<le> Suc (dist a b)"
    using assms by (auto simp: ready_def fits_def)
  have R: "furthest (flip ?m (length a) (length b)) (d - 1) j (rs ! nat (offset + j))" if "\<bar>j\<bar> < int d" "odd (j + int d)" for j
    using r(5) that by (simp add: searched_def)
  let ?t = "\<lambda>k v. odd (?N - ?M) \<and> \<bar>?N - ?M - k\<bar> < int d \<and> ?N \<le> v + rs ! nat (offset + (?N - ?M - k))"
  let ?l = "search_loop (forward_snake a b) (forward_overlaps ?N (?N - ?M) (int d) rs offset) (int d) offset (- int d) fs"
  consider (hit) k x y n fs' where "?l = Inr (Some (int x, int y, int (x + n), int (y + n)), fs')"
      "\<bar>k\<bar> \<le> int d" "even (k + int d)" "path_found ?m d k x y n" "?t k (int (x + n))"
    | (none) fs' where "?l = Inr (None, fs')" "length fs' = length fs" "searched ?m offset d (int d + 1) fs'"
      "\<forall>j. \<bar>j\<bar> \<le> int d \<longrightarrow> even (j + int d) \<longrightarrow> \<not> ?t j (fs' ! nat (offset + j))"
    using search_loop_ok [where sn = "forward_snake a b" and m = ?m and d = d and vs = fs and offset = offset and k = "- int d"
        and ov = "forward_overlaps ?N (?N - ?M) (int d) rs offset" and test = ?t, OF forward_snake_ok _ r(1,4)]
      forward_overlaps_eq [of offset d _ rs] r(1,2) by (fastforce simp: fits_def)
  then show ?thesis
  proof cases
    case hit
    have d: "0 < d" using hit(5) by auto
    have "odd (?N - ?M - k + int d) = odd (?N - ?M)" using hit(3) by auto
    then have "furthest (flip ?m (length a) (length b)) (d - 1) (?N - ?M - k) (rs ! nat (offset + (?N - ?M - k)))"
      using hit(5) by (intro R) auto
    from forward_found [OF hit(4) r(6) this _ d] have "middle a b (2 * d - 1) x y (x + n) (y + n)" using hit(5) by simp
    moreover have "int (2 * d - 1) = 2 * int d - 1" using d by auto
    ultimately show ?thesis using hit(1) unfolding forwardSearch_def Let_def
      by (intro disjI1 exI [of _ "2 * d - 1"] exI [of _ x] exI [of _ y] exI [of _ "x + n"] exI [of _ "y + n"] exI [of _ fs']) simp
  next
    case none
    have "Suc (dist a b) \<noteq> 2 * d"
    proof (rule forward_missed [where F = "\<lambda>j. fs' ! nat (offset + j)" and R = "\<lambda>j. rs ! nat (offset + j)"])
      show "furthest ?m d j (fs' ! nat (offset + j))" if "\<bar>j\<bar> \<le> int d" "even (j + int d)" for j
        using none(3) that by (auto simp: searched_def)
    qed (use R none(4) in auto)
    then show ?thesis using none unfolding forwardSearch_def Let_def by simp
  qed
qed

lemma reverseSearch_ok:
  assumes "ready a b offset d fs0 rs" "length fs = length fs0" "searched (same a b) offset d (int d + 1) fs" "Suc (dist a b) \<noteq> 2 * d"
  shows "(\<exists>d' x y u v rs'. reverseSearch a b (int d) fs rs offset = Inr (Some (int d', int x, int y, int u, int v), rs') \<and> middle a b d' x y u v) \<or>
     (\<exists>rs'. reverseSearch a b (int d) fs rs offset = Inr (None, rs') \<and> length rs' = length rs \<and>
       searched (flip (same a b) (length a) (length b)) offset d (int d + 1) rs' \<and> 2 * Suc d \<le> Suc (dist a b))"
proof -
  let ?m = "same a b" and ?N = "int (length a)" and ?M = "int (length b)"
  let ?f = "flip ?m (length a) (length b)"
  have r: "fits offset d fs" "fits offset d rs" "searched ?f offset d (- int d) rs" "2 * d \<le> dist a b"
    using assms by (auto simp: ready_def fits_def)
  have F: "furthest ?m d j (fs ! nat (offset + j))" if "\<bar>j\<bar> \<le> int d" "even (j + int d)" for j
    using assms(3) that by (auto simp: searched_def)
  let ?t = "\<lambda>k v. even (?N - ?M) \<and> \<bar>?N - ?M - k\<bar> \<le> int d \<and> ?N \<le> v + fs ! nat (offset + (?N - ?M - k))"
  let ?l = "search_loop (reverse_snake a b) (reverse_overlaps ?N (?N - ?M) (int d) fs offset) (int d) offset (- int d) rs"
  have sn: "\<exists>n. reverse_snake a b (int x) (int y) = Inr (int (x + n), int (y + n)) \<and> (\<forall>i<n. ?f (x + i) (y + i)) \<and> \<not> ?f (x + n) (y + n)" for x y
    unfolding reverse_snake_eq flip_same by (rule forward_snake_ok)
  consider (hit) k x y n rs' where "?l = Inr (Some (int x, int y, int (x + n), int (y + n)), rs')"
      "\<bar>k\<bar> \<le> int d" "even (k + int d)" "path_found ?f d k x y n" "?t k (int (x + n))"
    | (none) rs' where "?l = Inr (None, rs')" "length rs' = length rs" "searched ?f offset d (int d + 1) rs'"
      "\<forall>j. \<bar>j\<bar> \<le> int d \<longrightarrow> even (j + int d) \<longrightarrow> \<not> ?t j (rs' ! nat (offset + j))"
    using search_loop_ok [where sn = "reverse_snake a b" and m = ?f and d = d and vs = rs and offset = offset and k = "- int d"
        and ov = "reverse_overlaps ?N (?N - ?M) (int d) fs offset" and test = ?t, OF sn _ r(2,3)]
      reverse_overlaps_eq [of offset d fs] r(1,2) by (fastforce simp: fits_def)
  then show ?thesis
  proof cases
    case hit
    have "even (?N - ?M - k + int d) = even (?N - ?M)" using hit(3) by auto
    then have "furthest ?m d (?N - ?M - k) (fs ! nat (offset + (?N - ?M - k)))" using hit(5) by (intro F) auto
    from reverse_found [OF hit(4) r(4) this] have x: "x + n \<le> length a" "y + n \<le> length b"
      "middle a b (2 * d) (length a - (x + n)) (length b - (y + n)) (length a - x) (length b - y)" using hit(5) by auto
    then show ?thesis using hit(1) unfolding reverseSearch_def Let_def
      by (intro disjI1 exI [of _ "2 * d"] exI [of _ "length a - (x + n)"] exI [of _ "length b - (y + n)"] exI [of _ "length a - x"]
          exI [of _ "length b - y"] exI [of _ rs']) (simp add: of_nat_diff)
  next
    case none
    have "dist a b \<noteq> 2 * d"
    proof (rule reverse_missed [where F = "\<lambda>j. fs ! nat (offset + j)" and R = "\<lambda>j. rs' ! nat (offset + j)"])
      show "furthest ?f d j (rs' ! nat (offset + j))" if "\<bar>j\<bar> \<le> int d" "even (j + int d)" for j
        using none(3) that by (auto simp: searched_def)
    qed (use F none(4) in auto)
    then show ?thesis using none r(4) assms(4) unfolding reverseSearch_def Let_def by simp
  qed
qed

lemma middle_loop_ok:
  assumes "ready a b offset d fs rs" "length a + length b \<le> 2 * h" "\<And>e. e \<le> h \<Longrightarrow> fits offset e fs"
  shows "\<exists>d' x y u v. middle_loop a b (int h) offset (int d) fs rs = Inr (int d', int x, int y, int u, int v) \<and> middle a b d' x y u v"
  using assms
proof (induction "Suc h - d" arbitrary: d fs rs rule: less_induct)
  case less
  have "dist a b \<le> length a + length b" unfolding dist_def by (rule cost_max)
  then have d: "d \<le> h" using less.prems(1,2) by (auto simp: ready_def)
  note step = middle_loop.simps [of a b "int h" offset "int d" fs rs]
  from forwardSearch_ok [OF less.prems(1)] show ?case
  proof (elim disjE exE conjE)
    fix fs' assume f: "forwardSearch a b (int d) fs rs offset = Inr (None, fs')" "length fs' = length fs"
      "searched (same a b) offset d (int d + 1) fs'" "Suc (dist a b) \<noteq> 2 * d"
    from reverseSearch_ok [OF less.prems(1) f(2-4)] show ?thesis
    proof (elim disjE exE conjE)
      fix rs' assume r: "reverseSearch a b (int d) fs' rs offset = Inr (None, rs')" "length rs' = length rs"
        "searched (flip (same a b) (length a) (length b)) offset d (int d + 1) rs'" "2 * Suc d \<le> Suc (dist a b)"
      have "Suc d \<le> h" using r(4) \<open>dist a b \<le> length a + length b\<close> less.prems(2) by simp
      have ft: "\<And>e. e \<le> h \<Longrightarrow> fits offset e fs'" using less.prems(3) f(2) by (simp add: fits_def)
      have "ready a b offset (Suc d) fs' rs'"
        using ft [OF \<open>Suc d \<le> h\<close>] f(2) r(2,4) less.prems(1) searched_next [OF f(3)] searched_next [OF r(3)] by (simp add: ready_def)
      moreover have "Suc h - Suc d < Suc h - d" using d by simp
      ultimately show ?thesis using less.hyps [OF _ _ less.prems(2) ft, of "Suc d" rs'] step d f(1) r(1) by (simp add: add.commute)
    qed (use step d f(1) in auto)
  qed (use step d in auto)
qed

theorem middleSnake_ok:
  assumes "a \<noteq> []" "b \<noteq> []"
  shows "\<exists>d x y u v. middleSnake a b = Inr (int d, int x, int y, int u, int v) \<and> middle a b d x y u v"
proof -
  let ?n = "length a + length b"
  define h where "h = (?n + 1) div 2"
  define offset where "offset = int ((?n + 2) div 2)"
  have n: "2 \<le> ?n" using assms by (cases a; cases b) auto
  have fits: "fits offset e (replicate (?n + 2) 0)" if "e \<le> h" for e using that n by (auto simp: fits_def h_def offset_def max_def)
  have "ready a b offset 0 (replicate (?n + 2) 0) (replicate (?n + 2) 0)"
    using fits [of 0] n by (auto simp: ready_def searched_def offset_def nth_append simp del: replicate.simps)
  then have l: "\<exists>d' x y u v. middle_loop a b (int h) offset (int 0) (replicate (?n + 2) 0) (replicate (?n + 2) 0) = Inr (int d', int x, int y, int u, int v) \<and>
      middle a b d' x y u v" by (rule middle_loop_ok) (simp add: h_def, rule fits)
  have "quot (int (?n + 2)) 2 = offset" unfolding offset_def by (simp only: quot_nonneg of_nat_0_le_iff zdiv_int) simp
  moreover have "quot (int ?n) 2 + (if remn (int ?n) 2 \<noteq> 0 then 1 else 0) = int h"
    unfolding h_def by (simp only: quot_nonneg remn_nonneg of_nat_0_le_iff zero_less_numeral) presburger
  moreover have "int (length a) + int (length b) = int ?n" "int ?n + 2 = int (?n + 2)" by simp_all
  ultimately have "middleSnake a b = middle_loop a b (int h) offset 0 (replicate (?n + 2) 0) (replicate (?n + 2) 0)"
    unfolding middleSnake_def Let_def by (simp only: sl_make_int rbind.simps length_replicate)
  then show ?thesis using l by simp
qed

section \<open>Longest common subsequence\<close>

lemma middle_parts:
  assumes "middle a b d x y u v"
  shows "x \<le> length a" "y \<le> length b" "y \<le> v" "d \<le> length a + length b"
    "take (u - x) (drop x a) = take (v - y) (drop y b)" "length (take (u - x) (drop x a)) = u - x"
    "a = take x a @ take (u - x) (drop x a) @ drop u a" "b = take y b @ take (u - x) (drop x a) @ drop v b"
proof -
  have m: "x \<le> u" "u \<le> length a" "v \<le> length b" "u + y = v + x" "\<And>i. i < u - x \<Longrightarrow> a ! (x + i) = b ! (y + i)" "dist a b = d"
    using assms by (auto simp: middle_def)
  show "x \<le> length a" "y \<le> length b" "y \<le> v" "length (take (u - x) (drop x a)) = u - x" using m by auto
  show "d \<le> length a + length b" using m(6) cost_max [of "same a b" "length a" "length b"] by (simp add: dist_def)
  show s: "take (u - x) (drop x a) = take (v - y) (drop y b)" using m by (intro nth_equalityI) auto
  show "a = take x a @ take (u - x) (drop x a) @ drop u a"
    using m(1) by (metis append_take_drop_id drop_drop le_add_diff_inverse2)
  show "b = take y b @ take (u - x) (drop x a) @ drop v b"
    unfolding s using m by (metis \<open>y \<le> v\<close> append_take_drop_id drop_drop le_add_diff_inverse2)
qed

text \<open>Both sides of a middle snake are smaller than the whole, unless the inputs differ in at most one element.\<close>

lemma middle_smaller:
  assumes m: "middle a b d x y u v" and s: "1 < d \<or> x < u"
  shows "x + y < length a + length b" "(length a - u) + (length b - v) < length a + length b"
proof -
  note p = middle_parts [OF m]
  have u: "x \<le> u" "u \<le> length a" "v \<le> length b" using m by (auto simp: middle_def)
  have "dist (take x a) (take y b) = (d + 1) div 2" "dist (drop u a) (drop v b) = d div 2" using m unfolding middle_def by blast+
  then have d: "take x a \<noteq> take y b \<and> drop u a \<noteq> drop v b" if "1 < d" using that by (simp flip: dist_zero)
  show "x + y < length a + length b"
  proof (rule ccontr)
    assume "\<not> ?thesis"
    then have "x = length a" "y = length b" using p(1,2) by auto
    then have "u = length a" "v = length b" "x = u" using u p(3) by auto
    then show False using s d by auto
  qed
  show "(length a - u) + (length b - v) < length a + length b"
  proof (rule ccontr)
    assume c: "\<not> ?thesis"
    show False
    proof (cases "length a = 0 \<and> length b = 0")
      case True
      then show ?thesis using p(4) s u d by auto
    next
      case False
      then have "u = 0" "v = 0" using c u by auto
      then have "x = 0" "y = 0" using u p(3) by auto
      then show ?thesis using s \<open>u = 0\<close> d by auto
    qed
  qed
qed

lemma covers_arith:
  fixes x :: nat
  assumes "2 * z + e = x + y" "2 * w + f = (n - u) + (m - v)" "x \<le> u" "u \<le> n" "v \<le> m" "u + y = v + x"
  shows "2 * (z + ((u - x) + w)) + (e + f) = n + m"
proof -
  obtain i j k where "u = x + i" "n = u + j" "m = v + k" using assms(3-5) by (metis le_iff_add)
  then show ?thesis using assms by simp
qed

lemma covers_middle:
  assumes m: "middle a b d x y u v" and z: "covers zs (take x a) (take y b)" "covers ws (drop u a) (drop v b)"
  shows "covers (zs @ take (u - x) (drop x a) @ ws) a b"
proof -
  note p = middle_parts [OF m]
  let ?e = "dist (take x a) (take y b)" and ?f = "dist (drop u a) (drop v b)"
  have u: "x \<le> u" "u \<le> length a" "v \<le> length b" "u + y = v + x" "dist a b = ?e + ?f" using m by (auto simp: middle_def)
  have z1: "subseq zs (take x a)" "subseq zs (take y b)" "2 * length zs + ?e = x + y"
    and z2: "subseq ws (drop u a)" "subseq ws (drop v b)" "2 * length ws + ?f = (length a - u) + (length b - v)"
    using z p(1,2) by (auto simp: covers_def common_def min_absorb2)
  have "subseq (zs @ take (u - x) (drop x a) @ ws) (take x a @ take (u - x) (drop x a) @ drop u a)"
    "subseq (zs @ take (u - x) (drop x a) @ ws) (take y b @ take (u - x) (drop x a) @ drop v b)"
    using z1(1,2) z2(1,2) by (auto intro!: list_emb_append_mono)
  then have "common (zs @ take (u - x) (drop x a) @ ws) a b" unfolding common_def using p(7,8) by metis
  moreover have "2 * length (zs @ take (u - x) (drop x a) @ ws) + dist a b = length a + length b"
    unfolding length_append p(6) u(5) by (rule covers_arith [OF z1(3) z2(3) u(1-4)])
  ultimately show ?thesis by (simp add: covers_def)
qed

lemma middleSnake_parts:
  assumes "middleSnake a b = Inr (d, x, y, u, v)" "a \<noteq> []" "b \<noteq> []"
  obtains e p q r t where "d = int e" "x = int p" "y = int q" "u = int r" "v = int t" "middle a b e p q r t"
    "sl_sub a 0 x = Inr (take p a)" "sl_sub b 0 y = Inr (take q b)" "sl_sub a x u = Inr (take (r - p) (drop p a))"
    "sl_sub a u (int (length a)) = Inr (drop r a)" "sl_sub b v (int (length b)) = Inr (drop t b)"
proof -
  obtain e p q r t where e: "middleSnake a b = Inr (int e, int p, int q, int r, int t)" "middle a b e p q r t"
    using middleSnake_ok [OF assms(2,3)] by blast
  have "p \<le> r" "r \<le> length a" "t \<le> length b" "p \<le> length a" "q \<le> length b"
    using e(2) middle_parts(1,2) [OF e(2)] by (auto simp: middle_def)
  then show ?thesis using that [of e p q r t] e assms(1) by simp
qed

function myersLCS :: "'a list \<Rightarrow> 'a list \<Rightarrow> 'a list res" where
  "myersLCS a b =
     (if length a = 0 \<or> length b = 0 then Inr []
      else rbind (middleSnake a b) (\<lambda>(d, x, y, u, v).
           if d > 1
           then rbind (sl_sub a 0 x) (\<lambda>a1. rbind (sl_sub b 0 y) (\<lambda>b1. rbind (myersLCS a1 b1) (\<lambda>nd.
                rbind (sl_sub a x u) (\<lambda>s.
                rbind (sl_sub a u (int (length a))) (\<lambda>a2. rbind (sl_sub b v (int (length b))) (\<lambda>b2. rbind (myersLCS a2 b2) (\<lambda>r.
                Inr (nd @ s @ r))))))))
           else Inr (if length b > length a then a else b)))"
  by pat_completeness auto
termination
proof (relation "measure (\<lambda>(a, b). length a + length b)", goal_cases)
  case (2 a b s d s1 x s2 y s3 u v a1 b1)
  then have "middleSnake a b = Inr (d, x, y, u, v)" "a \<noteq> []" "b \<noteq> []" by auto
  then show ?case by (rule middleSnake_parts) (use 2 middle_smaller(1) middle_parts(1,2) in \<open>fastforce simp: min_absorb2\<close>)
next
  case (3 a b s d s1 x s2 y s3 u v a1 b1 nd sn a2 b2)
  then have "middleSnake a b = Inr (d, x, y, u, v)" "a \<noteq> []" "b \<noteq> []" by auto
  then show ?case by (rule middleSnake_parts) (use 3 middle_smaller(2) in fastforce)
qed simp

declare myersLCS.simps [simp del]

lemma myersLCS_covers: "\<exists>zs. myersLCS a b = Inr zs \<and> covers zs a b"
proof (induction "length a + length b" arbitrary: a b rule: less_induct)
  case less
  show ?case
  proof (cases "a = [] \<or> b = []")
    case True
    then show ?thesis using covers_exists [of a b] by (auto simp: myersLCS.simps [of a b] covers_def)
  next
    case False
    obtain d x y u v where s: "middleSnake a b = Inr (d, x, y, u, v)" using middleSnake_ok False by blast
    obtain e p q r t where e: "d = int e" "middle a b e p q r t"
      "sl_sub a 0 x = Inr (take p a)" "sl_sub b 0 y = Inr (take q b)" "sl_sub a x u = Inr (take (r - p) (drop p a))"
      "sl_sub a u (int (length a)) = Inr (drop r a)" "sl_sub b v (int (length b)) = Inr (drop t b)"
      using middleSnake_parts [OF s] False by metis
    show ?thesis
    proof (cases "1 < e")
      case True
      have l: "length (take p a) + length (take q b) < length a + length b" "length (drop r a) + length (drop t b) < length a + length b"
        using middle_smaller [OF e(2)] True middle_parts(1,2) [OF e(2)] by (auto simp: min_absorb2)
      obtain zs ws where z: "myersLCS (take p a) (take q b) = Inr zs" "covers zs (take p a) (take q b)"
        "myersLCS (drop r a) (drop t b) = Inr ws" "covers ws (drop r a) (drop t b)" using less [OF l(1)] less [OF l(2)] by blast
      then show ?thesis using covers_middle [OF e(2) z(2,4)] s e True False by (simp add: myersLCS.simps [of a b])
    next
      case 2: False
      then have "dist a b \<le> 1" using e(2) by (simp add: middle_def)
      then show ?thesis using covers_short [of a b] s e(1) False 2 by (simp add: myersLCS.simps [of a b])
    qed
  qed
qed

end
