(* ===== verification/Myers_SES.thy ===== *)
theory Myers_SES
  imports Myers
begin

text \<open>
  The edit scripts of \<^verbatim>\<open>algo/lcs/myers.go\<close> and the properties of the algorithm: they transform the first
  sequence into the second, and no script has fewer insertions and deletions.
\<close>

section \<open>Model\<close>

definition my_LCS :: "'a Myers \<Rightarrow> 'a list res" where
  "my_LCS m = myersLCS (my_a m) (my_b m)"

definition createEdit :: "int \<Rightarrow> int \<Rightarrow> int \<Rightarrow> EditOp \<Rightarrow> 'a \<Rightarrow> 'a Edit" where
  "createEdit cx cy i op v = \<lparr>Op = op, A = (if op = Insert then cx else cx + i), B = cy + i, Val = v\<rparr>"

fun edits_from :: "int \<Rightarrow> 'a list \<Rightarrow> EditOp \<Rightarrow> int \<Rightarrow> int \<Rightarrow> 'a EditScript" where
  "edits_from i [] op cx cy = []"
| "edits_from i (v # vals) op cx cy = createEdit cx cy i op v # edits_from (i + 1) vals op cx cy"

definition my_edits :: "'a list \<Rightarrow> EditOp \<Rightarrow> int \<Rightarrow> int \<Rightarrow> 'a EditScript" where
  "my_edits vals op cx cy = edits_from 0 vals op cx cy"

text \<open>Calls with an empty side end at once; for the others both slices shrink.\<close>

definition ses_measure :: "'a list \<Rightarrow> 'a list \<Rightarrow> int \<Rightarrow> int \<Rightarrow> nat" where
  "ses_measure a b na nb = (if na > 0 \<and> nb > 0 then 1 + length a + length b else 0)"

lemma ses_measure_before:
  assumes s: "middleSnake a b = Inr (d, x, y, u, v)" and d: "1 < d \<or> x \<noteq> u \<and> y \<noteq> v" and na: "0 < na" "0 < nb"
    and sub: "sl_sub a 0 x = Inr a1" "sl_sub b 0 y = Inr b1"
  shows "ses_measure a1 b1 x y < ses_measure a b na nb"
proof (cases "0 < x \<and> 0 < y")
  case True
  then have "a \<noteq> []" "b \<noteq> []" using sub by (auto simp: sl_sub_def split: if_splits)
  then obtain e p q r t where e: "d = int e" "x = int p" "y = int q" "u = int r" "v = int t" "middle a b e p q r t"
    "sl_sub a 0 x = Inr (take p a)" "sl_sub b 0 y = Inr (take q b)" using middleSnake_parts [OF s] by metis
  have "1 < e \<or> p < r" using d e(1-6) by (auto simp: middle_def)
  moreover have "a1 = take p a" "b1 = take q b" using sub e(7,8) by auto
  ultimately show ?thesis using middle_smaller(1) [OF e(6)] middle_parts(1,2) [OF e(6)] na by (simp add: ses_measure_def min_absorb2)
qed (use na in \<open>auto simp: ses_measure_def\<close>)

lemma ses_measure_after:
  assumes s: "middleSnake a b = Inr (d, x, y, u, v)" and d: "1 < d \<or> x \<noteq> u \<and> y \<noteq> v" and na: "0 < na" "0 < nb"
    and sub: "sl_sub a u na = Inr a2" "sl_sub b v nb = Inr b2"
  shows "ses_measure a2 b2 (na - u) (nb - v) < ses_measure a b na nb"
proof -
  have l: "na \<le> int (length a)" "nb \<le> int (length b)" "0 \<le> u" "0 \<le> v" "u \<le> na" "v \<le> nb"
    "length a2 = nat (na - u)" "length b2 = nat (nb - v)" using sub by (auto simp: sl_sub_def split: if_splits)
  then have "a \<noteq> []" "b \<noteq> []" using na by auto
  then obtain e p q r t where e: "d = int e" "x = int p" "y = int q" "u = int r" "v = int t" "middle a b e p q r t"
    using middleSnake_parts [OF s] by metis
  have "1 < e \<or> p < r" using d e by (auto simp: middle_def)
  then have "(length a - r) + (length b - t) < length a + length b" by (rule middle_smaller(2) [OF e(6)])
  moreover have "nat (na - u) \<le> length a - r" "nat (nb - v) \<le> length b - t" using l e(4,5) by auto
  ultimately show ?thesis using na l(7,8) by (simp add: ses_measure_def)
qed

function my_ses :: "int \<Rightarrow> 'a list \<Rightarrow> 'a list \<Rightarrow> int \<Rightarrow> int \<Rightarrow> int \<Rightarrow> int \<Rightarrow> 'a EditScript res" where
  "my_ses idx a b na nb cx cy =
     (if na > 0 \<and> nb > 0
      then rbind (middleSnake a b) (\<lambda>(d, x, y, u, v).
           if d > 1 \<or> x \<noteq> u \<and> y \<noteq> v
           then rbind (sl_sub a 0 x) (\<lambda>a1. rbind (sl_sub b 0 y) (\<lambda>b1. rbind (my_ses (idx + 1) a1 b1 x y cx cy) (\<lambda>s1.
                rbind (if x \<noteq> u \<and> y \<noteq> v then rbind (sl_sub a x u) (\<lambda>s. Inr (my_edits s Identical (cx + x) (cy + y))) else Inr []) (\<lambda>s2.
                rbind (sl_sub a u na) (\<lambda>a2. rbind (sl_sub b v nb) (\<lambda>b2. rbind (my_ses (idx + 1) a2 b2 (na - u) (nb - v) (cx + u) (cy + v)) (\<lambda>s3.
                Inr (s1 @ s2 @ s3))))))))
           else if nb > na
           then rbind (sl_sub a 0 na) (\<lambda>s. rbind (sl_sub b na nb) (\<lambda>b2.
                rbind (my_ses (idx + 1) [] b2 0 (nb - na) (cx + na) (cy + na)) (\<lambda>s2. Inr (my_edits s Identical cx cy @ s2))))
           else if na > nb
           then rbind (sl_sub b 0 nb) (\<lambda>s. rbind (sl_sub a nb na) (\<lambda>a2.
                rbind (my_ses (idx + 1) a2 [] (na - nb) 0 (cx + nb) (cy + nb)) (\<lambda>s2. Inr (my_edits s Identical cx cy @ s2))))
           else Inr [])
      else if na > 0 then Inr (my_edits a Delete cx cy)
      else Inr (my_edits b Insert cx cy))"
  by pat_completeness auto
termination
  apply (relation "measure (\<lambda>(idx, a, b, na, nb, cx, cy). ses_measure a b na nb)")
      apply simp
     apply (simp only: in_measure split_conv, rule ses_measure_before; auto)
    apply (simp only: in_measure split_conv, rule ses_measure_after; auto)
   apply (auto simp: ses_measure_def)
  done

declare my_ses.simps [simp del]

definition my_SES :: "'a Myers \<Rightarrow> 'a EditScript res" where
  "my_SES m = my_ses 0 (my_a m) (my_b m) (int (length (my_a m))) (int (length (my_b m))) 0 0"

section \<open>Edit scripts\<close>

text \<open>
  A script for the part \<open>a\<close> of a sequence \<open>z\<close> that starts at \<open>cx\<close>: it transforms \<open>a\<close> into \<open>b\<close>, keeps a longest
  common subsequence, produces \<open>b\<close> when it is replayed on \<open>z\<close> and \<open>a\<close> when its reversal is replayed.
\<close>

definition part_at :: "'a list \<Rightarrow> nat \<Rightarrow> 'a list \<Rightarrow> bool" where
  "part_at z cx a \<longleftrightarrow> cx + length a \<le> length z \<and> take (length a) (drop cx z) = a"

definition edits_ok :: "'a list \<Rightarrow> 'a EditScript \<Rightarrow> 'a list \<Rightarrow> 'a list \<Rightarrow> bool" where
  "edits_ok z es a b \<longleftrightarrow> script es a b \<and> (\<forall>r. rfold (apply_action z) es r = Inr (r @ b)) \<and>
     (\<forall>w r. rfold (apply_action w) (Reverse es) r = Inr (r @ a))"

lemma part_at_append: "part_at z cx (a1 @ a2) \<longleftrightarrow> part_at z cx a1 \<and> part_at z (cx + length a1) a2"
proof
  assume "part_at z cx (a1 @ a2)"
  then have "cx + length a1 + length a2 \<le> length z" "take (length a1 + length a2) (drop cx z) = a1 @ a2" by (auto simp: part_at_def)
  then have "take (length a1) (drop cx z) @ take (length a2) (drop (length a1) (drop cx z)) = a1 @ a2" by (simp add: take_add)
  then show "part_at z cx a1 \<and> part_at z (cx + length a1) a2"
    using \<open>cx + length a1 + length a2 \<le> length z\<close> by (simp add: part_at_def add.commute)
qed (auto simp: part_at_def take_add add.commute)

lemma part_at_Cons: "part_at z cx (v # vs) \<longleftrightarrow> cx < length z \<and> z ! cx = v \<and> part_at z (Suc cx) vs"
proof -
  have "part_at z cx [v] \<longleftrightarrow> cx < length z \<and> z ! cx = v"
    by (auto simp: part_at_def take_Suc_conv_app_nth hd_drop_conv_nth take_Suc)
  then show ?thesis using part_at_append [of z cx "[v]" vs] by simp
qed

lemma script_append: "script es1 a1 b1 \<Longrightarrow> script es2 a2 b2 \<Longrightarrow> script (es1 @ es2) (a1 @ a2) (b1 @ b2)"
  by (induction es1 a1 b1 rule: script.induct) (auto split: EditOp.splits list.splits)

lemma edits_ok_append:
  assumes "edits_ok z es1 a1 b1" "edits_ok z es2 a2 b2"
  shows "edits_ok z (es1 @ es2) (a1 @ a2) (b1 @ b2)"
  using assms by (simp add: edits_ok_def script_append rfold_append Reverse_def)

lemma edits_ok_Nil [simp]: "edits_ok z [] [] []"
  by (simp add: edits_ok_def Reverse_def)

lemma identical_append [simp]: "identical (es1 @ es2) = identical es1 @ identical es2"
  by (simp add: identical_def)

lemma edits_from_identical:
  assumes "part_at z (cx + i) vals"
  shows "edits_ok z (edits_from (int i) vals Identical (int cx) cy) vals vals \<and> identical (edits_from (int i) vals Identical (int cx) cy) = vals"
  using assms
proof (induction vals arbitrary: i)
  case (Cons v vals)
  then have "edits_ok z (edits_from (int (Suc i)) vals Identical (int cx) cy) vals vals"
    "identical (edits_from (int (Suc i)) vals Identical (int cx) cy) = vals" "cx + i < length z" "z ! (cx + i) = v"
    using Cons.IH [of "Suc i"] by (auto simp: part_at_Cons)
  moreover have "sl_get z (int cx + int i) = Inr v" using sl_get_int [of "cx + i" z] calculation(3,4) by simp
  ultimately show ?case by (simp add: edits_ok_def createEdit_def apply_action_def Reverse_def identical_def add.commute)
qed (simp add: edits_ok_def Reverse_def identical_def)

lemma edits_from_delete:
  "edits_ok z (edits_from i vals Delete cx cy) vals [] \<and> identical (edits_from i vals Delete cx cy) = []"
  by (induction vals arbitrary: i) (auto simp: edits_ok_def createEdit_def apply_action_def Reverse_def identical_def)

lemma edits_from_insert:
  "edits_ok z (edits_from i vals Insert cx cy) [] vals \<and> identical (edits_from i vals Insert cx cy) = []"
  by (induction vals arbitrary: i) (auto simp: edits_ok_def createEdit_def apply_action_def Reverse_def identical_def)

text \<open>Without a run of matching elements one input is the other with an element added at its end.\<close>

lemma middle_edge:
  assumes m: "middle a b d x y u v" and s: "\<not> 1 < d" "x = u" and ne: "a \<noteq> []" "b \<noteq> []"
  shows "length b = Suc (length a) \<and> take (length a) b = a \<or> length a = Suc (length b) \<and> take (length b) a = b"
proof -
  note p = middle_parts [OF m]
  have f: "u \<le> length a" "v \<le> length b" "v = y" "dist (take x a) (take y b) = (d + 1) div 2" "dist (drop u a) (drop v b) = d div 2"
    "d = 0 \<Longrightarrow> u = length a \<and> v = length b" "odd d \<Longrightarrow> \<not> same a b u v"
    "even d \<Longrightarrow> 0 < x \<Longrightarrow> 0 < y \<Longrightarrow> a ! (x - 1) \<noteq> b ! (y - 1)"
    "d = 1 \<Longrightarrow> (\<exists>x'. x = Suc x' \<and> take x' a = take y b) \<or> (\<exists>y'. y = Suc y' \<and> take x a = take y' b)"
    using m s(2) by (auto simp: middle_def)
  have "d \<noteq> 0"
  proof
    assume d: "d = 0"
    then have e: "x = length a" "y = length b" "take x a = take y b" using f(3,4,6) s(2) by (auto simp: dist_zero)
    then have "a = b" by simp
    then show False using f(8) d e(1,2) ne by auto
  qed
  then have d: "d = 1" using s(1) by simp
  then have dr: "drop u a = drop v b" using f(5) by (simp add: dist_zero)
  have uv: "u = length a \<and> v = length b"
  proof (rule ccontr)
    assume "\<not> ?thesis"
    then have l: "u < length a" "v < length b" using arg_cong [OF dr, of length] f(1,2) by auto
    then have "a ! u = b ! v" using arg_cong [OF dr, of "\<lambda>xs. xs ! 0"] by simp
    then show False using f(7) d l by (simp add: same_def)
  qed
  then show ?thesis using f(9) [OF d] f(3) s(2) by (auto simp: dest: arg_cong [where f = length])
qed

lemma my_ses_one_side:
  "my_ses idx [] b 0 (int (length b)) cx cy = Inr (my_edits b Insert cx cy)"
  "my_ses idx a [] (int (length a)) 0 cx cy = Inr (my_edits a Delete cx cy)"
  by (auto simp: my_ses.simps [of idx] my_edits_def)

lemma covers_one_side: "covers [] [] b" "covers [] a []"
  using covers_exists [of "[]" b] covers_exists [of a "[]"] by (auto simp: covers_def)

lemma my_ses_ok:
  "part_at z cx a \<Longrightarrow> \<exists>es. my_ses idx a b (int (length a)) (int (length b)) (int cx) (int cy) = Inr es \<and>
     edits_ok z es a b \<and> covers (identical es) a b"
proof (induction "length a + length b" arbitrary: a b idx cx cy rule: less_induct)
  case less
  consider (a) "a = []" | (b) "b = []" | (ab) "a \<noteq> []" "b \<noteq> []" by blast
  then show ?case
  proof cases
    case a
    then show ?thesis by (simp add: my_ses_one_side covers_one_side edits_from_insert my_edits_def)
  next
    case b
    then show ?thesis by (simp add: my_ses_one_side covers_one_side edits_from_delete my_edits_def)
  next
    case ab
    obtain d x y u v where s: "middleSnake a b = Inr (d, x, y, u, v)" using middleSnake_ok [OF ab] by blast
    obtain e p q r t where e: "d = int e" "x = int p" "y = int q" "u = int r" "v = int t" "middle a b e p q r t"
      "sl_sub a 0 x = Inr (take p a)" "sl_sub b 0 y = Inr (take q b)" "sl_sub a x u = Inr (take (r - p) (drop p a))"
      "sl_sub a u (int (length a)) = Inr (drop r a)" "sl_sub b v (int (length b)) = Inr (drop t b)"
      using middleSnake_parts [OF s ab] by metis
    have na: "0 < int (length a)" "0 < int (length b)" using ab by auto
    note step = my_ses.simps [of idx a b "int (length a)" "int (length b)" "int cx" "int cy"]
    note mp = middle_parts [OF e(6)]
    have le: "p \<le> r" "r \<le> length a" "t \<le> length b" "r + q = t + p" using e(6) by (auto simp: middle_def)
    show ?thesis
    proof (cases "1 < e \<or> p < r")
      case True
      let ?s = "take (r - p) (drop p a)"
      have pz: "part_at z cx (take p a)" "part_at z (cx + p) ?s" "part_at z (cx + r) (drop r a)"
      proof -
        have "part_at z cx (take p a @ ?s @ drop r a)" using less.prems mp(7) by simp
        then show "part_at z cx (take p a)" "part_at z (cx + p) ?s" "part_at z (cx + r) (drop r a)"
          unfolding part_at_append using mp(1,6) le(1) by (simp_all add: min_absorb2 add.assoc)
      qed
      have l: "length (take p a) + length (take q b) < length a + length b" "length (drop r a) + length (drop t b) < length a + length b"
        using middle_smaller [OF e(6) True] mp(1,2) by (auto simp: min_absorb2)
      obtain s1 where s1: "my_ses (idx + 1) (take p a) (take q b) x y (int cx) (int cy) = Inr s1"
        "edits_ok z s1 (take p a) (take q b)" "covers (identical s1) (take p a) (take q b)"
        using less.hyps [OF l(1) pz(1), of "idx + 1" cy] mp(1,2) e(2,3) by (auto simp: min_absorb2)
      obtain s3 where s3: "my_ses (idx + 1) (drop r a) (drop t b) (int (length a) - u) (int (length b) - v) (int cx + u) (int cy + v) = Inr s3"
        "edits_ok z s3 (drop r a) (drop t b)" "covers (identical s3) (drop r a) (drop t b)"
        using less.hyps [OF l(2) pz(3), of "idx + 1" "cy + t"] le e(4,5) by (auto simp: of_nat_diff)
      let ?s2 = "my_edits ?s Identical (int cx + x) (int cy + y)"
      have s2: "edits_ok z ?s2 ?s ?s" "identical ?s2 = ?s"
        using edits_from_identical [of z "cx + p" 0 ?s "int cy + y"] pz(2) e(2) by (auto simp: my_edits_def)
      have "(if x \<noteq> u \<and> y \<noteq> v then rbind (sl_sub a x u) (\<lambda>s. Inr (my_edits s Identical (int cx + x) (int cy + y))) else Inr []) = Inr ?s2"
        unfolding e(9) using e(2-5) le by (auto simp: my_edits_def)
      moreover have "d > 1 \<or> x \<noteq> u \<and> y \<noteq> v" using True e(1-5) le by auto
      ultimately have "my_ses idx a b (int (length a)) (int (length b)) (int cx) (int cy) = Inr (s1 @ ?s2 @ s3)"
        unfolding step s using na e(7,8,10,11) s1(1) s3(1) by (simp only: rbind.simps split_conv if_True simp_thms)
      moreover have "edits_ok z (s1 @ ?s2 @ s3) a b"
        using edits_ok_append [OF s1(2) edits_ok_append [OF s2(1) s3(2)]] by (simp only: mp(7,8) [symmetric])
      moreover have "covers (identical (s1 @ ?s2 @ s3)) a b"
        using covers_middle [OF e(6) s1(3) s3(3)] s2(2) by simp
      ultimately show ?thesis by blast
    next
      case False
      then have pr: "\<not> 1 < e" "p = r" using le(1) by auto
      have nb: "\<not> d > 1" "x = u" using pr e(1,2,4) by auto
      have d1: "dist a b \<le> 1" using e(6) pr(1) by (simp add: middle_def)
      from middle_edge [OF e(6) pr ab] show ?thesis
      proof (elim disjE conjE)
        assume l: "length b = Suc (length a)" "take (length a) b = a"
        have s1: "edits_ok z (my_edits a Identical (int cx) (int cy)) a a" "identical (my_edits a Identical (int cx) (int cy)) = a"
          using edits_from_identical [of z cx 0 a "int cy"] less.prems by (auto simp: my_edits_def)
        have s2: "edits_ok z (my_edits (drop (length a) b) Insert i j) [] (drop (length a) b)"
          "identical (my_edits (drop (length a) b) Insert i j) = []" for i j by (simp_all add: edits_from_insert my_edits_def)
        have "my_ses idx a b (int (length a)) (int (length b)) (int cx) (int cy) =
            Inr (my_edits a Identical (int cx) (int cy) @ my_edits (drop (length a) b) Insert (int cx + int (length a)) (int cy + int (length a)))"
          unfolding step s using na nb l(1) my_ses_one_side(1) [of "idx + 1" "drop (length a) b"] sl_sub_int [of "length a" "length b" b]
          by (simp del: sl_sub_int sl_sub_to_end)
        moreover have "covers a a b" using covers_short [OF d1] l(1) by simp
        ultimately show ?thesis using edits_ok_append [OF s1(1) s2(1)] s1(2) s2(2) l(2) append_take_drop_id [of "length a" b] by simp
      next
        assume l: "length a = Suc (length b)" "take (length b) a = b"
        have "part_at z cx (take (length b) a)"
          using less.prems part_at_append [of z cx "take (length b) a" "drop (length b) a"] by simp
        then have pb: "part_at z cx b" using l(2) by simp
        have s1: "edits_ok z (my_edits b Identical (int cx) (int cy)) b b" "identical (my_edits b Identical (int cx) (int cy)) = b"
          using edits_from_identical [of z cx 0 b "int cy"] pb by (auto simp: my_edits_def)
        have s2: "edits_ok z (my_edits (drop (length b) a) Delete i j) (drop (length b) a) []"
          "identical (my_edits (drop (length b) a) Delete i j) = []" for i j by (simp_all add: edits_from_delete my_edits_def)
        have "my_ses idx a b (int (length a)) (int (length b)) (int cx) (int cy) =
            Inr (my_edits b Identical (int cx) (int cy) @ my_edits (drop (length b) a) Delete (int cx + int (length b)) (int cy + int (length b)))"
          unfolding step s using na nb l(1) my_ses_one_side(2) [of "idx + 1" "drop (length b) a"] sl_sub_int [of "length b" "length a" a]
          by (simp del: sl_sub_int sl_sub_to_end)
        moreover have "covers b a b" using covers_short [OF d1] l(1) by simp
        ultimately show ?thesis using edits_ok_append [OF s1(1) s2(1)] s1(2) s2(2) l(2) append_take_drop_id [of "length b" a] by simp
      qed
    qed
  qed
qed

section \<open>Properties\<close>




text \<open>
  The positions of deletions in the second sequence advance with each deletion, so that the reversal of
  a script that deletes two elements inserts the second one after the end of the sequence it is for.
\<close>

lemma deletions_advance:
  "my_SES (NewMyers ''xy'' []) = Inr [\<lparr>Op = Delete, A = 0, B = 0, Val = CHR ''x''\<rparr>, \<lparr>Op = Delete, A = 1, B = 1, Val = CHR ''y''\<rparr>]"
  "rbind (SES (NewDP ''xy'' [])) (\<lambda>(es, _). Inr es) =
     Inr [\<lparr>Op = Delete, A = 0, B = 0, Val = CHR ''x''\<rparr>, \<lparr>Op = Delete, A = 1, B = 0, Val = CHR ''y''\<rparr>]"
   apply (simp add: my_SES_def NewMyers_def my_ses.simps my_edits_def createEdit_def)
  apply code_simp
  done

end
