(* ===== verification/Text_Edit.thy ===== *)
theory Text_Edit
  imports Prelude
begin

text \<open>
  Editing a byte slice with insertions, deletions and replacements, \<^verbatim>\<open>text/edit/edit.go\<close>. The package
  never looks at the bytes, so their type is the parameter \<open>'b\<close>. \<^verbatim>\<open>sort.SliceStable\<close> is modelled as insertion
  sort, which has the documented result of a stable sort. \<^verbatim>\<open>Do\<close> is shown to be equal to a specification
  that speaks of one position of the contents at a time and does not sort.
\<close>

section \<open>Model\<close>

datatype editOp = insertOp | deleteOp | replaceOp

definition comparisons :: "editOp \<Rightarrow> editOp \<Rightarrow> bool" where
  "comparisons i j = (case i of
      insertOp \<Rightarrow> (case j of insertOp \<Rightarrow> False | deleteOp \<Rightarrow> False | replaceOp \<Rightarrow> False)
    | deleteOp \<Rightarrow> (case j of insertOp \<Rightarrow> True | deleteOp \<Rightarrow> False | replaceOp \<Rightarrow> True)
    | replaceOp \<Rightarrow> (case j of insertOp \<Rightarrow> True | deleteOp \<Rightarrow> False | replaceOp \<Rightarrow> False))"

record 'b Delta =
  ed_op :: editOp
  ed_from :: int
  ed_to :: int
  ed_data :: "'b list"

definition e_Text :: "'b Delta \<Rightarrow> 'b list" where
  "e_Text d = ed_data d"

definition e_Insert :: "int \<Rightarrow> 'b list \<Rightarrow> 'b Delta" where
  "e_Insert pos data = \<lparr>ed_op = insertOp, ed_from = pos, ed_to = 0, ed_data = data\<rparr>"

definition e_Replace :: "int \<Rightarrow> int \<Rightarrow> 'b list \<Rightarrow> 'b Delta" where
  "e_Replace pos sz data = \<lparr>ed_op = replaceOp, ed_from = pos, ed_to = pos + sz, ed_data = data\<rparr>"

definition e_Delete :: "int \<Rightarrow> int \<Rightarrow> 'b Delta" where
  "e_Delete pos sz = \<lparr>ed_op = deleteOp, ed_from = pos, ed_to = pos + sz, ed_data = []\<rparr>"

fun stable_insert :: "('a \<Rightarrow> 'a \<Rightarrow> bool) \<Rightarrow> 'a \<Rightarrow> 'a list \<Rightarrow> 'a list" where
  "stable_insert lt x [] = [x]"
| "stable_insert lt x (y # ys) = (if lt y x then y # stable_insert lt x ys else x # y # ys)"

definition SliceStable :: "('a \<Rightarrow> 'a \<Rightarrow> bool) \<Rightarrow> 'a list \<Rightarrow> 'a list" where
  "SliceStable lt xs = foldr (stable_insert lt) xs []"

text \<open>\<^verbatim>\<open>Validate\<close> returns the deltas that it reports as out of range, none of them being the error \<^verbatim>\<open>nil\<close>.\<close>

fun validate_loop :: "'b list \<Rightarrow> 'b Delta list \<Rightarrow> 'b Delta list" where
  "validate_loop contents [] = []"
| "validate_loop contents (d # ds) =
     (if ed_from d > int (length contents) then d # validate_loop contents ds
      else if ed_op d \<noteq> insertOp
      then (if ed_to d > int (length contents) then d # validate_loop contents ds
            else validate_loop contents ds)
      else [])"

definition Validate :: "'b list \<Rightarrow> 'b Delta list \<Rightarrow> 'b Delta list" where
  "Validate contents deltas = validate_loop contents (SliceStable (\<lambda>di dj. ed_from dj < ed_from di) deltas)"

definition delta_less :: "'b Delta \<Rightarrow> 'b Delta \<Rightarrow> bool" where
  "delta_less di dj = (if ed_from di = ed_from dj then comparisons (ed_op di) (ed_op dj)
     else ed_from di < ed_from dj)"

definition sortDeltas :: "'b Delta list \<Rightarrow> 'b Delta list" where
  "sortDeltas deltas = SliceStable delta_less deltas"

text \<open>\<^verbatim>\<open>n\<close> is a copy of \<^verbatim>\<open>a\<close> whose first \<^verbatim>\<open>bl\<close> bytes are overwritten.\<close>

definition overwrite :: "'b list \<Rightarrow> 'b list \<Rightarrow> 'b list" where
  "overwrite a b = (if length b > length a then b else b @ drop (length b) a)"

record 'b editState =
  es_offset :: int
  es_replacement :: "'b list"
  es_replaceOffset :: int
  es_patched :: "'b list"
  es_prevPos :: int

definition edit_init :: "'b editState" where
  "edit_init = \<lparr>es_offset = 0, es_replacement = [], es_replaceOffset = 0, es_patched = [], es_prevPos = 0\<rparr>"

definition out_of_range :: "'b list \<Rightarrow> 'b Delta \<Rightarrow> bool" where
  "out_of_range contents d \<longleftrightarrow> ed_from d > int (length contents) \<or>
     (ed_op d \<noteq> insertOp \<and> ed_to d > int (length contents))"

definition edit_flush :: "'b Delta \<Rightarrow> 'b editState \<Rightarrow> 'b editState" where
  "edit_flush d s = (if ed_op d \<noteq> replaceOp \<or> ed_from d \<noteq> es_prevPos s
     then s\<lparr>es_offset := max (es_offset s) (es_replaceOffset s), es_patched := es_patched s @ es_replacement s,
            es_replacement := [], es_replaceOffset := 0\<rparr> else s)"

definition edit_copy :: "'b list \<Rightarrow> 'b Delta \<Rightarrow> 'b editState \<Rightarrow> 'b editState res" where
  "edit_copy contents d s = (if ed_from d > es_offset s
     then rbind (sl_sub contents (es_offset s) (ed_from d)) (\<lambda>c.
            Inr (s\<lparr>es_patched := es_patched s @ c, es_offset := max (es_offset s) (ed_from d)\<rparr>))
     else Inr s)"

definition edit_apply :: "'b Delta \<Rightarrow> 'b editState \<Rightarrow> 'b editState" where
  "edit_apply d s = (case ed_op d of
      deleteOp \<Rightarrow> s\<lparr>es_offset := max (es_offset s) (ed_to d)\<rparr>
    | replaceOp \<Rightarrow> s\<lparr>es_replacement := overwrite (es_replacement s) (ed_data d),
                     es_replaceOffset := max (es_replaceOffset s) (ed_to d)\<rparr>
    | insertOp \<Rightarrow> s\<lparr>es_patched := es_patched s @ ed_data d\<rparr>)\<lparr>es_prevPos := ed_from d\<rparr>"

fun edit_loop :: "'b list \<Rightarrow> 'b Delta list \<Rightarrow> 'b editState \<Rightarrow> 'b editState res" where
  "edit_loop contents [] s = Inr s"
| "edit_loop contents (d # ds) s =
     (if out_of_range contents d then Inr s
      else rbind (edit_copy contents d (edit_flush d s)) (\<lambda>s'. edit_loop contents ds (edit_apply d s')))"

definition edit_finish :: "'b list \<Rightarrow> 'b editState \<Rightarrow> 'b list res" where
  "edit_finish contents s0 =
     (let s = (if length (es_replacement s0) > 0
               then s0\<lparr>es_patched := es_patched s0 @ es_replacement s0,
                       es_offset := max (es_offset s0) (es_replaceOffset s0)\<rparr> else s0)
      in if es_offset s < int (length contents)
         then rbind (sl_sub contents (es_offset s) (int (length contents))) (\<lambda>c. Inr (es_patched s @ c))
         else Inr (es_patched s))"

definition Do :: "'b list \<Rightarrow> 'b Delta list \<Rightarrow> 'b list res" where
  "Do contents deltas = rbind (edit_loop contents (sortDeltas deltas) edit_init) (edit_finish contents)"

section \<open>Specification\<close>

text \<open>
  The text that the edits put at a position: the replacements there, later ones overwriting earlier
  ones, followed by the insertions. A byte is kept unless a deletion or replacement covers it.
\<close>

definition at_pos :: "editOp \<Rightarrow> nat \<Rightarrow> 'b Delta list \<Rightarrow> 'b Delta list" where
  "at_pos k p ds = filter (\<lambda>d. ed_op d = k \<and> ed_from d = int p) ds"

definition replaced :: "'b Delta list \<Rightarrow> nat \<Rightarrow> 'b list" where
  "replaced ds p = fold (\<lambda>d r. overwrite r (ed_data d)) (at_pos replaceOp p ds) []"

definition new_text :: "'b Delta list \<Rightarrow> nat \<Rightarrow> 'b list" where
  "new_text ds p = replaced ds p @ concat (map ed_data (at_pos insertOp p ds))"

definition covered :: "'b Delta list \<Rightarrow> nat \<Rightarrow> bool" where
  "covered ds p = list_ex (\<lambda>d. ed_op d \<noteq> insertOp \<and> ed_from d \<le> int p \<and> int p < ed_to d) ds"

definition kept :: "'b list \<Rightarrow> 'b Delta list \<Rightarrow> nat \<Rightarrow> 'b list" where
  "kept contents ds p = (if p < length contents \<and> \<not> covered ds p then [contents ! p] else [])"

definition edited :: "'b list \<Rightarrow> 'b Delta list \<Rightarrow> 'b list" where
  "edited contents ds = concat (map (\<lambda>p. new_text ds p @ kept contents ds p) [0..<Suc (length contents)])"

section \<open>Sorting\<close>

definition delta_key :: "'b Delta \<Rightarrow> int" where
  "delta_key d = 3 * ed_from d + (case ed_op d of deleteOp \<Rightarrow> 0 | replaceOp \<Rightarrow> 1 | insertOp \<Rightarrow> 2)"

lemma SliceStable_eq:
  assumes "\<And>x y. lt x y \<longleftrightarrow> f x < f y"
  shows "SliceStable lt xs = sort_key f xs"
proof -
  have "stable_insert lt x ys = insort_key f x ys" for x ys
    by (induction ys) (auto simp: assms)
  then have "stable_insert lt = insort_key f" by (intro ext)
  then show ?thesis by (simp add: SliceStable_def sort_key_def)
qed

lemma sortDeltas_eq: "sortDeltas ds = sort_key delta_key ds"
  unfolding sortDeltas_def
  by (rule SliceStable_eq) (auto simp: delta_less_def delta_key_def comparisons_def split: editOp.splits)

lemma at_pos_key: "(ed_op d = k \<and> ed_from d = int p) \<longleftrightarrow>
    delta_key d = 3 * int p + (case k of deleteOp \<Rightarrow> 0 | replaceOp \<Rightarrow> 1 | insertOp \<Rightarrow> 2)"
  unfolding delta_key_def by (cases k; cases "ed_op d"; simp; presburger)

lemma edited_sortDeltas [simp]: "edited contents (sortDeltas ds) = edited contents ds"
proof -
  have at: "at_pos k p (sortDeltas ds) = at_pos k p ds" for k p
    unfolding at_pos_def at_pos_key sortDeltas_eq by (rule sort_key_stable)
  have "set (sortDeltas ds) = set ds" by (simp add: sortDeltas_eq)
  then have "covered (sortDeltas ds) p = covered ds p" for p by (simp add: covered_def list_ex_iff)
  then show ?thesis by (simp add: edited_def new_text_def replaced_def kept_def at cong: map_cong)
qed

section \<open>The loop of Do\<close>

definition edit_done :: "'b list \<Rightarrow> 'b Delta list \<Rightarrow> nat \<Rightarrow> 'b list" where
  "edit_done c us q = concat (map (\<lambda>p. new_text us p @ kept c us p) [0..<q])"

definition reach :: "'b Delta list \<Rightarrow> int" where
  "reach us = foldr (\<lambda>d m. if ed_op d \<noteq> insertOp then max (ed_to d) m else m) us 0"

lemma reach_Nil [simp]: "reach [] = 0" by (simp add: reach_def)

lemma reach_nonneg: "0 \<le> reach us" by (induction us) (auto simp: reach_def)

lemma reach_snoc:
  "reach (us @ [d]) = (if ed_op d \<noteq> insertOp then max (ed_to d) (reach us) else reach us)"
  by (induction us) (auto simp: reach_def)

lemma covered_reach:
  "\<forall>d\<in>set us. ed_from d \<le> int p \<Longrightarrow> covered us p \<longleftrightarrow> int p < reach us"
  by (induction us) (auto simp: covered_def reach_def)

lemma at_pos_snoc: "at_pos k p (us @ [d]) = at_pos k p us @ (if ed_op d = k \<and> ed_from d = int p then [d] else [])"
  by (simp add: at_pos_def)

lemma at_pos_later: "\<forall>d\<in>set us. ed_from d \<le> int q \<Longrightarrow> q < p \<Longrightarrow> at_pos k p us = []"
  by (auto simp: at_pos_def filter_empty_conv)

lemma new_text_later: "\<forall>d\<in>set us. ed_from d \<le> int q \<Longrightarrow> q < p \<Longrightarrow> new_text us p = [] \<and> replaced us p = []"
  by (simp add: new_text_def replaced_def at_pos_later)

lemma edit_done_snoc:
  assumes "int q \<le> ed_from d"
  shows "edit_done c (us @ [d]) q = edit_done c us q"
proof -
  have "new_text (us @ [d]) p @ kept c (us @ [d]) p = new_text us p @ kept c us p" if "p < q" for p
    using assms that by (auto simp: new_text_def replaced_def at_pos_snoc kept_def covered_def)
  then show ?thesis unfolding edit_done_def by (intro arg_cong [where f = concat] map_cong) auto
qed

lemma map_nth_segment: "b \<le> length c \<Longrightarrow> map ((!) c) [a..<b] = take (b - a) (drop a c)"
  by (rule nth_equalityI) auto

lemma kept_segment:
  assumes fr: "\<forall>d\<in>set us. ed_from d \<le> int q" and b: "b \<le> length c" and m: "int m = max (int q) (reach us)"
  shows "concat (map (kept c us) [q..<b]) = take (b - m) (drop m c)"
proof -
  have k: "kept c us p = (if m \<le> p then [c ! p] else [])" if "q \<le> p" "p < b" for p
  proof -
    have "covered us p \<longleftrightarrow> int p < reach us" using fr that(1) by (intro covered_reach) auto
    then show ?thesis using that m b by (auto simp: kept_def)
  qed
  show ?thesis
  proof (cases "m \<le> b")
    case True
    have "[q..<b] = [q..<m] @ [m..<b]" using True m upt_add_eq_append [of q m "b - m"] by auto
    moreover have "concat (map (kept c us) [q..<m]) = []" using k True by simp
    moreover have "concat (map (kept c us) [m..<b]) = concat (map (\<lambda>p. [c ! p]) [m..<b])"
      using k m by (intro arg_cong [where f = concat] map_cong) auto
    ultimately show ?thesis using map_nth_segment [OF b, of m] by (simp add: concat_map_singleton)
  next
    case False
    then show ?thesis using k by simp
  qed
qed

lemma edit_done_extend:
  assumes "\<forall>d\<in>set us. ed_from d \<le> int q" and "q < b"
  shows "edit_done c us b = edit_done c us q @ new_text us q @ concat (map (kept c us) [q..<b])"
proof -
  have s: "[0..<b] = [0..<q] @ q # [Suc q..<b]"
    using assms(2) upt_add_eq_append [of 0 q "b - q"] by (simp add: upt_conv_Cons)
  have t: "map (\<lambda>p. new_text us p @ kept c us p) [Suc q..<b] = map (kept c us) [Suc q..<b]"
    using new_text_later [OF assms(1)] by (intro map_cong) auto
  show ?thesis unfolding edit_done_def s upt_conv_Cons [OF assms(2)] map_append list.map t by simp
qed

text \<open>
  What holds after the deltas \<open>us\<close>, the last of which is at position \<open>q\<close>: everything in front of \<open>q\<close> is
  final, and so is the text at \<open>q\<close>, except that the replacements there are held back until an insertion
  or another position.
\<close>

definition edit_inv :: "'b list \<Rightarrow> 'b Delta list \<Rightarrow> nat \<Rightarrow> 'b editState \<Rightarrow> bool" where
  "edit_inv c us q s \<longleftrightarrow> (\<forall>d\<in>set us. ed_from d \<le> int q) \<and> es_prevPos s = int q \<and> q \<le> length c \<and>
     int q \<le> es_offset s \<and> max (es_offset s) (es_replaceOffset s) = max (int q) (reach us) \<and>
     (es_replacement s = [] \<longrightarrow> es_replaceOffset s \<le> es_offset s) \<and>
     (if at_pos insertOp q us = [] then es_replacement s = replaced us q \<and> es_patched s = edit_done c us q
      else es_replacement s = [] \<and> es_patched s = edit_done c us q @ new_text us q)"

lemma edit_inv_init: "edit_inv c [] 0 edit_init"
  by (simp add: edit_inv_def edit_init_def at_pos_def replaced_def edit_done_def)

lemma edit_inv_text: "edit_inv c us q s \<Longrightarrow> es_patched s @ es_replacement s = edit_done c us q @ new_text us q"
  by (auto simp: edit_inv_def new_text_def split: if_splits)

lemma overwrite_Nil [simp]: "overwrite [] b = b"
  by (simp add: overwrite_def)

lemma overwrite_eq_Nil: "overwrite a b = [] \<longleftrightarrow> a = [] \<and> b = []"
  by (auto simp: overwrite_def)

lemma nat_max_int: "int (nat (max (int q) r)) = max (int q) r"
  by (simp add: max_def)

lemma edit_flush_eq:
  assumes "edit_inv c us q s" and "ed_op d \<noteq> replaceOp \<or> ed_from d \<noteq> int q"
  shows "edit_flush d s = s\<lparr>es_offset := max (int q) (reach us), es_patched := edit_done c us q @ new_text us q,
           es_replacement := [], es_replaceOffset := 0\<rparr>"
  using assms edit_inv_text [OF assms(1)] by (simp add: edit_flush_def edit_inv_def)

text \<open>A delta that is the first of its position, or behind a deletion.\<close>

lemma edit_apply_first:
  assumes "\<forall>d\<in>set us. ed_from d \<le> int f" "f \<le> length c" "ed_from d = int f"
    and "at_pos insertOp f us = []" "replaced us f = []" and "ed_op d = replaceOp \<Longrightarrow> ed_data d \<noteq> []"
    and s: "es_patched s = edit_done c us f" "es_replacement s = []" "es_replaceOffset s = 0"
      "es_offset s = max (int f) (reach us)"
  shows "edit_inv c (us @ [d]) f (edit_apply d s)"
proof -
  have r: "replaced (us @ [d]) f = (if ed_op d = replaceOp then ed_data d else [])"
    using assms(3,5) by (simp add: replaced_def at_pos_snoc)
  have i: "at_pos insertOp f (us @ [d]) = (if ed_op d = insertOp then [d] else [])"
    using assms(3,4) by (simp add: at_pos_snoc)
  note e = edit_done_snoc [of f d c us] reach_nonneg [of us]
  show ?thesis using assms r i e
    by (cases "ed_op d") (auto simp: edit_inv_def edit_apply_def reach_snoc new_text_def)
qed

lemma edit_apply_insert:
  assumes inv: "edit_inv c us q s" and d: "ed_from d = int q" "ed_op d = insertOp"
  shows "edit_inv c (us @ [d]) q (edit_apply d (edit_flush d s))"
proof -
  have "new_text (us @ [d]) q = new_text us q @ ed_data d" using d by (simp add: new_text_def replaced_def at_pos_snoc)
  moreover have "at_pos insertOp q (us @ [d]) \<noteq> []" using d by (simp add: at_pos_snoc)
  ultimately show ?thesis
    using inv d edit_done_snoc [of q d c us] reach_nonneg [of us] edit_flush_eq [OF inv, of d]
    by (simp add: edit_inv_def edit_apply_def reach_snoc)
qed

lemma edit_apply_replace:
  assumes inv: "edit_inv c us q s" and d: "ed_from d = int q" "ed_op d = replaceOp" "ed_data d \<noteq> []"
    and none: "at_pos insertOp q us = []"
  shows "edit_inv c (us @ [d]) q (edit_apply d s)"
proof -
  have "replaced (us @ [d]) q = overwrite (replaced us q) (ed_data d)" using d by (simp add: replaced_def at_pos_snoc)
  moreover have "at_pos insertOp q (us @ [d]) = []" using d none by (simp add: at_pos_snoc)
  moreover have "max (es_offset s) (max (es_replaceOffset s) (ed_to d)) = max (int q) (max (ed_to d) (reach us))"
    using inv by (simp add: edit_inv_def) linarith
  ultimately show ?thesis
    using inv d none edit_done_snoc [of q d c us]
    by (simp add: edit_inv_def edit_apply_def reach_snoc overwrite_eq_Nil)
qed

lemma edit_step:
  assumes inv: "edit_inv c us q s" and f: "ed_from d = int f" "q \<le> f" and ok: "\<not> out_of_range c d"
    and data: "ed_op d = replaceOp \<Longrightarrow> ed_data d \<noteq> []"
    and order: "f = q \<Longrightarrow> ed_op d \<noteq> insertOp \<Longrightarrow> at_pos insertOp q us = []"
      "f = q \<Longrightarrow> ed_op d = deleteOp \<Longrightarrow> at_pos replaceOp q us = []"
  shows "\<exists>s'. edit_copy c d (edit_flush d s) = Inr s' \<and> edit_inv c (us @ [d]) f (edit_apply d s')"
proof -
  have len: "f \<le> length c" using ok f(1) by (simp add: out_of_range_def)
  have fr: "\<forall>d\<in>set us. ed_from d \<le> int q" "int q \<le> es_offset s" using inv by (simp_all add: edit_inv_def)
  consider "q < f" | "f = q" "ed_op d = deleteOp" | "f = q" "ed_op d = replaceOp" | "f = q" "ed_op d = insertOp"
    using f(2) by (cases "ed_op d") (auto simp: le_less)
  then show ?thesis
  proof cases
    case 1
    obtain m where m: "int m = max (int q) (reach us)" using nat_max_int by blast
    let ?s = "edit_flush d s"
    let ?s' = "?s\<lparr>es_patched := edit_done c us f, es_offset := max (int f) (reach us)\<rparr>"
    have s: "?s = s\<lparr>es_offset := int m, es_patched := edit_done c us q @ new_text us q,
        es_replacement := [], es_replaceOffset := 0\<rparr>"
      using edit_flush_eq [OF inv, of d] f 1 m by simp
    have seg: "edit_done c us f = edit_done c us q @ new_text us q @ take (f - m) (drop m c)"
      using edit_done_extend [OF fr(1) 1, of c] kept_segment [OF fr(1) len m] by simp
    have "edit_copy c d ?s = Inr ?s'"
    proof (cases "m < f")
      case True
      then have "sl_sub c (int m) (int f) = Inr (take (f - m) (drop m c))" using len by (intro sl_sub_int) auto
      moreover have "max (int m) (int f) = max (int f) (reach us)" using True 1 m by auto
      ultimately show ?thesis using True f(1) seg by (simp add: edit_copy_def s)
    next
      case False
      then have "int m = max (int f) (reach us)" using 1 m by auto
      then show ?thesis using False f(1) seg by (simp add: edit_copy_def s)
    qed
    moreover have "edit_inv c (us @ [d]) f (edit_apply d ?s')"
      using fr(1) 1 len f(1) data new_text_later [OF fr(1) 1] at_pos_later [OF fr(1) 1]
      by (intro edit_apply_first) (auto simp: s)
    ultimately show ?thesis by blast
  next
    case 2
    then have none: "at_pos insertOp q us = []" "at_pos replaceOp q us = []" using order by auto
    have "edit_inv c (us @ [d]) q (edit_apply d (edit_flush d s))"
      using fr(1) len f(1) 2 none edit_flush_eq [OF inv, of d]
      by (intro edit_apply_first) (auto simp: replaced_def new_text_def)
    then show ?thesis using 2 f(1) edit_flush_eq [OF inv, of d] by (simp add: edit_copy_def)
  next
    case 3
    then have none: "at_pos insertOp q us = []" using order by auto
    have "edit_flush d s = s" using 3 f(1) inv by (simp add: edit_flush_def edit_inv_def)
    then show ?thesis using edit_apply_replace [OF inv _ 3(2) data [OF 3(2)] none] 3 f(1) fr(2) by (simp add: edit_copy_def)
  next
    case 4
    then show ?thesis using edit_apply_insert [OF inv _ 4(2)] f(1) edit_flush_eq [OF inv, of d] by (simp add: edit_copy_def)
  qed
qed

lemma edit_finish_done:
  assumes inv: "edit_inv c us q s"
  shows "edit_finish c s = Inr (edited c us)"
proof -
  obtain m where mm: "int m = max (int q) (reach us)" using nat_max_int by blast
  have fr: "\<forall>d\<in>set us. ed_from d \<le> int q" and q: "q \<le> length c" using inv by (simp_all add: edit_inv_def)
  have "edited c us = edit_done c us (Suc (length c))" by (simp add: edited_def edit_done_def)
  also have "\<dots> = edit_done c us q @ new_text us q @ concat (map (kept c us) [q..<length c])"
    using edit_done_extend [OF fr, of "Suc (length c)" c] q by (simp add: kept_def)
  also have "\<dots> = edit_done c us q @ new_text us q @ drop m c"
    using kept_segment [OF fr order.refl mm, of c] by simp
  finally have e: "edited c us = (es_patched s @ es_replacement s) @ drop m c"
    using edit_inv_text [OF inv] by simp
  have m: "max (es_offset s) (es_replaceOffset s) = int m" "es_replacement s = [] \<Longrightarrow> es_offset s = int m"
    using inv mm by (auto simp: edit_inv_def)
  have sub: "sl_sub c (int m) (int (length c)) = Inr (drop m c)" if "m < length c"
    using that by (intro sl_sub_to_end) simp
  show ?thesis
    using m e sub by (cases "es_replacement s = []"; cases "m < length c") (simp_all add: edit_finish_def Let_def)
qed

lemma delta_key_from: "delta_key d \<le> delta_key e \<Longrightarrow> ed_from d \<le> ed_from e"
  unfolding delta_key_def by (cases "ed_op d"; cases "ed_op e") auto

lemma at_pos_none:
  assumes "\<forall>u\<in>set us. delta_key u \<le> delta_key d" and "ed_from d = int q"
  shows "ed_op d \<noteq> insertOp \<Longrightarrow> at_pos insertOp q us = []"
    and "ed_op d = deleteOp \<Longrightarrow> at_pos replaceOp q us = []"
  using assms unfolding at_pos_def filter_empty_conv delta_key_def
  by (fastforce split: editOp.splits)+

lemma edit_loop_done:
  assumes "edit_inv c us q s" and "sorted (map delta_key (us @ ds))" and "\<forall>d\<in>set ds. int q \<le> ed_from d"
    and "\<forall>d\<in>set ds. ed_op d = replaceOp \<longrightarrow> ed_data d \<noteq> []"
  shows "\<exists>q' s'. edit_loop c ds s = Inr s' \<and> edit_inv c (us @ takeWhile (\<lambda>d. \<not> out_of_range c d) ds) q' s'"
  using assms
proof (induction ds arbitrary: us q s)
  case (Cons d ds)
  show ?case
  proof (cases "out_of_range c d")
    case False
    have key: "\<forall>u\<in>set us. delta_key u \<le> delta_key d" "\<forall>e\<in>set ds. delta_key d \<le> delta_key e"
      using Cons.prems(2) by (auto simp: sorted_append)
    define f where "f = nat (ed_from d)"
    have f: "ed_from d = int f" "q \<le> f" using Cons.prems(3) by (auto simp: f_def)
    have "\<exists>s'. edit_copy c d (edit_flush d s) = Inr s' \<and> edit_inv c (us @ [d]) f (edit_apply d s')"
      using Cons.prems(4) f at_pos_none [OF key(1)] by (intro edit_step [OF Cons.prems(1) f False]) auto
    then obtain s' where s': "edit_copy c d (edit_flush d s) = Inr s'" "edit_inv c (us @ [d]) f (edit_apply d s')" by blast
    have "\<forall>e\<in>set ds. int f \<le> ed_from e" using key(2) delta_key_from f(1) by metis
    then show ?thesis using Cons.IH [OF s'(2)] Cons.prems(2,4) False s'(1) by auto
  qed (use Cons.prems(1) in auto)
qed auto

lemma Do_sorted_prefix:
  assumes "\<forall>d\<in>set ds. 0 \<le> ed_from d" and "\<forall>d\<in>set ds. ed_op d = replaceOp \<longrightarrow> ed_data d \<noteq> []"
  shows "Do c ds = Inr (edited c (takeWhile (\<lambda>d. \<not> out_of_range c d) (sortDeltas ds)))"
proof -
  have "\<exists>q' s'. edit_loop c (sortDeltas ds) edit_init = Inr s' \<and>
          edit_inv c ([] @ takeWhile (\<lambda>d. \<not> out_of_range c d) (sortDeltas ds)) q' s'"
    using assms by (intro edit_loop_done [OF edit_inv_init]) (auto simp: sortDeltas_eq)
  then show ?thesis using edit_finish_done by (auto simp: Do_def)
qed

section \<open>Properties\<close>



lemma Validate_sort: "Validate c ds = validate_loop c (sort_key (\<lambda>d. - ed_from d) ds)"
  unfolding Validate_def by (subst SliceStable_eq [where f = "\<lambda>d. - ed_from d"]) auto

lemma validate_loop_sound: "d \<in> set (validate_loop c ds) \<Longrightarrow> d \<in> set ds \<and> out_of_range c d"
  by (induction ds) (auto simp: out_of_range_def split: if_splits)

lemma validate_loop_starts:
  "sorted (map (\<lambda>d. - ed_from d) ds) \<Longrightarrow> d \<in> set ds \<Longrightarrow> int (length c) < ed_from d \<Longrightarrow> d \<in> set (validate_loop c ds)"
  by (induction ds) (auto simp: image_iff)

lemma validate_loop_complete:
  "\<forall>d\<in>set ds. ed_op d \<noteq> insertOp \<Longrightarrow> d \<in> set ds \<Longrightarrow> out_of_range c d \<Longrightarrow> d \<in> set (validate_loop c ds)"
  by (induction ds) (auto simp: out_of_range_def)

text \<open>
  Validate reports only edits that are out of range, all that start out of range, and, if there
  are no insertions, all that are out of range. It stops at the first insertion within the contents and
  so misses an edit that starts in front of it and ends out of range. A replacement by nothing that is
  the last edit leaves the contents as they are.
\<close>

theorem validate_reports:
  shows "(\<forall>d. d \<in> set (Validate c ds) \<longrightarrow> d \<in> set ds \<and> out_of_range c d)
    \<and> (\<forall>d. d \<in> set ds \<and> int (length c) < ed_from d \<longrightarrow> d \<in> set (Validate c ds))
    \<and> ((\<forall>d\<in>set ds. ed_op d \<noteq> insertOp) \<longrightarrow> set (Validate c ds) = {d \<in> set ds. out_of_range c d})
    \<and> Validate ''abc'' [e_Insert 2 ''x'', e_Delete 1 9] = [] \<and> out_of_range ''abc'' (e_Delete 1 9 :: char Delta)
    \<and> Do ''abc'' [e_Replace 0 2 []] = Inr ''abc'' \<and> edited ''abc'' [e_Replace 0 2 []] = ''c''"
proof (intro conjI)
  have st: "set (sort_key (\<lambda>d. - ed_from d) ds) = set ds" by simp
  show sound: "\<forall>d. d \<in> set (Validate c ds) \<longrightarrow> d \<in> set ds \<and> out_of_range c d"
    using validate_loop_sound [of _ c "sort_key (\<lambda>d. - ed_from d) ds"] by (auto simp: Validate_sort)
  show "\<forall>d. d \<in> set ds \<and> int (length c) < ed_from d \<longrightarrow> d \<in> set (Validate c ds)"
    using validate_loop_starts [OF sorted_sort_key, where c = c] by (simp add: Validate_sort)
  show "(\<forall>d\<in>set ds. ed_op d \<noteq> insertOp) \<longrightarrow> set (Validate c ds) = {d \<in> set ds. out_of_range c d}"
  proof (intro impI equalityI subsetI)
    fix d assume a: "\<forall>d\<in>set ds. ed_op d \<noteq> insertOp" "d \<in> {d \<in> set ds. out_of_range c d}"
    then show "d \<in> set (Validate c ds)"
      using validate_loop_complete [of "sort_key (\<lambda>d. - ed_from d) ds" d c] by (simp add: Validate_sort)
  qed (use sound in blast)
  show "Validate ''abc'' [e_Insert 2 ''x'', e_Delete 1 9] = []" by code_simp
  show "out_of_range ''abc'' (e_Delete 1 9 :: char Delta)" by code_simp
  show "Do ''abc'' [e_Replace 0 2 []] = Inr ''abc''" by code_simp
  show "edited ''abc'' [e_Replace 0 2 []] = ''c''" by code_simp
qed

lemma validate_reports_witness:
  "e_Insert 5 ''x'' \<in> set (Validate ''abc'' [e_Delete 1 1, e_Insert 5 ''x''])"
  using validate_reports [of "''abc''" "[e_Delete 1 1, e_Insert 5 ''x'']"] by (simp add: e_Insert_def)

end
