(* ===== verification/Dates.thy ===== *)
theory Dates
  imports Prelude
begin

text \<open>
  Dates of the package \<^verbatim>\<open>datetime\<close>: months and days of a year (\<^verbatim>\<open>dates.go\<close>), calendar dates
  (\<^verbatim>\<open>calendar.go\<close>) and days of a year (\<^verbatim>\<open>yearplace.go\<close>). They are machine words, packed and
  unpacked with the shifts and masks of the source; Go's \<^verbatim>\<open>int\<close> is \<open>int\<close>. The arithmetic on dates
  is related to the number of the day in the year, and across years to a running day number.
\<close>

unbundle bit_operations_syntax

type_synonym Month = "8 word"
type_synonym Date = "16 word"
type_synonym CalendarDate = "32 word"
type_synonym YearDay = "32 word"

section \<open>Years and months (yearplace.go)\<close>

definition IsLeap :: "int \<Rightarrow> bool" where
  "IsLeap year \<longleftrightarrow> remn year 4 = 0 \<and> remn year 100 \<noteq> 0 \<or> remn year 400 = 0"

definition DaysInFeb :: "int \<Rightarrow> 8 word" where
  "DaysInFeb year = (if IsLeap year then 29 else 28)"

definition DaysInYear :: "int \<Rightarrow> int" where
  "DaysInYear year = (if IsLeap year then 366 else 365)"

definition daysInMonthForYearInit :: "int \<Rightarrow> 8 word \<Rightarrow> 8 word" where
  "daysInMonthForYearInit year month =
     (if month = 2 then DaysInFeb year
      else if month = 4 \<or> month = 6 \<or> month = 9 \<or> month = 11 then 30
      else 31)"

definition init_days :: "int \<Rightarrow> 8 word list" where
  "init_days year = map (\<lambda>i. daysInMonthForYearInit year (word_of_int (i + 1))) [0..11]"

definition init_cumulative :: "8 word list \<Rightarrow> int list res" where
  "init_cumulative days =
     rfold (\<lambda>i doy. rbind (sl_get doy (i + 1)) (\<lambda>c. rbind (sl_get doy i) (\<lambda>p. rbind (sl_get days i) (\<lambda>n.
              sl_set doy (i + 1) (c + (p + uint n)))))) [0..10] (replicate 12 0)"

definition daysInMonth :: "8 word list" where
  "daysInMonth = init_days 2023"

definition daysInMonthLeap :: "8 word list" where
  "daysInMonthLeap = init_days 2024"

definition dayOfYear :: "int list" where
  "dayOfYear = (case init_cumulative daysInMonth of Inr d \<Rightarrow> d | Inl _ \<Rightarrow> [])"

definition dayOfYearLeap :: "int list" where
  "dayOfYearLeap = (case init_cumulative daysInMonthLeap of Inr d \<Rightarrow> d | Inl _ \<Rightarrow> [])"

definition mirrorMonths :: "8 word list" where
  "mirrorMonths = [10, 9, 8, 7, 6, 5, 4, 3, 2, 1, 0, 11]"

definition MirrorMonth :: "Month \<Rightarrow> Month res" where
  "MirrorMonth month = rbind (sl_get mirrorMonths (uint (month - 1))) (\<lambda>m. Inr (m + 1))"

definition daysInMonthForYear :: "int \<Rightarrow> 8 word list" where
  "daysInMonthForYear year = (if IsLeap year then daysInMonthLeap else daysInMonth)"

definition DaysInMonth :: "int \<Rightarrow> Month \<Rightarrow> 8 word res" where
  "DaysInMonth year month =
     (if IsLeap year then sl_get daysInMonthLeap (uint (month - 1))
      else sl_get daysInMonth (uint (month - 1)))"

section \<open>Dates (dates.go)\<close>

definition NewDate :: "Month \<Rightarrow> int \<Rightarrow> Date" where
  "NewDate month day = push_bit 8 (ucast month AND 0xff) OR ucast (word_of_int day AND 0xff :: 8 word)"

definition newDate8 :: "Month \<Rightarrow> 8 word \<Rightarrow> Date" where
  "newDate8 month day = push_bit 8 (ucast month AND 0xff) OR ucast (day AND 0xff)"

definition d_Month :: "Date \<Rightarrow> Month" where
  "d_Month d = ucast (drop_bit 8 d)"

definition d_day :: "Date \<Rightarrow> 8 word" where
  "d_day d = ucast (d AND 0xff)"

definition d_Day :: "Date \<Rightarrow> int" where
  "d_Day d = uint (d AND 0xff)"

definition d_Normalize :: "Date \<Rightarrow> int \<Rightarrow> bool \<Rightarrow> Date res" where
  "d_Normalize d year firstOfMonth =
     (let month = min (max (d_Month d) 1) 12
      in rbind (sl_get (daysInMonthForYear year) (uint (month - 1))) (\<lambda>dm.
         let day = d_day d;
             day = (if day = 0 then (if firstOfMonth then 1 else dm) else day)
         in Inr (newDate8 month (min day dm))))"

definition calcDayOfYear :: "8 word \<Rightarrow> 8 word \<Rightarrow> bool \<Rightarrow> int res" where
  "calcDayOfYear month day leap =
     (let month = month - 1
      in if leap
         then rbind (sl_get daysInMonthLeap (uint month)) (\<lambda>dm.
              rbind (sl_get dayOfYearLeap (uint month)) (\<lambda>n. Inr (n + uint (if day > dm then dm else day))))
         else rbind (sl_get daysInMonth (uint month)) (\<lambda>dm.
              rbind (sl_get dayOfYear (uint month)) (\<lambda>n. Inr (n + uint (if day > dm then dm else day)))))"

definition d_DayOfYear :: "Date \<Rightarrow> int \<Rightarrow> int res" where
  "d_DayOfYear d year = calcDayOfYear (ucast (drop_bit 8 d AND 0xff)) (ucast (d AND 0xff)) (IsLeap year)"

definition d_calcDayOfYear :: "Date \<Rightarrow> bool \<Rightarrow> int res" where
  "d_calcDayOfYear d leap = calcDayOfYear (ucast (drop_bit 8 d AND 0xff)) (ucast (d AND 0xff)) leap"

definition tomorrow :: "Date \<Rightarrow> 8 word list \<Rightarrow> Date res" where
  "tomorrow d dim =
     (let day = d_day d; month = d_Month d
      in if month = 12 \<and> day = 31 then Inr (NewDate 1 1)
         else rbind (sl_get dim (uint (month - 1))) (\<lambda>dm.
              if day \<ge> dm then Inr (NewDate (month + 1) 1)
              else Inr (NewDate month (uint (day + 1)))))"

definition d_Tomorrow :: "Date \<Rightarrow> int \<Rightarrow> Date res" where
  "d_Tomorrow d year = tomorrow d (daysInMonthForYear year)"

definition yesterday :: "Date \<Rightarrow> 8 word list \<Rightarrow> Date res" where
  "yesterday d dim =
     (let day = d_day d; month = d_Month d
      in if month = 1 \<and> day = 1 then Inr (NewDate 12 31)
         else if day \<le> 1
         then rbind (sl_get dim (uint (month - 2))) (\<lambda>dm. Inr (newDate8 (month - 1) dm))
         else Inr (newDate8 month (day - 1)))"

definition d_Yesterday :: "Date \<Rightarrow> int \<Rightarrow> Date res" where
  "d_Yesterday d year = yesterday d (daysInMonthForYear year)"

section \<open>Days of a year (yearplace.go)\<close>

definition yd_Year :: "YearDay \<Rightarrow> int" where
  "yd_Year yd = uint (drop_bit 16 yd)"

definition yd_Day :: "YearDay \<Rightarrow> int" where
  "yd_Day yd = uint (yd AND 0xffff)"

definition NewYearDay :: "int \<Rightarrow> int \<Rightarrow> YearDay" where
  "NewYearDay year day =
     (let n = DaysInYear year; day = (if day > n then n else day)
      in push_bit 16 (word_of_int year) OR word_of_int day)"

fun dateFromDay_loop :: "int list \<Rightarrow> int \<Rightarrow> 8 word list \<Rightarrow> Date res" where
  "dateFromDay_loop [] day dim = Inl Unreachable"
| "dateFromDay_loop (month # rest) day dim =
     rbind (sl_get dim month) (\<lambda>dm.
     if day \<le> uint dm then Inr (NewDate (word_of_int (month + 1)) day)
     else dateFromDay_loop rest (day - uint dm) dim)"

definition dateFromDay :: "int \<Rightarrow> 8 word list \<Rightarrow> Date res" where
  "dateFromDay day dim = dateFromDay_loop [0..11] day dim"

definition yd_Date :: "YearDay \<Rightarrow> Date res" where
  "yd_Date yd =
     (let day = yd_Day yd; year = yd_Year yd
      in if day \<le> 0 then Inr (NewDate 1 1)
         else if IsLeap year
         then if day > 366 then Inr (NewDate 12 31) else dateFromDay day daysInMonthLeap
         else if day > 365 then Inr (NewDate 12 31) else dateFromDay day daysInMonth)"

definition d_YearDay :: "Date \<Rightarrow> int \<Rightarrow> YearDay res" where
  "d_YearDay d year = rbind (d_DayOfYear d year) (\<lambda>n. Inr (NewYearDay year n))"

section \<open>Calendar dates (calendar.go)\<close>

definition NewCalendarDate :: "int \<Rightarrow> Month \<Rightarrow> int \<Rightarrow> CalendarDate" where
  "NewCalendarDate year month day =
     push_bit 16 (word_of_int (year AND 0xffff)) OR push_bit 8 (ucast month) OR word_of_int day"

definition newCalendarDate8 :: "16 word \<Rightarrow> Month \<Rightarrow> 8 word \<Rightarrow> CalendarDate" where
  "newCalendarDate8 year month day =
     push_bit 16 (ucast (year AND 0xffff)) OR push_bit 8 (ucast month) OR ucast day"

definition cd_Year :: "CalendarDate \<Rightarrow> int" where
  "cd_Year cd = uint (drop_bit 16 cd AND 0xffff)"

definition year16 :: "CalendarDate \<Rightarrow> 16 word" where
  "year16 cd = ucast (drop_bit 16 cd AND 0xffff)"

definition cd_Month :: "CalendarDate \<Rightarrow> Month" where
  "cd_Month cd = ucast (drop_bit 8 cd AND 0xff)"

definition cd_Day :: "CalendarDate \<Rightarrow> int" where
  "cd_Day cd = uint (cd AND 0xff)"

definition day8 :: "CalendarDate \<Rightarrow> 8 word" where
  "day8 cd = ucast (cd AND 0xff)"

definition cd_Date :: "CalendarDate \<Rightarrow> Date" where
  "cd_Date cd = ucast (cd AND 0xffff)"

definition cd_DayOfYear :: "CalendarDate \<Rightarrow> int res" where
  "cd_DayOfYear cd =
     calcDayOfYear (ucast (drop_bit 8 cd AND 0xff)) (ucast (cd AND 0xff)) (IsLeap (cd_Year cd))"

definition cd_YearDay :: "CalendarDate \<Rightarrow> YearDay res" where
  "cd_YearDay cd = rbind (cd_DayOfYear cd) (\<lambda>n. Inr (NewYearDay (cd_Year cd) n))"

definition cd_Normalize :: "CalendarDate \<Rightarrow> bool \<Rightarrow> CalendarDate res" where
  "cd_Normalize cd firstOfMonth =
     (let year = cd_Year cd; month = min (max (cd_Month cd) 1) 12
      in rbind (sl_get (daysInMonthForYear year) (uint (month - 1))) (\<lambda>dm.
         let day = day8 cd;
             day = (if day = 0 then (if firstOfMonth then 1 else dm) else day)
         in Inr (NewCalendarDate year month (uint (min day dm)))))"

definition cd_Tomorrow :: "CalendarDate \<Rightarrow> CalendarDate res" where
  "cd_Tomorrow cd =
     (let year = cd_Year cd; month = cd_Month cd; day = cd_Day cd
      in if month = 12 \<and> day = 31 then Inr (NewCalendarDate (year + 1) 1 1)
         else rbind (DaysInMonth year month) (\<lambda>dm.
              if day = uint dm then Inr (NewCalendarDate year (month + 1) 1)
              else Inr (NewCalendarDate year month (day + 1))))"

definition cd_Yesterday :: "CalendarDate \<Rightarrow> CalendarDate res" where
  "cd_Yesterday cd =
     (let year = year16 cd; month = cd_Month cd; day = cd_Day cd
      in if month = 1 \<and> day = 1 then Inr (newCalendarDate8 (year - 1) 12 31)
         else if day = 1
         then rbind (DaysInMonth (uint year) month) (\<lambda>dm. Inr (newCalendarDate8 year (month - 1) dm))
         else Inr (newCalendarDate8 year month (word_of_int (day AND 0xff) - 1)))"

definition d_CalendarDate :: "Date \<Rightarrow> int \<Rightarrow> CalendarDate" where
  "d_CalendarDate d year = NewCalendarDate year (d_Month d) (d_Day d)"

definition yd_CalendarDate :: "YearDay \<Rightarrow> CalendarDate res" where
  "yd_CalendarDate yd =
     rbind (yd_Date yd) (\<lambda>date. Inr (NewCalendarDate (yd_Year yd) (d_Month date) (d_Day date)))"

section \<open>Packing and unpacking\<close>

lemma mask_0xff: "(0xff :: 'a::len word) = mask 8"
  by (simp add: mask_eq_exp_minus_1)

lemma mask_0xffff: "(0xffff :: 'a::len word) = mask 16"
  by (simp add: mask_eq_exp_minus_1)

lemmas masks = mask_0xff mask_0xffff

lemma uint_8: "uint (x :: 8 word) < 256"
  using uint_bounded [of x] by simp

lemma uint_16: "uint (x :: 16 word) < 65536"
  using uint_bounded [of x] by simp

lemma NewDate_newDate8: "NewDate m d = newDate8 m (word_of_int d)"
  by (simp add: NewDate_def newDate8_def)

lemma newDate8_fields [simp]: "d_Month (newDate8 m d) = m" "d_day (newDate8 m d) = d"
  by (rule bit_word_eqI; simp add: d_Month_def d_day_def newDate8_def masks bit_simps)+

lemma newDate8_surjective [simp]: "newDate8 (d_Month d) (d_day d) = d"
  by (rule bit_word_eqI) (auto simp: d_day_def d_Month_def newDate8_def masks bit_simps)

lemma d_Day_uint: "d_Day d = uint (d_day d)"
proof -
  have "(ucast (d_day d) :: 16 word) = d AND 0xff"
    by (rule bit_word_eqI) (auto simp: d_day_def masks bit_simps)
  moreover have "uint (ucast (d_day d) :: 16 word) = uint (d_day d)"
    using uint_8 [of "d_day d"] by (simp add: unsigned_ucast_eq take_bit_int_eq_self)
  ultimately show ?thesis by (simp add: d_Day_def)
qed

lemma newDate8_inject [simp]: "newDate8 m d = newDate8 m' d' \<longleftrightarrow> m = m' \<and> d = d'"
  by (metis newDate8_fields)

lemma newDate8_sum: "newDate8 m d = ucast m * 256 + ucast d"
proof -
  have "newDate8 m d = push_bit 8 (ucast m) OR ucast d"
    by (rule bit_word_eqI) (auto simp: newDate8_def masks bit_simps dest: bit_imp_le_length)
  also have "\<dots> = push_bit 8 (ucast m) + ucast d"
    by (rule disjunctive_add [symmetric]) (auto simp: bit_simps dest: bit_imp_le_length)
  finally show ?thesis by (simp add: push_bit_eq_mult mult.commute)
qed

lemma unat_8: "unat (x :: 8 word) < 256"
  using unsigned_less [of x] by simp

lemma unat_16: "unat (x :: 16 word) < 65536"
  using unsigned_less [of x] by simp

lemma unat_newDate8: "unat (newDate8 m d) = unat m * 256 + unat d"
  using unat_8 [of m] unat_8 [of d]
  by (simp add: newDate8_sum unat_word_ariths unsigned_ucast_eq take_bit_nat_eq_self)

lemma newDate8_le: "newDate8 m d \<le> newDate8 m' d' \<longleftrightarrow> m < m' \<or> m = m' \<and> d \<le> d'"
  using unat_8 [of d] unat_8 [of d']
  unfolding word_le_nat_alt word_less_nat_alt unat_newDate8 word_unat_eq_iff by arith

lemma NewCalendarDate_8:
  assumes "0 \<le> d" "d < 256"
  shows "NewCalendarDate y m d = newCalendarDate8 (word_of_int y) m (word_of_int d)"
proof -
  have "(word_of_int d :: 32 word) = ucast (word_of_int d :: 8 word)"
    using assms by (simp add: word_uint_eq_iff unsigned_ucast_eq unsigned_of_int take_bit_int_eq_self)
  moreover have "y AND 0xffff = take_bit 16 y" by (simp add: take_bit_eq_mask mask_eq_exp_minus_1)
  then have "(push_bit 16 (word_of_int (y AND 0xffff)) :: 32 word) =
      push_bit 16 (ucast ((word_of_int y :: 16 word) AND 0xffff))"
    by (intro bit_word_eqI) (auto simp: bit_simps masks)
  ultimately show ?thesis by (simp add: NewCalendarDate_def newCalendarDate8_def)
qed

lemma newCalendarDate8_fields [simp]:
  "year16 (newCalendarDate8 y m d) = y"
  "cd_Month (newCalendarDate8 y m d) = m"
  "day8 (newCalendarDate8 y m d) = d"
  by (rule bit_word_eqI;
      auto simp: year16_def cd_Month_def day8_def newCalendarDate8_def masks bit_simps dest: bit_imp_le_length)+

lemma newCalendarDate8_surjective [simp]:
  "newCalendarDate8 (year16 cd) (cd_Month cd) (day8 cd) = cd"
proof (rule bit_word_eqI)
  fix n assume "n < LENGTH(32)"
  then show "bit (newCalendarDate8 (year16 cd) (cd_Month cd) (day8 cd)) n = bit cd n"
    by (cases "n < 8"; cases "n < 16")
      (auto simp: year16_def cd_Month_def day8_def newCalendarDate8_def masks bit_simps)
qed

lemma newCalendarDate8_inject [simp]:
  "newCalendarDate8 y m d = newCalendarDate8 y' m' d' \<longleftrightarrow> y = y' \<and> m = m' \<and> d = d'"
  by (metis newCalendarDate8_fields)

lemma uint_ucast_up:
  "uint (ucast (x :: 8 word) :: 32 word) = uint x" "uint (ucast (y :: 16 word) :: 32 word) = uint y"
  using uint_8 [of x] uint_16 [of y]
  by (simp_all add: unsigned_ucast_eq take_bit_int_eq_self)

lemma cd_Year_uint: "cd_Year cd = uint (year16 cd)"
proof -
  have "(ucast (year16 cd) :: 32 word) = drop_bit 16 cd AND 0xffff"
    by (rule bit_word_eqI) (auto simp: year16_def masks bit_simps)
  then show ?thesis using uint_ucast_up(2) [of "year16 cd"] by (simp add: cd_Year_def)
qed

lemma cd_Day_uint: "cd_Day cd = uint (day8 cd)"
proof -
  have "(ucast (day8 cd) :: 32 word) = cd AND 0xff"
    by (rule bit_word_eqI) (auto simp: day8_def masks bit_simps)
  then show ?thesis using uint_ucast_up(1) [of "day8 cd"] by (simp add: cd_Day_def)
qed

lemma cd_Date_eq: "cd_Date cd = newDate8 (cd_Month cd) (day8 cd)"
  by (rule bit_word_eqI) (auto simp: cd_Date_def newDate8_def cd_Month_def day8_def masks bit_simps)

lemma unat_newCalendarDate8: "unat (newCalendarDate8 y m d) = unat y * 65536 + unat m * 256 + unat d"
proof -
  have "newCalendarDate8 y m d = push_bit 16 (ucast y) OR (push_bit 8 (ucast m) OR ucast d)"
    by (rule bit_word_eqI) (auto simp: newCalendarDate8_def masks bit_simps dest: bit_imp_le_length)
  also have "push_bit 8 (ucast m) OR ucast d = push_bit 8 (ucast m :: 32 word) + ucast d"
    by (rule disjunctive_add [symmetric]) (auto simp: bit_simps dest: bit_imp_le_length)
  also have "push_bit 16 (ucast y) OR (push_bit 8 (ucast m) + ucast d) =
      push_bit 16 (ucast y :: 32 word) + (push_bit 8 (ucast m) + ucast d)"
  proof (rule disjunctive_add [symmetric])
    have "push_bit 8 (ucast m) + ucast d = push_bit 8 (ucast m :: 32 word) OR ucast d"
      by (rule disjunctive_add) (auto simp: bit_simps dest: bit_imp_le_length)
    then show "\<not> bit (push_bit 16 (ucast y :: 32 word)) n \<or> \<not> bit (push_bit 8 (ucast m) + ucast d :: 32 word) n" for n
      by (auto simp: bit_simps dest: bit_imp_le_length)
  qed
  finally have "newCalendarDate8 y m d = ucast y * 65536 + (ucast m * 256 + ucast d)"
    by (simp add: push_bit_eq_mult mult.commute)
  then show ?thesis
    using unat_8 [of m] unat_8 [of d] unat_16 [of y]
    by (simp add: unat_word_ariths unsigned_ucast_eq take_bit_nat_eq_self)
qed

lemma newCalendarDate8_le:
  "newCalendarDate8 y m d \<le> newCalendarDate8 y' m' d' \<longleftrightarrow>
     y < y' \<or> y = y' \<and> (m < m' \<or> m = m' \<and> d \<le> d')"
  using unat_8 [of d] unat_8 [of d'] unat_8 [of m] unat_8 [of m']
  unfolding word_le_nat_alt word_less_nat_alt unat_newCalendarDate8 word_unat_eq_iff by arith

section \<open>The tables\<close>

lemma tables_eq:
  "daysInMonth = [31, 28, 31, 30, 31, 30, 31, 31, 30, 31, 30, 31]"
  "daysInMonthLeap = [31, 29, 31, 30, 31, 30, 31, 31, 30, 31, 30, 31]"
  "dayOfYear = [0, 31, 59, 90, 120, 151, 181, 212, 243, 273, 304, 334]"
  "dayOfYearLeap = [0, 31, 60, 91, 121, 152, 182, 213, 244, 274, 305, 335]"
  by code_simp+

definition dim :: "bool \<Rightarrow> 8 word list" where
  "dim leap = (if leap then daysInMonthLeap else daysInMonth)"

lemma daysInMonthForYear_dim: "daysInMonthForYear year = dim (IsLeap year)"
  by (simp add: daysInMonthForYear_def dim_def)

text \<open>A month and a day that exist in a year, leap or not, and the number of that day.\<close>

definition valid_md :: "bool \<Rightarrow> Month \<Rightarrow> 8 word \<Rightarrow> bool" where
  "valid_md leap m d \<longleftrightarrow> 1 \<le> m \<and> m \<le> 12 \<and> 1 \<le> d \<and> d \<le> dim leap ! nat (uint (m - 1))"

definition doy :: "bool \<Rightarrow> Month \<Rightarrow> 8 word \<Rightarrow> int" where
  "doy leap m d = (if leap then dayOfYearLeap else dayOfYear) ! nat (uint (m - 1)) + uint d"

lemma month_cases:
  assumes "1 \<le> m" "(m :: Month) \<le> 12"
  obtains "m = 1" | "m = 2" | "m = 3" | "m = 4" | "m = 5" | "m = 6" | "m = 7" | "m = 8" | "m = 9"
    | "m = 10" | "m = 11" | "m = 12"
proof -
  have "1 \<le> unat m" "unat m \<le> 12" using assms by (simp_all add: word_le_nat_alt)
  then have "unat m \<in> {1, 2, 3, 4, 5, 6, 7, 8, 9, 10, 11, 12}" by (auto; presburger)
  then have "m \<in> of_nat ` {1, 2, 3, 4, 5, 6, 7, 8, 9, 10, 11, 12}"
    by (metis image_eqI of_nat_unat ucast_id)
  then show thesis using that by auto
qed

lemma day_le: "d \<le> (n :: 8 word) \<longleftrightarrow> uint d \<le> uint n" and day_less: "d < n \<longleftrightarrow> uint d < uint n"
  by (simp_all add: word_le_def word_less_def)

lemmas calendar = tables_eq dim_def valid_md_def doy_def sl_get_def day_le day_less

lemma valid_md_bounds:
  assumes "valid_md leap m d"
  shows "1 \<le> uint d" "uint d \<le> 31"
proof -
  have m: "1 \<le> m" "m \<le> 12" using assms by (auto simp: valid_md_def)
  show "1 \<le> uint d" using assms by (simp add: valid_md_def day_le)
  show "uint d \<le> 31"
    using m by (rule month_cases) (use assms in \<open>auto simp: calendar split: if_splits\<close>)
qed

lemma sl_get_dim:
  assumes "valid_md leap m d"
  shows "sl_get (dim leap) (uint (m - 1)) = Inr (dim leap ! nat (uint (m - 1)))"
proof -
  have m: "1 \<le> m" "m \<le> 12" using assms by (auto simp: valid_md_def)
  show ?thesis using m by (rule month_cases) (auto simp: calendar)
qed

lemma calcDayOfYear_doy:
  assumes "valid_md leap m d"
  shows "calcDayOfYear m d leap = Inr (doy leap m d)"
proof -
  have m: "1 \<le> m" "m \<le> 12" using assms by (auto simp: valid_md_def)
  show ?thesis
    using m by (rule month_cases) (use assms in \<open>auto simp: calendar calcDayOfYear_def Let_def split: if_splits\<close>)
qed

lemma doy_bounds:
  assumes "valid_md leap m d"
  shows "1 \<le> doy leap m d" "doy leap m d \<le> (if leap then 366 else 365)"
proof -
  have m: "1 \<le> m" "m \<le> 12" using assms by (auto simp: valid_md_def)
  show "1 \<le> doy leap m d" using m by (rule month_cases) (use assms in \<open>auto simp: calendar split: if_splits\<close>)
  show "doy leap m d \<le> (if leap then 366 else 365)"
    using m by (rule month_cases) (use assms in \<open>auto simp: calendar split: if_splits\<close>)
qed

lemma dateFromDay_doy:
  assumes "valid_md leap m d"
  shows "dateFromDay (doy leap m d) (dim leap) = Inr (newDate8 m d)"
proof -
  have m: "1 \<le> m" "m \<le> 12" using assms by (auto simp: valid_md_def)
  have months: "[0..11] = [0, 1, 2, 3, 4, 5, 6, 7, 8, 9, 10, 11::int]" by (simp add: upto.simps)
  show ?thesis
    unfolding dateFromDay_def months
    using m by (rule month_cases)
      (use assms in \<open>auto simp: calendar NewDate_newDate8 split: if_splits\<close>)
qed

section \<open>The next and the previous day of a year\<close>

lemma tomorrow_doy:
  assumes "valid_md leap m d" "\<not> (m = 12 \<and> d = 31)"
  shows "\<exists>m' d'. tomorrow (newDate8 m d) (dim leap) = Inr (newDate8 m' d') \<and> valid_md leap m' d' \<and>
    doy leap m' d' = doy leap m d + 1"
proof -
  have m: "1 \<le> m" "m \<le> 12" using assms by (auto simp: valid_md_def)
  have d: "1 \<le> uint d" "uint d \<le> 31" using valid_md_bounds [OF assms(1)] by auto
  let ?n = "dim leap ! nat (uint (m - 1))"
  have suc: "uint (d + 1) = uint d + 1" using d by (simp add: uint_word_ariths)
  show ?thesis
  proof (cases "d \<ge> ?n")
    case True
    then have dn: "d = ?n" using assms(1) by (simp add: valid_md_def)
    have last: "m \<noteq> 12" using assms(2) dn by (auto simp: calendar split: if_splits)
    have "tomorrow (newDate8 m d) (dim leap) = Inr (newDate8 (m + 1) 1)"
      using sl_get_dim [OF assms(1)] True assms(2) last by (simp add: tomorrow_def Let_def NewDate_newDate8)
    moreover have "valid_md leap (m + 1) 1 \<and> doy leap (m + 1) 1 = doy leap m d + 1"
      unfolding dn using m by (rule month_cases) (use last in \<open>auto simp: calendar\<close>)
    ultimately show ?thesis by blast
  next
    case False
    then have "tomorrow (newDate8 m d) (dim leap) = Inr (newDate8 m (d + 1))"
      using sl_get_dim [OF assms(1)] assms(2) by (auto simp: tomorrow_def Let_def NewDate_newDate8)
    moreover have "valid_md leap m (d + 1)"
      using False assms(1) suc by (auto simp: valid_md_def day_le)
    moreover have "doy leap m (d + 1) = doy leap m d + 1" by (simp add: doy_def suc)
    ultimately show ?thesis by blast
  qed
qed

lemma yesterday_doy:
  assumes "valid_md leap m d" "\<not> (m = 1 \<and> d = 1)"
  shows "\<exists>m' d'. yesterday (newDate8 m d) (dim leap) = Inr (newDate8 m' d') \<and> valid_md leap m' d' \<and>
    doy leap m' d' = doy leap m d - 1"
proof -
  have m: "1 \<le> m" "m \<le> 12" using assms by (auto simp: valid_md_def)
  have d: "1 \<le> uint d" "uint d \<le> 31" using valid_md_bounds [OF assms(1)] by auto
  show ?thesis
  proof (cases "d \<le> 1")
    case True
    then have d1: "d = 1" using d by (simp add: word_uint_eq_iff day_le)
    then have m1: "m \<noteq> 1" using assms(2) by simp
    have "yesterday (newDate8 m d) (dim leap) = Inr (newDate8 (m - 1) (dim leap ! nat (uint (m - 2)))) \<and>
        valid_md leap (m - 1) (dim leap ! nat (uint (m - 2))) \<and>
        doy leap (m - 1) (dim leap ! nat (uint (m - 2))) = doy leap m d - 1"
      unfolding d1 using m by (rule month_cases)
        (use m1 in \<open>auto simp: calendar yesterday_def Let_def\<close>)
    then show ?thesis by blast
  next
    case False
    then have pre: "uint (d - 1) = uint d - 1" using d by (simp add: uint_word_ariths)
    have "yesterday (newDate8 m d) (dim leap) = Inr (newDate8 m (d - 1))"
      using False assms(2) by (auto simp: yesterday_def Let_def)
    moreover have "valid_md leap m (d - 1)" using assms(1) pre False by (auto simp: valid_md_def day_le)
    moreover have "doy leap m (d - 1) = doy leap m d - 1" by (simp add: doy_def pre)
    ultimately show ?thesis by blast
  qed
qed

lemma doy_inject:
  assumes "valid_md leap m d" "valid_md leap m' d'" "doy leap m d = doy leap m' d'"
  shows "m = m' \<and> d = d'"
proof -
  have "Inr (newDate8 m d) = (Inr (newDate8 m' d') :: Date res)"
    unfolding dateFromDay_doy [OF assms(1), symmetric] dateFromDay_doy [OF assms(2), symmetric]
    by (simp only: assms(3))
  then show ?thesis by simp
qed

section \<open>Calendar dates as day numbers\<close>

definition valid_cd :: "CalendarDate \<Rightarrow> bool" where
  "valid_cd cd \<longleftrightarrow> valid_md (IsLeap (cd_Year cd)) (cd_Month cd) (day8 cd)"

fun days_before :: "nat \<Rightarrow> int" where
  "days_before 0 = 0"
| "days_before (Suc y) = days_before y + DaysInYear (int y)"

definition daynum :: "CalendarDate \<Rightarrow> int" where
  "daynum cd = days_before (nat (cd_Year cd)) + doy (IsLeap (cd_Year cd)) (cd_Month cd) (day8 cd)"

lemma newCalendarDate8_int_fields [simp]:
  "cd_Year (newCalendarDate8 y m d) = uint y" "cd_Day (newCalendarDate8 y m d) = uint d"
  by (simp_all add: cd_Year_uint cd_Day_uint)

lemma word_of_int_uint8 [simp]: "word_of_int (uint (d :: 8 word)) = d"
  by simp

lemma DaysInMonth_dim: "DaysInMonth year m = sl_get (dim (IsLeap year)) (uint (m - 1))"
  by (simp add: DaysInMonth_def dim_def)

lemma cd_Tomorrow_same_year:
  assumes "valid_cd cd" "\<not> (cd_Month cd = 12 \<and> cd_Day cd = 31)"
  shows "\<exists>m d. cd_Tomorrow cd = Inr (newCalendarDate8 (year16 cd) m d) \<and>
    valid_md (IsLeap (cd_Year cd)) m d \<and>
    doy (IsLeap (cd_Year cd)) m d = doy (IsLeap (cd_Year cd)) (cd_Month cd) (day8 cd) + 1"
proof -
  let ?l = "IsLeap (cd_Year cd)" and ?m = "cd_Month cd" and ?d = "day8 cd"
  have v: "valid_md ?l ?m ?d" using assms(1) by (simp add: valid_cd_def)
  have last: "\<not> (?m = 12 \<and> ?d = 31)" using assms(2) by (auto simp: cd_Day_uint)
  obtain m d where md: "tomorrow (newDate8 ?m ?d) (dim ?l) = Inr (newDate8 m d)" "valid_md ?l m d"
      "doy ?l m d = doy ?l ?m ?d + 1"
    using tomorrow_doy [OF v last] by blast
  have d: "1 \<le> uint ?d" "uint ?d \<le> 31" using valid_md_bounds [OF v] by auto
  have suc: "uint (?d + 1) = uint ?d + 1" using d by (simp add: uint_word_ariths)
  have y: "word_of_int (cd_Year cd) = year16 cd" by (simp add: cd_Year_uint)
  have "?d \<le> dim ?l ! nat (uint (?m - 1))" using v by (simp add: valid_md_def)
  then have "cd_Tomorrow cd = Inr (newCalendarDate8 (year16 cd) m d)"
    using md(1) sl_get_dim [OF v] last d suc
    by (auto simp: cd_Tomorrow_def tomorrow_def Let_def DaysInMonth_dim NewDate_newDate8 NewCalendarDate_8 y
        cd_Day_uint word_uint_eq_iff [of ?d] day_le split: if_splits)
  then show ?thesis using md by blast
qed

lemma cd_Tomorrow_daynum:
  assumes "valid_cd cd" "cd_Year cd < 65535"
  shows "\<exists>cd'. cd_Tomorrow cd = Inr cd' \<and> valid_cd cd' \<and> daynum cd' = daynum cd + 1"
proof (cases "cd_Month cd = 12 \<and> cd_Day cd = 31")
  case False
  then obtain m d where "cd_Tomorrow cd = Inr (newCalendarDate8 (year16 cd) m d)"
      "valid_md (IsLeap (cd_Year cd)) m d"
      "doy (IsLeap (cd_Year cd)) m d = doy (IsLeap (cd_Year cd)) (cd_Month cd) (day8 cd) + 1"
    using cd_Tomorrow_same_year [OF assms(1)] by blast
  then show ?thesis by (simp add: valid_cd_def daynum_def cd_Year_uint)
next
  case True
  have y: "0 \<le> cd_Year cd" by (simp add: cd_Year_uint)
  let ?n = "newCalendarDate8 (word_of_int (cd_Year cd + 1)) 1 1"
  have t: "cd_Tomorrow cd = Inr ?n" using True by (simp add: cd_Tomorrow_def Let_def NewCalendarDate_8)
  have year: "cd_Year ?n = cd_Year cd + 1"
    using assms(2) y by (simp del: of_int_add add: unsigned_of_int take_bit_int_eq_self)
  have "doy (IsLeap (cd_Year cd)) (cd_Month cd) (day8 cd) = DaysInYear (cd_Year cd)"
    using True by (simp add: doy_def tables_eq DaysInYear_def cd_Day_uint)
  moreover have "days_before (nat (cd_Year cd + 1)) = days_before (nat (cd_Year cd)) + DaysInYear (cd_Year cd)"
    using y by (simp add: nat_add_distrib)
  moreover have "valid_md l 1 1" "doy l 1 1 = 1" for l by (auto simp: calendar)
  ultimately show ?thesis using t year by (simp add: valid_cd_def daynum_def)
qed

text \<open>\<open>days_before\<close> is increasing, so that the day number determines the date and its order.\<close>

lemma doy_le_year: "valid_cd cd \<Longrightarrow> doy (IsLeap (cd_Year cd)) (cd_Month cd) (day8 cd) \<le> DaysInYear (cd_Year cd)"
  using doy_bounds(2) [of "IsLeap (cd_Year cd)" "cd_Month cd" "day8 cd"] by (simp add: valid_cd_def DaysInYear_def)

lemma days_before_mono: "y < z \<Longrightarrow> days_before y + DaysInYear (int y) \<le> days_before z"
proof (induction z)
  case (Suc z)
  have "0 \<le> DaysInYear (int z)" by (simp add: DaysInYear_def)
  then show ?case using Suc by (cases "y = z") auto
qed simp

lemma daynum_year_less:
  assumes "valid_cd a" "valid_cd b" "cd_Year a < cd_Year b"
  shows "daynum a < daynum b"
proof -
  have y: "0 \<le> cd_Year a" by (simp add: cd_Year_uint)
  have "days_before (nat (cd_Year a)) + DaysInYear (cd_Year a) \<le> days_before (nat (cd_Year b))"
    using days_before_mono [of "nat (cd_Year a)" "nat (cd_Year b)"] assms(3) y by simp
  moreover have "1 \<le> doy (IsLeap (cd_Year b)) (cd_Month b) (day8 b)"
    using doy_bounds(1) assms(2) by (simp add: valid_cd_def)
  ultimately show ?thesis using doy_le_year [OF assms(1)] by (simp add: daynum_def)
qed

lemma daynum_inject:
  assumes "valid_cd a" "valid_cd b"
  shows "daynum a = daynum b \<longleftrightarrow> a = b"
proof
  assume eq: "daynum a = daynum b"
  then have "cd_Year a = cd_Year b"
    using daynum_year_less [OF assms] daynum_year_less [OF assms(2,1)] by (cases "cd_Year a" "cd_Year b" rule: linorder_cases) auto
  moreover from this eq assms have "cd_Month a = cd_Month b \<and> day8 a = day8 b"
    by (intro doy_inject [of "IsLeap (cd_Year b)"]) (simp_all add: daynum_def valid_cd_def)
  ultimately show "a = b" by (metis newCalendarDate8_surjective cd_Year_uint word_uint_eq_iff)
qed simp

lemma cumulative_mono:
  "\<forall>j\<in>set [0..<12]. \<forall>i\<in>set [0..<j]. dayOfYear ! i + uint (daysInMonth ! i) \<le> dayOfYear ! j \<and>
     dayOfYearLeap ! i + uint (daysInMonthLeap ! i) \<le> dayOfYearLeap ! j"
  unfolding tables_eq by code_simp

lemma month_index:
  assumes "1 \<le> m" "(m :: Month) \<le> 12"
  shows "nat (uint (m - 1)) = unat m - 1" "nat (uint (m - 1)) < 12"
  using assms by (rule month_cases; simp)+

lemma doy_month_less:
  assumes "valid_md leap m d" "valid_md leap m' d'" "m < m'"
  shows "doy leap m d < doy leap m' d'"
proof -
  have m: "1 \<le> m" "m \<le> 12" and m': "1 \<le> m'" "m' \<le> 12" using assms by (auto simp: valid_md_def)
  have "nat (uint (m - 1)) < nat (uint (m' - 1))"
    unfolding month_index(1) [OF m] month_index(1) [OF m'] using assms(3) m
    by (simp add: word_less_nat_alt word_le_nat_alt)
  moreover have "nat (uint (m' - 1)) < 12" using month_index(2) [OF m'] .
  moreover have "1 \<le> uint d'" using valid_md_bounds(1) [OF assms(2)] .
  moreover have "uint d \<le> uint (dim leap ! nat (uint (m - 1)))" using assms(1) by (simp add: valid_md_def day_le)
  ultimately show ?thesis
    using cumulative_mono [rule_format, of "nat (uint (m' - 1))" "nat (uint (m - 1))"]
    by (auto simp: doy_def dim_def)
qed

lemma daynum_le:
  assumes "valid_cd a" "valid_cd b"
  shows "a \<le> b \<longleftrightarrow> daynum a \<le> daynum b"
proof -
  have le: "daynum x \<le> daynum y" if "valid_cd x" "valid_cd y" "x \<le> y" for x y
  proof (cases "cd_Year x < cd_Year y")
    case True
    then show ?thesis using daynum_year_less [OF that(1,2)] by simp
  next
    case False
    have "year16 x < year16 y \<or> year16 x = year16 y \<and>
        (cd_Month x < cd_Month y \<or> cd_Month x = cd_Month y \<and> day8 x \<le> day8 y)"
      using that(3) newCalendarDate8_le [of "year16 x" "cd_Month x" "day8 x" "year16 y" "cd_Month y" "day8 y"]
      by simp
    then have eq: "year16 x = year16 y" and
      md: "cd_Month x < cd_Month y \<or> cd_Month x = cd_Month y \<and> day8 x \<le> day8 y"
      using False by (auto simp: cd_Year_uint word_less_def)
    from eq have year: "cd_Year x = cd_Year y" by (simp add: cd_Year_uint)
    have "doy (IsLeap (cd_Year y)) (cd_Month x) (day8 x) \<le> doy (IsLeap (cd_Year y)) (cd_Month y) (day8 y)"
      using md doy_month_less [of "IsLeap (cd_Year y)" "cd_Month x" "day8 x" "cd_Month y" "day8 y"] that year
      by (auto simp: valid_cd_def doy_def day_le)
    then show ?thesis by (simp add: daynum_def year)
  qed
  show ?thesis using le [OF assms] le [OF assms(2,1)] daynum_inject [OF assms] by (meson linear order_antisym)
qed

lemma NewYearDay_fields:
  assumes "0 \<le> y" "y < 65536" "0 \<le> n" "n \<le> DaysInYear y"
  shows "yd_Year (NewYearDay y n) = y" "yd_Day (NewYearDay y n) = n"
proof -
  have n: "n < 65536" using assms(4) by (simp add: DaysInYear_def split: if_splits)
  let ?w = "push_bit 16 (ucast (word_of_int y :: 16 word)) OR ucast (word_of_int n :: 16 word) :: 32 word"
  have "(word_of_int n :: 32 word) = ucast (word_of_int n :: 16 word)"
    using assms(3) n by (simp add: word_uint_eq_iff unsigned_ucast_eq unsigned_of_int take_bit_int_eq_self)
  moreover have "(word_of_int y :: 32 word) = ucast (word_of_int y :: 16 word)"
    using assms(1,2) by (simp add: word_uint_eq_iff unsigned_ucast_eq unsigned_of_int take_bit_int_eq_self)
  ultimately have w: "NewYearDay y n = ?w" using assms(4) by (simp add: NewYearDay_def Let_def)
  have "drop_bit 16 ?w = ucast (word_of_int y :: 16 word)"
    by (rule bit_word_eqI) (auto simp: bit_simps dest: bit_imp_le_length)
  moreover have "?w AND 0xffff = ucast (word_of_int n :: 16 word)"
    by (rule bit_word_eqI) (auto simp: bit_simps masks dest: bit_imp_le_length)
  ultimately show "yd_Year (NewYearDay y n) = y" "yd_Day (NewYearDay y n) = n"
    using assms(1-3) n unfolding yd_Year_def yd_Day_def w
    by (simp_all add: uint_ucast_up unsigned_of_int take_bit_int_eq_self)
qed

section \<open>Properties\<close>



text \<open>
  within a year \<^verbatim>\<open>Tomorrow\<close> moves to the next day and \<^verbatim>\<open>Yesterday\<close> to the previous one, for
  every date of a leap or a common year: each is the inverse of the other, and they wrap between
  Dec-31 and Jan-01.
\<close>

theorem date_tomorrow_yesterday:
  assumes "valid_md (IsLeap year) m d"
  shows "\<exists>t y. d_Tomorrow (newDate8 m d) year = Inr t \<and> d_Yesterday t year = Inr (newDate8 m d) \<and>
    d_Yesterday (newDate8 m d) year = Inr y \<and> d_Tomorrow y year = Inr (newDate8 m d) \<and>
    (m = 12 \<and> d = 31 \<longrightarrow> t = newDate8 1 1) \<and>
    (\<not> (m = 12 \<and> d = 31) \<longrightarrow> d_DayOfYear t year = Inr (doy (IsLeap year) m d + 1))"
proof -
  let ?l = "IsLeap year"
  have fields: "ucast (drop_bit 8 (newDate8 a b) AND 0xff) = a" "ucast (newDate8 a b AND 0xff) = b" for a b
    by (rule bit_word_eqI; simp add: newDate8_def masks bit_simps)+
  have ends: "valid_md ?l 12 31" "valid_md ?l 1 1" by (auto simp: calendar)
  have wrap: "tomorrow (newDate8 12 31) (dim ?l) = Inr (newDate8 1 1)"
    "yesterday (newDate8 1 1) (dim ?l) = Inr (newDate8 12 31)"
    by (simp_all add: tomorrow_def yesterday_def NewDate_newDate8)
  have y_of_t: "\<exists>t. tomorrow (newDate8 m d) (dim ?l) = Inr t \<and> yesterday t (dim ?l) = Inr (newDate8 m d) \<and>
      (m = 12 \<and> d = 31 \<longrightarrow> t = newDate8 1 1) \<and>
      (\<not> (m = 12 \<and> d = 31) \<longrightarrow> d_DayOfYear t year = Inr (doy ?l m d + 1))"
  proof (cases "m = 12 \<and> d = 31")
    case False
    obtain m' d' where t: "tomorrow (newDate8 m d) (dim ?l) = Inr (newDate8 m' d')" "valid_md ?l m' d'"
        "doy ?l m' d' = doy ?l m d + 1"
      using tomorrow_doy [OF assms False] by blast
    have "doy ?l 1 1 = 1" by (simp add: calendar)
    then have "\<not> (m' = 1 \<and> d' = 1)" using t(3) doy_bounds(1) [OF assms] by auto
    then obtain m'' d'' where "yesterday (newDate8 m' d') (dim ?l) = Inr (newDate8 m'' d'')"
        "valid_md ?l m'' d''" "doy ?l m'' d'' = doy ?l m d"
      using yesterday_doy [OF t(2)] t(3) by auto
    then show ?thesis
      using t False doy_inject [OF _ assms] calcDayOfYear_doy [OF t(2)] by (auto simp: d_DayOfYear_def fields)
  qed (use wrap in auto)
  moreover have "\<exists>y. yesterday (newDate8 m d) (dim ?l) = Inr y \<and> tomorrow y (dim ?l) = Inr (newDate8 m d)"
  proof (cases "m = 1 \<and> d = 1")
    case False
    obtain m' d' where t: "yesterday (newDate8 m d) (dim ?l) = Inr (newDate8 m' d')" "valid_md ?l m' d'"
        "doy ?l m' d' = doy ?l m d - 1"
      using yesterday_doy [OF assms False] by blast
    have "doy ?l 12 31 = (if ?l then 366 else 365)" by (simp add: calendar)
    then have "\<not> (m' = 12 \<and> d' = 31)" using t(3) doy_bounds(2) [OF assms] by auto
    then obtain m'' d'' where "tomorrow (newDate8 m' d') (dim ?l) = Inr (newDate8 m'' d'')"
        "valid_md ?l m'' d''" "doy ?l m'' d'' = doy ?l m d"
      using tomorrow_doy [OF t(2)] t(3) by auto
    then show ?thesis using t doy_inject [OF _ assms] by auto
  qed (use wrap in auto)
  ultimately show ?thesis
    unfolding d_Tomorrow_def d_Yesterday_def daysInMonthForYear_dim by blast
qed

theorem date_tomorrow_yesterday_witness:
  "\<exists>t. d_Tomorrow (newDate8 2 28) 2023 = Inr t \<and> d_Yesterday t 2023 = Inr (newDate8 2 28)"
proof -
  have v: "valid_md (IsLeap 2023) 2 28" by code_simp
  show ?thesis using date_tomorrow_yesterday [OF v] by blast
qed

text \<open>
  \<^verbatim>\<open>CalendarDate.Tomorrow\<close> goes to the next day also across months and years (the running day
  number grows by exactly one), and the order of the packed words, which the ranges compare, is
  the order of the days.
\<close>

theorem calendar_tomorrow:
  assumes "valid_cd cd" "cd_Year cd < 65535" "valid_cd other"
  shows "\<exists>cd'. cd_Tomorrow cd = Inr cd' \<and> valid_cd cd' \<and> daynum cd' = daynum cd + 1 \<and>
    cd < cd' \<and> (cd < other \<longrightarrow> cd' \<le> other) \<and> (cd \<le> other \<longleftrightarrow> daynum cd \<le> daynum other)"
proof -
  obtain cd' where "cd_Tomorrow cd = Inr cd'" "valid_cd cd'" "daynum cd' = daynum cd + 1"
    using cd_Tomorrow_daynum [OF assms(1,2)] by blast
  moreover have "cd < cd'" "cd < other \<longrightarrow> cd' \<le> other"
    using daynum_le [OF calculation(2) assms(1)] daynum_le [OF assms(3,1)] daynum_le [OF calculation(2) assms(3)]
      calculation(3) by (auto simp: not_le [symmetric])
  ultimately show ?thesis using daynum_le [OF assms(1,3)] by blast
qed

theorem calendar_tomorrow_witness:
  "\<exists>cd'. cd_Tomorrow (NewCalendarDate 2023 12 31) = Inr cd' \<and> valid_cd cd' \<and>
     daynum cd' = daynum (NewCalendarDate 2023 12 31) + 1"
proof -
  have h: "valid_cd (NewCalendarDate 2023 12 31)" "cd_Year (NewCalendarDate 2023 12 31) < 65535"
    by code_simp+
  show ?thesis using calendar_tomorrow [OF h h(1)] by blast
qed

text \<open>
  \<^verbatim>\<open>CalendarDate.Yesterday\<close> returns the previous day when the day is not the first of its month,
  and for January 1st and August 1st. For the first day of every other month it uses the length
  of that month instead of the previous one, and the result is not the previous day (March 1st
  gives February 31st).
\<close>

theorem calendar_yesterday_first_of_month:
  assumes "valid_cd cd" "1 \<le> cd_Year cd"
  shows "\<exists>cd'. cd_Yesterday cd = Inr cd' \<and>
    (valid_cd cd' \<and> daynum cd' = daynum cd - 1 \<longleftrightarrow> cd_Day cd \<noteq> 1 \<or> cd_Month cd = 1 \<or> cd_Month cd = 8)"
proof -
  let ?y = "year16 cd" and ?l = "IsLeap (cd_Year cd)" and ?m = "cd_Month cd" and ?d = "day8 cd"
  have v: "valid_md ?l ?m ?d" using assms(1) by (simp add: valid_cd_def)
  have m: "1 \<le> ?m" "?m \<le> 12" using v by (auto simp: valid_md_def)
  have d: "1 \<le> uint ?d" "uint ?d \<le> 31" using valid_md_bounds [OF v] by auto
  have "uint ?d AND 0xff = uint ?d"
    using take_bit_int_eq_self [of "uint ?d" 8] d by (simp add: take_bit_eq_mask mask_eq_exp_minus_1)
  then have dw: "word_of_int (uint ?d AND 0xff) = ?d" by simp
  consider (jan) "?m = 1" "?d = 1" | (first) "?m \<noteq> 1" "?d = 1" | (mid) "?d \<noteq> 1" by blast
  then show ?thesis
  proof cases
    case jan
    have y: "uint (?y - 1) = uint ?y - 1" using assms(2) uint_16 [of ?y] by (simp add: cd_Year_uint uint_word_ariths)
    have ny: "unat (?y - 1) = nat (uint ?y - 1)" using y by (metis unat_eq_nat_uint)
    have "cd_Yesterday cd = Inr (newCalendarDate8 (?y - 1) 12 31)"
      using jan by (simp add: cd_Yesterday_def cd_Day_uint)
    moreover have "valid_md l 12 31" "doy l 12 31 = (if l then 366 else 365)" "doy l 1 1 = 1" for l
      by (auto simp: calendar)
    moreover have "days_before (nat (uint ?y)) = days_before (nat (uint ?y - 1)) + DaysInYear (uint ?y - 1)"
    proof -
      obtain k where k: "uint ?y = int (Suc k)"
        using assms(2) by (metis cd_Year_uint int_one_le_iff_zero_less zero_less_imp_eq_int not0_implies_Suc less_numeral_extra(3))
      show ?thesis unfolding k by (simp add: nat_add_distrib)
    qed
    ultimately show ?thesis
      using jan y ny by (simp add: valid_cd_def daynum_def cd_Year_uint DaysInYear_def)
  next
    case first
    have "cd_Yesterday cd = Inr (newCalendarDate8 ?y (?m - 1) (dim ?l ! nat (uint (?m - 1))))"
      using first sl_get_dim [OF v]
      by (simp add: cd_Yesterday_def cd_Day_uint DaysInMonth_dim cd_Year_uint Let_def)
    moreover have "valid_md ?l (?m - 1) (dim ?l ! nat (uint (?m - 1))) \<and>
        doy ?l (?m - 1) (dim ?l ! nat (uint (?m - 1))) = doy ?l ?m 1 - 1 \<longleftrightarrow> ?m = 8"
      using m by (rule month_cases) (use first in \<open>auto simp: calendar\<close>)
    ultimately show ?thesis using first by (simp add: valid_cd_def daynum_def cd_Year_uint cd_Day_uint)
  next
    case mid
    then have d1: "uint ?d \<noteq> 1" by (metis uint_1 word_uint_eq_iff)
    then have pre: "uint (?d - 1) = uint ?d - 1" using d by (simp add: uint_word_ariths)
    have "cd_Yesterday cd = Inr (newCalendarDate8 ?y ?m (?d - 1))"
      using d1 dw by (simp add: cd_Yesterday_def cd_Day_uint)
    moreover have "valid_md ?l ?m (?d - 1)" using v pre d d1 by (auto simp: valid_md_def day_le)
    ultimately show ?thesis
      using d1 pre by (simp add: valid_cd_def daynum_def cd_Year_uint cd_Day_uint doy_def)
  qed
qed

theorem calendar_yesterday_first_of_month_witness:
  "cd_Yesterday (NewCalendarDate 2023 3 1) = Inr (NewCalendarDate 2023 2 31) \<and>
   \<not> (valid_cd (NewCalendarDate 2023 2 31) \<and>
      daynum (NewCalendarDate 2023 2 31) = daynum (NewCalendarDate 2023 3 1) - 1)"
proof -
  have h: "valid_cd (NewCalendarDate 2023 3 1)" "1 \<le> cd_Year (NewCalendarDate 2023 3 1)" by code_simp+
  have y: "cd_Yesterday (NewCalendarDate 2023 3 1) = Inr (NewCalendarDate 2023 2 31)" by code_simp
  have "cd_Day (NewCalendarDate 2023 3 1) = 1" "cd_Month (NewCalendarDate 2023 3 1) = 3" by code_simp+
  then show ?thesis using calendar_yesterday_first_of_month [OF h] y by auto
qed

lemma normalize_md:
  assumes "mm = min (max m 1) 12" "dm = dim leap ! nat (uint (mm - 1))"
    "dd = (if d = 0 then (if first then 1 else dm) else d)"
  shows "sl_get (dim leap) (uint (mm - 1)) = Inr dm" "valid_md leap mm (min dd dm)"
    "valid_md leap m d \<Longrightarrow> mm = m \<and> min dd dm = d"
    "d = 0 \<Longrightarrow> min dd dm = (if first then 1 else dm)"
proof -
  have mm: "1 \<le> mm" "mm \<le> 12" unfolding assms(1) by auto
  show get: "sl_get (dim leap) (uint (mm - 1)) = Inr dm"
    unfolding assms(2) using mm by (rule month_cases) (auto simp: calendar)
  have dm: "1 \<le> dm" unfolding assms(2) using mm by (rule month_cases) (auto simp: calendar)
  have "1 \<le> dd" unfolding assms(3) using dm by (auto simp: word_le_def) (metis int_one_le_iff_zero_less uint_0_iff word_less_def word_gt_0)
  then show "valid_md leap mm (min dd dm)" using mm dm assms(2) by (auto simp: valid_md_def min_def)
  show "mm = m \<and> min dd dm = d" if v: "valid_md leap m d"
  proof -
    have "mm = m" using v unfolding assms(1) valid_md_def by (auto simp: max_def min_def)
    moreover have "d \<noteq> 0" "d \<le> dm" using v calculation assms(2) by (auto simp: valid_md_def)
    ultimately show ?thesis using assms(3) by (auto simp: min_def)
  qed
  show "min dd dm = (if first then 1 else dm)" if "d = 0"
    using that dm assms(3) by (auto simp: min_def)
qed

text \<open>
  C15: \<^verbatim>\<open>Normalize\<close> turns every calendar date and every date, however invalid its fields, into one
  that exists in the year; it keeps a date that exists, and a day of zero becomes the first or the
  last day of the month as asked.
\<close>

theorem calendar_normalize:
  "\<exists>cd'. cd_Normalize cd first = Inr cd' \<and> valid_cd cd' \<and> cd_Year cd' = cd_Year cd \<and>
     (valid_cd cd \<longrightarrow> cd' = cd) \<and>
     (cd_Day cd = 0 \<longrightarrow> cd_Day cd' = 1 \<or> \<not> first \<and> DaysInMonth (cd_Year cd) (cd_Month cd') = Inr (day8 cd'))"
proof -
  let ?l = "IsLeap (cd_Year cd)"
  define mm where "mm = min (max (cd_Month cd) 1) 12"
  define dm where "dm = dim ?l ! nat (uint (mm - 1))"
  define dd where "dd = (if day8 cd = 0 then (if first then 1 else dm) else day8 cd)"
  note n = normalize_md [OF mm_def dm_def dd_def]
  let ?cd = "newCalendarDate8 (year16 cd) mm (min dd dm)"
  have "cd_Normalize cd first = Inr (NewCalendarDate (cd_Year cd) mm (uint (min dd dm)))"
    using n(1) by (simp add: cd_Normalize_def daysInMonthForYear_dim Let_def mm_def dd_def)
  then have "cd_Normalize cd first = Inr ?cd"
    using uint_8 [of "min dd dm"] by (simp add: NewCalendarDate_8 cd_Year_uint)
  moreover have "valid_cd ?cd" using n(2) by (simp add: valid_cd_def cd_Year_uint)
  moreover have "?cd = cd" if "valid_cd cd"
    using n(3) that newCalendarDate8_surjective [of cd] by (simp add: valid_cd_def)
  moreover have "cd_Day ?cd = 1 \<or> \<not> first \<and> DaysInMonth (cd_Year cd) (cd_Month ?cd) = Inr (day8 ?cd)"
    if "cd_Day cd = 0"
    using n(1) n(4) that by (auto simp: cd_Day_uint DaysInMonth_dim uint_0_iff)
  ultimately show ?thesis by (intro exI [of _ ?cd]) (simp add: cd_Year_uint)
qed

theorem calendar_normalize_witness:
  "\<exists>cd'. cd_Normalize (NewCalendarDate 2024 2 0) False = Inr cd' \<and> valid_cd cd' \<and> cd' = NewCalendarDate 2024 2 29"
proof -
  have "cd_Normalize (NewCalendarDate 2024 2 0) False = Inr (NewCalendarDate 2024 2 29)" by code_simp
  then show ?thesis using calendar_normalize [of "NewCalendarDate 2024 2 0" False] by auto
qed

end
