(* ===== verification/Date_Ranges.thy ===== *)
theory Date_Ranges
  imports Dates
begin

text \<open>
  Ranges of dates of the package \<^verbatim>\<open>datetime\<close>: \<^verbatim>\<open>DateRange\<close> and its lists (\<^verbatim>\<open>date_range.go\<close>),
  \<^verbatim>\<open>CalendarDateRange\<close> and its lists (\<^verbatim>\<open>calendar_range.go\<close>), packed into 32 and 64 bit words. The
  iterators stop at the end of the range except for a range that ends on the last representable
  day, where \<^verbatim>\<open>Tomorrow\<close> wraps around; they are given fuel and shown to need no more than the number
  of days of the range plus one.
\<close>

section \<open>Date ranges (date\_range.go)\<close>

type_synonym DateRange = "32 word"

definition dr_from :: "DateRange \<Rightarrow> Month \<times> 8 word" where
  "dr_from dr = (ucast (drop_bit 24 dr AND 0xff), ucast (drop_bit 8 dr AND 0xff))"

definition dr_to :: "DateRange \<Rightarrow> Month \<times> 8 word" where
  "dr_to dr = (ucast (drop_bit 16 dr AND 0xff), ucast (dr AND 0xff))"

definition dr_fromDate :: "DateRange \<Rightarrow> Date" where
  "dr_fromDate dr = newDate8 (ucast (drop_bit 24 dr AND 0xff)) (ucast (drop_bit 8 dr AND 0xff))"

definition dr_toDate :: "DateRange \<Rightarrow> Date" where
  "dr_toDate dr = newDate8 (ucast (drop_bit 16 dr AND 0xff)) (ucast (dr AND 0xff))"

definition newDateRange :: "Date \<Rightarrow> Date \<Rightarrow> DateRange" where
  "newDateRange from to =
     (let fm = ucast (d_Month from); fd = word_of_int (d_Day from);
          tm = ucast (d_Month to); td = word_of_int (d_Day to)
      in push_bit 24 fm OR push_bit 16 tm OR push_bit 8 fd OR td)"

definition dr_From :: "DateRange \<Rightarrow> int \<Rightarrow> Date" where
  "dr_From dr year =
     (case dr_from dr of (fromMonth, fromDay) \<Rightarrow>
        if fromMonth = 2 \<and> fromDay = 29 \<and> \<not> IsLeap year then newDate8 fromMonth 28
        else newDate8 fromMonth fromDay)"

definition dr_To :: "DateRange \<Rightarrow> int \<Rightarrow> Date" where
  "dr_To dr year =
     (case dr_to dr of (toMonth, toDay) \<Rightarrow>
        if toMonth = 2 \<and> toDay = 29 \<and> \<not> IsLeap year then newDate8 2 28
        else newDate8 toMonth toDay)"

definition dateRangeYear :: DateRange where
  "dateRangeYear = newDateRange (NewDate 1 1) (NewDate 12 31)"

definition NewDateRange :: "Date \<Rightarrow> Date \<Rightarrow> DateRange" where
  "NewDateRange from to = (if from > to then newDateRange to from else newDateRange from to)"

definition dr_Include :: "DateRange \<Rightarrow> Date \<Rightarrow> bool" where
  "dr_Include dr d \<longleftrightarrow> dr_fromDate dr \<le> d \<and> dr_toDate dr \<ge> d"

definition dr_Normalize :: "DateRange \<Rightarrow> int \<Rightarrow> DateRange res" where
  "dr_Normalize dr year =
     rbind (d_Normalize (dr_From dr year) year True) (\<lambda>from.
     rbind (d_Normalize (dr_To dr year) year False) (\<lambda>to. Inr (newDateRange from to)))"

definition dr_Bound :: "DateRange \<Rightarrow> int \<Rightarrow> DateRange \<Rightarrow> DateRange res" where
  "dr_Bound dr year bound =
     rbind (dr_Normalize dr year) (\<lambda>drn. rbind (dr_Normalize bound year) (\<lambda>bn.
     let from = max (dr_From drn year) (dr_From bn year);
         to = min (dr_To drn year) (dr_To bn year)
     in Inr (if from > to then 0 else newDateRange from to)))"

definition dr_Equal :: "DateRange \<Rightarrow> int \<Rightarrow> DateRange \<Rightarrow> bool res" where
  "dr_Equal dr year dr2 =
     rbind (dr_Normalize dr year) (\<lambda>ndr. rbind (dr_Normalize dr2 year) (\<lambda>ndr2.
     Inr (dr_From ndr year = dr_From ndr2 year \<and> dr_To ndr year = dr_To ndr2 year)))"

fun dl_merge_loop :: "int \<Rightarrow> 8 word list \<Rightarrow> Date \<Rightarrow> Date list \<Rightarrow> DateRange list \<times> Date \<times> Date \<Rightarrow>
    DateRange list res" where
  "dl_merge_loop year dm prevD [] (merged, from, to) = Inr (merged @ [newDateRange from to])"
| "dl_merge_loop year dm prevD (curD # rest) (merged, from, to) =
     rbind (d_Normalize prevD year True) (\<lambda>prev. rbind (d_Normalize curD year True) (\<lambda>cur.
     if prev = cur then dl_merge_loop year dm curD rest (merged, from, to)
     else rbind (yesterday cur dm) (\<lambda>y.
          if prev = y then dl_merge_loop year dm curD rest (merged, from, cur)
          else dl_merge_loop year dm curD rest (merged @ [newDateRange from to], cur, cur))))"

definition dl_Merge :: "Date list \<Rightarrow> int \<Rightarrow> DateRange list res" where
  "dl_Merge dl year =
     (case dl of
        [] \<Rightarrow> Inl IndexOutOfRange
      | d # rest \<Rightarrow>
          rbind (d_Normalize d year True) (\<lambda>from.
          dl_merge_loop year (daysInMonthForYear year) d rest ([], from, from)))"

fun drl_merge_loop :: "int \<Rightarrow> DateRange \<Rightarrow> DateRange list \<Rightarrow> DateRange list \<times> Date \<times> Date \<Rightarrow>
    DateRange list res" where
  "drl_merge_loop year prevR [] (merged, from, to) = Inr (merged @ [newDateRange from to])"
| "drl_merge_loop year prevR (curR # rest) (merged, from, to) =
     (let prevTo = dr_To prevR year; curFrom = dr_From curR year
      in rbind (d_calcDayOfYear prevTo (IsLeap year)) (\<lambda>p. rbind (d_calcDayOfYear curFrom (IsLeap year)) (\<lambda>c.
         if p \<ge> c - 1
         then drl_merge_loop year curR rest (merged, from, max (dr_To curR year) prevTo)
         else drl_merge_loop year curR rest
                (merged @ [newDateRange from to], curFrom, max (dr_To curR year) prevTo))))"

definition drl_Merge :: "DateRange list \<Rightarrow> int \<Rightarrow> DateRange list res" where
  "drl_Merge drl year =
     (case drl of
        [] \<Rightarrow> Inr []
      | r # rest \<Rightarrow> drl_merge_loop year r rest ([], dr_From r year, dr_To r year))"

definition ExpandMonths :: "Date list \<Rightarrow> int \<Rightarrow> DateRange list res" where
  "ExpandMonths dl year = drl_Merge (map (\<lambda>d. newDateRange d d) dl) year"

definition drl_MergeMonths :: "DateRange list \<Rightarrow> int \<Rightarrow> Month list \<Rightarrow> DateRange list res" where
  "drl_MergeMonths drl year months =
     rbind (rfold (\<lambda>m ndrl. rbind (DaysInMonth year m) (\<lambda>n.
              Inr (ndrl @ [newDateRange (newDate8 m 1) (newDate8 m n)]))) months []) (\<lambda>ndrl.
     drl_Merge (sort (ndrl @ drl)) year)"

definition drl_Bound :: "DateRange list \<Rightarrow> int \<Rightarrow> DateRange \<Rightarrow> DateRange list res" where
  "drl_Bound drl year bound =
     rfold (\<lambda>dr ndr. rbind (dr_Bound dr year bound) (\<lambda>b. Inr (if b \<noteq> 0 then ndr @ [b] else ndr))) drl []"

fun drl_Equal :: "DateRange list \<Rightarrow> int \<Rightarrow> DateRange list \<Rightarrow> bool res" where
  "drl_Equal [] year [] = Inr True"
| "drl_Equal (d # drl) year (e # dr2) =
     (if length drl \<noteq> length dr2 then Inr False
      else rbind (dr_Equal d year e) (\<lambda>b. if \<not> b then Inr False else drl_Equal drl year dr2))"
| "drl_Equal _ _ _ = Inr False"

section \<open>Calendar date ranges (calendar\_range.go)\<close>

type_synonym CalendarDateRange = "64 word"

definition cdr_from :: "CalendarDateRange \<Rightarrow> 16 word \<times> Month \<times> 8 word" where
  "cdr_from cdr = (ucast (drop_bit 48 cdr AND 0xffff), ucast (drop_bit 24 cdr AND 0xff), ucast (drop_bit 8 cdr AND 0xff))"

definition cdr_to :: "CalendarDateRange \<Rightarrow> 16 word \<times> Month \<times> 8 word" where
  "cdr_to cdr = (ucast (drop_bit 32 cdr AND 0xffff), ucast (drop_bit 16 cdr AND 0xff), ucast (cdr AND 0xff))"

definition cdr_fromDate :: "CalendarDateRange \<Rightarrow> CalendarDate" where
  "cdr_fromDate cdr = newCalendarDate8 (ucast (drop_bit 48 cdr AND 0xffff)) (ucast (drop_bit 24 cdr AND 0xff))
     (ucast (drop_bit 8 cdr AND 0xff))"

definition cdr_toDate :: "CalendarDateRange \<Rightarrow> CalendarDate" where
  "cdr_toDate cdr = newCalendarDate8 (ucast (drop_bit 32 cdr AND 0xffff)) (ucast (drop_bit 16 cdr AND 0xff))
     (ucast (cdr AND 0xff))"

definition newCalendarDateRange :: "CalendarDate \<Rightarrow> CalendarDate \<Rightarrow> CalendarDateRange" where
  "newCalendarDateRange from to =
     (let fy = word_of_int (cd_Year from); fm = ucast (cd_Month from); fd = word_of_int (cd_Day from);
          ty = word_of_int (cd_Year to); tm = ucast (cd_Month to); td = word_of_int (cd_Day to)
      in push_bit 48 fy OR push_bit 32 ty OR push_bit 24 fm OR push_bit 16 tm OR push_bit 8 fd OR td)"

definition cdr_From :: "CalendarDateRange \<Rightarrow> CalendarDate" where
  "cdr_From cdr =
     (case cdr_from cdr of (fromYear, fromMonth, fromDay) \<Rightarrow>
        if fromMonth = 2 \<and> fromDay = 29 \<and> \<not> IsLeap (uint fromYear) then newCalendarDate8 fromYear fromMonth 28
        else newCalendarDate8 fromYear fromMonth fromDay)"

definition cdr_To :: "CalendarDateRange \<Rightarrow> CalendarDate" where
  "cdr_To cdr =
     (case cdr_to cdr of (toYear, toMonth, toDay) \<Rightarrow>
        if toMonth = 2 \<and> toDay = 29 \<and> \<not> IsLeap (uint toYear) then newCalendarDate8 toYear 2 28
        else newCalendarDate8 toYear toMonth toDay)"

definition cdr_Bound :: "CalendarDateRange \<Rightarrow> CalendarDateRange \<Rightarrow> CalendarDateRange" where
  "cdr_Bound cdr bound =
     (let from = max (cdr_fromDate cdr) (cdr_fromDate bound);
          to = min (cdr_toDate cdr) (cdr_toDate bound)
      in if from > to then 0 else newCalendarDateRange from to)"

definition NewCalendarDateRange :: "CalendarDate \<Rightarrow> CalendarDate \<Rightarrow> CalendarDateRange res" where
  "NewCalendarDateRange from to =
     (let (from, to) = (if from > to then (to, from) else (from, to))
      in rbind (cd_Normalize from True) (\<lambda>from. rbind (cd_Normalize to False) (\<lambda>to.
         Inr (newCalendarDateRange from to))))"

definition cdr_Include :: "CalendarDateRange \<Rightarrow> CalendarDate \<Rightarrow> bool" where
  "cdr_Include cdr d \<longleftrightarrow> cdr_fromDate cdr \<le> d \<and> cdr_toDate cdr \<ge> d"

fun dates_loop :: "nat \<Rightarrow> CalendarDate \<Rightarrow> ('s \<Rightarrow> CalendarDate \<Rightarrow> 's \<times> bool) \<Rightarrow> CalendarDate \<Rightarrow> 's \<Rightarrow>
    's res option" where
  "dates_loop 0 to yield td s = None"
| "dates_loop (Suc n) to yield td s =
     (if td \<le> to
      then case yield s td of (s', cont) \<Rightarrow>
           if \<not> cont then Some (Inr s')
           else case cd_Tomorrow td of
                  Inl e \<Rightarrow> Some (Inl e)
                | Inr td' \<Rightarrow> dates_loop n to yield td' s'
      else Some (Inr s))"

definition cdr_Dates :: "nat \<Rightarrow> CalendarDateRange \<Rightarrow> ('s \<Rightarrow> CalendarDate \<Rightarrow> 's \<times> bool) \<Rightarrow> 's \<Rightarrow> 's res option" where
  "cdr_Dates fuel cdr yield s = dates_loop fuel (cdr_To cdr) yield (cdr_From cdr) s"

definition cdr_DateRange :: "CalendarDateRange \<Rightarrow> int \<Rightarrow> DateRange" where
  "cdr_DateRange cdr year =
     (if cd_Year (cdr_From cdr) \<noteq> year \<or> cd_Year (cdr_To cdr) \<noteq> year then 0
      else NewDateRange (cd_Date (cdr_From cdr)) (cd_Date (cdr_To cdr)))"

definition cdr_Truncate :: "CalendarDateRange \<Rightarrow> int \<Rightarrow> DateRange" where
  "cdr_Truncate cdr year =
     (let fy = cd_Year (cdr_From cdr); ty = cd_Year (cdr_To cdr)
      in if fy = year \<and> ty = year then NewDateRange (cd_Date (cdr_From cdr)) (cd_Date (cdr_To cdr))
         else if fy = year \<and> ty = year + 1
         then NewDateRange (cd_Date (cdr_From cdr)) (cd_Date (NewCalendarDate year 12 31))
         else if fy = year - 1 \<and> ty = year
         then NewDateRange (cd_Date (NewCalendarDate year 1 1)) (cd_Date (cdr_To cdr))
         else 0)"

definition dr_CalendarDateRange :: "DateRange \<Rightarrow> int \<Rightarrow> CalendarDateRange res" where
  "dr_CalendarDateRange dr year =
     rbind (dr_Normalize dr year) (\<lambda>ndr.
     NewCalendarDateRange (d_CalendarDate (dr_From ndr year) year) (d_CalendarDate (dr_To ndr year) year))"

fun cdl_merge_loop :: "CalendarDate \<Rightarrow> CalendarDate list \<Rightarrow> CalendarDateRange list \<times> CalendarDate \<times> CalendarDate \<Rightarrow>
    CalendarDateRange list res" where
  "cdl_merge_loop prevD [] (cdrl, from, to) = Inr (cdrl @ [newCalendarDateRange from to])"
| "cdl_merge_loop prevD (curD # rest) (cdrl, from, to) =
     rbind (cd_Normalize prevD True) (\<lambda>prev. rbind (cd_Normalize curD True) (\<lambda>cur.
     if prev = cur then cdl_merge_loop curD rest (cdrl, from, to)
     else rbind (cd_Yesterday cur) (\<lambda>y.
          if prev = y then cdl_merge_loop curD rest (cdrl, from, cur)
          else cdl_merge_loop curD rest (cdrl @ [newCalendarDateRange from to], cur, cur))))"

definition cdl_Merge :: "CalendarDate list \<Rightarrow> CalendarDateRange list res" where
  "cdl_Merge cdl =
     (case cdl of
        [] \<Rightarrow> Inr []
      | d # rest \<Rightarrow> rbind (cd_Normalize d True) (\<lambda>from. cdl_merge_loop d rest ([], from, from)))"

fun cdrl_merge_loop :: "CalendarDateRange \<Rightarrow> CalendarDateRange list \<Rightarrow>
    CalendarDateRange list \<times> CalendarDate \<times> CalendarDate \<Rightarrow> CalendarDateRange list res" where
  "cdrl_merge_loop prevR [] (merged, from, to) = Inr (merged @ [newCalendarDateRange from to])"
| "cdrl_merge_loop prevR (curR # rest) (merged, from, to) =
     (let prevTo = cdr_To prevR; curFrom = cdr_From curR
      in rbind (cd_YearDay prevTo) (\<lambda>p. rbind (cd_YearDay curFrom) (\<lambda>c.
         rbind (if p \<ge> c - 1 then Inr True else rbind (cd_Yesterday curFrom) (\<lambda>y. Inr (y = prevTo))) (\<lambda>joined.
         if joined then cdrl_merge_loop curR rest (merged, from, max (cdr_To curR) prevTo)
         else cdrl_merge_loop curR rest
                (merged @ [newCalendarDateRange from to], curFrom, max (cdr_To curR) prevTo)))))"

definition cdrl_Merge :: "CalendarDateRange list \<Rightarrow> CalendarDateRange list res" where
  "cdrl_Merge cdrl =
     (case cdrl of [] \<Rightarrow> Inr [] | r # rest \<Rightarrow> cdrl_merge_loop r rest ([], cdr_From r, cdr_To r))"

definition cdrl_MergeMonths :: "CalendarDateRange list \<Rightarrow> int \<Rightarrow> Month list \<Rightarrow> CalendarDateRange list res" where
  "cdrl_MergeMonths cdrl year months =
     rbind (rfold (\<lambda>m ncdrl. rbind (DaysInMonth year m) (\<lambda>n.
              Inr (ncdrl @ [newCalendarDateRange (NewCalendarDate year m 1) (NewCalendarDate year m (uint n))])))
            months []) (\<lambda>ncdrl.
     cdrl_Merge (sort (ncdrl @ cdrl)))"

definition cdrl_Bound :: "CalendarDateRange list \<Rightarrow> CalendarDateRange \<Rightarrow> CalendarDateRange list" where
  "cdrl_Bound cdrl bound = filter (\<lambda>b. b \<noteq> 0) (map (\<lambda>dr. cdr_Bound dr bound) cdrl)"

section \<open>Packing and unpacking\<close>

lemma newDateRange_dates [simp]:
  "dr_fromDate (newDateRange f t) = f" "dr_toDate (newDateRange f t) = t"
proof -
  have f: "(word_of_int (d_Day f) :: 32 word) = ucast (d_day f)" for f
    by (simp add: d_Day_uint)
  have "dr_fromDate (newDateRange f t) = newDate8 (d_Month f) (d_day f)"
    "dr_toDate (newDateRange f t) = newDate8 (d_Month t) (d_day t)"
    unfolding dr_fromDate_def dr_toDate_def newDateRange_def Let_def f newDate8_inject
    by (intro conjI; rule bit_word_eqI; auto simp: bit_simps masks dest: bit_imp_le_length)+
  then show "dr_fromDate (newDateRange f t) = f" "dr_toDate (newDateRange f t) = t" by simp_all
qed

lemma newCalendarDateRange_dates [simp]:
  "cdr_fromDate (newCalendarDateRange f t) = f" "cdr_toDate (newCalendarDateRange f t) = t"
proof -
  have f: "(word_of_int (cd_Day f) :: 64 word) = ucast (day8 f)"
    "(word_of_int (cd_Year f) :: 64 word) = ucast (year16 f)" for f
    by (simp_all add: cd_Day_uint cd_Year_uint)
  have "cdr_fromDate (newCalendarDateRange f t) = newCalendarDate8 (year16 f) (cd_Month f) (day8 f)"
    "cdr_toDate (newCalendarDateRange f t) = newCalendarDate8 (year16 t) (cd_Month t) (day8 t)"
    unfolding cdr_fromDate_def cdr_toDate_def newCalendarDateRange_def Let_def f newCalendarDate8_inject
    by (intro conjI; rule bit_word_eqI; auto simp: bit_simps masks dest: bit_imp_le_length)+
  then show "cdr_fromDate (newCalendarDateRange f t) = f" "cdr_toDate (newCalendarDateRange f t) = t"
    by simp_all
qed

section \<open>Iterating over the days of a range\<close>

lemma cdr_From_valid: "valid_cd (cdr_fromDate cdr) \<Longrightarrow> cdr_From cdr = cdr_fromDate cdr"
  and cdr_To_valid: "valid_cd (cdr_toDate cdr) \<Longrightarrow> cdr_To cdr = cdr_toDate cdr"
  by (auto simp: cdr_From_def cdr_To_def cdr_from_def cdr_to_def cdr_fromDate_def cdr_toDate_def valid_cd_def
      calendar split: if_splits)

lemma dates_loop_days:
  assumes "valid_cd td" "valid_cd to" "cd_Year to < 65535" "daynum to - daynum td + 1 < int n"
    "daynum td \<le> daynum to + 1"
  shows "\<exists>ds. (\<forall>s. dates_loop n to yield td s = Some (Inr (iter_seq yield ds s))) \<and>
    (\<forall>d\<in>set ds. valid_cd d) \<and> map daynum ds = [daynum td..daynum to]"
  using assms(1,4,5)
proof (induction n arbitrary: td)
  case 0
  then show ?case by simp
next
  case (Suc n)
  have le: "td \<le> to \<longleftrightarrow> daynum td \<le> daynum to" using daynum_le [OF Suc.prems(1) assms(2)] .
  show ?case
  proof (cases "td \<le> to")
    case True
    then have "cd_Year td \<le> cd_Year to"
      using le daynum_year_less [OF assms(2) Suc.prems(1)] by linarith
    then obtain td' where td': "cd_Tomorrow td = Inr td'" "valid_cd td'" "daynum td' = daynum td + 1"
      using cd_Tomorrow_daynum [OF Suc.prems(1)] assms(3) by auto
    obtain ds where "\<forall>s. dates_loop n to yield td' s = Some (Inr (iter_seq yield ds s))"
        "\<forall>d\<in>set ds. valid_cd d" "map daynum ds = [daynum td + 1..daynum to]"
      using Suc.IH [OF td'(2)] Suc.prems(2) td'(3) True le by auto
    moreover have "[daynum td..daynum to] = daynum td # [daynum td + 1..daynum to]"
      using True le by (simp add: upto_rec1)
    ultimately show ?thesis
      using True td'(1) Suc.prems(1) by (intro exI [of _ "td # ds"]) (auto split: prod.splits)
  next
    case False
    then show ?thesis using le by (intro exI [of _ "[]"]) auto
  qed
qed

section \<open>Merging dates and ranges\<close>

definition valid_d :: "bool \<Rightarrow> Date \<Rightarrow> bool" where
  "valid_d leap d \<longleftrightarrow> valid_md leap (d_Month d) (d_day d)"

definition d_doy :: "bool \<Rightarrow> Date \<Rightarrow> int" where
  "d_doy leap d = doy leap (d_Month d) (d_day d)"

definition cover :: "bool \<Rightarrow> DateRange \<Rightarrow> int set" where
  "cover leap r = {d_doy leap (dr_fromDate r)..d_doy leap (dr_toDate r)}"

lemma cover_newDateRange [simp]: "cover leap (newDateRange f t) = {d_doy leap f..d_doy leap t}"
  by (simp add: cover_def)

lemma d_doy_inject: "valid_d leap a \<Longrightarrow> valid_d leap b \<Longrightarrow> d_doy leap a = d_doy leap b \<longleftrightarrow> a = b"
  unfolding valid_d_def d_doy_def by (metis doy_inject newDate8_surjective)

lemma d_Normalize_valid:
  assumes "valid_d (IsLeap year) d"
  shows "d_Normalize d year first = Inr d"
proof -
  define mm where "mm = min (max (d_Month d) 1) 12"
  define dm where "dm = dim (IsLeap year) ! nat (uint (mm - 1))"
  define dd where "dd = (if d_day d = 0 then (if first then 1 else dm) else d_day d)"
  note n = normalize_md [OF mm_def dm_def dd_def]
  have "d_Normalize d year first = Inr (newDate8 mm (min dd dm))"
    using n(1) by (simp add: d_Normalize_def daysInMonthForYear_dim Let_def mm_def dd_def)
  moreover have "mm = d_Month d" "min dd dm = d_day d" using n(3) assms by (auto simp: valid_d_def)
  ultimately show ?thesis by simp
qed

lemma yesterday_valid:
  assumes "valid_d leap cur"
  shows "\<exists>y. yesterday cur (dim leap) = Inr y \<and> valid_d leap y \<and>
    (d_doy leap y = d_doy leap cur - 1 \<or> d_doy leap cur = 1 \<and> 365 \<le> d_doy leap y)"
proof (cases "d_Month cur = 1 \<and> d_day cur = 1")
  case True
  have "valid_md leap 12 31" "365 \<le> doy leap 12 31" "doy leap 1 1 = 1" by (auto simp: calendar)
  then show ?thesis
    using True by (intro exI [of _ "newDate8 12 31"])
      (simp add: yesterday_def Let_def NewDate_newDate8 valid_d_def d_doy_def)
next
  case False
  then show ?thesis
    using yesterday_doy [of leap "d_Month cur" "d_day cur"] assms by (force simp: valid_d_def d_doy_def)
qed

abbreviation apart :: "bool \<Rightarrow> DateRange \<Rightarrow> DateRange \<Rightarrow> bool" where
  "apart leap r r' \<equiv> d_doy leap (dr_toDate r) + 1 < d_doy leap (dr_fromDate r')"

lemma dl_merge_loop_cover:
  assumes "sorted_wrt (\<lambda>a b. d_doy l a \<le> d_doy l b) (prev # rest)" "\<forall>d\<in>set (prev # rest). valid_d l d"
    "d_doy l from \<le> d_doy l prev" "l = IsLeap year"
  shows "\<exists>rs. dl_merge_loop year (dim l) prev rest (merged, from, prev) = Inr (merged @ rs) \<and>
    (\<Union>r\<in>set rs. cover l r) = {d_doy l from..d_doy l prev} \<union> d_doy l ` set rest \<and>
    sorted_wrt (apart l) rs \<and> (\<forall>r\<in>set rs. d_doy l from \<le> d_doy l (dr_fromDate r))"
  using assms(1-3)
proof (induction rest arbitrary: prev merged "from")
  case Nil
  then show ?case by (intro exI [of _ "[newDateRange from prev]"]) simp
next
  case (Cons cur rest)
  have v: "valid_d l prev" "valid_d l cur" and le: "d_doy l prev \<le> d_doy l cur" using Cons.prems by auto
  have norm: "d_Normalize prev year True = Inr prev" "d_Normalize cur year True = Inr cur"
    using v assms(4) d_Normalize_valid by auto
  obtain y where y: "yesterday cur (dim l) = Inr y" "valid_d l y"
      "d_doy l y = d_doy l cur - 1 \<or> d_doy l cur = 1 \<and> 365 \<le> d_doy l y"
    using yesterday_valid [OF v(2)] by blast
  have sorted: "sorted_wrt (\<lambda>a b. d_doy l a \<le> d_doy l b) (cur # rest)" "\<forall>d\<in>set (cur # rest). valid_d l d"
    using Cons.prems by auto
  consider (same) "prev = cur" | (joined) "prev \<noteq> cur" "prev = y" | (gap) "prev \<noteq> cur" "prev \<noteq> y" by blast
  then show ?case
  proof cases
    case same
    then show ?thesis using Cons.IH [OF sorted, of "from" merged] Cons.prems(3) norm by auto
  next
    case joined
    then have next_day: "d_doy l cur = d_doy l prev + 1" using y(3) le by auto
    have "{d_doy l from..d_doy l cur} = insert (d_doy l cur) {d_doy l from..d_doy l prev}"
      using next_day Cons.prems(3) by auto
    then show ?thesis
      using joined norm y(1) next_day Cons.prems(3) Cons.IH [OF sorted, of "from" merged] by auto
  next
    case gap
    have "d_doy l prev \<noteq> d_doy l cur" using gap(1) d_doy_inject v by blast
    moreover have "d_doy l prev \<noteq> d_doy l y" using gap(2) d_doy_inject v(1) y(2) by blast
    ultimately have "d_doy l prev + 1 < d_doy l cur"
      using y(3) le doy_bounds(1) v(1) by (fastforce simp: valid_d_def d_doy_def)
    moreover obtain rs where
        "dl_merge_loop year (dim l) cur rest (merged @ [newDateRange from prev], cur, cur) =
          Inr ((merged @ [newDateRange from prev]) @ rs)"
        "(\<Union>r\<in>set rs. cover l r) = {d_doy l cur..d_doy l cur} \<union> d_doy l ` set rest"
        "sorted_wrt (apart l) rs" "\<forall>r\<in>set rs. d_doy l cur \<le> d_doy l (dr_fromDate r)"
      using Cons.IH [OF sorted, of cur "merged @ [newDateRange from prev]"] by auto
    ultimately show ?thesis
      using gap norm y(1) Cons.prems(3) by (intro exI [of _ "newDateRange from prev # rs"]) fastforce
  qed
qed

text \<open>A range of existing dates in order, and how \<^verbatim>\<open>From\<close> and \<^verbatim>\<open>To\<close> read it.\<close>

definition valid_dr :: "bool \<Rightarrow> DateRange \<Rightarrow> bool" where
  "valid_dr leap r \<longleftrightarrow> valid_d leap (dr_fromDate r) \<and> valid_d leap (dr_toDate r) \<and>
     d_doy leap (dr_fromDate r) \<le> d_doy leap (dr_toDate r)"

lemma dr_From_To_valid:
  "valid_dr (IsLeap year) r \<Longrightarrow> dr_From r year = dr_fromDate r"
  "valid_dr (IsLeap year) r \<Longrightarrow> dr_To r year = dr_toDate r"
  by (auto simp: valid_dr_def valid_d_def dr_From_def dr_To_def dr_from_def dr_to_def dr_fromDate_def
      dr_toDate_def calendar split: if_splits)

lemma d_calcDayOfYear_valid: "valid_d leap d \<Longrightarrow> d_calcDayOfYear d leap = Inr (d_doy leap d)"
proof -
  assume v: "valid_d leap d"
  have "ucast (drop_bit 8 d AND 0xff) = d_Month d"
    by (rule bit_word_eqI) (simp add: d_Month_def masks bit_simps)
  then show ?thesis
    using calcDayOfYear_doy v by (simp add: d_calcDayOfYear_def valid_d_def d_doy_def flip: d_day_def)
qed

lemma date_le_doy: "valid_d leap a \<Longrightarrow> valid_d leap b \<Longrightarrow> d_doy leap a \<le> d_doy leap b \<Longrightarrow> a \<le> b"
proof -
  assume v: "valid_d leap a" "valid_d leap b" and le: "d_doy leap a \<le> d_doy leap b"
  have "\<not> d_Month b < d_Month a"
    using doy_month_less [of leap "d_Month b" "d_day b" "d_Month a" "d_day a"] v le
    by (auto simp: valid_d_def d_doy_def)
  moreover have "d_day a \<le> d_day b" if "d_Month a = d_Month b"
    using le that by (simp add: d_doy_def doy_def day_le)
  ultimately have "newDate8 (d_Month a) (d_day a) \<le> newDate8 (d_Month b) (d_day b)"
    unfolding newDate8_le by (metis linorder_cases)
  then show ?thesis by simp
qed

lemma drl_merge_loop_cover:
  assumes "sorted_wrt (\<lambda>a b. d_doy l (dr_fromDate a) \<le> d_doy l (dr_fromDate b) \<and>
      d_doy l (dr_toDate a) \<le> d_doy l (dr_toDate b)) (prev # rest)"
    "\<forall>r\<in>set (prev # rest). valid_dr l r" "d_doy l from \<le> d_doy l (dr_fromDate prev)" "l = IsLeap year"
  shows "\<exists>rs. drl_merge_loop year prev rest (merged, from, dr_toDate prev) = Inr (merged @ rs) \<and>
    (\<Union>r\<in>set rs. cover l r) = {d_doy l from..d_doy l (dr_toDate prev)} \<union> (\<Union>r\<in>set rest. cover l r) \<and>
    sorted_wrt (apart l) rs \<and> (\<forall>r\<in>set rs. d_doy l from \<le> d_doy l (dr_fromDate r))"
  using assms(1-3)
proof (induction rest arbitrary: prev merged "from")
  case Nil
  then show ?case by (intro exI [of _ "[newDateRange from (dr_toDate prev)]"]) simp
next
  case (Cons cur rest)
  have v: "valid_dr l prev" "valid_dr l cur"
    and le: "d_doy l (dr_fromDate prev) \<le> d_doy l (dr_fromDate cur)" "d_doy l (dr_toDate prev) \<le> d_doy l (dr_toDate cur)"
    using Cons.prems by auto
  have ft: "dr_To prev year = dr_toDate prev" "dr_From cur year = dr_fromDate cur" "dr_To cur year = dr_toDate cur"
    using v assms(4) dr_From_To_valid by auto
  have dates: "valid_d l (dr_toDate prev)" "valid_d l (dr_fromDate cur)" "valid_d l (dr_toDate cur)"
    and cur: "d_doy l (dr_fromDate cur) \<le> d_doy l (dr_toDate cur)"
    using v by (auto simp: valid_dr_def)
  have mx: "max (dr_toDate cur) (dr_toDate prev) = dr_toDate cur"
    using date_le_doy [OF dates(1,3) le(2)] by (simp add: max_def)
  have sorted: "sorted_wrt (\<lambda>a b. d_doy l (dr_fromDate a) \<le> d_doy l (dr_fromDate b) \<and>
      d_doy l (dr_toDate a) \<le> d_doy l (dr_toDate b)) (cur # rest)" "\<forall>r\<in>set (cur # rest). valid_dr l r"
    using Cons.prems by auto
  note calc = d_calcDayOfYear_valid [OF dates(1)] d_calcDayOfYear_valid [OF dates(2)]
  show ?case
  proof (cases "d_doy l (dr_toDate prev) \<ge> d_doy l (dr_fromDate cur) - 1")
    case True
    have "{d_doy l from..d_doy l (dr_toDate cur)} =
        {d_doy l from..d_doy l (dr_toDate prev)} \<union> cover l cur"
      using True le cur Cons.prems(3) by (auto simp: cover_def)
    then show ?thesis
      using True Cons.IH [OF sorted, of "from" merged] Cons.prems(3) le(1) assms(4) calc
      by (auto simp: Let_def ft mx Un_assoc)
  next
    case False
    obtain rs where
        "drl_merge_loop year cur rest (merged @ [newDateRange from (dr_toDate prev)], dr_fromDate cur, dr_toDate cur) =
          Inr ((merged @ [newDateRange from (dr_toDate prev)]) @ rs)"
        "(\<Union>r\<in>set rs. cover l r) = {d_doy l (dr_fromDate cur)..d_doy l (dr_toDate cur)} \<union> (\<Union>r\<in>set rest. cover l r)"
        "sorted_wrt (apart l) rs" "\<forall>r\<in>set rs. d_doy l (dr_fromDate cur) \<le> d_doy l (dr_fromDate r)"
      using Cons.IH [OF sorted, of "dr_fromDate cur" "merged @ [newDateRange from (dr_toDate prev)]"] by auto
    then show ?thesis
      using False Cons.prems(3) le(1) assms(4) calc
      by (intro exI [of _ "newDateRange from (dr_toDate prev) # rs"]) (auto simp: Let_def ft mx cover_def)
  qed
qed

section \<open>Properties\<close>

text \<open>
  \<^verbatim>\<open>Bound\<close> is the intersection of two calendar date ranges: a date (other than the zero value,
  which stands for the empty result) is included in it exactly when both ranges include it.
\<close>

theorem bound_is_intersection:
  assumes "d \<noteq> 0"
  shows "cdr_Include (cdr_Bound a b) d \<longleftrightarrow> cdr_Include a d \<and> cdr_Include b d"
proof -
  have "cdr_toDate 0 = 0" by code_simp
  moreover have "max (cdr_fromDate a) (cdr_fromDate b) \<le> min (cdr_toDate a) (cdr_toDate b)"
    if "cdr_Include a d" "cdr_Include b d"
  proof -
    have "max (cdr_fromDate a) (cdr_fromDate b) \<le> d" "d \<le> min (cdr_toDate a) (cdr_toDate b)"
      using that by (auto simp: cdr_Include_def)
    then show ?thesis by (rule order_trans)
  qed
  moreover have "\<not> cdr_Include 0 d" using calculation(1) assms by (simp add: cdr_Include_def)
  ultimately show ?thesis
    by (cases "max (cdr_fromDate a) (cdr_fromDate b) > min (cdr_toDate a) (cdr_toDate b)")
      (auto simp: cdr_Bound_def Let_def not_less [symmetric], auto simp: cdr_Include_def)
qed

theorem bound_is_intersection_witness:
  "NewCalendarDate 2024 2 1 \<noteq> 0 \<and>
   cdr_Include (cdr_Bound (newCalendarDateRange (NewCalendarDate 2024 1 1) (NewCalendarDate 2024 3 1))
      (newCalendarDateRange (NewCalendarDate 2024 2 1) (NewCalendarDate 2024 4 1))) (NewCalendarDate 2024 2 1)"
proof -
  have d: "NewCalendarDate 2024 2 1 \<noteq> 0" by code_simp
  have "cdr_Include (newCalendarDateRange (NewCalendarDate 2024 1 1) (NewCalendarDate 2024 3 1)) (NewCalendarDate 2024 2 1)"
    "cdr_Include (newCalendarDateRange (NewCalendarDate 2024 2 1) (NewCalendarDate 2024 4 1)) (NewCalendarDate 2024 2 1)"
    by code_simp+
  then show ?thesis using bound_is_intersection [OF d] d by blast
qed

text \<open>
  C16: iterating over a calendar date range terminates and passes every day from the first to the
  last date to \<^verbatim>\<open>yield\<close>, each once and in order, across months and years, until \<^verbatim>\<open>yield\<close> returns
  false.
\<close>

theorem dates_iterator_complete:
  assumes "valid_cd f" "valid_cd t" "f \<le> t" "cd_Year t < 65535" "daynum t - daynum f + 1 < int fuel"
  shows "\<exists>ds. cdr_Dates fuel (newCalendarDateRange f t) yield s = Some (Inr (iter_seq yield ds s)) \<and>
    (\<forall>d\<in>set ds. valid_cd d) \<and> map daynum ds = [daynum f..daynum t] \<and>
    (\<forall>d. valid_cd d \<and> f \<le> d \<and> d \<le> t \<longrightarrow> d \<in> set ds)"
proof -
  have ft: "daynum f \<le> daynum t" using daynum_le [OF assms(1,2)] assms(3) by simp
  obtain ds where ds: "\<forall>s. dates_loop fuel t yield f s = Some (Inr (iter_seq yield ds s))"
      "\<forall>d\<in>set ds. valid_cd d" "map daynum ds = [daynum f..daynum t]"
    using dates_loop_days [OF assms(1,2,4,5)] ft by force
  have "d \<in> set ds" if "valid_cd d" "f \<le> d" "d \<le> t" for d
  proof -
    have "daynum d \<in> set (map daynum ds)"
      using daynum_le [OF assms(1) that(1)] daynum_le [OF that(1) assms(2)] that ds(3) by simp
    then show ?thesis using daynum_inject [OF that(1)] ds(2) by auto
  qed
  moreover have "cdr_Dates fuel (newCalendarDateRange f t) yield s = dates_loop fuel t yield f s"
    using assms by (simp add: cdr_Dates_def cdr_From_valid cdr_To_valid)
  ultimately show ?thesis using ds by auto
qed

theorem dates_iterator_complete_witness:
  "\<exists>ds. cdr_Dates 5 (newCalendarDateRange (NewCalendarDate 0 12 31) (NewCalendarDate 1 1 2))
      (\<lambda>s d. (s @ [d], True)) [] = Some (Inr ds) \<and> length ds = 3"
proof -
  let ?f = "NewCalendarDate 0 12 31" and ?t = "NewCalendarDate 1 1 2"
  have h: "valid_cd ?f" "valid_cd ?t" "?f \<le> ?t" "cd_Year ?t < 65535" by code_simp+
  have n: "daynum ?f = 366" "daynum ?t = 368" by code_simp+
  then have "daynum ?t - daynum ?f + 1 < int 5" by simp
  from dates_iterator_complete [OF h this, of "\<lambda>s d. (s @ [d], True)" "[]"] obtain ds where
    "cdr_Dates 5 (newCalendarDateRange ?f ?t) (\<lambda>s d. (s @ [d], True)) [] = Some (Inr ds)"
    "map daynum ds = [366..368]"
    unfolding n iter_seq_collect by auto
  moreover from this(2) have "length (map daynum ds) = 3" by simp
  ultimately show ?thesis by auto
qed

text \<open>
  merging a sorted list of dates of a year gives ranges that contain exactly the days of the
  list, in order, with at least one day between two of them.
\<close>

theorem date_list_merge:
  assumes "sorted_wrt (\<lambda>a b. d_doy (IsLeap year) a \<le> d_doy (IsLeap year) b) dl"
    "\<forall>d\<in>set dl. valid_d (IsLeap year) d" "dl \<noteq> []"
  shows "\<exists>rs. dl_Merge dl year = Inr rs \<and>
    (\<Union>r\<in>set rs. cover (IsLeap year) r) = d_doy (IsLeap year) ` set dl \<and>
    sorted_wrt (apart (IsLeap year)) rs"
proof -
  obtain d rest where dl: "dl = d # rest" using assms(3) by (cases dl) auto
  then show ?thesis
    using dl_merge_loop_cover [of "IsLeap year" d rest d year "[]"] assms d_Normalize_valid [of year d True]
    by (auto simp: dl_Merge_def daysInMonthForYear_dim)
qed

theorem date_list_merge_witness:
  "\<exists>rs. dl_Merge [newDate8 2 28, newDate8 3 1] 2023 = Inr rs \<and>
     (\<Union>r\<in>set rs. cover (IsLeap 2023) r) = {59, 60} \<and> sorted_wrt (apart (IsLeap 2023)) rs"
proof -
  have h: "sorted_wrt (\<lambda>a b. d_doy (IsLeap 2023) a \<le> d_doy (IsLeap 2023) b) [newDate8 2 28, newDate8 3 1]"
    "\<forall>d\<in>set [newDate8 2 28, newDate8 3 1]. valid_d (IsLeap 2023) d" by code_simp+
  have n: "d_doy (IsLeap 2023) (newDate8 2 28) = 59" "d_doy (IsLeap 2023) (newDate8 3 1) = 60" by code_simp+
  show ?thesis using date_list_merge [OF h] n by simp
qed

text \<open>
  merging a list of ranges whose first and whose last days are both in ascending order keeps
  exactly the days covered by the list and separates the resulting ranges.
\<close>

theorem date_range_list_merge:
  assumes "sorted_wrt (\<lambda>a b. d_doy (IsLeap year) (dr_fromDate a) \<le> d_doy (IsLeap year) (dr_fromDate b) \<and>
      d_doy (IsLeap year) (dr_toDate a) \<le> d_doy (IsLeap year) (dr_toDate b)) drl"
    "\<forall>r\<in>set drl. valid_dr (IsLeap year) r"
  shows "\<exists>rs. drl_Merge drl year = Inr rs \<and>
    (\<Union>r\<in>set rs. cover (IsLeap year) r) = (\<Union>r\<in>set drl. cover (IsLeap year) r) \<and>
    sorted_wrt (apart (IsLeap year)) rs"
proof (cases drl)
  case Nil
  then show ?thesis by (simp add: drl_Merge_def)
next
  case (Cons r rest)
  then have "valid_dr (IsLeap year) r" using assms by simp
  then show ?thesis
    using Cons assms drl_merge_loop_cover [of "IsLeap year" r rest "dr_fromDate r" year "[]"]
      dr_From_To_valid [of year r]
    by (auto simp: drl_Merge_def cover_def)
qed

theorem date_range_list_merge_witness:
  "\<exists>rs. drl_Merge [newDateRange (newDate8 1 1) (newDate8 1 10), newDateRange (newDate8 1 5) (newDate8 2 1)] 2023 =
     Inr rs \<and> (\<Union>r\<in>set rs. cover (IsLeap 2023) r) = {1..32}"
proof -
  let ?rs = "[newDateRange (newDate8 1 1) (newDate8 1 10), newDateRange (newDate8 1 5) (newDate8 2 1)]"
  have h: "sorted_wrt (\<lambda>a b. d_doy (IsLeap 2023) (dr_fromDate a) \<le> d_doy (IsLeap 2023) (dr_fromDate b) \<and>
      d_doy (IsLeap 2023) (dr_toDate a) \<le> d_doy (IsLeap 2023) (dr_toDate b)) ?rs"
    "\<forall>r\<in>set ?rs. valid_dr (IsLeap 2023) r" by code_simp+
  have n: "d_doy (IsLeap 2023) (newDate8 1 1) = 1" "d_doy (IsLeap 2023) (newDate8 1 10) = 10"
    "d_doy (IsLeap 2023) (newDate8 1 5) = 5" "d_doy (IsLeap 2023) (newDate8 2 1) = 32" by code_simp+
  have "{1..10} \<union> {5..32} = {1..32::int}" by auto
  then show ?thesis using date_range_list_merge [OF h] n by auto
qed

text \<open>
  two merges that go wrong on sorted input. A range that contains the next two loses its tail:
  Jan-01:Dec-31, Feb-01:Feb-02, Feb-02:Feb-03 merges to Jan-01:Feb-03, since the end of the previous
  range is used instead of the end merged so far. And since \<^verbatim>\<open>CalendarDate.Yesterday\<close> of February
  1st is January 28th (29th in a leap year), the two dates 2023-01-28 and 2023-02-01 merge to one
  range that contains 2023-01-30.
\<close>

theorem merges_that_fail:
  "drl_Merge [newDateRange (newDate8 1 1) (newDate8 12 31), newDateRange (newDate8 2 1) (newDate8 2 2),
      newDateRange (newDate8 2 2) (newDate8 2 3)] 2023 = Inr [newDateRange (newDate8 1 1) (newDate8 2 3)] \<and>
   cdl_Merge [NewCalendarDate 2023 1 28, NewCalendarDate 2023 2 1] =
     Inr [newCalendarDateRange (NewCalendarDate 2023 1 28) (NewCalendarDate 2023 2 1)] \<and>
   cdr_Include (newCalendarDateRange (NewCalendarDate 2023 1 28) (NewCalendarDate 2023 2 1))
     (NewCalendarDate 2023 1 30)"
  by (intro conjI; code_simp)

end
