(* ===== verification/Runes.thy ===== *)
theory Runes
  imports Prelude
begin

text \<open>
  Runes and trimming, for the theories that model the parsing of text.
\<close>

section \<open>Runes\<close>

text \<open>
  Runes are characters with code points below 256. The classes of the package \<^verbatim>\<open>unicode\<close> are
  written out for this range: white space, letters (category L) and numbers (category N).
\<close>

definition isSpace :: "char \<Rightarrow> bool" where
  "isSpace r \<longleftrightarrow> (of_char r :: nat) \<in> {9, 10, 11, 12, 13, 32, 133, 160}"

definition isLetter :: "char \<Rightarrow> bool" where
  "isLetter r \<longleftrightarrow> (let c = of_char r :: nat
     in 65 \<le> c \<and> c \<le> 90 \<or> 97 \<le> c \<and> c \<le> 122 \<or> c = 170 \<or> c = 181 \<or> c = 186 \<or>
        192 \<le> c \<and> c \<noteq> 215 \<and> c \<noteq> 247)"

definition isNumber :: "char \<Rightarrow> bool" where
  "isNumber r \<longleftrightarrow> (let c = of_char r :: nat
     in 48 \<le> c \<and> c \<le> 57 \<or> c \<in> {178, 179, 185, 188, 189, 190})"

text \<open>\<^verbatim>\<open>strings.TrimSpace\<close>.\<close>

definition trimSpace :: "string \<Rightarrow> string" where
  "trimSpace s = rev (dropWhile isSpace (rev (dropWhile isSpace s)))"

section \<open>Facts\<close>

lemma isSpace_values [simp]:
  "isSpace CHR '' ''" "\<not> isSpace CHR ''(''" "\<not> isSpace CHR '')''" "\<not> isSpace CHR ''!''"
  "\<not> isSpace CHR ''&''" "\<not> isSpace CHR ''|''" "\<not> isSpace CHR 0x27"
  by (simp_all add: isSpace_def)

lemma trimSpace_block:
  assumes "s \<noteq> []" "\<not> isSpace (hd s)" "\<not> isSpace (last s)" "\<forall>r\<in>set sp. isSpace r"
  shows "trimSpace (s @ sp) = s"
proof -
  have "dropWhile isSpace (s @ sp) = s @ sp" using assms(1,2) by (cases s) auto
  moreover have "dropWhile isSpace (rev sp @ rev s) = rev s"
    using assms(1,3,4) by (subst dropWhile_append2) (auto simp: dropWhile_eq_self_iff hd_rev)
  ultimately show ?thesis by (simp add: trimSpace_def)
qed

end
