(* ===== verification/Time_Of_Day.thy ===== *)
theory Time_Of_Day
  imports Dates Runes "HOL-Library.Sublist"
begin

text \<open>
  Times of day, \<^verbatim>\<open>datetime/timeofday.go\<close>: hour, minute and second packed into a word, their parsing and printing,
  and the addition of a duration, which stays within the day.
\<close>

section \<open>Model\<close>

type_synonym TimeOfDay = "32 word"

definition NewTimeOfDay :: "int \<Rightarrow> int \<Rightarrow> int \<Rightarrow> TimeOfDay" where
  "NewTimeOfDay hour minute second =
     ucast (push_bit 16 (word_of_int hour :: 64 word) OR push_bit 8 (word_of_int minute) OR word_of_int second)"

definition t_Hour :: "TimeOfDay \<Rightarrow> int" where
  "t_Hour t = uint (drop_bit 16 t)"

definition t_Minute :: "TimeOfDay \<Rightarrow> int" where
  "t_Minute t = uint (drop_bit 8 t AND 0xff)"

definition t_Second :: "TimeOfDay \<Rightarrow> int" where
  "t_Second t = uint (t AND 0xff)"

definition t_Normalize :: "TimeOfDay \<Rightarrow> TimeOfDay" where
  "t_Normalize t = NewTimeOfDay (max (t_Hour t) 23) (max (t_Minute t) 59) (max (t_Second t) 59)"

text \<open>The verb \<^verbatim>\<open>%02d\<close> of \<^verbatim>\<open>fmt\<close> for numbers that are not negative.\<close>

definition digit :: "nat \<Rightarrow> char" where
  "digit n = char_of (48 + n)"

fun decimal :: "nat \<Rightarrow> string" where
  "decimal n = (if n < 10 then [digit n] else decimal (n div 10) @ [digit (n mod 10)])"

declare decimal.simps [simp del]

definition pad2 :: "int \<Rightarrow> string" where
  "pad2 i = (let s = decimal (nat i) in replicate (2 - length s) (digit 0) @ s)"

definition tod_String :: "TimeOfDay \<Rightarrow> string" where
  "tod_String t = pad2 (t_Hour t) @ '':'' @ pad2 (t_Minute t) @ '':'' @ pad2 (t_Second t)"

definition isDigits :: "string \<Rightarrow> bool" where
  "isDigits s \<longleftrightarrow> list_all isNumber s"

text \<open>\<^verbatim>\<open>strconv.Atoi\<close>, \<^verbatim>\<open>strings.ToLower\<close> and \<^verbatim>\<open>strings.Split\<close> with a separator of one rune.\<close>

definition is_digit :: "char \<Rightarrow> bool" where
  "is_digit c \<longleftrightarrow> (let n = of_char c :: nat in 48 \<le> n \<and> n \<le> 57)"

definition digits_value :: "string \<Rightarrow> int" where
  "digits_value s = foldl (\<lambda>n c. 10 * n + (of_char c - 48)) 0 s"

definition Atoi :: "string \<Rightarrow> int res" where
  "Atoi s =
     (let neg = (s \<noteq> [] \<and> hd s = CHR ''-''); ds = (if s \<noteq> [] \<and> hd s \<in> {CHR ''-'', CHR ''+''} then tl s else s);
          n = (if neg then - digits_value ds else digits_value ds)
      in if ds = [] \<or> \<not> list_all is_digit ds then Inl (Error ''invalid syntax'')
         else if n < - (2 ^ 63) \<or> 2 ^ 63 \<le> n then Inl (Error ''value out of range'') else Inr n)"

definition lower :: "char \<Rightarrow> char" where
  "lower c = (let n = of_char c :: nat in if 65 \<le> n \<and> n \<le> 90 \<or> 192 \<le> n \<and> n \<le> 222 \<and> n \<noteq> 215 then char_of (n + 32) else c)"

fun split_at :: "char \<Rightarrow> string \<Rightarrow> string list" where
  "split_at c [] = [[]]"
| "split_at c (x # xs) =
     (if x = c then [] # split_at c xs else case split_at c xs of [] \<Rightarrow> [[x]] | p # ps \<Rightarrow> (x # p) # ps)"

definition parseHour :: "string \<Rightarrow> int \<Rightarrow> int res" where
  "parseHour h ampmState =
     (case Atoi h of
        Inl _ \<Rightarrow> Inl (Error (''invalid hour: '' @ h))
      | Inr hour \<Rightarrow>
          if hour < 0 \<or> hour > 23 then Inl (Error (''invalid hour: '' @ h))
          else if ampmState \<noteq> 0 \<and> hour > 12 then Inl (Error (''invalid hour: '' @ h @ '' with am/pm''))
          else Inr (if ampmState = 2 then hour + 12 else hour))"

definition parse_sixty :: "string \<Rightarrow> string \<Rightarrow> int res" where
  "parse_sixty msg m =
     (case Atoi m of
        Inl _ \<Rightarrow> Inl (Error (msg @ m))
      | Inr n \<Rightarrow> if n < 0 \<or> n > 59 then Inl (Error (msg @ m)) else Inr n)"

definition parseHourMinuteSec :: "string \<Rightarrow> string \<Rightarrow> string \<Rightarrow> int \<Rightarrow> TimeOfDay res" where
  "parseHourMinuteSec h m s ampmState =
     (if \<not> isDigits s \<or> \<not> isDigits h \<or> \<not> isDigits m then Inl (Error (''invalid second: '' @ s))
      else rbind (parseHour h ampmState) (\<lambda>hour.
           rbind (parse_sixty ''invalid minute: '' m) (\<lambda>minute.
           rbind (parse_sixty ''invalid second: '' s) (\<lambda>sec. Inr (NewTimeOfDay hour minute sec)))))"

definition tod_Parse :: "string \<Rightarrow> TimeOfDay res" where
  "tod_Parse val0 =
     (if length val0 = 0 then Inl (Error (''empty value, expected '' @ [CHR 0x27] @ ''08[:12][:10][am|pm]'' @ [CHR 0x27]))
      else
        let tl = trimSpace (map lower val0);
            (val1, st1) = (if suffix ''am'' tl then (trimSpace (take (length tl - 2) tl), 1) else (val0, 0));
            (val2, st2) = (if suffix ''pm'' tl then (trimSpace (take (length tl - 2) tl), 2) else (val1, st1))
        in case split_at CHR '':'' val2 of
             [h] \<Rightarrow> parseHourMinuteSec h ''0'' ''0'' st2
           | [h, m] \<Rightarrow> parseHourMinuteSec h m ''0'' st2
           | [h, m, s] \<Rightarrow> parseHourMinuteSec h m s st2
           | _ \<Rightarrow> Inl (Error (''invalid format, expected '' @ [CHR 0x27] @ ''08:12[:10]'' @ [CHR 0x27])))"

text \<open>
  \<open>Add\<close> goes through a \<^verbatim>\<open>time.Time\<close> of the first of January of year 0 in UTC, here the nanoseconds since the start
  of that day; two times have the same year, month and day if they are in the same period of 24 hours.
\<close>

definition day_ns :: int where
  "day_ns = 86400 * 1000000000"

definition tod_Add :: "TimeOfDay \<Rightarrow> int \<Rightarrow> TimeOfDay" where
  "tod_Add t delta =
     (if delta = 0 then t
      else let dt = (t_Hour t * 3600 + t_Minute t * 60 + t_Second t) * 1000000000; nt = dt + delta
           in if dt div day_ns \<noteq> nt div day_ns
              then if delta > 0 then NewTimeOfDay 23 59 59 else NewTimeOfDay 0 0 0
              else let s = nt mod day_ns div 1000000000 in NewTimeOfDay (s div 3600) (s div 60 mod 60) (s mod 60))"

definition tod_Duration :: "TimeOfDay \<Rightarrow> int" where
  "tod_Duration t = t_Hour t * 3600000000000 + t_Minute t * 60000000000 + t_Second t * 1000000000"

definition todl_Parse :: "TimeOfDay list \<Rightarrow> string \<Rightarrow> TimeOfDay list res" where
  "todl_Parse tl0 s = rbind (rfold (\<lambda>p tl. rbind (tod_Parse p) (\<lambda>tod. Inr (tl @ [tod]))) (split_at CHR '','' s) tl0) (\<lambda>tl. Inr (sort tl))"

section \<open>Fields\<close>

definition valid_tod :: "TimeOfDay \<Rightarrow> bool" where
  "valid_tod t \<longleftrightarrow> t_Hour t < 24 \<and> t_Minute t < 60 \<and> t_Second t < 60"

definition tod_seconds :: "TimeOfDay \<Rightarrow> int" where
  "tod_seconds t = t_Hour t * 3600 + t_Minute t * 60 + t_Second t"

lemma NewTimeOfDay_8:
  assumes "0 \<le> m" "m < 256" "0 \<le> s" "s < 256"
  shows "NewTimeOfDay h m s = newCalendarDate8 (word_of_int h) (word_of_int m) (word_of_int s)"
proof -
  have "take_bit 8 m = m" "take_bit 8 s = s" using assms by (simp_all add: take_bit_int_eq_self)
  then have b: "bit m n \<Longrightarrow> n < 8" "bit s n \<Longrightarrow> n < 8" for n by (metis bit_take_bit_iff)+
  show ?thesis
    by (rule bit_word_eqI) (auto simp: NewTimeOfDay_def newCalendarDate8_def masks bit_simps dest: b)
qed

lemma time_words:
  "t_Hour t = uint (year16 t)" "t_Minute t = uint (cd_Month t)" "t_Second t = uint (day8 t)"
proof -
  have h: "drop_bit 16 t = ucast (year16 t)" and m: "drop_bit 8 t AND 0xff = ucast (cd_Month t)" and s: "t AND 0xff = ucast (day8 t)"
    by (rule bit_word_eqI; auto simp: year16_def cd_Month_def day8_def masks bit_simps dest: bit_imp_le_length)+
  show "t_Hour t = uint (year16 t)" unfolding t_Hour_def h uint_ucast_up ..
  show "t_Minute t = uint (cd_Month t)" unfolding t_Minute_def m uint_ucast_up ..
  show "t_Second t = uint (day8 t)" unfolding t_Second_def s uint_ucast_up ..
qed

lemma time_bounds [simp]: "0 \<le> t_Hour t" "t_Hour t < 65536" "0 \<le> t_Minute t" "t_Minute t < 256" "0 \<le> t_Second t" "t_Second t < 256"
  unfolding time_words by (rule uint_8 uint_16 unsigned_greater_eq)+

lemma time_fields:
  assumes "0 \<le> h" "h < 65536" "0 \<le> m" "m < 256" "0 \<le> s" "s < 256"
  shows "t_Hour (NewTimeOfDay h m s) = h" "t_Minute (NewTimeOfDay h m s) = m" "t_Second (NewTimeOfDay h m s) = s"
  unfolding NewTimeOfDay_8 [OF assms(3-6)] time_words newCalendarDate8_fields
  using assms by (simp_all add: unsigned_of_int take_bit_int_eq_self)

lemma time_of_fields [simp]: "NewTimeOfDay (t_Hour t) (t_Minute t) (t_Second t) = t"
  unfolding NewTimeOfDay_8 [OF time_bounds(3-6)] by (simp add: time_words)

lemma uint_time: "uint t = t_Hour t * 65536 + t_Minute t * 256 + t_Second t"
proof -
  have "unat t = unat (year16 t) * 65536 + unat (cd_Month t) * 256 + unat (day8 t)"
    using unat_newCalendarDate8 [of "year16 t" "cd_Month t" "day8 t"] by simp
  then have "int (unat t) = int (unat (year16 t)) * 65536 + int (unat (cd_Month t)) * 256 + int (unat (day8 t))" by simp
  then show ?thesis unfolding time_words by simp
qed

lemma time_le:
  assumes "valid_tod t" "valid_tod t'"
  shows "t \<le> t' \<longleftrightarrow> tod_seconds t \<le> tod_seconds t'"
proof -
  have "t_Minute t < 60" "t_Second t < 60" "t_Minute t' < 60" "t_Second t' < 60" using assms by (simp_all add: valid_tod_def)
  moreover note time_bounds [of t] time_bounds [of t']
  ultimately show ?thesis unfolding word_le_def uint_time tod_seconds_def
    by (cases "t_Hour t" "t_Hour t'" rule: linorder_cases; cases "t_Minute t" "t_Minute t'" rule: linorder_cases) linarith+
qed

lemma seconds_fields:
  assumes "0 \<le> s" "s < 86400"
  shows "valid_tod (NewTimeOfDay (s div 3600) (s div 60 mod 60) (s mod 60))"
    "tod_seconds (NewTimeOfDay (s div 3600) (s div 60 mod 60) (s mod 60)) = s"
proof -
  have b: "0 \<le> s div 3600" "s div 3600 < 24" "0 \<le> s div 60 mod 60" "s div 60 mod 60 < 60" "0 \<le> s mod 60" "s mod 60 < 60"
    using assms by simp_all
  have u: "s div 3600 < 65536" "s div 60 mod 60 < 256" "s mod 60 < 256"
    by (rule less_trans [OF b(2)], simp) (rule less_trans [OF b(4)], simp, rule less_trans [OF b(6)], simp)
  note f = time_fields [OF b(1) u(1) b(3) u(2) b(5) u(3)]
  show "valid_tod (NewTimeOfDay (s div 3600) (s div 60 mod 60) (s mod 60))" unfolding valid_tod_def f using b by blast
  have sum: "a * 3600 + b * 60 + r = x" if "a * 60 + b = c" "c * 60 + r = x" for a b c r x :: int using that by linarith
  have "s div 3600 = s div 60 div 60" using zdiv_zmult2_eq [of 60 s 60] by simp
  then have "s div 3600 * 60 + s div 60 mod 60 = s div 60" by simp
  then have "s div 3600 * 3600 + s div 60 mod 60 * 60 + s mod 60 = s" by (rule sum) (rule div_mult_mod_eq)
  then show "tod_seconds (NewTimeOfDay (s div 3600) (s div 60 mod 60) (s mod 60)) = s" unfolding tod_seconds_def f .
qed

lemma valid_seconds: "valid_tod t \<Longrightarrow> 0 \<le> tod_seconds t \<and> tod_seconds t < 86400"
  using time_bounds [of t] unfolding valid_tod_def tod_seconds_def by linarith

text \<open>Addition saturates at the ends of the day.\<close>

lemma tod_Add_seconds:
  assumes t: "valid_tod t"
  shows "valid_tod (tod_Add t delta)"
    "tod_seconds (tod_Add t delta) = max 0 (min 86399 ((tod_seconds t * 1000000000 + delta) div 1000000000))"
proof -
  let ?dt = "tod_seconds t * 1000000000" let ?nt = "?dt + delta"
  have s: "0 \<le> tod_seconds t" "tod_seconds t < 86400" using valid_seconds [OF t] by auto
  have d: "?dt div day_ns = 0" using s by (simp add: day_ns_def)
  have ends: "valid_tod (NewTimeOfDay 23 59 59)" "tod_seconds (NewTimeOfDay 23 59 59) = 86399"
    "valid_tod (NewTimeOfDay 0 0 0)" "tod_seconds (NewTimeOfDay 0 0 0) = 0"
    by (simp_all add: valid_tod_def tod_seconds_def time_fields)
  have add: "tod_Add t delta = (if delta = 0 then t else if ?nt div day_ns \<noteq> 0
      then if delta > 0 then NewTimeOfDay 23 59 59 else NewTimeOfDay 0 0 0
      else let s = ?nt mod day_ns div 1000000000 in NewTimeOfDay (s div 3600) (s div 60 mod 60) (s mod 60))"
    using d by (auto simp: tod_Add_def tod_seconds_def Let_def)
  consider "delta = 0" | "delta \<noteq> 0" "0 \<le> ?nt" "?nt < day_ns" | "delta > 0" "day_ns \<le> ?nt" | "delta < 0" "?nt < 0"
    using s unfolding day_ns_def by linarith
  then have "valid_tod (tod_Add t delta) \<and>
    tod_seconds (tod_Add t delta) = max 0 (min 86399 (?nt div 1000000000))"
  proof cases
    case 1
    then show ?thesis using add t s by simp
  next
    case 2
    then have "?nt div day_ns = 0" "?nt mod day_ns = ?nt" "0 \<le> ?nt div 1000000000" "?nt div 1000000000 < 86400"
      by (simp_all add: day_ns_def)
    then show ?thesis using add 2(1) seconds_fields [of "?nt div 1000000000"] by (simp add: Let_def)
  next
    case 3
    then have "?nt div day_ns \<noteq> 0" "86400 \<le> ?nt div 1000000000" by (simp_all add: day_ns_def)
    then show ?thesis using add 3(1) ends by simp
  next
    case 4
    then have "?nt div day_ns \<noteq> 0" "?nt div 1000000000 < 0" by (simp_all add: day_ns_def)
    then show ?thesis using add 4(1) ends by simp
  qed
  then show "valid_tod (tod_Add t delta)" "tod_seconds (tod_Add t delta) = max 0 (min 86399 (?nt div 1000000000))" by auto
qed

section \<open>Parsing\<close>

lemma digit_code: "n < 10 \<Longrightarrow> of_char (digit n) = (48 + n :: nat)"
  by (simp add: digit_def)

lemma is_digit_digit [simp]: "n < 10 \<Longrightarrow> is_digit (digit n)"
  by (simp add: is_digit_def digit_code)

lemma char_code: "c \<noteq> d" if "(of_char c :: nat) \<noteq> of_char d"
  using that by auto

text \<open>Digits and colons pass through \<^verbatim>\<open>ToLower\<close> and \<^verbatim>\<open>TrimSpace\<close> and are no part of a suffix.\<close>

definition clock_rune :: "char \<Rightarrow> bool" where
  "clock_rune c \<longleftrightarrow> is_digit c \<or> c = CHR '':''"

lemma clock_rune_facts:
  assumes "clock_rune c"
  shows "lower c = c" "\<not> isSpace c" "c \<noteq> CHR ''m''" "c \<noteq> CHR '',''"
proof -
  have n: "48 \<le> (of_char c :: nat)" "(of_char c :: nat) \<le> 58" using assms by (auto simp: clock_rune_def is_digit_def Let_def)
  then show "lower c = c" "\<not> isSpace c" by (auto simp: lower_def isSpace_def)
  show "c \<noteq> CHR ''m''" "c \<noteq> CHR '',''" using n by auto
qed

lemma clock_text:
  assumes "list_all clock_rune w"
  shows "map lower w = w" "trimSpace w = w" "trimSpace (w @ ''am'') = w @ ''am''" "trimSpace (w @ ''pm'') = w @ ''pm''"
    "\<not> suffix ''am'' w" "\<not> suffix ''pm'' w"
proof -
  have c: "clock_rune x" if "x \<in> set w" for x using assms that by (simp add: list_all_iff)
  show "map lower w = w" using clock_rune_facts(1) [OF c] by (simp add: map_idI)
  have hd: "\<not> isSpace (hd w)" "\<not> isSpace (last w)" "last w \<noteq> CHR ''m''" if "w \<noteq> []"
    using clock_rune_facts(2,3) c that by simp_all
  show "trimSpace w = w" using trimSpace_block [of w "[]"] hd by (cases "w = []") (auto simp: trimSpace_def)
  have sp: "\<not> isSpace CHR ''a''" "\<not> isSpace CHR ''p''" "\<not> isSpace CHR ''m''" by (simp_all add: isSpace_def)
  show "trimSpace (w @ ''am'') = w @ ''am''" "trimSpace (w @ ''pm'') = w @ ''pm''"
    using trimSpace_block [of "w @ ''am''" "[]"] trimSpace_block [of "w @ ''pm''" "[]"] hd(1) sp by (cases "w = []"; simp)+
  show "\<not> suffix ''am'' w" "\<not> suffix ''pm'' w" using hd(3) by (auto simp: suffix_def)
qed

definition parse_parts :: "string \<Rightarrow> int \<Rightarrow> TimeOfDay res" where
  "parse_parts w st = (case split_at CHR '':'' w of
     [h] \<Rightarrow> parseHourMinuteSec h ''0'' ''0'' st
   | [h, m] \<Rightarrow> parseHourMinuteSec h m ''0'' st
   | [h, m, s] \<Rightarrow> parseHourMinuteSec h m s st
   | _ \<Rightarrow> Inl (Error (''invalid format, expected '' @ [CHR 0x27] @ ''08:12[:10]'' @ [CHR 0x27])))"

lemma tod_Parse_clock:
  assumes "list_all clock_rune w" "w \<noteq> []"
  shows "tod_Parse w = parse_parts w 0" "tod_Parse (w @ ''am'') = parse_parts w 1" "tod_Parse (w @ ''pm'') = parse_parts w 2"
proof -
  note c = clock_text [OF assms(1)]
  have l: "lower CHR ''a'' = CHR ''a''" "lower CHR ''p'' = CHR ''p''" "lower CHR ''m'' = CHR ''m''" by (simp_all add: lower_def)
  have s: "suffix ''am'' (w @ ''am'')" "suffix ''pm'' (w @ ''pm'')" "\<not> suffix ''pm'' (w @ ''am'')" "\<not> suffix ''am'' (w @ ''pm'')"
    by (auto simp: suffix_def)
  show "tod_Parse w = parse_parts w 0" using c assms(2) by (simp add: tod_Parse_def parse_parts_def)
  show "tod_Parse (w @ ''am'') = parse_parts w 1" "tod_Parse (w @ ''pm'') = parse_parts w 2"
    using c s l by (simp_all add: tod_Parse_def parse_parts_def)
qed

lemma split_at_none: "c \<notin> set s \<Longrightarrow> split_at c s = [s]"
  by (induction s) auto

lemma split_at_append: "c \<notin> set s \<Longrightarrow> split_at c (s @ c # r) = s # split_at c r"
  by (induction s) auto

lemma pad2_digits:
  assumes "0 \<le> i" "i < 100"
  shows "pad2 i = [digit (nat i div 10), digit (nat i mod 10)]"
proof (cases "nat i < 10")
  case True
  then show ?thesis using decimal.simps [of "nat i"] by (simp add: pad2_def Let_def)
next
  case False
  then have "nat i div 10 < 10" using assms by linarith
  then show ?thesis using False decimal.simps [of "nat i"] decimal.simps [of "nat i div 10"] by (simp add: pad2_def Let_def)
qed

lemma pad2_clock:
  assumes "0 \<le> i" "i < 100"
  shows "list_all clock_rune (pad2 i)" "CHR '':'' \<notin> set (pad2 i)" "CHR '','' \<notin> set (pad2 i)" "isDigits (pad2 i)" "Atoi (pad2 i) = Inr i" "pad2 i \<noteq> []"
proof -
  let ?a = "nat i div 10" let ?b = "nat i mod 10"
  have d: "?a < 10" "?b < 10" using assms by linarith+
  have code: "(of_char (digit ?a) :: nat) = 48 + ?a" "(of_char (digit ?b) :: nat) = 48 + ?b" using d by (simp_all add: digit_code)
  have ne: "digit ?a \<noteq> c \<and> digit ?b \<noteq> c" if "(of_char c :: nat) < 48 \<or> 57 < (of_char c :: nat)" for c
    using that code d by auto
  show "list_all clock_rune (pad2 i)" "pad2 i \<noteq> []" using d unfolding pad2_digits [OF assms] by (simp_all add: clock_rune_def)
  show "CHR '':'' \<notin> set (pad2 i)" "CHR '','' \<notin> set (pad2 i)"
    using ne [of "CHR '':''"] ne [of "CHR '',''"] unfolding pad2_digits [OF assms] by auto
  have "?a \<le> 9" "?b \<le> 9" using d by linarith+
  then show "isDigits (pad2 i)" using code unfolding pad2_digits [OF assms] isDigits_def by (simp add: isNumber_def)
  have icode: "(of_char (digit ?a) :: int) = 48 + int ?a" "(of_char (digit ?b) :: int) = 48 + int ?b"
    using arg_cong [OF code(1), of int] arg_cong [OF code(2), of int] by (simp_all add: of_char_def)
  have "10 * int ?a + int ?b = i" using assms(1) by (simp add: zdiv_int zmod_int)
  then have "digits_value (pad2 i) = i" unfolding pad2_digits [OF assms] digits_value_def by (simp add: icode)
  then show "Atoi (pad2 i) = Inr i" using ne [of "CHR ''-''"] ne [of "CHR ''+''"] d assms
    by (simp add: Atoi_def pad2_digits)
qed

text \<open>The text of a clock with two digits for each of its numbers, also of an hour from one to twelve with a suffix.\<close>

definition clock :: "int \<Rightarrow> int \<Rightarrow> int \<Rightarrow> string" where
  "clock h m s = pad2 h @ '':'' @ pad2 m @ '':'' @ pad2 s"

lemma clock_parts:
  assumes "0 \<le> h" "h < 100" "0 \<le> m" "m < 100" "0 \<le> s" "s < 100"
  shows "list_all clock_rune (clock h m s)" "clock h m s \<noteq> []" "CHR '','' \<notin> set (clock h m s)"
    "parse_parts (clock h m s) st = parseHourMinuteSec (pad2 h) (pad2 m) (pad2 s) st"
proof -
  note p = pad2_clock [OF assms(1,2)] pad2_clock [OF assms(3,4)] pad2_clock [OF assms(5,6)]
  have "clock_rune CHR '':''" by (simp add: clock_rune_def)
  then show "list_all clock_rune (clock h m s)" "clock h m s \<noteq> []" "CHR '','' \<notin> set (clock h m s)"
    using p by (simp_all add: clock_def)
  have "split_at CHR '':'' (clock h m s) = [pad2 h, pad2 m, pad2 s]"
    using p split_at_append [of "CHR '':''" "pad2 h" "pad2 m @ CHR '':'' # pad2 s"] split_at_append [of "CHR '':''" "pad2 m" "pad2 s"]
      split_at_none [of "CHR '':''" "pad2 s"] by (simp add: clock_def)
  then show "parse_parts (clock h m s) st = parseHourMinuteSec (pad2 h) (pad2 m) (pad2 s) st" by (simp add: parse_parts_def)
qed

lemma parse_clock:
  assumes "0 \<le> h" "h < 24" "0 \<le> m" "m < 60" "0 \<le> s" "s < 60" "st = 0 \<or> h \<le> 12"
  shows "parse_parts (clock h m s) st = Inr (NewTimeOfDay (if st = 2 then h + 12 else h) m s)"
  using clock_parts(4) [of h m s st] pad2_clock [of h] pad2_clock [of m] pad2_clock [of s] assms
  by (auto simp: parseHourMinuteSec_def parseHour_def parse_sixty_def)

lemma tod_String_clock: "tod_String t = clock (t_Hour t) (t_Minute t) (t_Second t)"
  by (simp add: tod_String_def clock_def)

lemma tod_Parse_String:
  assumes "valid_tod t"
  shows "tod_Parse (tod_String t) = Inr t" "CHR '','' \<notin> set (tod_String t)"
proof -
  have b: "0 \<le> t_Hour t" "t_Hour t < 24" "0 \<le> t_Minute t" "t_Minute t < 60" "0 \<le> t_Second t" "t_Second t < 60"
    using assms by (simp_all add: valid_tod_def)
  note c = clock_parts [of "t_Hour t" "t_Minute t" "t_Second t"]
  show "tod_Parse (tod_String t) = Inr t" "CHR '','' \<notin> set (tod_String t)"
    unfolding tod_String_clock using b c tod_Parse_clock(1) parse_clock [OF b, of 0] by simp_all
qed

text \<open>The parser yields the fields of a day, with one exception.\<close>

lemma parse_bounds:
  assumes "parse_parts w st = Inr t" "st \<in> {0, 1, 2}"
  shows "t_Hour t \<le> 24 \<and> t_Minute t < 60 \<and> t_Second t < 60 \<and> (t_Hour t = 24 \<longrightarrow> st = 2)"
proof -
  have "\<exists>h m s. parseHourMinuteSec h m s st = Inr t"
    using assms(1) by (auto simp: parse_parts_def split: list.splits)
  then obtain h m s where "parseHourMinuteSec h m s st = Inr t" by blast
  then obtain hv mv sv where "parseHour h st = Inr hv" "parse_sixty ''invalid minute: '' m = Inr mv" "parse_sixty ''invalid second: '' s = Inr sv"
    and t: "t = NewTimeOfDay hv mv sv" by (auto simp: parseHourMinuteSec_def rbind_eq_Inr split: if_splits)
  then have "0 \<le> hv" "hv \<le> 24" "hv = 24 \<Longrightarrow> st = 2" "0 \<le> mv" "mv < 60" "0 \<le> sv" "sv < 60"
    by (auto simp: parseHour_def parse_sixty_def split: sum.splits if_splits)
  then show ?thesis unfolding t by (simp add: time_fields)
qed

fun join_commas :: "string list \<Rightarrow> string" where
  "join_commas [] = []"
| "join_commas [s] = s"
| "join_commas (s # ss) = s @ CHR '','' # join_commas ss"

lemma split_join: "ss \<noteq> [] \<Longrightarrow> (\<And>s. s \<in> set ss \<Longrightarrow> CHR '','' \<notin> set s) \<Longrightarrow> split_at CHR '','' (join_commas ss) = ss"
  by (induction ss rule: join_commas.induct) (simp_all add: split_at_none split_at_append)

lemma parse_all:
  "(\<And>t. t \<in> set ts \<Longrightarrow> valid_tod t) \<Longrightarrow>
     rfold (\<lambda>p tl. rbind (tod_Parse p) (\<lambda>tod. Inr (tl @ [tod]))) (map tod_String ts) tl0 = Inr (tl0 @ ts)"
  by (induction ts arbitrary: tl0) (simp_all add: tod_Parse_String)

section \<open>Properties\<close>



text \<open>
  C36: adding a duration to a valid time of day saturates at the ends of the day: the result is valid and
  its second of the day is that of the exact sum, rounded down, or the first or the last second. The
  order of the words is the order of the seconds, and the duration of a time of day is its seconds.
\<close>

theorem time_of_day_add:
  assumes "valid_tod t" "valid_tod t'"
  shows "valid_tod (tod_Add t delta) \<and>
    tod_seconds (tod_Add t delta) = max 0 (min 86399 ((tod_seconds t * 1000000000 + delta) div 1000000000)) \<and>
    (t \<le> t' \<longleftrightarrow> tod_seconds t \<le> tod_seconds t') \<and> tod_Duration t = tod_seconds t * 1000000000 \<and>
    tod_Add t (tod_Duration t' - tod_Duration t) = t'"
proof -
  let ?d = "tod_Duration t' - tod_Duration t"
  have dur: "tod_Duration u = tod_seconds u * 1000000000" for u by (simp add: tod_Duration_def tod_seconds_def)
  have "tod_seconds (tod_Add t ?d) = tod_seconds t'"
    using tod_Add_seconds(2) [OF assms(1), of ?d] valid_seconds [OF assms(2)] by (simp add: dur)
  then have "tod_Add t ?d = t'"
    using time_le [OF tod_Add_seconds(1) [OF assms(1), of ?d] assms(2)] time_le [OF assms(2) tod_Add_seconds(1) [OF assms(1), of ?d]] by simp
  then show ?thesis using tod_Add_seconds [OF assms(1)] time_le [OF assms] dur by simp
qed

theorem time_of_day_add_witness:
  "tod_seconds (tod_Add (NewTimeOfDay 23 0 0) 7200000000000) = 86399"
proof -
  have v: "valid_tod (NewTimeOfDay 23 0 0)" "tod_seconds (NewTimeOfDay 23 0 0) = 82800" by (simp_all add: valid_tod_def tod_seconds_def time_fields)
  show ?thesis using time_of_day_add [OF v(1) v(1), of 7200000000000] v(2) by simp
qed

text \<open>
  \<^verbatim>\<open>Normalize\<close> takes the maximum where the bounds of the fields ask for the minimum, and noon is written as an
  hour that does not exist: twelve in the afternoon is 24, twelve in the morning is noon.
\<close>

lemma normalize_raises: "valid_tod t \<Longrightarrow> t_Normalize t = NewTimeOfDay 23 59 59"
  by (simp add: t_Normalize_def valid_tod_def max_def)

lemma noon_is_24: "tod_Parse ''12pm'' = Inr (NewTimeOfDay 24 0 0)" "tod_Parse ''12am'' = Inr (NewTimeOfDay 12 0 0)"
  by code_simp+

end
