(* ===== verification/Schedule.thy ===== *)
theory Schedule
  imports Keyed_Heap Time_Of_Day
begin

text \<open>
  The actions of a day, \<^verbatim>\<open>datetime/schedule/daily.go\<close> and \<^verbatim>\<open>repeats.go\<close>, a client of the keyed heap and of the times
  of day: actions that may be repeated at an interval are produced in the order of their times. The
  iterator terminates, without losing or inventing an action, if no interval is shorter than a second.
\<close>

section \<open>Model\<close>

text \<open>
  A place has the conversions of the package \<^verbatim>\<open>time\<close> for its location: from a date and a time of day to the
  seconds of the Unix clock, and from those to the year, month and day. A time of day that is computed,
  such as sunrise, is a function of the date.
\<close>

record 'd place =
  pl_unix :: "CalendarDate \<Rightarrow> TimeOfDay \<Rightarrow> int"
  pl_day :: "int \<Rightarrow> 'd"

record 't ActionSpec =
  as_Name :: string
  as_Due :: TimeOfDay
  as_Dynamic :: "(CalendarDate \<Rightarrow> TimeOfDay) option"
  as_Offset :: int
  as_Interval :: int
  as_Repeats :: int
  as_T :: 't

definition as_Evaluate :: "CalendarDate \<Rightarrow> 't ActionSpec \<Rightarrow> 't ActionSpec" where
  "as_Evaluate cd a =
     (case as_Dynamic a of
        Some dyn \<Rightarrow> a\<lparr>as_Due := tod_Add (dyn cd) (as_Offset a), as_Dynamic := None, as_Offset := 0\<rparr>
      | None \<Rightarrow> a)"

definition ass_Evaluate :: "CalendarDate \<Rightarrow> 't ActionSpec list \<Rightarrow> 't ActionSpec list" where
  "ass_Evaluate cd as = map (as_Evaluate cd) as"

definition ass_SortStable :: "'t ActionSpec list \<Rightarrow> 't ActionSpec list" where
  "ass_SortStable as = sort_key as_Due as"

record 't heapEntry =
  he_name :: string
  he_repeat :: int
  he_bounded :: bool
  he_numRepeats :: int
  he_t :: 't

type_synonym 't entry = "int \<times> 't heapEntry"
type_synonym 't repeatManager = "(int, 't heapEntry) T"

definition new_entry :: "'t ActionSpec \<Rightarrow> 't heapEntry" where
  "new_entry a = \<lparr>he_name = as_Name a, he_repeat = as_Interval a, he_bounded = (as_Interval a \<noteq> 0 \<and> as_Repeats a \<noteq> 0),
     he_numRepeats = as_Repeats a, he_t = as_T a\<rparr>"

definition newRepeatManager :: "'d place \<Rightarrow> 't ActionSpec list \<Rightarrow> CalendarDate \<Rightarrow> 't repeatManager res" where
  "newRepeatManager pl actions cd =
     rbind (NewMin [WithSliceCap (int (length actions))]) (\<lambda>h.
     rfold (\<lambda>a h. k_Push h (pl_unix pl cd (as_Due a)) (new_entry a)) (ass_Evaluate cd actions) h)"

definition hasActions :: "'t repeatManager \<Rightarrow> bool" where
  "hasActions h \<longleftrightarrow> k_Len h > 0"

text \<open>The next time is a number of nanoseconds; its date and its Unix time are those of the second it is in.\<close>

definition manage :: "'d place \<Rightarrow> 't repeatManager \<Rightarrow> ('t entry \<times> 't repeatManager) res" where
  "manage pl h =
     rbind (k_Pop h) (\<lambda>((secs, he), h').
     if he_repeat he = 0 \<or> he_bounded he \<and> he_numRepeats he = 0 then Inr ((secs, he), h')
     else let nextTime = (secs * 1000000000 + he_repeat he) div 1000000000
          in if pl_day pl nextTime \<noteq> pl_day pl secs then Inr ((secs, he), h')
             else let he' = (if he_bounded he then he\<lparr>he_numRepeats := he_numRepeats he - 1\<rparr> else he)
                  in rbind (k_Push h' nextTime he') (\<lambda>h''. Inr ((secs, he'), h'')))"

record 't Active =
  ac_Name :: string
  ac_When :: int
  ac_T :: 't

text \<open>
  The iterator calls \<open>yield\<close> until there are no actions left; \<open>None\<close> stands for a loop that has not ended after
  \<open>fuel\<close> iterations.
\<close>

fun active_loop :: "nat \<Rightarrow> 'd place \<Rightarrow> ('s \<Rightarrow> 't Active \<Rightarrow> 's \<times> bool) \<Rightarrow> 't repeatManager \<Rightarrow> 's \<Rightarrow> 's res option" where
  "active_loop 0 pl yield h s = None"
| "active_loop (Suc fuel) pl yield h s =
     (if hasActions h
      then case manage pl h of
             Inl e \<Rightarrow> Some (Inl e)
           | Inr ((when, he), h') \<Rightarrow>
               let (s', more) = yield s \<lparr>ac_Name = he_name he, ac_When = when, ac_T = he_t he\<rparr>
               in if more then active_loop fuel pl yield h' s' else Some (Inr s')
      else Some (Inr s))"

section \<open>Occurrences of an action\<close>

text \<open>The entry that follows an entry, and the entries of an action until it is not repeated any more.\<close>

definition next_entry :: "'d place \<Rightarrow> 't entry \<Rightarrow> 't entry option" where
  "next_entry pl e =
     (let (secs, he) = e; nextTime = secs + he_repeat he div 1000000000
      in if he_repeat he = 0 \<or> he_bounded he \<and> he_numRepeats he = 0 \<or> pl_day pl nextTime \<noteq> pl_day pl secs then None
         else Some (nextTime, if he_bounded he then he\<lparr>he_numRepeats := he_numRepeats he - 1\<rparr> else he))"

fun occurrences :: "nat \<Rightarrow> 'd place \<Rightarrow> 't entry \<Rightarrow> 't entry list" where
  "occurrences 0 pl e = []"
| "occurrences (Suc n) pl e = e # (case next_entry pl e of None \<Rightarrow> [] | Some e' \<Rightarrow> occurrences n pl e')"

fun ends :: "nat \<Rightarrow> 'd place \<Rightarrow> 't entry \<Rightarrow> bool" where
  "ends 0 pl e \<longleftrightarrow> False"
| "ends (Suc n) pl e \<longleftrightarrow> (case next_entry pl e of None \<Rightarrow> True | Some e' \<Rightarrow> ends n pl e')"

lemma occurrences_enough: "ends n pl e \<Longrightarrow> occurrences (n + k) pl e = occurrences n pl e"
  by (induction n arbitrary: e) (auto split: option.splits)

definition active_of :: "'t entry \<Rightarrow> 't Active" where
  "active_of e = \<lparr>ac_Name = he_name (snd e), ac_When = fst e, ac_T = he_t (snd e)\<rparr>"

text \<open>The entry that \<^verbatim>\<open>manage\<close> returns differs from the one in the heap at most in its counter.\<close>

lemma next_second: "(secs * 1000000000 + r) div 1000000000 = secs + r div (1000000000 :: int)"
  by (rule div_mult_self3) simp

lemma manage_ok:
  assumes inv: "keyed_inv False h" and ne: "items h \<noteq> []"
  obtains x y h' where "manage pl h = Inr (y, h')" "active_of y = active_of x" "keyed_inv False h'" "x \<in># mset (items h)"
    "\<forall>z \<in># mset (items h). fst x \<le> fst z"
    "mset (items h') = mset (items h) - {#x#} + (case next_entry pl x of None \<Rightarrow> {#} | Some e \<Rightarrow> {#e#})"
proof -
  have "mset (items h) \<noteq> {#}" using ne by simp
  from kq.pop_law [OF inv this] obtain x h1 where x: "k_Pop h = Inr (x, h1)" "keyed_inv False h1"
    "mset (items h) = add_mset x (mset (items h1))" "\<forall>z \<in># mset (items h1). \<not> klt False z x" by blast
  obtain secs he where xe: "x = (secs, he)" by fastforce
  have least: "\<forall>z \<in># mset (items h). fst x \<le> fst z" using x(3,4) by (auto simp: klt_def not_less)
  define nxt where "nxt = secs + he_repeat he div 1000000000"
  define he' where "he' = (if he_bounded he then he\<lparr>he_numRepeats := he_numRepeats he - 1\<rparr> else he)"
  define stop where "stop \<longleftrightarrow> he_repeat he = 0 \<or> he_bounded he \<and> he_numRepeats he = 0"
  define away where "away \<longleftrightarrow> pl_day pl nxt \<noteq> pl_day pl secs"
  have m: "manage pl h = (if stop then Inr ((secs, he), h1) else if away then Inr ((secs, he), h1)
      else rbind (k_Push h1 nxt he') (\<lambda>h2. Inr ((secs, he'), h2)))"
    unfolding manage_def x(1) xe stop_def away_def nxt_def he'_def by (simp only: rbind.simps split_conv Let_def next_second)
  have e: "next_entry pl x = (if stop \<or> away then None else Some (nxt, he'))"
    unfolding next_entry_def xe stop_def away_def nxt_def he'_def by (simp only: split_conv Let_def disj_assoc)
  show ?thesis
  proof (cases "stop \<or> away")
    case True
    then have "manage pl h = Inr (x, h1)" unfolding m xe by auto
    moreover have "mset (items h1) = mset (items h) - {#x#} + (case next_entry pl x of None \<Rightarrow> {#} | Some e \<Rightarrow> {#e#})"
      unfolding e x(3) using True by simp
    moreover have "x \<in># mset (items h)" unfolding x(3) by simp
    ultimately show ?thesis using that x(2) least by blast
  next
    case False
    obtain h2 where h2: "k_Push h1 nxt he' = Inr h2" "keyed_inv False h2" "mset (items h2) = mset (items h1) + {#(nxt, he')#}"
      using keyed_Push [OF x(2), of nxt he'] by auto
    have "manage pl h = Inr ((secs, he'), h2)" using False h2(1) unfolding m by simp
    moreover have "active_of (secs, he') = active_of x" unfolding xe active_of_def he'_def by simp
    moreover have "mset (items h2) = mset (items h) - {#x#} + (case next_entry pl x of None \<Rightarrow> {#} | Some e \<Rightarrow> {#e#})"
      unfolding e x(3) h2(3) using False by simp
    moreover have "x \<in># mset (items h)" unfolding x(3) by simp
    ultimately show ?thesis using that h2(2) least by blast
  qed
qed

lemma ends_mono: "ends n pl e \<Longrightarrow> ends (n + k) pl e"
  by (induction n arbitrary: e) (auto split: option.splits)

lemma occurrences_next:
  assumes "ends n pl e"
  shows "occurrences n pl e = e # (case next_entry pl e of None \<Rightarrow> [] | Some e' \<Rightarrow> occurrences n pl e')"
    "next_entry pl e = Some e' \<Longrightarrow> ends n pl e'"
proof -
  obtain m where n: "n = Suc m" using assms by (cases n) auto
  show "occurrences n pl e = e # (case next_entry pl e of None \<Rightarrow> [] | Some e' \<Rightarrow> occurrences n pl e')"
  proof (cases "next_entry pl e")
    case (Some e')
    then have "ends m pl e'" using assms n by simp
    then have "occurrences n pl e' = occurrences m pl e'" unfolding n by (metis Suc_eq_plus1 occurrences_enough)
    moreover have "occurrences n pl e = e # occurrences m pl e'" unfolding n using Some by simp
    ultimately show ?thesis using Some by simp
  qed (simp add: n)
  show "next_entry pl e = Some e' \<Longrightarrow> ends n pl e'" using assms ends_mono [of m pl e' 1] unfolding n by simp
qed

text \<open>Intervals that do not go back in time.\<close>

lemma next_entry_later:
  "next_entry pl e = Some e' \<Longrightarrow> 0 \<le> he_repeat (snd e) \<Longrightarrow> fst e \<le> fst e' \<and> he_repeat (snd e') = he_repeat (snd e)"
  by (auto simp: next_entry_def Let_def split: prod.splits if_splits)

lemma occurrences_later: "z \<in> set (occurrences n pl e) \<Longrightarrow> 0 \<le> he_repeat (snd e) \<Longrightarrow> fst e \<le> fst z"
proof (induction n arbitrary: e)
  case (Suc n)
  show ?case
  proof (cases "next_entry pl e")
    case (Some e')
    from next_entry_later [OF this Suc.prems(2)] show ?thesis using Suc.IH [of e'] Suc.prems Some by force
  qed (use Suc.prems in simp)
qed simp

lemma active_loop_ok:
  fixes s :: 's and yield :: "'s \<Rightarrow> 't Active \<Rightarrow> 's \<times> bool"
  assumes "keyed_inv False h" "\<forall>x \<in># mset (items h). ends N pl x \<and> 0 \<le> he_repeat (snd x)"
  shows "\<exists>ys. mset ys = (\<Sum>x\<in>#mset (items h). mset (occurrences N pl x)) \<and> sorted (map fst ys) \<and>
    (\<forall>fuel (yield :: 's \<Rightarrow> 't Active \<Rightarrow> 's \<times> bool) s. length ys < fuel \<longrightarrow>
       active_loop fuel pl yield h s = Some (Inr (iter_seq yield (map active_of ys) s)))"
  using assms
proof (induction "size (\<Sum>x\<in>#mset (items h). mset (occurrences N pl x))" arbitrary: h rule: less_induct)
  case less
  show ?case
  proof (cases "items h = []")
    case True
    then have "\<not> hasActions h" using less.prems(1) by (auto simp: hasActions_def k_Len_def items_def keyed_inv_def wf_heap_def)
    then have "active_loop fuel pl yield h s = Some (Inr s)" if "0 < fuel" for fuel and yield :: "'s \<Rightarrow> 't Active \<Rightarrow> 's \<times> bool" and s
      using that by (cases fuel) simp_all
    then show ?thesis using True by (intro exI [of _ "[]"]) simp
  next
    case False
    obtain x y h' where
      m: "manage pl h = Inr (y, h')" "active_of y = active_of x" "keyed_inv False h'" "x \<in># mset (items h)"
      "\<forall>z \<in># mset (items h). fst x \<le> fst z"
      "mset (items h') = mset (items h) - {#x#} + (case next_entry pl x of None \<Rightarrow> {#} | Some e \<Rightarrow> {#e#})"
      by (rule manage_ok [OF less.prems(1) False, of pl])
    have ex: "ends N pl x" "0 \<le> he_repeat (snd x)" using less.prems(2) m(4) by auto
    note o = occurrences_next [OF ex(1)]
    have ok: "\<forall>z \<in># mset (items h'). ends N pl z \<and> 0 \<le> he_repeat (snd z) \<and> fst x \<le> fst z"
    proof
      fix z assume "z \<in># mset (items h')"
      then have "z \<in># mset (items h) \<or> next_entry pl x = Some z" unfolding m(6) by (auto dest: in_diffD split: option.splits)
      then show "ends N pl z \<and> 0 \<le> he_repeat (snd z) \<and> fst x \<le> fst z"
      proof
        assume "z \<in># mset (items h)"
        then show ?thesis using less.prems(2) m(5) by blast
      next
        assume z: "next_entry pl x = Some z"
        then show ?thesis using o(2) [OF z] next_entry_later [OF z ex(2)] ex(2) by simp
      qed
    qed
    have sum: "(\<Sum>x\<in>#mset (items h). mset (occurrences N pl x)) = add_mset x (\<Sum>x\<in>#mset (items h'). mset (occurrences N pl x))"
    proof -
      obtain M where M: "mset (items h) = add_mset x M" using multi_member_split [OF m(4)] by blast
      have "mset (occurrences N pl x) = add_mset x (case next_entry pl x of None \<Rightarrow> {#} | Some e \<Rightarrow> mset (occurrences N pl e))"
        using arg_cong [OF o(1), of mset] by (cases "next_entry pl x") simp_all
      then show ?thesis unfolding m(6) M by (cases "next_entry pl x") simp_all
    qed
    then have "size (\<Sum>x\<in>#mset (items h'). mset (occurrences N pl x)) < size (\<Sum>x\<in>#mset (items h). mset (occurrences N pl x))" by simp
    from less.hyps [OF this m(3)] ok obtain ys where ys: "mset ys = (\<Sum>x\<in>#mset (items h'). mset (occurrences N pl x))" "sorted (map fst ys)"
      "\<forall>fuel (yield :: 's \<Rightarrow> 't Active \<Rightarrow> 's \<times> bool) s. length ys < fuel \<longrightarrow>
         active_loop fuel pl yield h' s = Some (Inr (iter_seq yield (map active_of ys) s))" by blast
    have "fst x \<le> fst z" if z: "z \<in> set ys" for z
    proof -
      have "z \<in># (\<Sum>x\<in>#mset (items h'). mset (occurrences N pl x))" using z ys(1) by (metis set_mset_mset)
      then obtain w where "w \<in># mset (items h')" "z \<in> set (occurrences N pl w)" by auto
      then show ?thesis using ok occurrences_later [of z N pl w] by fastforce
    qed
    then have "sorted (map fst (x # ys))" using ys(2) by simp
    moreover have "mset (x # ys) = (\<Sum>x\<in>#mset (items h). mset (occurrences N pl x))" unfolding sum using ys(1) by simp
    moreover have "active_loop fuel pl yield h s = Some (Inr (iter_seq yield (map active_of (x # ys)) s))"
      if l: "length (x # ys) < fuel" for fuel and yield :: "'s \<Rightarrow> 't Active \<Rightarrow> 's \<times> bool" and s
    proof -
      obtain k where k: "fuel = Suc k" "length ys < k" using l by (cases fuel) auto
      have "hasActions h" using False less.prems(1) by (auto simp: hasActions_def k_Len_def items_def keyed_inv_def wf_heap_def)
      moreover have "\<lparr>ac_Name = he_name (snd y), ac_When = fst y, ac_T = he_t (snd y)\<rparr> = active_of x" using m(2) by (simp add: active_of_def)
      ultimately show ?thesis using k m(1) ys(3) by (auto simp: split_beta Let_def)
    qed
    ultimately show ?thesis by blast
  qed
qed

section \<open>Termination\<close>

text \<open>An action with an interval of a second or more ends with the day; one with a number of repetitions after as many.\<close>

lemma ends_interval:
  assumes "\<And>s u. pl_day pl s = pl_day pl u \<Longrightarrow> u - s \<le> L" "pl_day pl s0 = pl_day pl (fst e)" "1000000000 \<le> he_repeat (snd e)"
  shows "ends (Suc (nat (L - (fst e - s0)))) pl e"
  using assms(2,3)
proof (induction "nat (L - (fst e - s0))" arbitrary: e rule: less_induct)
  case less
  show ?case
  proof (cases "next_entry pl e")
    case (Some e')
    have q: "1 \<le> he_repeat (snd e) div 1000000000" using less.prems(2) by simp
    have e': "fst e' = fst e + he_repeat (snd e) div 1000000000" "he_repeat (snd e') = he_repeat (snd e)" "pl_day pl (fst e') = pl_day pl (fst e)"
      using Some by (auto simp: next_entry_def Let_def split: prod.splits if_splits)
    have "fst e' - s0 \<le> L" using assms(1) [of s0 "fst e'"] e'(3) less.prems(1) by simp
    then have lt: "nat (L - (fst e' - s0)) < nat (L - (fst e - s0))" using e'(1) q by linarith
    have "ends (Suc (nat (L - (fst e' - s0)))) pl e'" using less.hyps [OF lt] e' less.prems by simp
    moreover obtain d where "nat (L - (fst e - s0)) = Suc (nat (L - (fst e' - s0))) + d" using lt by (metis less_iff_Suc_add add_Suc)
    ultimately show ?thesis using Some ends_mono [of "Suc (nat (L - (fst e' - s0)))" pl e' d] by simp
  qed simp
qed

lemma ends_bounded: "he_bounded (snd e) \<Longrightarrow> he_numRepeats (snd e) = int n \<Longrightarrow> ends (Suc n) pl e"
proof (induction n arbitrary: e)
  case 0
  then show ?case by (auto simp: next_entry_def split: prod.splits)
next
  case (Suc n)
  show ?case
  proof (cases "next_entry pl e")
    case (Some e')
    then have "he_bounded (snd e')" "he_numRepeats (snd e') = int n"
      using Suc.prems by (auto simp: next_entry_def Let_def split: prod.splits if_splits)
    from Suc.IH [OF this] show ?thesis using Some by simp
  qed simp
qed

definition first_entry :: "'d place \<Rightarrow> CalendarDate \<Rightarrow> 't ActionSpec \<Rightarrow> 't entry" where
  "first_entry pl cd a = (pl_unix pl cd (as_Due (as_Evaluate cd a)), new_entry (as_Evaluate cd a))"

lemma first_entry_fields [simp]:
  "he_repeat (snd (first_entry pl cd a)) = as_Interval a" "he_numRepeats (snd (first_entry pl cd a)) = as_Repeats a"
  "he_bounded (snd (first_entry pl cd a)) \<longleftrightarrow> as_Interval a \<noteq> 0 \<and> as_Repeats a \<noteq> 0"
  by (simp_all add: first_entry_def new_entry_def as_Evaluate_def split: option.splits)

definition regular :: "nat \<Rightarrow> 't ActionSpec \<Rightarrow> bool" where
  "regular N a \<longleftrightarrow> as_Interval a = 0 \<or> 1000000000 \<le> as_Interval a \<or> 0 < as_Interval a \<and> 0 < as_Repeats a \<and> as_Repeats a < int N"

lemma regular_ends:
  assumes "\<And>s u. pl_day pl s = pl_day pl u \<Longrightarrow> u - s \<le> L" "L < int N" "regular N a"
  shows "ends N pl (first_entry pl cd a) \<and> 0 \<le> as_Interval a"
proof -
  let ?e = "first_entry pl cd a"
  have "0 \<le> L" using assms(1) [of 0 0] by simp
  consider "as_Interval a = 0" | "1000000000 \<le> as_Interval a" | "0 < as_Interval a" "0 < as_Repeats a" "as_Repeats a < int N"
    using assms(3) by (auto simp: regular_def)
  then have "\<exists>n \<le> N. ends n pl ?e"
  proof cases
    case 1
    then have "he_repeat (snd ?e) = 0" by simp
    then have "next_entry pl ?e = None" by (simp add: next_entry_def split_beta)
    then have "ends (Suc 0) pl ?e" by simp
    moreover have "Suc 0 \<le> N" using \<open>0 \<le> L\<close> assms(2) by linarith
    ultimately show ?thesis by blast
  next
    case 2
    have "ends (Suc (nat (L - (fst ?e - fst ?e)))) pl ?e" using ends_interval [of pl L "fst ?e" ?e] assms(1) 2 by simp
    moreover have "Suc (nat (L - (fst ?e - fst ?e))) \<le> N" using \<open>0 \<le> L\<close> assms(2) by linarith
    ultimately show ?thesis by blast
  next
    case 3
    then have "ends (Suc (nat (as_Repeats a))) pl ?e" by (intro ends_bounded) auto
    moreover have "Suc (nat (as_Repeats a)) \<le> N" using 3 by linarith
    ultimately show ?thesis by blast
  qed
  then show ?thesis using ends_mono [of _ pl ?e] assms(3) by (auto simp: regular_def le_iff_add)
qed

text \<open>The times of the occurrences: multiples of the interval, in whole seconds, on the day of the first.\<close>

lemma occurrences_times:
  "map fst (occurrences n pl e) = map (\<lambda>i. fst e + int i * (he_repeat (snd e) div 1000000000)) [0..<length (occurrences n pl e)]"
  "z \<in> set (occurrences n pl e) \<Longrightarrow> pl_day pl (fst z) = pl_day pl (fst e) \<and> he_name (snd z) = he_name (snd e) \<and> he_t (snd z) = he_t (snd e)"
proof (induction n arbitrary: e)
  case (Suc n)
  { case 1
    show ?case
    proof (cases "next_entry pl e")
      case (Some e')
      have "fst e' = fst e + he_repeat (snd e) div 1000000000" "he_repeat (snd e') = he_repeat (snd e)"
        using Some by (auto simp: next_entry_def Let_def split: prod.splits if_splits)
      then show ?thesis using Suc.IH(1) [of e'] Some
        by (simp add: upt_conv_Cons map_Suc_upt [symmetric] algebra_simps del: upt_Suc)
    qed simp }
  { case 2
    show ?case
    proof (cases "next_entry pl e")
      case (Some e')
      then have "pl_day pl (fst e') = pl_day pl (fst e)" "he_name (snd e') = he_name (snd e)" "he_t (snd e') = he_t (snd e)"
        by (auto simp: next_entry_def Let_def split: prod.splits if_splits)
      then show ?thesis using Suc.IH(2) [of e'] 2 Some by auto
    qed (use 2 in simp) }
qed simp_all

lemma newRepeatManager_ok:
  "\<exists>h. newRepeatManager pl actions cd = Inr h \<and> keyed_inv False h \<and> mset (items h) = mset (map (first_entry pl cd) actions)"
proof -
  let ?h = "\<lparr>Keys = [], Vals = [], maxv = False, callback = False, calls = []\<rparr>"
  have new: "NewMin [WithSliceCap (int (length actions))] = Inr ?h" by (simp add: NewMin_def newT_def)
  have empty: "keyed_inv False ?h" "mset (items ?h) = {#}" by (simp_all add: keyed_inv_def wf_heap_def items_def heap_upto_def)
  have "\<exists>h'. rfold (\<lambda>a h. k_Push h (pl_unix pl cd (as_Due a)) (new_entry a)) (ass_Evaluate cd actions) h = Inr h' \<and>
      keyed_inv False h' \<and> mset (items h') = mset (items h) + mset (map (first_entry pl cd) actions)" if "keyed_inv False h" for h
    using that
  proof (induction actions arbitrary: h)
    case (Cons a actions)
    from keyed_Push [OF Cons.prems, of "fst (first_entry pl cd a)" "snd (first_entry pl cd a)"] obtain h1 where
      h1: "k_Push h (pl_unix pl cd (as_Due (as_Evaluate cd a))) (new_entry (as_Evaluate cd a)) = Inr h1" "keyed_inv False h1"
      "mset (items h1) = mset (items h) + {#first_entry pl cd a#}" by (auto simp: first_entry_def)
    then show ?case using Cons.IH [of h1] by (auto simp: ass_Evaluate_def)
  qed (simp add: ass_Evaluate_def)
  from this [OF empty(1)] show ?thesis unfolding newRepeatManager_def new empty(2) by simp
qed

section \<open>Properties\<close>



text \<open>
  An interval that is shorter than a second is lost when the next time is stored in seconds: the action is
  due at the same time for ever, and the iterator does not end.
\<close>

lemma active_loop_spins:
  assumes "keyed_inv False h" "items h \<noteq> []" "\<forall>x \<in># mset (items h). next_entry pl x = Some x"
  shows "active_loop fuel pl (\<lambda>s x. (s @ [x], True)) h s = None"
  using assms
proof (induction fuel arbitrary: h s)
  case (Suc fuel)
  obtain x y h' where m: "manage pl h = Inr (y, h')" "active_of y = active_of x" "keyed_inv False h'" "x \<in># mset (items h)"
    "\<forall>z \<in># mset (items h). fst x \<le> fst z"
    "mset (items h') = mset (items h) - {#x#} + (case next_entry pl x of None \<Rightarrow> {#} | Some e \<Rightarrow> {#e#})"
    by (rule manage_ok [OF Suc.prems(1,2), of pl])
  have "next_entry pl x = Some x" using Suc.prems(3) m(4) by blast
  then have same: "mset (items h') = mset (items h)" unfolding m(6) using m(4) by simp
  then have "items h' \<noteq> []" using Suc.prems(2) by (metis mset_zero_iff)
  moreover have "\<forall>x \<in># mset (items h'). next_entry pl x = Some x" unfolding same by (rule Suc.prems(3))
  ultimately have "active_loop fuel pl (\<lambda>s x. (s @ [x], True)) h' s = None" for s using Suc.IH [OF m(3)] by blast
  moreover have "hasActions h" using Suc.prems(1,2) by (auto simp: hasActions_def k_Len_def items_def)
  ultimately show ?case using m(1) by (simp add: split_beta)
qed simp

lemma subsecond_interval_spins:
  assumes "0 < as_Interval a" "as_Interval a < 1000000000" "as_Repeats a = 0"
  shows "\<exists>h. newRepeatManager pl [a] cd = Inr h \<and> (\<forall>fuel. active_loop fuel pl (\<lambda>s x. (s @ [x], True)) h s = None)"
proof -
  obtain h where h: "newRepeatManager pl [a] cd = Inr h" "keyed_inv False h" "mset (items h) = mset (map (first_entry pl cd) [a])"
    using newRepeatManager_ok [of pl "[a]" cd] by blast
  have "he_repeat (snd (first_entry pl cd a)) div 1000000000 = 0" "\<not> he_bounded (snd (first_entry pl cd a))"
    "he_repeat (snd (first_entry pl cd a)) \<noteq> 0" using assms by simp_all
  then have "next_entry pl (first_entry pl cd a) = Some (first_entry pl cd a)"
    unfolding next_entry_def split_beta Let_def by simp
  moreover have "items h \<noteq> []" using h(3) by auto
  ultimately show ?thesis using h(1) active_loop_spins [OF h(2)] unfolding h(3) by auto
qed

end
