(* ===== verification/Bool_Expr.thy ===== *)
theory Bool_Expr
  imports Prelude
begin

text \<open>
  The boolean expressions of \<^verbatim>\<open>cmdutil/boolexpr\<close>: the tokenizer, a state machine over runes, and the
  translation of tokens to items (\<^verbatim>\<open>parser.go\<close>), the construction of the expression tree and its
  evaluation (\<^verbatim>\<open>expression.go\<close>). Operands are client code: a type \<open>'o\<close> with a preparation step and,
  for the value an expression is evaluated against, the result \<open>ev\<close> of each operand. A rune is a
  \<open>char\<close>, the code points below 256, for which the classes of the package \<^verbatim>\<open>unicode\<close> are written out.
\<close>

section \<open>Items and expressions (expression.go)\<close>

datatype itemType = orOp | andOp | notOp | leftBracket | rightBracket | subExpression | operand

datatype 'o Item =
    OR
  | AND
  | NOT
  | LeftBracket
  | RightBracket
  | Sub "'o Item list"
  | OperandItem 'o

fun item_typ :: "'o Item \<Rightarrow> itemType" where
  "item_typ OR = orOp"
| "item_typ AND = andOp"
| "item_typ NOT = notOp"
| "item_typ LeftBracket = leftBracket"
| "item_typ RightBracket = rightBracket"
| "item_typ (Sub e) = subExpression"
| "item_typ (OperandItem op) = operand"

definition isOperator :: "'o Item \<Rightarrow> bool" where
  "isOperator it \<longleftrightarrow> item_typ it = andOp \<or> item_typ it = orOp"

definition isOperand :: "'o Item \<Rightarrow> bool" where
  "isOperand it \<longleftrightarrow> item_typ it = operand \<or> item_typ it = subExpression"

definition newOperand :: "('o \<Rightarrow> 'o res) \<Rightarrow> 'o Item list \<Rightarrow> 'o \<Rightarrow> 'o Item list res" where
  "newOperand prepare e op = rbind (prepare op) (\<lambda>op'. Inr (e @ [OperandItem op']))"

definition newBinaryOp :: "'o Item list \<Rightarrow> 'o Item \<Rightarrow> 'o Item list res" where
  "newBinaryOp e cur =
     (if e = [] then Inl (Error ''missing left operand'')
      else if \<not> isOperand (last e) then Inl (Error ''missing operand preceding'')
      else Inr (e @ [cur]))"

definition newUnaryOp :: "'o Item list \<Rightarrow> 'o Item \<Rightarrow> 'o Item list res" where
  "newUnaryOp e cur =
     (if e \<noteq> [] \<and> \<not> isOperator (last e) then Inl (Error ''misplaced negation'') else Inr (e @ [cur]))"

definition checkSubExpression :: "'o Item list \<Rightarrow> unit res" where
  "checkSubExpression e =
     (if e \<noteq> [] \<and> \<not> isOperator (last e) \<and> item_typ (last e) \<noteq> notOp
      then Inl (Error ''missing operator preceding'') else Inr ())"

definition endSubExpression :: "'o Item list \<Rightarrow> 'o Item list res" where
  "endSubExpression e =
     (if e = [] then Inl (Error ''missing left operand'')
      else if \<not> isOperand (last e) then Inl (Error ''missing operand preceding'')
      else Inr e)"

text \<open>
  \<^verbatim>\<open>newExpression\<close> reads from a channel that its recursive calls share: it returns the expression
  and the items that are left on the channel. Items of type \<^verbatim>\<open>subExpression\<close>, which only the
  construction itself makes, are skipped by the \<^verbatim>\<open>switch\<close>.
\<close>

function (domintros) newExpression ::
  "('o \<Rightarrow> 'o res) \<Rightarrow> 'o Item list \<Rightarrow> 'o Item list \<Rightarrow> ('o Item list \<times> 'o Item list) res" where
  "newExpression prepare expr [] = Inr (expr, [])"
| "newExpression prepare expr (cur # input) =
     (case cur of
        OperandItem op \<Rightarrow> rbind (newOperand prepare expr op) (\<lambda>expr'. newExpression prepare expr' input)
      | LeftBracket \<Rightarrow>
          rbind (checkSubExpression expr) (\<lambda>_.
          rbind (newExpression prepare [] input) (\<lambda>(sub, input').
          newExpression prepare (expr @ [Sub sub]) input'))
      | RightBracket \<Rightarrow> rbind (endSubExpression expr) (\<lambda>e. Inr (e, input))
      | NOT \<Rightarrow> rbind (newUnaryOp expr cur) (\<lambda>expr'. newExpression prepare expr' input)
      | Sub s \<Rightarrow> newExpression prepare expr input
      | _ \<Rightarrow> rbind (newBinaryOp expr cur) (\<lambda>expr'. newExpression prepare expr' input))"
  by pat_completeness auto

lemma newExpression_rest:
  "newExpression_dom (prepare, expr, input) \<Longrightarrow>
   newExpression prepare expr input = Inr (e, rest) \<Longrightarrow> length rest \<le> length input"
proof (induction prepare expr input arbitrary: e rest rule: newExpression.pinduct)
  case (1 prepare expr)
  then show ?case by (simp add: newExpression.psimps)
next
  case (2 prepare expr cur input)
  show ?case
  proof (cases cur)
    case LeftBracket
    then obtain sub input' where "newExpression prepare [] input = Inr (sub, input')"
        "newExpression prepare (expr @ [Sub sub]) input' = Inr (e, rest)"
      using "2.prems" "2.hyps" by (auto simp: newExpression.psimps rbind_eq_Inr)
    then have "length input' \<le> length input" "length rest \<le> length input'"
      using "2.IH" LeftBracket "2.prems" "2.hyps" by (auto simp: newExpression.psimps rbind_eq_Inr)
    then show ?thesis by simp
  qed (use "2.IH" "2.prems" "2.hyps" in \<open>auto simp: newExpression.psimps rbind_eq_Inr le_SucI\<close>)
qed

termination newExpression
  by (relation "measure (\<lambda>(prepare, expr, input). length input)")
    (auto dest!: newExpression_rest)

fun balanced_from :: "nat \<Rightarrow> 'o Item list \<Rightarrow> nat res" where
  "balanced_from n [] = Inr n"
| "balanced_from n (it # items) =
     (if item_typ it = leftBracket then balanced_from (n + 1) items
      else if item_typ it = rightBracket
      then if n = 0 then Inl (Error ''unbalanced brackets'') else balanced_from (n - 1) items
      else balanced_from n items)"

fun incompleteExpression :: "'o Item list \<Rightarrow> bool" where
  "incompleteExpression [] = False"
| "incompleteExpression [it] =
     (case it of OperandItem _ \<Rightarrow> False | Sub s \<Rightarrow> incompleteExpression s | _ \<Rightarrow> True)"
| "incompleteExpression [a, b] = (item_typ a \<noteq> notOp)"
| "incompleteExpression (a # b # c # es) = False"

definition be_New :: "('o \<Rightarrow> 'o res) \<Rightarrow> 'o Item list \<Rightarrow> 'o Item list res" where
  "be_New prepare items =
     (if items = [] then Inr []
      else rbind (balanced_from 0 items) (\<lambda>n.
           if n \<noteq> 0 then Inl (Error ''unbalanced brackets'')
           else rbind (newExpression prepare [] items) (\<lambda>(tree, _).
                if incompleteExpression tree then Inl (Error ''incomplete expression'') else Inr tree)))"

record evaluator =
  evals :: "bool list"
  operators :: "itemType list"

definition pushVal :: "evaluator \<Rightarrow> bool \<Rightarrow> evaluator" where
  "pushVal e v = e\<lparr>evals := evals e @ [v]\<rparr>"

definition pushOp :: "evaluator \<Rightarrow> itemType \<Rightarrow> evaluator" where
  "pushOp e it = e\<lparr>operators := operators e @ [it]\<rparr>"

definition negate_single :: "evaluator \<Rightarrow> evaluator" where
  "negate_single e =
     (case (evals e, operators e) of
        ([v], [notOp]) \<Rightarrow> \<lparr>evals = [\<not> v], operators = []\<rparr>
      | _ \<Rightarrow> e)"

definition ev_eval :: "evaluator \<Rightarrow> evaluator \<times> bool" where
  "ev_eval e =
     (let e = negate_single e
      in case (evals e, operators e) of
           ([v, w], op # ops) \<Rightarrow>
             let (w, ops') = (if ops \<noteq> [] \<and> last ops = notOp then (\<not> w, butlast ops) else (w, ops));
                 e = \<lparr>evals = [v, w], operators = op # ops'\<rparr>
             in (case op of
                   andOp \<Rightarrow> (e\<lparr>evals := [v \<and> w]\<rparr>, False)
                 | orOp \<Rightarrow> (e\<lparr>evals := [v \<or> w]\<rparr>, v \<or> w)
                 | _ \<Rightarrow> (e, False))
         | _ \<Rightarrow> (e, False))"

fun ev_run :: "('o \<Rightarrow> bool) \<Rightarrow> evaluator \<Rightarrow> 'o Item list \<Rightarrow> bool res" where
  "ev_run ev e [] =
     (if length (evals e) > 1 then Inl (Panic ''invalid expression'') else sl_get (evals e) 0)"
| "ev_run ev e (cur # exprs) =
     rbind (case cur of
              OperandItem op \<Rightarrow> Inr (pushVal e (ev op))
            | OR \<Rightarrow> Inr (pushOp e orOp)
            | AND \<Rightarrow> Inr (pushOp e andOp)
            | NOT \<Rightarrow> Inr (pushOp e notOp)
            | Sub s \<Rightarrow> rbind (ev_run ev \<lparr>evals = [], operators = []\<rparr> s) (\<lambda>v. Inr (pushVal e v))
            | _ \<Rightarrow> Inr e) (\<lambda>e.
     case ev_eval e of (e, done) \<Rightarrow> if done then Inr True else ev_run ev e exprs)"

definition be_Eval :: "('o \<Rightarrow> bool) \<Rightarrow> 'o Item list \<Rightarrow> bool res" where
  "be_Eval ev items = (if items = [] then Inr False else ev_run ev \<lparr>evals = [], operators = []\<rparr> items)"

section \<open>Expressions with one connective per group\<close>

text \<open>
  The expressions whose meaning the evaluator gets right: groups of possibly negated terms joined by
  one connective, which is either \<^verbatim>\<open>&&\<close> throughout the group or \<^verbatim>\<open>||\<close> throughout, nested with brackets.
\<close>

datatype 'o atom = Atom 'o | Group bool "'o trm list"
  and 'o trm = Tm bool "'o atom"

definition conn :: "bool \<Rightarrow> 'o Item" where
  "conn c = (if c then AND else OR)"

fun join :: "'a \<Rightarrow> 'a list list \<Rightarrow> 'a list" where
  "join s [] = []"
| "join s (x # xs) = x @ concat (map (\<lambda>y. s # y) xs)"

fun toks_atom :: "'o atom \<Rightarrow> 'o Item list" and toks_trm :: "'o trm \<Rightarrow> 'o Item list" where
  "toks_atom (Atom x) = [OperandItem x]"
| "toks_atom (Group c ts) = LeftBracket # join (conn c) (map toks_trm ts) @ [RightBracket]"
| "toks_trm (Tm neg a) = (if neg then [NOT] else []) @ toks_atom a"

fun tree_atom :: "('o \<Rightarrow> 'o) \<Rightarrow> 'o atom \<Rightarrow> 'o Item" and tree_trm :: "('o \<Rightarrow> 'o) \<Rightarrow> 'o trm \<Rightarrow> 'o Item list" where
  "tree_atom p (Atom x) = OperandItem (p x)"
| "tree_atom p (Group c ts) = Sub (join (conn c) (map (tree_trm p) ts))"
| "tree_trm p (Tm neg a) = (if neg then [NOT] else []) @ [tree_atom p a]"

fun wf_atom :: "'o atom \<Rightarrow> bool" and wf_trm :: "'o trm \<Rightarrow> bool" where
  "wf_atom (Atom x) = True"
| "wf_atom (Group c ts) = (ts \<noteq> [] \<and> list_all wf_trm ts)"
| "wf_trm (Tm neg a) = wf_atom a"

fun sem_atom :: "('o \<Rightarrow> bool) \<Rightarrow> 'o atom \<Rightarrow> bool" and sem_trm :: "('o \<Rightarrow> bool) \<Rightarrow> 'o trm \<Rightarrow> bool" where
  "sem_atom ev (Atom x) = ev x"
| "sem_atom ev (Group c ts) = (if c then list_all (sem_trm ev) ts else list_ex (sem_trm ev) ts)"
| "sem_trm ev (Tm neg a) = (sem_atom ev a \<noteq> neg)"

definition open_end :: "'o Item list \<Rightarrow> bool" where
  "open_end e \<longleftrightarrow> e = [] \<or> isOperator (last e)"

lemma open_end_conn [simp]: "open_end (e @ [conn c])"
  by (simp add: open_end_def conn_def isOperator_def)

lemma tree_trm_end: "tree_trm p t \<noteq> [] \<and> isOperand (last (tree_trm p t))"
proof (cases t)
  case (Tm neg a)
  then show ?thesis by (cases a) (auto simp: isOperand_def)
qed

lemma newExpression_conn:
  "e \<noteq> [] \<Longrightarrow> isOperand (last e) \<Longrightarrow>
     newExpression pr e (conn c # rest) = newExpression pr (e @ [conn c]) rest"
  by (simp add: conn_def newBinaryOp_def)

lemma newExpression_terms:
  assumes "\<And>t e rest. t \<in> set ts \<Longrightarrow> open_end e \<Longrightarrow>
      newExpression pr e (toks_trm t @ rest) = newExpression pr (e @ tree_trm p t) rest"
    "e \<noteq> []" "isOperand (last e)"
  shows "newExpression pr e (concat (map (\<lambda>y. conn c # y) (map toks_trm ts)) @ rest) =
    newExpression pr (e @ concat (map (\<lambda>y. conn c # y) (map (tree_trm p) ts))) rest"
  using assms
proof (induction ts arbitrary: e)
  case (Cons t ts)
  have "newExpression pr e (concat (map (\<lambda>y. conn c # y) (map toks_trm (t # ts))) @ rest) =
      newExpression pr (e @ [conn c]) (toks_trm t @ concat (map (\<lambda>y. conn c # y) (map toks_trm ts)) @ rest)"
    using newExpression_conn [OF Cons.prems(2,3)] by simp
  also have "\<dots> = newExpression pr ((e @ [conn c]) @ tree_trm p t)
      (concat (map (\<lambda>y. conn c # y) (map toks_trm ts)) @ rest)"
    using Cons.prems(1) [of t "e @ [conn c]"] by simp
  also have "\<dots> = newExpression pr (((e @ [conn c]) @ tree_trm p t) @
      concat (map (\<lambda>y. conn c # y) (map (tree_trm p) ts))) rest"
    using Cons.prems(1) tree_trm_end [of p t] by (intro Cons.IH) auto
  finally show ?case by simp
qed simp

lemma newExpression_join:
  assumes "\<And>t e rest. t \<in> set ts \<Longrightarrow> open_end e \<Longrightarrow>
      newExpression pr e (toks_trm t @ rest) = newExpression pr (e @ tree_trm p t) rest"
    "ts \<noteq> []"
  shows "newExpression pr [] (join (conn c) (map toks_trm ts) @ rest) =
    newExpression pr (join (conn c) (map (tree_trm p) ts)) rest"
proof -
  obtain t ts' where ts: "ts = t # ts'" using assms(2) by (cases ts) auto
  have "newExpression pr [] (toks_trm t @ concat (map (\<lambda>y. conn c # y) (map toks_trm ts')) @ rest) =
      newExpression pr (tree_trm p t) (concat (map (\<lambda>y. conn c # y) (map toks_trm ts')) @ rest)"
    using assms(1) [of t "[]"] ts by (simp add: open_end_def)
  also have "\<dots> = newExpression pr (tree_trm p t @ concat (map (\<lambda>y. conn c # y) (map (tree_trm p) ts'))) rest"
    using assms(1) ts tree_trm_end [of p t] by (intro newExpression_terms) auto
  finally show ?thesis by (simp add: ts)
qed

lemma join_tree_end:
  "ts \<noteq> [] \<Longrightarrow> join (conn c) (map (tree_trm p) ts) \<noteq> [] \<and> isOperand (last (join (conn c) (map (tree_trm p) ts)))"
proof (induction ts rule: rev_induct)
  case (snoc t ts)
  then show ?case using tree_trm_end [of p t] by (cases ts) auto
qed simp

lemma newExpression_trm:
  assumes pr: "\<And>x. pr x = Inr (p x)"
  shows "wf_atom a \<Longrightarrow> (open_end e \<or> e \<noteq> [] \<and> last e = NOT) \<Longrightarrow>
      newExpression pr e (toks_atom a @ rest) = newExpression pr (e @ [tree_atom p a]) rest"
    and "wf_trm t \<Longrightarrow> open_end e \<Longrightarrow>
      newExpression pr e (toks_trm t @ rest) = newExpression pr (e @ tree_trm p t) rest"
proof (induction a and t arbitrary: e rest and e rest rule: atom.induct trm.induct)
  case (Atom x)
  then show ?case by (simp add: newOperand_def pr)
next
  case (Group c ts)
  have check: "checkSubExpression e = Inr ()"
    using Group.prems(2) by (auto simp: checkSubExpression_def open_end_def)
  have "newExpression pr [] (join (conn c) (map toks_trm ts) @ RightBracket # rest) =
      newExpression pr (join (conn c) (map (tree_trm p) ts)) (RightBracket # rest)"
    using Group by (intro newExpression_join) (auto simp: list_all_iff)
  also have "\<dots> = Inr (join (conn c) (map (tree_trm p) ts), rest)"
    using join_tree_end [of ts c p] Group.prems(1) by (simp add: endSubExpression_def)
  finally show ?case by (simp add: check)
next
  case (Tm neg a)
  then show ?case
    by (cases neg) (auto simp: newUnaryOp_def open_end_def)
qed


lemma newExpression_group:
  assumes "\<And>x. pr x = Inr (p x)" "ts \<noteq> []" "list_all wf_trm ts"
  shows "newExpression pr [] (join (conn c) (map toks_trm ts) @ rest) =
    newExpression pr (join (conn c) (map (tree_trm p) ts)) rest"
  using newExpression_trm(2) [of pr p] assms by (intro newExpression_join) (auto simp: list_all_iff)

subsection \<open>Brackets\<close>

lemma balanced_terms:
  assumes "\<And>t n rest. t \<in> set ts \<Longrightarrow> balanced_from n (toks_trm t @ rest) = balanced_from n rest"
  shows "balanced_from n (concat (map (\<lambda>y. conn c # y) (map toks_trm ts)) @ rest) = balanced_from n rest"
  using assms by (induction ts) (auto simp: conn_def)

lemma balanced_join:
  assumes "\<And>t n rest. t \<in> set ts \<Longrightarrow> balanced_from n (toks_trm t @ rest) = balanced_from n rest"
  shows "balanced_from n (join (conn c) (map toks_trm ts) @ rest) = balanced_from n rest"
  using assms balanced_terms [of "tl ts" n c rest] by (cases ts) auto

lemma balanced_toks:
  shows "balanced_from n (toks_atom a @ rest) = balanced_from n rest"
    and "balanced_from n (toks_trm t @ rest) = balanced_from n rest"
proof (induction a and t arbitrary: n rest and n rest rule: atom.induct trm.induct)
  case (Group c ts)
  then show ?case using balanced_join [of ts "Suc n" c "RightBracket # rest"] by simp
qed auto

subsection \<open>Completeness of the tree\<close>

lemma join_two: "join s (x # y # zs) = x @ s # join s (y # zs)"
  by simp

lemma complete_tree:
  shows "wf_atom a \<Longrightarrow> \<not> incompleteExpression [tree_atom p a]"
    and "wf_trm t \<Longrightarrow> \<not> incompleteExpression (tree_trm p t)"
proof (induction a and t rule: atom.induct trm.induct)
  case (Group c ts)
  show ?case
  proof (cases ts)
    case (Cons t us)
    show ?thesis
    proof (cases us)
      case Nil
      then show ?thesis using Group Cons by simp
    next
      case (Cons u vs)
      have "\<exists>a b d es. join (conn c) (map (tree_trm p) ts) = a # b # d # es"
        using tree_trm_end [of p t] tree_trm_end [of p u] \<open>ts = t # us\<close> Cons
        by (cases "tree_trm p t"; cases "tl (tree_trm p t)"; cases "tl (tl (tree_trm p t))"; cases "tree_trm p u") auto
      then show ?thesis by auto
    qed
  qed (use Group in simp)
next
  case (Tm neg a)
  then show ?case by (cases neg) auto
qed simp

lemma be_New_group:
  assumes "\<And>x. pr x = Inr (p x)" "wf_atom (Group c ts)"
  shows "be_New pr (join (conn c) (map toks_trm ts)) = Inr (join (conn c) (map (tree_trm p) ts))"
proof -
  have "join (conn c) (map toks_trm ts) \<noteq> []"
  proof
    assume empty: "join (conn c) (map toks_trm ts) = []"
    obtain t us where ts: "ts = t # us" using assms(2) by (cases ts) auto
    then have "toks_trm t = []" using empty by simp
    moreover obtain neg a where "t = Tm neg a" by (cases t)
    ultimately show False by (cases a) auto
  qed
  moreover have "balanced_from 0 (join (conn c) (map toks_trm ts)) = Inr 0"
    using balanced_join [OF balanced_toks(2), where rest = "[]"] by simp
  moreover have "newExpression pr [] (join (conn c) (map toks_trm ts)) =
      Inr (join (conn c) (map (tree_trm p) ts), [])"
    using newExpression_group [of pr p ts c "[]"] assms by simp
  moreover have "\<not> incompleteExpression (join (conn c) (map (tree_trm p) ts))"
    using complete_tree(1) [OF assms(2), of p] by simp
  ultimately show ?thesis by (simp add: be_New_def)
qed

subsection \<open>Evaluation\<close>

definition connOp :: "bool \<Rightarrow> itemType" where
  "connOp c = (if c then andOp else orOp)"

definition connect :: "bool \<Rightarrow> bool \<Rightarrow> bool \<Rightarrow> bool" where
  "connect c v w = (if c then v \<and> w else v \<or> w)"

definition atom_runs :: "('o \<Rightarrow> bool) \<Rightarrow> 'o Item \<Rightarrow> bool \<Rightarrow> bool" where
  "atom_runs ev it v \<longleftrightarrow> (\<forall>e rest. ev_run ev e (it # rest) =
     (case ev_eval (pushVal e v) of (e, done) \<Rightarrow> if done then Inr True else ev_run ev e rest))"

lemma run_first_term:
  assumes "atom_runs ev (tree_atom p a) v"
  shows "ev_run ev \<lparr>evals = [], operators = []\<rparr> (tree_trm p (Tm neg a) @ rest) =
    ev_run ev \<lparr>evals = [v \<noteq> neg], operators = []\<rparr> rest"
  using assms
  by (cases neg) (auto simp: atom_runs_def ev_eval_def negate_single_def pushVal_def pushOp_def)

lemma run_next_term:
  assumes "atom_runs ev (tree_atom p a) w"
  shows "ev_run ev \<lparr>evals = [v], operators = replicate k (connOp c)\<rparr> (conn c # tree_trm p (Tm neg a) @ rest) =
    (if \<not> c \<and> (v \<or> w \<noteq> neg) then Inr True
     else ev_run ev \<lparr>evals = [connect c v (w \<noteq> neg)], operators = replicate (Suc k) (connOp c)\<rparr> rest)"
proof -
  have app: "replicate k (connOp c) @ [connOp c] = connOp c # replicate k (connOp c)"
    by (simp add: replicate_append_same)
  have single: "negate_single \<lparr>evals = [v], operators = connOp c # replicate k (connOp c)\<rparr> =
      \<lparr>evals = [v], operators = connOp c # replicate k (connOp c)\<rparr>"
    by (auto simp: negate_single_def connOp_def split: list.splits itemType.splits)
  have op: "ev_run ev \<lparr>evals = [v], operators = replicate k (connOp c)\<rparr> (conn c # tree_trm p (Tm neg a) @ rest) =
      ev_run ev \<lparr>evals = [v], operators = connOp c # replicate k (connOp c)\<rparr> (tree_trm p (Tm neg a) @ rest)"
    using single app
    by (auto simp: conn_def connOp_def pushOp_def ev_eval_def)
  have last: "replicate k (connOp c) \<noteq> [] \<Longrightarrow> last (replicate k (connOp c)) \<noteq> notOp"
    by (auto simp: connOp_def)
  show ?thesis
  proof (cases neg)
    case True
    have "negate_single \<lparr>evals = [v], operators = connOp c # replicate k (connOp c) @ [notOp]\<rparr> =
        \<lparr>evals = [v], operators = connOp c # replicate k (connOp c) @ [notOp]\<rparr>"
      by (auto simp: negate_single_def connOp_def split: list.splits itemType.splits)
    moreover have "negate_single \<lparr>evals = [v, w], operators = connOp c # replicate k (connOp c) @ [notOp]\<rparr> =
        \<lparr>evals = [v, w], operators = connOp c # replicate k (connOp c) @ [notOp]\<rparr>"
      by (simp add: negate_single_def)
    ultimately show ?thesis
      using True assms unfolding op
      by (auto simp: atom_runs_def ev_eval_def pushVal_def pushOp_def Let_def connect_def connOp_def)
  next
    case False
    have "negate_single \<lparr>evals = [v, w], operators = connOp c # replicate k (connOp c)\<rparr> =
        \<lparr>evals = [v, w], operators = connOp c # replicate k (connOp c)\<rparr>"
      by (simp add: negate_single_def)
    then show ?thesis
      using False assms last unfolding op
      by (auto simp: atom_runs_def ev_eval_def pushVal_def Let_def connect_def connOp_def)
  qed
qed

lemma run_terms:
  assumes "\<And>neg a. Tm neg a \<in> set ts \<Longrightarrow> atom_runs ev (tree_atom p a) (sem_atom (\<lambda>x. ev (p x)) a)"
  shows "ev_run ev \<lparr>evals = [v], operators = replicate k (connOp c)\<rparr>
      (concat (map (\<lambda>y. conn c # y) (map (tree_trm p) ts))) =
    Inr (if c then v \<and> list_all (sem_trm (\<lambda>x. ev (p x))) ts else v \<or> list_ex (sem_trm (\<lambda>x. ev (p x))) ts)"
  using assms
proof (induction ts arbitrary: v k)
  case (Cons t ts)
  obtain neg a where t: "t = Tm neg a" by (cases t)
  have "atom_runs ev (tree_atom p a) (sem_atom (\<lambda>x. ev (p x)) a)" using Cons.prems [of neg a] t by simp
  note step = run_next_term [OF this, of v k c neg "concat (map (\<lambda>y. conn c # y) (map (tree_trm p) ts))"]
  have unfolded: "concat (map (\<lambda>y. conn c # y) (map (tree_trm p) (t # ts))) =
      conn c # tree_trm p (Tm neg a) @ concat (map (\<lambda>y. conn c # y) (map (tree_trm p) ts))"
    by (simp add: t)
  have IH: "ev_run ev \<lparr>evals = [v'], operators = replicate (Suc k) (connOp c)\<rparr>
      (concat (map (\<lambda>y. conn c # y) (map (tree_trm p) ts))) =
    Inr (if c then v' \<and> list_all (sem_trm (\<lambda>x. ev (p x))) ts else v' \<or> list_ex (sem_trm (\<lambda>x. ev (p x))) ts)" for v'
    using Cons.prems by (intro Cons.IH) auto
  show ?case unfolding unfolded step IH by (auto simp: connect_def t)
qed simp

lemma run_group:
  assumes "\<And>neg a. Tm neg a \<in> set ts \<Longrightarrow> atom_runs ev (tree_atom p a) (sem_atom (\<lambda>x. ev (p x)) a)" "ts \<noteq> []"
  shows "ev_run ev \<lparr>evals = [], operators = []\<rparr> (join (conn c) (map (tree_trm p) ts)) =
    Inr (sem_atom (\<lambda>x. ev (p x)) (Group c ts))"
proof -
  obtain t us where ts: "ts = t # us" using assms(2) by (cases ts) auto
  obtain neg a where t: "t = Tm neg a" by (cases t)
  have "atom_runs ev (tree_atom p a) (sem_atom (\<lambda>x. ev (p x)) a)" using assms(1) [of neg a] ts t by simp
  from run_first_term [OF this, of neg "concat (map (\<lambda>y. conn c # y) (map (tree_trm p) us))"]
  have first: "ev_run ev \<lparr>evals = [], operators = []\<rparr> (join (conn c) (map (tree_trm p) ts)) =
      ev_run ev \<lparr>evals = [sem_atom (\<lambda>x. ev (p x)) a \<noteq> neg], operators = replicate 0 (connOp c)\<rparr>
        (concat (map (\<lambda>y. conn c # y) (map (tree_trm p) us)))"
    by (simp add: ts t)
  show ?thesis unfolding first using assms(1) ts t
    by (subst run_terms) auto
qed

lemma run_atom: "wf_atom a \<Longrightarrow> atom_runs ev (tree_atom p a) (sem_atom (\<lambda>x. ev (p x)) a)"
  and run_trm: "wf_trm t \<Longrightarrow> (case t of Tm neg a \<Rightarrow> atom_runs ev (tree_atom p a) (sem_atom (\<lambda>x. ev (p x)) a))"
proof (induction a and t rule: atom.induct trm.induct)
  case (Atom x)
  then show ?case by (simp add: atom_runs_def)
next
  case (Group c ts)
  then have "ev_run ev \<lparr>evals = [], operators = []\<rparr> (join (conn c) (map (tree_trm p) ts)) =
      Inr (sem_atom (\<lambda>x. ev (p x)) (Group c ts))"
    by (intro run_group) (force simp: list_all_iff)+
  then show ?case by (simp add: atom_runs_def)
next
  case (Tm neg a)
  then show ?case by simp
qed

lemma be_Eval_group:
  assumes "wf_atom (Group c ts)"
  shows "be_Eval ev (join (conn c) (map (tree_trm p) ts)) = Inr (sem_atom (\<lambda>x. ev (p x)) (Group c ts))"
proof -
  have "join (conn c) (map (tree_trm p) ts) \<noteq> []" using join_tree_end [of ts c p] assms by simp
  moreover have "ev_run ev \<lparr>evals = [], operators = []\<rparr> (join (conn c) (map (tree_trm p) ts)) =
      Inr (sem_atom (\<lambda>x. ev (p x)) (Group c ts))"
    using assms by (intro run_group) (auto simp: list_all_iff intro!: run_atom)
  ultimately show ?thesis by (simp add: be_Eval_def)
qed

end
