(* ===== verification/Bool_Parser.thy ===== *)
theory Bool_Parser
  imports Bool_Expr Runes
begin

text \<open>
  The parser of \<^verbatim>\<open>cmdutil/boolexpr\<close> (\<^verbatim>\<open>parser.go\<close>): a tokenizer that is a state machine over the runes of
  the input, the translation of its tokens to items with the registered operands, and \<^verbatim>\<open>Parse\<close>, which
  hands the items to \<^verbatim>\<open>New\<close>. The factories of the operands are client code: a map from the name of an
  operand to a function of the name and the value.
\<close>

section \<open>Tokens (parser.go)\<close>

datatype token =
    OperatorTok string
  | OperandName string
  | OperandValue string

fun operatorFor :: "string \<Rightarrow> 'o Item" where
  "operatorFor text =
     (if text = ''||'' then OR
      else if text = ''&&'' then AND
      else if text = ''!'' then NOT
      else if text = ''('' then LeftBracket
      else if text = '')'' then RightBracket
      else OR)"

record tokenizer =
  seen :: string
  tokens :: "token list"

type_synonym 'o factories = "string \<rightharpoonup> (string \<Rightarrow> string \<Rightarrow> 'o)"

definition operandExists :: "'o factories \<Rightarrow> string \<Rightarrow> bool" where
  "operandExists ops text \<longleftrightarrow> ops text \<noteq> None"

definition operandFor :: "'o factories \<Rightarrow> string \<Rightarrow> string \<Rightarrow> 'o Item res" where
  "operandFor ops text val =
     (case ops text of
        Some f \<Rightarrow> Inr (OperandItem (f text val))
      | None \<Rightarrow> Inl (Error ''unsupported operand''))"

fun mergeOperandsAndValues :: "'o factories \<Rightarrow> token list \<Rightarrow> 'o Item list res" where
  "mergeOperandsAndValues ops [] = Inr []"
| "mergeOperandsAndValues ops (OperatorTok t # toks) =
     rbind (mergeOperandsAndValues ops toks) (\<lambda>merged. Inr (operatorFor t # merged))"
| "mergeOperandsAndValues ops (OperandName t # toks) =
     (if \<not> operandExists ops t then Inl (Error ''unsupported operand'')
      else case toks of
        OperandValue v # toks' \<Rightarrow>
          rbind (operandFor ops t v) (\<lambda>op.
          rbind (mergeOperandsAndValues ops toks') (\<lambda>merged. Inr (op # merged)))
      | _ \<Rightarrow> Inl (Error ''missing operand value''))"
| "mergeOperandsAndValues ops (OperandValue t # toks) = mergeOperandsAndValues ops toks"

section \<open>The tokenizer's state machine (parser.go)\<close>

datatype state =
    start
  | operandName
  | operatorAnd
  | operatorOr
  | operandValue
  | quotedValue
  | escapedValue
  | escapedRune

definition writeRune :: "tokenizer \<Rightarrow> char \<Rightarrow> tokenizer" where
  "writeRune t r = t\<lparr>seen := seen t @ [r]\<rparr>"

definition appendOperator :: "tokenizer \<Rightarrow> string \<Rightarrow> tokenizer" where
  "appendOperator t text = t\<lparr>tokens := tokens t @ [OperatorTok text]\<rparr>"

definition appendOperandName :: "tokenizer \<Rightarrow> tokenizer" where
  "appendOperandName t = t\<lparr>seen := [], tokens := tokens t @ [OperandName (seen t)]\<rparr>"

definition appendOperandValue :: "tokenizer \<Rightarrow> tokenizer" where
  "appendOperandValue t = t\<lparr>seen := [], tokens := tokens t @ [OperandValue (seen t)]\<rparr>"

definition t_start :: "tokenizer \<Rightarrow> char \<Rightarrow> (tokenizer \<times> state) res" where
  "t_start t r =
     (if isSpace r then Inr (t, start)
      else if r = CHR ''('' \<or> r = CHR '')'' \<or> r = CHR ''!'' then Inr (appendOperator t [r], start)
      else if r = CHR ''&'' then Inr (t, operatorAnd)
      else if r = CHR ''|'' then Inr (t, operatorOr)
      else if isLetter r then Inr (writeRune t r, operandName)
      else Inl (Error ''unexpected character''))"

definition t_operatorAnd :: "tokenizer \<Rightarrow> char \<Rightarrow> (tokenizer \<times> state) res" where
  "t_operatorAnd t r =
     (if r = CHR ''&'' then Inr ((appendOperator t ''&&'')\<lparr>seen := []\<rparr>, start)
      else Inl (Error ''& is not a valid operator, should be &&''))"

definition t_operatorOr :: "tokenizer \<Rightarrow> char \<Rightarrow> (tokenizer \<times> state) res" where
  "t_operatorOr t r =
     (if r = CHR ''|'' then Inr ((appendOperator t ''||'')\<lparr>seen := []\<rparr>, start)
      else Inl (Error ''| is not a valid operator, should be ||''))"

definition t_operandName :: "tokenizer \<Rightarrow> char \<Rightarrow> (tokenizer \<times> state) res" where
  "t_operandName t r =
     (if r = CHR ''='' then Inr (appendOperandName t, operandValue)
      else if isLetter r \<or> isNumber r \<or> r = CHR ''-'' \<or> r = CHR ''_''
      then Inr (writeRune t r, operandName)
      else Inl (Error ''expected =''))"

definition operandValueDone :: "tokenizer \<Rightarrow> char \<Rightarrow> tokenizer \<times> bool \<times> state" where
  "operandValueDone t r =
     (if isSpace r then (appendOperandValue t, True, start)
      else if r = CHR ''('' \<or> r = CHR '')''
      then (appendOperator (appendOperandValue t) [r], True, start)
      else if r = CHR ''&'' then (appendOperandValue t, True, operatorAnd)
      else if r = CHR ''|'' then (appendOperandValue t, True, operatorOr)
      else (writeRune t r, False, escapedValue))"

definition t_operandValue :: "tokenizer \<Rightarrow> char \<Rightarrow> (tokenizer \<times> state) res" where
  "t_operandValue t r =
     (if r = CHR 0x27 then Inr (t, quotedValue)
      else if r = CHR 0x5C then Inr (t, escapedRune)
      else case operandValueDone t r of
        (t, done, st) \<Rightarrow> Inr (t, if done then st else escapedValue))"

definition t_quotedValue :: "tokenizer \<Rightarrow> char \<Rightarrow> (tokenizer \<times> state) res" where
  "t_quotedValue t r =
     (if r = CHR 0x27 then Inr (appendOperandValue t, start) else Inr (writeRune t r, quotedValue))"

definition t_escapedValue :: "tokenizer \<Rightarrow> char \<Rightarrow> (tokenizer \<times> state) res" where
  "t_escapedValue t r =
     (if r = CHR 0x5C then Inr (t, escapedRune)
      else case operandValueDone t r of
        (t, done, st) \<Rightarrow> Inr (t, if done then st else escapedValue))"

definition t_escapedRune :: "tokenizer \<Rightarrow> char \<Rightarrow> (tokenizer \<times> state) res" where
  "t_escapedRune t r = Inr (writeRune t r, escapedValue)"

fun tok_step :: "state \<Rightarrow> tokenizer \<Rightarrow> char \<Rightarrow> (tokenizer \<times> state) res" where
  "tok_step start = t_start"
| "tok_step operandName = t_operandName"
| "tok_step operatorAnd = t_operatorAnd"
| "tok_step operatorOr = t_operatorOr"
| "tok_step operandValue = t_operandValue"
| "tok_step quotedValue = t_quotedValue"
| "tok_step escapedValue = t_escapedValue"
| "tok_step escapedRune = t_escapedRune"

fun runStateMachine :: "tokenizer \<Rightarrow> state \<Rightarrow> string \<Rightarrow> (tokenizer \<times> state) res" where
  "runStateMachine t st [] = Inr (t, st)"
| "runStateMachine t st (r # input) =
     rbind (tok_step st t r) (\<lambda>(t, st). runStateMachine t st input)"

definition tok_run :: "string \<Rightarrow> token list res" where
  "tok_run input =
     rbind (runStateMachine \<lparr>seen = [], tokens = []\<rparr> start input) (\<lambda>(t, st).
     case st of
       operandName \<Rightarrow> Inr (tokens (appendOperandName t))
     | operandValue \<Rightarrow> Inr (tokens (appendOperandValue t))
     | escapedValue \<Rightarrow> Inr (tokens (appendOperandValue t))
     | operatorAnd \<Rightarrow> Inl (Error ''incomplete operator: &'')
     | operatorOr \<Rightarrow> Inl (Error ''incomplete operator: |'')
     | quotedValue \<Rightarrow> Inl (Error ''missing close quote'')
     | escapedRune \<Rightarrow> Inl (Error ''missing escaped rune'')
     | start \<Rightarrow> Inr (tokens t))"

definition Parse :: "'o factories \<Rightarrow> ('o \<Rightarrow> 'o res) \<Rightarrow> string \<Rightarrow> 'o Item list res" where
  "Parse ops prepare input =
     rbind (tok_run input) (\<lambda>toks.
     rbind (mergeOperandsAndValues ops toks) (\<lambda>merged. be_New prepare merged))"

section \<open>Printing (expression.go)\<close>

fun item_String :: "('o \<Rightarrow> string) \<Rightarrow> 'o Item \<Rightarrow> string" where
  "item_String str AND = ''&&''"
| "item_String str OR = ''||''"
| "item_String str LeftBracket = ''(''"
| "item_String str RightBracket = '')''"
| "item_String str NOT = ''!''"
| "item_String str (Sub e) = ''('' @ concat (map (item_String str) e) @ '')''"
| "item_String str (OperandItem op) = str op"

fun t_piece :: "('o \<Rightarrow> string) \<Rightarrow> 'o Item \<Rightarrow> string" where
  "t_piece str (Sub e) = ''('' @ trimSpace (concat (map (t_piece str) e)) @ '') ''"
| "t_piece str NOT = item_String str NOT"
| "t_piece str it = item_String str it @ '' ''"

definition T_String :: "('o \<Rightarrow> string) \<Rightarrow> 'o Item list \<Rightarrow> string" where
  "T_String str items = trimSpace (concat (map (t_piece str) items))"

section \<open>Tokenizing printed expressions\<close>

text \<open>
  The operands that can be printed and parsed again: each has a name, which starts with a letter, and
  a value without single quotes, and prints as \<^verbatim>\<open>name='value'\<close>.
\<close>

definition ok_name :: "string \<Rightarrow> bool" where
  "ok_name n \<longleftrightarrow> n \<noteq> [] \<and> isLetter (hd n) \<and>
     list_all (\<lambda>r. isLetter r \<or> isNumber r \<or> r = CHR ''-'' \<or> r = CHR ''_'') n"

definition ok_value :: "string \<Rightarrow> bool" where
  "ok_value v \<longleftrightarrow> CHR 0x27 \<notin> set v"

definition quoted :: "string \<Rightarrow> string \<Rightarrow> string" where
  "quoted n v = n @ ''='' @ [CHR 0x27] @ v @ [CHR 0x27]"

fun ok_item :: "('o \<Rightarrow> bool) \<Rightarrow> 'o Item \<Rightarrow> bool" where
  "ok_item ok (Sub e) = (e \<noteq> [] \<and> list_all (ok_item ok) e)"
| "ok_item ok (OperandItem x) = ok x"
| "ok_item ok it = (it \<noteq> LeftBracket \<and> it \<noteq> RightBracket)"

fun item_toks :: "('o \<Rightarrow> string) \<Rightarrow> ('o \<Rightarrow> string) \<Rightarrow> 'o Item \<Rightarrow> token list" where
  "item_toks nm vl (Sub e) = OperatorTok ''('' # concat (map (item_toks nm vl) e) @ [OperatorTok '')'']"
| "item_toks nm vl (OperandItem x) = [OperandName (nm x), OperandValue (vl x)]"
| "item_toks nm vl it = [OperatorTok (item_String (\<lambda>_. []) it)]"

fun core :: "('o \<Rightarrow> string) \<Rightarrow> 'o Item \<Rightarrow> string" where
  "core str (Sub e) = ''('' @ trimSpace (concat (map (t_piece str) e)) @ '')''"
| "core str it = item_String str it"

lemma t_piece_core: "t_piece str it = core str it @ (if it = NOT then [] else '' '')"
  by (cases it) auto

abbreviation tkz :: "token list \<Rightarrow> tokenizer" where
  "tkz ts \<equiv> \<lparr>seen = [], tokens = ts\<rparr>"

lemmas tok_steps = t_start_def t_operandName_def t_operatorAnd_def t_operatorOr_def t_operandValue_def
  t_quotedValue_def appendOperator_def appendOperandName_def appendOperandValue_def writeRune_def

lemma isLetter_other:
  assumes "isLetter r"
  shows "\<not> isSpace r" "r \<noteq> CHR ''(''" "r \<noteq> CHR '')''" "r \<noteq> CHR ''!''" "r \<noteq> CHR ''&''" "r \<noteq> CHR ''|''"
  using assms by (auto simp: isLetter_def isSpace_def)

lemma name_rune_not_eq:
  "isLetter r \<or> isNumber r \<or> r = CHR ''-'' \<or> r = CHR ''_'' \<Longrightarrow> r \<noteq> CHR ''=''"
  by (auto simp: isLetter_def isNumber_def)

lemma run_name:
  "list_all (\<lambda>r. isLetter r \<or> isNumber r \<or> r = CHR ''-'' \<or> r = CHR ''_'') n \<Longrightarrow>
   runStateMachine \<lparr>seen = s, tokens = ts\<rparr> operandName (n @ CHR ''='' # rest) =
   runStateMachine (tkz (ts @ [OperandName (s @ n)])) operandValue rest"
proof (induction n arbitrary: s)
  case (Cons r n)
  then show ?case using name_rune_not_eq [of r] by (auto simp: tok_steps)
qed (simp add: tok_steps)

lemma run_quoted:
  "ok_value v \<Longrightarrow>
   runStateMachine \<lparr>seen = s, tokens = ts\<rparr> quotedValue (v @ CHR 0x27 # rest) =
   runStateMachine (tkz (ts @ [OperandValue (s @ v)])) start rest"
  by (induction v arbitrary: s) (auto simp: tok_steps ok_value_def)

lemma run_operand:
  assumes "ok_name n" "ok_value v"
  shows "runStateMachine (tkz ts) start (quoted n v @ rest) =
    runStateMachine (tkz (ts @ [OperandName n, OperandValue v])) start rest"
proof -
  obtain r n' where n: "n = r # n'" using assms(1) by (cases n) (auto simp: ok_name_def)
  then have r: "isLetter r" using assms(1) by (simp add: ok_name_def)
  have "runStateMachine (tkz ts) start (quoted n v @ rest) =
      runStateMachine \<lparr>seen = [r], tokens = ts\<rparr> operandName (n' @ CHR ''='' # CHR 0x27 # v @ CHR 0x27 # rest)"
    using isLetter_other [OF r] r n by (simp add: quoted_def tok_steps)
  also have "\<dots> = runStateMachine (tkz (ts @ [OperandName n])) operandValue (CHR 0x27 # v @ CHR 0x27 # rest)"
    using run_name [of n' "[r]" ts "CHR 0x27 # v @ CHR 0x27 # rest"] assms(1) n by (simp add: ok_name_def)
  also have "\<dots> = runStateMachine (tkz (ts @ [OperandName n])) quotedValue (v @ CHR 0x27 # rest)"
    by (simp add: t_operandValue_def)
  also have "\<dots> = runStateMachine (tkz (ts @ [OperandName n, OperandValue v])) start rest"
    using run_quoted [OF assms(2), of "[]"] by simp
  finally show ?thesis .
qed

subsection \<open>Trimming\<close>

definition solid :: "string \<Rightarrow> bool" where
  "solid s \<longleftrightarrow> s \<noteq> [] \<and> \<not> isSpace (hd s) \<and> \<not> isSpace (last s)"

lemma trimSpace_pieces:
  assumes "es \<noteq> []" "\<forall>it\<in>set es. solid (core str it)"
  shows "trimSpace (concat (map (t_piece str) es)) = concat (map (t_piece str) (butlast es)) @ core str (last es)"
proof -
  let ?s = "concat (map (t_piece str) (butlast es)) @ core str (last es)"
  have split: "es = butlast es @ [last es]" using assms(1) by simp
  have "concat (map (t_piece str) es) = ?s @ (if last es = NOT then [] else '' '')"
    by (subst split) (simp only: map_append concat_append list.map concat.simps t_piece_core append_Nil2 append_assoc)
  moreover have "solid (core str (last es))" using assms by simp
  moreover have "\<not> isSpace (hd ?s)"
  proof (cases "butlast es")
    case (Cons it es')
    then have "it \<in> set es" using in_set_butlastD [of it es] by simp
    then show ?thesis using Cons assms(2) by (auto simp: t_piece_core solid_def)
  qed (use assms in \<open>auto simp: solid_def\<close>)
  ultimately show ?thesis
    using trimSpace_block [of ?s "if last es = NOT then [] else '' ''"] by (simp add: solid_def)
qed

subsection \<open>Running the machine over a printed item\<close>

definition printable :: "('o \<Rightarrow> string) \<Rightarrow> ('o \<Rightarrow> string) \<Rightarrow> 'o \<Rightarrow> bool" where
  "printable nm vl x \<longleftrightarrow> ok_name (nm x) \<and> ok_value (vl x)"

lemma core_solid: "ok_item (printable nm vl) it \<Longrightarrow> solid (core (\<lambda>x. quoted (nm x) (vl x)) it)"
  by (cases it) (auto simp: solid_def printable_def ok_name_def quoted_def isLetter_other hd_append)

lemma run_spaces [simp]: "runStateMachine t start (CHR '' '' # rest) = runStateMachine t start rest"
  by (simp add: t_start_def)

lemma run_pieces:
  assumes "\<And>it ts rest. it \<in> set es \<Longrightarrow> runStateMachine (tkz ts) start (core str it @ rest) =
    runStateMachine (tkz (ts @ item_toks nm vl it)) start rest"
  shows "runStateMachine (tkz ts) start (concat (map (t_piece str) es) @ rest) =
    runStateMachine (tkz (ts @ concat (map (item_toks nm vl) es))) start rest"
  using assms
proof (induction es arbitrary: ts)
  case (Cons it es)
  have "runStateMachine (tkz ts) start (t_piece str it @ concat (map (t_piece str) es) @ rest) =
      runStateMachine (tkz (ts @ item_toks nm vl it)) start (concat (map (t_piece str) es) @ rest)"
    using Cons.prems [of it] by (simp add: t_piece_core t_start_def)
  then show ?case using Cons by simp
qed simp

lemma run_trimmed:
  assumes "\<And>it ts rest. it \<in> set es \<Longrightarrow> runStateMachine (tkz ts) start (core str it @ rest) =
    runStateMachine (tkz (ts @ item_toks nm vl it)) start rest"
    and "es \<noteq> []" "\<forall>it\<in>set es. solid (core str it)"
  shows "runStateMachine (tkz ts) start (trimSpace (concat (map (t_piece str) es)) @ rest) =
    runStateMachine (tkz (ts @ concat (map (item_toks nm vl) es))) start rest"
proof -
  have "concat (map (item_toks nm vl) es) =
      concat (map (item_toks nm vl) (butlast es)) @ item_toks nm vl (last es)"
    using assms(2) by (subst (1) append_butlast_last_id [symmetric]) (simp_all del: append_butlast_last_id)
  moreover have "runStateMachine (tkz ts) start (concat (map (t_piece str) (butlast es)) @ core str (last es) @ rest) =
      runStateMachine (tkz (ts @ concat (map (item_toks nm vl) (butlast es)))) start (core str (last es) @ rest)"
    by (rule run_pieces) (rule assms(1), rule in_set_butlastD)
  ultimately show ?thesis using assms by (simp add: trimSpace_pieces)
qed

lemma run_core:
  assumes "ok_item (printable nm vl) it"
  shows "runStateMachine (tkz ts) start (core (\<lambda>x. quoted (nm x) (vl x)) it @ rest) =
    runStateMachine (tkz (ts @ item_toks nm vl it)) start rest"
  using assms
proof (induction it arbitrary: ts rest)
  case (Sub es)
  have "runStateMachine (tkz (ts @ [OperatorTok ''('']))  start
      (trimSpace (concat (map (t_piece (\<lambda>x. quoted (nm x) (vl x))) es)) @ CHR '')'' # rest) =
    runStateMachine (tkz ((ts @ [OperatorTok ''('']) @ concat (map (item_toks nm vl) es))) start (CHR '')'' # rest)"
    using Sub by (intro run_trimmed) (auto simp: list_all_iff core_solid)
  then show ?case by (simp add: t_start_def appendOperator_def)
next
  case (OperandItem x)
  then show ?case by (simp add: run_operand printable_def)
qed (simp_all add: tok_steps)

lemma tok_run_T_String:
  assumes "es \<noteq> []" "list_all (ok_item (printable nm vl)) es"
  shows "tok_run (T_String (\<lambda>x. quoted (nm x) (vl x)) es) = Inr (concat (map (item_toks nm vl) es))"
proof -
  have "runStateMachine (tkz []) start (trimSpace (concat (map (t_piece (\<lambda>x. quoted (nm x) (vl x))) es)) @ []) =
    runStateMachine (tkz ([] @ concat (map (item_toks nm vl) es))) start []"
    using assms by (intro run_trimmed) (auto simp: list_all_iff core_solid run_core)
  then show ?thesis by (simp add: T_String_def tok_run_def)
qed

subsection \<open>Tokens to items\<close>

text \<open>The items of a tree with its brackets written out.\<close>

fun flat :: "'o Item \<Rightarrow> 'o Item list" where
  "flat (Sub e) = LeftBracket # concat (map flat e) @ [RightBracket]"
| "flat it = [it]"

definition registered :: "'o factories \<Rightarrow> ('o \<Rightarrow> string) \<Rightarrow> ('o \<Rightarrow> string) \<Rightarrow> 'o \<Rightarrow> bool" where
  "registered ops nm vl x \<longleftrightarrow> (case ops (nm x) of Some f \<Rightarrow> f (nm x) (vl x) = x | None \<Rightarrow> False)"

lemma merge_concat:
  assumes "\<And>it rest. it \<in> set es \<Longrightarrow> mergeOperandsAndValues ops (item_toks nm vl it @ rest) =
    rbind (mergeOperandsAndValues ops rest) (\<lambda>merged. Inr (flat it @ merged))"
  shows "mergeOperandsAndValues ops (concat (map (item_toks nm vl) es) @ rest) =
    rbind (mergeOperandsAndValues ops rest) (\<lambda>merged. Inr (concat (map flat es) @ merged))"
  using assms
proof (induction es)
  case Nil
  then show ?case by (cases "mergeOperandsAndValues ops rest") auto
next
  case (Cons it es)
  then show ?case by (cases "mergeOperandsAndValues ops rest") auto
qed

lemma merge_item:
  assumes "ok_item (registered ops nm vl) it"
  shows "mergeOperandsAndValues ops (item_toks nm vl it @ rest) =
    rbind (mergeOperandsAndValues ops rest) (\<lambda>merged. Inr (flat it @ merged))"
  using assms
proof (induction it arbitrary: rest)
  case (Sub es)
  have "mergeOperandsAndValues ops (concat (map (item_toks nm vl) es) @ OperatorTok '')'' # rest) =
    rbind (mergeOperandsAndValues ops (OperatorTok '')'' # rest)) (\<lambda>merged. Inr (concat (map flat es) @ merged))"
    using Sub by (intro merge_concat) (auto simp: list_all_iff)
  then show ?case by (cases "mergeOperandsAndValues ops rest") auto
next
  case (OperandItem x)
  then show ?case
    by (auto simp: registered_def operandExists_def operandFor_def split: option.splits)
qed simp_all

lemma merge_items:
  assumes "list_all (ok_item (registered ops nm vl)) es"
  shows "mergeOperandsAndValues ops (concat (map (item_toks nm vl) es)) = Inr (concat (map flat es))"
  using merge_concat [of es ops nm vl "[]"] assms merge_item by (fastforce simp: list_all_iff)

subsection \<open>Groups with one connective\<close>

fun ops_atom :: "'o atom \<Rightarrow> 'o list" and ops_trm :: "'o trm \<Rightarrow> 'o list" where
  "ops_atom (Atom x) = [x]"
| "ops_atom (Group c ts) = concat (map ops_trm ts)"
| "ops_trm (Tm neg a) = ops_atom a"

lemma flat_conn [simp]: "flat (conn c) = [conn c]"
  by (simp add: conn_def)

lemma concat_map_join:
  assumes "f s = [s]"
  shows "concat (map f (join s xss)) = join s (map (\<lambda>xs. concat (map f xs)) xss)"
proof (cases xss)
  case (Cons xs yss)
  have "concat (map f (concat (map ((#) s) yss))) = concat (map (\<lambda>ys. s # concat (map f ys)) yss)"
    using assms by (induction yss) auto
  then show ?thesis using Cons by (simp add: comp_def)
qed simp

lemma flat_tree:
  fixes a :: "'o atom" and t :: "'o trm"
  shows "flat (tree_atom (\<lambda>x. x) a) = toks_atom a"
    and "concat (map flat (tree_trm (\<lambda>x. x) t)) = toks_trm t"
proof (induction a and t rule: atom.induct trm.induct)
  case (Group c ts)
  then show ?case by (simp add: concat_map_join [of flat, OF flat_conn] comp_def cong: map_cong)
qed auto

lemma list_all_join: "list_all P (join s xss) \<longleftrightarrow> list_all (list_all P) xss \<and> (length xss \<le> 1 \<or> P s)"
  by (cases xss) (auto simp: list_all_iff)

lemma ok_item_conn [simp]: "ok_item ok (conn c)"
  by (simp add: conn_def)

lemma ok_tree:
  shows "wf_atom a \<Longrightarrow> list_all ok (ops_atom a) \<Longrightarrow> ok_item ok (tree_atom (\<lambda>x. x) a)"
    and "wf_trm t \<Longrightarrow> list_all ok (ops_trm t) \<Longrightarrow> list_all (ok_item ok) (tree_trm (\<lambda>x. x) t)"
proof (induction a and t rule: atom.induct trm.induct)
  case (Group c ts)
  have "join (conn c) (map (tree_trm (\<lambda>x. x)) ts) \<noteq> []"
    using join_tree_end [of ts c "\<lambda>x. x"] Group.prems by simp
  moreover have "list_all (list_all (ok_item ok)) (map (tree_trm (\<lambda>x. x)) ts)"
    using Group by (auto simp: list_all_iff)
  ultimately show ?case by (simp add: list_all_join)
qed auto

section \<open>Properties\<close>

text \<open>
  C17: for an expression in which every group of terms uses one connective, \<^verbatim>\<open>New\<close> accepts its items
  and \<^verbatim>\<open>Eval\<close> of the result, whose evaluator is a stack machine with short circuit evaluation,
  returns the value the expression denotes, without a panic.
\<close>

theorem expression_evaluates:
  assumes "wf_atom (Group c ts)" "\<forall>x. prepare x = Inr (p x)"
  shows "\<exists>tree. be_New prepare (join (conn c) (map toks_trm ts)) = Inr tree \<and>
    be_Eval ev tree = Inr (sem_atom (\<lambda>x. ev (p x)) (Group c ts))"
  using be_New_group [of prepare p c ts] be_Eval_group [of c ts ev p] assms by blast

theorem expression_evaluates_witness:
  "\<exists>tree. be_New Inr [OperandItem (1::nat), OR, NOT, LeftBracket, OperandItem 2, AND, OperandItem 3, RightBracket] =
      Inr tree \<and> be_Eval even tree = Inr True"
  using expression_evaluates [of False "[Tm False (Atom (1::nat)), Tm True (Group True [Tm False (Atom 2), Tm False (Atom 3)])]"
      Inr "\<lambda>x. x" even]
  by (simp add: conn_def One_nat_def [symmetric] del: One_nat_def)

text \<open>
  the evaluator applies the first connective of a group to all of its terms: \<^verbatim>\<open>a && b || c\<close>
  evaluates as \<^verbatim>\<open>a && b && c\<close> and \<^verbatim>\<open>a || b && c\<close> as \<^verbatim>\<open>a || b || c\<close>, whatever the precedence of the
  connectives. Operands without a connective between them are accepted by \<^verbatim>\<open>New\<close>, and \<^verbatim>\<open>Eval\<close> panics.
\<close>

theorem expression_mixed_connectives:
  "(\<exists>tree. be_New Inr [OperandItem a, AND, OperandItem b, OR, OperandItem c] = Inr tree \<and>
      be_Eval ev tree = Inr (ev a \<and> ev b \<and> ev c)) \<and>
   (\<exists>tree. be_New Inr [OperandItem a, OR, OperandItem b, AND, OperandItem c] = Inr tree \<and>
      be_Eval ev tree = Inr (ev a \<or> ev b \<or> ev c)) \<and>
   (\<exists>tree. be_New Inr [OperandItem a, OperandItem b, OperandItem c] = Inr tree \<and>
      be_Eval ev tree = Inl (Panic ''invalid expression''))"
  by (auto simp: be_New_def newOperand_def newBinaryOp_def isOperand_def be_Eval_def
      pushVal_def pushOp_def ev_eval_def negate_single_def)



end
