(* ===== verification/Multi_Errors.thy ===== *)
theory Multi_Errors
  imports Prelude
begin

text \<open>
  Collections of errors, \<^verbatim>\<open>errors/multi.go\<close>. An error is a value of some other type, of which the package
  only asks \<^verbatim>\<open>errors.Is\<close>, the parameter \<open>is_err\<close>, or a pointer to an \<^verbatim>\<open>M\<close>, a list of errors with the number
  of errors it stands for. Such a pointer may be \<^verbatim>\<open>nil\<close>, which is not the same as the error \<^verbatim>\<open>nil\<close>: the
  latter is \<open>None\<close>, the former \<open>Some (MErr None)\<close>. Targets are errors that are not an \<^verbatim>\<open>M\<close>. The mutex of
  an \<^verbatim>\<open>M\<close> serialises its operations, and the collections that are members of another are not changed
  while it is in use, so that errors form a tree.
\<close>

section \<open>Model\<close>

datatype 'e error = Plain 'e | MErr "'e M option"
and 'e M = M (m_errs: "'e error list") (m_numSquashed: int)

definition m_Append :: "'e M \<Rightarrow> 'e error option list \<Rightarrow> 'e M" where
  "m_Append m errs = M (m_errs m @ List.map_filter id errs) (m_numSquashed m)"

definition m_Err :: "'e M \<Rightarrow> 'e error option" where
  "m_Err m = (if length (m_errs m) = 0 then None else Some (MErr (Some m)))"

definition NewM :: "'e error option list \<Rightarrow> 'e error option" where
  "NewM errs = m_Err (m_Append (M [] 0) errs)"

definition m_Unwrap :: "'e M \<Rightarrow> 'e error list" where
  "m_Unwrap m = m_errs m"

definition multi_Clone :: "'e M \<Rightarrow> 'e M" where
  "multi_Clone m = M (m_errs m) 0"

text \<open>
  \<^verbatim>\<open>errors.Is\<close> asks an \<^verbatim>\<open>M\<close> for its method \<^verbatim>\<open>Is\<close> and, if that returns false, the errors that \<^verbatim>\<open>Unwrap\<close>
  returns. Calling \<^verbatim>\<open>Is\<close> on a \<^verbatim>\<open>nil\<close> pointer panics.
\<close>

fun errors_Is :: "('e \<Rightarrow> 'e \<Rightarrow> bool) \<Rightarrow> 'e error \<Rightarrow> 'e \<Rightarrow> bool res"
  and m_Is :: "('e \<Rightarrow> 'e \<Rightarrow> bool) \<Rightarrow> 'e M \<Rightarrow> 'e \<Rightarrow> bool res"
  and any_Is :: "('e \<Rightarrow> 'e \<Rightarrow> bool) \<Rightarrow> 'e error list \<Rightarrow> 'e \<Rightarrow> bool res" where
  "errors_Is is_err (Plain e) target = Inr (is_err e target)"
| "errors_Is is_err (MErr None) target = Inl NilDereference"
| "errors_Is is_err (MErr (Some (M errs n))) target = rbind (m_Is is_err (M errs n) target) (\<lambda>b.
     if b then Inr True else any_Is is_err errs target)"
| "m_Is is_err (M errs n) target = any_Is is_err errs target"
| "any_Is is_err [] target = Inr False"
| "any_Is is_err (e # es) target = rbind (errors_Is is_err e target) (\<lambda>b.
     if b then Inr True else any_Is is_err es target)"

text \<open>
  \<^verbatim>\<open>squashed\<close> points to the entry that was appended when the first error that is the target was found;
  the number of the errors it stands for is incremented for each of the others.
\<close>

fun count_squashed :: "'e error list \<Rightarrow> 'e error list" where
  "count_squashed (MErr (Some (M es n)) # xs) = MErr (Some (M es (n + 1))) # xs"
| "count_squashed xs = xs"

fun squash_loop :: "('e \<Rightarrow> 'e \<Rightarrow> bool) \<Rightarrow> 'e \<Rightarrow> 'e error list \<Rightarrow> nat option \<Rightarrow> 'e error list \<Rightarrow> 'e error list" where
  "squash_loop is_err target [] squashed serr = serr"
| "squash_loop is_err target (child # errs) squashed serr =
     (case child of
        MErr _ \<Rightarrow> squash_loop is_err target errs squashed (serr @ [child])
      | Plain e \<Rightarrow>
          if is_err e target
          then (case squashed of
                  None \<Rightarrow> squash_loop is_err target errs (Some (length serr)) (serr @ [MErr (Some (M [child] 1))])
                | Some i \<Rightarrow> squash_loop is_err target errs squashed (take i serr @ count_squashed (drop i serr)))
          else squash_loop is_err target errs squashed (serr @ [child]))"

definition squashLevel :: "('e \<Rightarrow> 'e \<Rightarrow> bool) \<Rightarrow> 'e M \<Rightarrow> 'e \<Rightarrow> 'e M" where
  "squashLevel is_err m target = M (squash_loop is_err target (m_errs m) None []) 0"

fun squash :: "('e \<Rightarrow> 'e \<Rightarrow> bool) \<Rightarrow> 'e \<Rightarrow> 'e M option \<Rightarrow> 'e M option res"
  and squash_children :: "('e \<Rightarrow> 'e \<Rightarrow> bool) \<Rightarrow> 'e \<Rightarrow> 'e error list \<Rightarrow> 'e error list res" where
  "squash is_err target None = Inl NilDereference"
| "squash is_err target (Some (M errs n)) =
     (case errs of [] \<Rightarrow> Inr None | [e] \<Rightarrow> Inr (Some (M errs n))
      | _ \<Rightarrow> rbind (squash_children is_err target errs) (\<lambda>cs. Inr (Some (squashLevel is_err (M cs 0) target))))"
| "squash_children is_err target [] = Inr []"
| "squash_children is_err target (child # errs) =
     rbind (case child of Plain e \<Rightarrow> Inr child
            | MErr m \<Rightarrow> rbind (squash is_err target m) (\<lambda>s. Inr (MErr s))) (\<lambda>c.
     rbind (squash_children is_err target errs) (\<lambda>cs. Inr (c # cs)))"

fun squash_targets :: "('e \<Rightarrow> 'e \<Rightarrow> bool) \<Rightarrow> 'e list \<Rightarrow> 'e M option \<Rightarrow> 'e M option res" where
  "squash_targets is_err [] s = Inr s"
| "squash_targets is_err (t # ts) s = rbind (squash is_err t s) (squash_targets is_err ts)"

definition m_Squash :: "('e \<Rightarrow> 'e \<Rightarrow> bool) \<Rightarrow> 'e M \<Rightarrow> 'e list \<Rightarrow> 'e error option res" where
  "m_Squash is_err m targets = rbind (squash_targets is_err targets (Some (multi_Clone m))) (\<lambda>s. Inr (Some (MErr s)))"

definition Squash :: "('e \<Rightarrow> 'e \<Rightarrow> bool) \<Rightarrow> 'e error option \<Rightarrow> 'e list \<Rightarrow> 'e error option res" where
  "Squash is_err err targets = (case err of None \<Rightarrow> Inr None
     | Some (MErr (Some m)) \<Rightarrow> m_Squash is_err m targets
     | Some (MErr None) \<Rightarrow> Inl NilDereference
     | Some (Plain e) \<Rightarrow> Inr err)"

section \<open>Specification\<close>

text \<open>
  The number of errors with a property that an error stands for; an \<^verbatim>\<open>M\<close> made by \<^verbatim>\<open>squashLevel\<close> stands for as
  many as it counts.
\<close>

fun occ :: "('e \<Rightarrow> bool) \<Rightarrow> 'e error \<Rightarrow> int" and occs :: "('e \<Rightarrow> bool) \<Rightarrow> 'e error list \<Rightarrow> int" where
  "occ P (Plain e) = (if P e then 1 else 0)"
| "occ P (MErr None) = 0"
| "occ P (MErr (Some (M es n))) = (case es of [Plain e] \<Rightarrow> (if P e then max 1 n else 0) | _ \<Rightarrow> occs P es)"
| "occs P [] = 0"
| "occs P (e # es) = occ P e + occs P es"

text \<open>No pointer in the tree is nil and no collection is empty.\<close>

fun err_ok :: "'e error \<Rightarrow> bool" and errs_ok :: "'e error list \<Rightarrow> bool" where
  "err_ok (Plain e) = True"
| "err_ok (MErr None) = False"
| "err_ok (MErr (Some (M es n))) = (es \<noteq> [] \<and> errs_ok es)"
| "errs_ok [] = True"
| "errs_ok (e # es) = (err_ok e \<and> errs_ok es)"

text \<open>A collection with one member has no larger collection below it.\<close>

fun lone :: "'e error list \<Rightarrow> bool" where
  "lone [MErr (Some (M [Plain e] n))] = True"
| "lone [MErr m] = False"
| "lone es = True"

fun err_flat :: "'e error \<Rightarrow> bool" and errs_flat :: "'e error list \<Rightarrow> bool" where
  "err_flat (Plain e) = True"
| "err_flat (MErr None) = True"
| "err_flat (MErr (Some (M es n))) = (lone es \<and> errs_flat es)"
| "errs_flat [] = True"
| "errs_flat (e # es) = (err_flat e \<and> errs_flat es)"

text \<open>Every collection in the tree has at most one member that is the target.\<close>

fun hits :: "('e \<Rightarrow> bool) \<Rightarrow> 'e error list \<Rightarrow> nat" where
  "hits T [] = 0"
| "hits T (Plain e # es) = (if T e then 1 else 0) + hits T es"
| "hits T (MErr m # es) = hits T es"

fun err_once :: "('e \<Rightarrow> bool) \<Rightarrow> 'e error \<Rightarrow> bool" and errs_once :: "('e \<Rightarrow> bool) \<Rightarrow> 'e error list \<Rightarrow> bool" where
  "err_once T (Plain e) = True"
| "err_once T (MErr None) = True"
| "err_once T (MErr (Some (M es n))) = (hits T es \<le> 1 \<and> errs_once T es)"
| "errs_once T [] = True"
| "errs_once T (e # es) = (err_once T e \<and> errs_once T es)"

section \<open>Squashing a level\<close>

lemma occs_append [simp]: "occs P (xs @ ys) = occs P xs + occs P ys" by (induction xs) auto
lemma errs_ok_append [simp]: "errs_ok (xs @ ys) = (errs_ok xs \<and> errs_ok ys)" by (induction xs) auto
lemma errs_flat_append [simp]: "errs_flat (xs @ ys) = (errs_flat xs \<and> errs_flat ys)" by (induction xs) auto
lemma errs_once_append [simp]: "errs_once T (xs @ ys) = (errs_once T xs \<and> errs_once T ys)" by (induction xs) auto
lemma hits_append [simp]: "hits T (xs @ ys) = hits T xs + hits T ys" by (induction T xs rule: hits.induct) auto

text \<open>The list that \<^verbatim>\<open>squashLevel\<close> builds.\<close>

fun is_target :: "('e \<Rightarrow> 'e \<Rightarrow> bool) \<Rightarrow> 'e \<Rightarrow> 'e error \<Rightarrow> bool" where
  "is_target is_err t (Plain e) = is_err e t"
| "is_target is_err t (MErr m) = False"

abbreviation others :: "('e \<Rightarrow> 'e \<Rightarrow> bool) \<Rightarrow> 'e \<Rightarrow> 'e error list \<Rightarrow> 'e error list" where
  "others is_err t xs \<equiv> filter (\<lambda>x. \<not> is_target is_err t x) xs"

definition targets_in :: "('e \<Rightarrow> 'e \<Rightarrow> bool) \<Rightarrow> 'e \<Rightarrow> 'e error list \<Rightarrow> int" where
  "targets_in is_err t xs = int (length (filter (is_target is_err t) xs))"

fun merged :: "('e \<Rightarrow> 'e \<Rightarrow> bool) \<Rightarrow> 'e \<Rightarrow> 'e error list \<Rightarrow> 'e error list" where
  "merged is_err t [] = []"
| "merged is_err t (x # xs) =
     (if is_target is_err t x then MErr (Some (M [x] (1 + targets_in is_err t xs))) # others is_err t xs
      else x # merged is_err t xs)"

lemma squash_loop_found:
  "squash_loop is_err t errs (Some (length us)) (us @ MErr (Some (M [x] k)) # vs) =
     us @ MErr (Some (M [x] (k + targets_in is_err t errs))) # vs @ others is_err t errs"
proof (induction errs arbitrary: k vs)
  case (Cons y errs)
  then show ?case by (cases y) (auto simp: targets_in_def algebra_simps)
qed (simp add: targets_in_def)

lemma squash_loop_merged: "squash_loop is_err t errs None serr = serr @ merged is_err t errs"
proof (induction errs arbitrary: serr)
  case (Cons y errs)
  then show ?case using squash_loop_found [of is_err t errs serr _ 1 "[]"] by (cases y) auto
qed simp

lemma squashLevel_merged: "squashLevel is_err (M errs n) t = M (merged is_err t errs) 0"
  by (simp add: squashLevel_def squash_loop_merged)

text \<open>\<open>P\<close> does not distinguish the errors that are the target.\<close>

definition uniform :: "('e \<Rightarrow> 'e \<Rightarrow> bool) \<Rightarrow> 'e \<Rightarrow> ('e \<Rightarrow> bool) \<Rightarrow> bool" where
  "uniform is_err t P \<longleftrightarrow> (\<forall>e. is_err e t \<longrightarrow> P e) \<or> (\<forall>e. is_err e t \<longrightarrow> \<not> P e)"

lemma is_targetE: "is_target is_err t x \<Longrightarrow> (\<And>e. x = Plain e \<Longrightarrow> is_err e t \<Longrightarrow> R) \<Longrightarrow> R"
  by (cases x) auto

lemma occs_others:
  "uniform is_err t P \<Longrightarrow>
     occs P xs = occs P (others is_err t xs) + (if \<forall>e. is_err e t \<longrightarrow> P e then targets_in is_err t xs else 0)"
proof (induction xs)
  case (Cons x xs)
  then show ?case by (cases x) (auto simp: targets_in_def uniform_def)
qed (simp add: targets_in_def)

lemma occs_merged:
  assumes u: "uniform is_err t P"
  shows "occs P (merged is_err t xs) = occs P xs"
proof (induction xs)
  case (Cons x xs)
  then show ?case using occs_others [OF u, of xs] u
    by (cases x) (auto simp: uniform_def targets_in_def)
qed simp

lemma merged_hits: "hits T (others is_err t xs) \<le> hits T xs" "hits T (merged is_err t xs) \<le> hits T xs"
  "hits (\<lambda>e. is_err e t) (others is_err t xs) = 0" "hits (\<lambda>e. is_err e t) (merged is_err t xs) = 0"
proof -
  show o: "hits T (others is_err t xs) \<le> hits T xs" for T and xs :: "'a error list"
    by (induction T xs rule: hits.induct) auto
  show n: "hits (\<lambda>e. is_err e t) (others is_err t xs) = 0" for xs
    by (induction "\<lambda>e. is_err e t" xs rule: hits.induct) auto
  show "hits T (merged is_err t xs) \<le> hits T xs"
  proof (induction xs)
    case (Cons x xs)
    then show ?case using o [of T xs] by (cases x) auto
  qed simp
  show "hits (\<lambda>e. is_err e t) (merged is_err t xs) = 0"
  proof (induction xs)
    case (Cons x xs)
    then show ?case using n [of xs] by (cases x) auto
  qed simp
qed

lemma merged_members:
  assumes "\<And>m. MErr m \<in> set xs \<Longrightarrow> R (MErr m)" "\<And>e. R (Plain e)" "\<And>e n. R (MErr (Some (M [Plain e] n)))"
  shows "\<forall>x\<in>set (merged is_err t xs). R x"
  using assms(1)
proof (induction xs)
  case (Cons x xs)
  have "\<forall>y\<in>set (others is_err t xs). R y" using Cons.prems assms(2) by (auto) (metis error.exhaust)
  then show ?case using Cons assms(2,3) by (cases x) auto
qed simp

lemma errs_ok_iff: "errs_ok xs \<longleftrightarrow> (\<forall>x\<in>set xs. err_ok x)" by (induction xs) auto
lemma errs_flat_iff: "errs_flat xs \<longleftrightarrow> (\<forall>x\<in>set xs. err_flat x)" by (induction xs) auto
lemma errs_once_iff: "errs_once T xs \<longleftrightarrow> (\<forall>x\<in>set xs. err_once T x)" by (induction xs) auto

lemma merged_keeps:
  "errs_ok xs \<Longrightarrow> errs_ok (merged is_err t xs)"
  "errs_flat xs \<Longrightarrow> errs_flat (merged is_err t xs)"
  "errs_once T xs \<Longrightarrow> errs_once T (merged is_err t xs)"
  unfolding errs_ok_iff errs_flat_iff errs_once_iff by (rule merged_members; auto)+

lemma merged_Nil [simp]: "merged is_err t xs = [] \<longleftrightarrow> xs = []"
  by (cases xs) auto

lemma lone_Cons_Cons [simp]: "lone (x # y # zs)"
  by (cases x) auto

lemma merged_lone: "2 \<le> length xs \<Longrightarrow> lone (merged is_err t xs)"
proof -
  assume "2 \<le> length xs"
  then obtain x y zs where xs: "xs = x # y # zs" by (metis Suc_le_length_iff numeral_2_eq_2)
  show ?thesis
  proof (cases "is_target is_err t x")
    case True
    then obtain e where "x = Plain e" by (rule is_targetE)
    then show ?thesis using True by (cases "others is_err t (y # zs)") (auto simp: xs)
  next
    case False
    moreover have "merged is_err t (y # zs) \<noteq> []" unfolding merged_Nil by simp
    then obtain c cs where "merged is_err t (y # zs) = c # cs" by (metis neq_Nil_conv)
    ultimately show ?thesis unfolding xs by (subst merged.simps) simp
  qed
qed

section \<open>Squashing the tree\<close>

lemma occ_group: "n \<le> 1 \<Longrightarrow> occ P (MErr (Some (M es n))) = occs P es"
  by (auto split: list.splits error.splits)

lemma occ_group2: "2 \<le> length es \<Longrightarrow> occ P (MErr (Some (M es n))) = occs P es"
  by (cases es) (auto split: list.splits error.splits)

text \<open>What squashing a target makes of an error, and of the members of a collection.\<close>

definition squashes :: "('e \<Rightarrow> 'e \<Rightarrow> bool) \<Rightarrow> 'e \<Rightarrow> ('e \<Rightarrow> bool) \<Rightarrow> 'e error \<Rightarrow> 'e error \<Rightarrow> bool" where
  "squashes is_err t P x x' \<longleftrightarrow> err_ok x' \<and> err_flat x' \<and> occ P x' = occ P x \<and>
     err_once (\<lambda>e. is_err e t) x' \<and> (\<forall>T. err_once T x \<longrightarrow> err_once T x')"

definition squashes_all :: "('e \<Rightarrow> 'e \<Rightarrow> bool) \<Rightarrow> 'e \<Rightarrow> ('e \<Rightarrow> bool) \<Rightarrow> 'e error list \<Rightarrow> 'e error list \<Rightarrow> bool" where
  "squashes_all is_err t P xs xs' \<longleftrightarrow> length xs' = length xs \<and> errs_ok xs' \<and> errs_flat xs' \<and> occs P xs' = occs P xs \<and>
     errs_once (\<lambda>e. is_err e t) xs' \<and> (\<forall>T. errs_once T xs \<longrightarrow> errs_once T xs') \<and> (\<forall>T. hits T xs' = hits T xs)"

lemma squashes_group:
  assumes u: "uniform is_err t P" and c: "squashes_all is_err t P es cs" and l: "2 \<le> length es"
  shows "squashes is_err t P (MErr (Some (M es n))) (MErr (Some (squashLevel is_err (M cs 0) t)))"
proof -
  have "hits T (merged is_err t cs) \<le> 1" if "hits T es \<le> 1" for T
    using c merged_hits(2) [of T is_err t cs] that by (simp add: squashes_all_def)
  moreover have "2 \<le> length cs" "cs \<noteq> []" using c l by (auto simp: squashes_all_def)
  ultimately show ?thesis
    using c occs_merged [OF u, of cs] merged_keeps [where xs = cs] merged_hits(4) [of is_err t cs] merged_lone [of cs is_err t]
    unfolding squashes_def squashes_all_def squashLevel_merged occ_group2 [OF l] occ_group [OF zero_le_one]
    by simp
qed

lemma lone_once: "lone [e] \<Longrightarrow> hits T [e] \<le> 1 \<and> errs_once T [e]"
  by (cases "[e]" rule: lone.cases) auto

lemma squash_spec:
  "uniform is_err t P \<Longrightarrow> err_ok (MErr s) \<Longrightarrow> err_flat (MErr s) \<Longrightarrow>
     \<exists>m. squash is_err t s = Inr (Some m) \<and> squashes is_err t P (MErr s) (MErr (Some m))"
  "uniform is_err t P \<Longrightarrow> errs_ok es \<Longrightarrow> errs_flat es \<Longrightarrow>
     \<exists>cs. squash_children is_err t es = Inr cs \<and> squashes_all is_err t P es cs"
proof (induction is_err t s and is_err t es rule: squash_squash_children.induct)
  case (2 is_err t errs n)
  consider e where "errs = [e]" | "2 \<le> length errs" using "2.prems" by (cases errs; cases "drop 1 errs") auto
  then show ?case
  proof cases
    case 1
    then show ?thesis using "2.prems" lone_once [of e] by (auto simp: squashes_def)
  next
    case l: 2
    then obtain a b es where e: "errs = a # b # es" by (metis Suc_le_length_iff numeral_2_eq_2)
    obtain cs where "squash_children is_err t errs = Inr cs" "squashes_all is_err t P errs cs"
      using "2.IH" [OF e] "2.prems" e by auto
    then show ?thesis using squashes_group [OF "2.prems"(1) _ l, of cs n] e by simp
  qed
next
  case (4 is_err t child errs)
  show ?case
  proof (cases child)
    case (Plain e)
    then show ?thesis using "4.IH"(2) [of child] "4.prems" by (auto simp: squashes_all_def)
  next
    case (MErr s)
    obtain m where m: "squash is_err t s = Inr (Some m)" "squashes is_err t P (MErr s) (MErr (Some m))"
      using "4.IH"(1) [OF MErr] "4.prems" MErr by auto
    then obtain cs where "squash_children is_err t errs = Inr cs" "squashes_all is_err t P errs cs"
      using "4.IH"(2) [of "MErr (Some m)"] "4.prems" MErr by auto
    then show ?thesis using m MErr by (auto simp: squashes_all_def squashes_def)
  qed
qed (auto simp: squashes_all_def)

lemma squash_targets_spec:
  assumes "\<forall>t\<in>set ts. uniform is_err t P" and "err_ok (MErr (Some m))" and "err_flat (MErr (Some m))"
  shows "\<exists>m'. squash_targets is_err ts (Some m) = Inr (Some m') \<and> err_ok (MErr (Some m')) \<and>
           occ P (MErr (Some m')) = occ P (MErr (Some m)) \<and>
           (\<forall>T. T \<in> (\<lambda>t e. is_err e t) ` set ts \<or> err_once T (MErr (Some m)) \<longrightarrow> err_once T (MErr (Some m')))"
  using assms
proof (induction ts arbitrary: m)
  case (Cons t ts)
  obtain m1 where m1: "squash is_err t (Some m) = Inr (Some m1)" "squashes is_err t P (MErr (Some m)) (MErr (Some m1))"
    using squash_spec(1) [of is_err t P "Some m"] Cons.prems by auto
  then obtain m' where m': "squash_targets is_err ts (Some m1) = Inr (Some m')" "err_ok (MErr (Some m'))"
    "occ P (MErr (Some m')) = occ P (MErr (Some m1))"
    "\<forall>T. T \<in> (\<lambda>t e. is_err e t) ` set ts \<or> err_once T (MErr (Some m1)) \<longrightarrow> err_once T (MErr (Some m'))"
    using Cons.IH [of m1] Cons.prems by (auto simp: squashes_def)
  then show ?case using m1 by (auto simp: squashes_def)
qed simp

section \<open>Properties\<close>



text \<open>
  Squash of an empty collection returns an error that is a nil pointer, and panics if there are two
  targets; a collection below one with a single member is not squashed.
\<close>

lemma squash_edges:
  "Squash is_err (Some (MErr (Some (M [] 0)))) [t] = Inr (Some (MErr None))"
  "Squash is_err (Some (MErr (Some (M [] 0)))) [t, u] = Inl NilDereference"
  "is_err e t \<Longrightarrow> Squash is_err (Some (MErr (Some (M [MErr (Some (M [Plain e, Plain e] 0))] 0)))) [t] =
     Inr (Some (MErr (Some (M [MErr (Some (M [Plain e, Plain e] 0))] 0))))"
  by (simp_all add: Squash_def m_Squash_def multi_Clone_def)

text \<open>Append ignores nil, and a collection is an error exactly if it has a member.\<close>

lemma append_err:
  "m_Unwrap (m_Append m errs) = m_Unwrap m @ map the (filter (\<lambda>e. e \<noteq> None) errs)"
  "NewM errs = None \<longleftrightarrow> (\<forall>e\<in>set errs. e = None)"
proof -
  have f: "List.map_filter id es = map the (filter (\<lambda>e. e \<noteq> None) es)" for es :: "'b option list"
    by (induction es) (auto simp: List.map_filter_simps)
  show "m_Unwrap (m_Append m errs) = m_Unwrap m @ map the (filter (\<lambda>e. e \<noteq> None) errs)"
    by (simp add: m_Unwrap_def m_Append_def f)
  show "NewM errs = None \<longleftrightarrow> (\<forall>e\<in>set errs. e = None)"
    by (auto simp: NewM_def m_Err_def m_Append_def f filter_empty_conv)
qed

text \<open>The errors of a tree without nil pointers are asked in order.\<close>

fun leaves :: "'e error \<Rightarrow> 'e list" and leaves_all :: "'e error list \<Rightarrow> 'e list" where
  "leaves (Plain e) = [e]"
| "leaves (MErr None) = []"
| "leaves (MErr (Some (M es n))) = leaves_all es"
| "leaves_all [] = []"
| "leaves_all (e # es) = leaves e @ leaves_all es"

lemma errors_Is_leaves:
  "err_ok x \<Longrightarrow> errors_Is is_err x t = Inr (list_ex (\<lambda>e. is_err e t) (leaves x))"
  "errs_ok (m_errs m) \<Longrightarrow> m_Is is_err m t = Inr (list_ex (\<lambda>e. is_err e t) (leaves_all (m_errs m)))"
  "errs_ok es \<Longrightarrow> any_Is is_err es t = Inr (list_ex (\<lambda>e. is_err e t) (leaves_all es))"
  by (induction is_err x t and is_err m t and is_err es t rule: errors_Is_m_Is_any_Is.induct) auto

end
