(* ===== verification/Sequencer.thy ===== *)
theory Sequencer
  imports Generic_Heap
begin

text \<open>
  The streaming sequencer of \<^verbatim>\<open>sync/syncsort/heap.go\<close>: items numbered by \<^verbatim>\<open>NextItem\<close> arrive on a channel in
  any order and are scanned in the order of their numbers. The goroutine \<^verbatim>\<open>order\<close> keeps early items in a heap
  (\<^verbatim>\<open>container/heap\<close>, whose operations are those of \<open>Generic_Heap\<close>). It, the scanner, the producers of items
  and the context are threads whose steps interleave; a step is what a thread does between two
  operations on channels. The numbers are \<open>nat\<close>: fewer than 18446744073709551616 items are issued.
\<close>

section \<open>Model\<close>

record 'a SeqItem =
  it_V :: 'a
  it_s :: nat

record 'a nextItem =
  ni_v :: 'a
  ni_err :: bool

text \<open>The program counter of \<^verbatim>\<open>order\<close>; the flag is the variable \<^verbatim>\<open>ok\<close> of the receive.\<close>

datatype 'a order_pc = Selecting | Draining bool | Sending 'a bool | Failing | Returned

record 'a Sequencer =
  sq_next :: nat
  sq_inputCh :: "'a SeqItem list"
  sq_inputClosed :: bool
  sq_ctxDone :: bool
  sq_scanCh :: "'a nextItem list"
  sq_scanClosed :: bool
  sq_heap :: "'a SeqItem list"
  sq_expected :: nat
  sq_pc :: "'a order_pc"
  sq_err :: bool
  sq_v :: 'a

definition NewSequencer :: "'a \<Rightarrow> 'a Sequencer" where
  "NewSequencer z = \<lparr>sq_next = 0, sq_inputCh = [], sq_inputClosed = False, sq_ctxDone = False,
     sq_scanCh = [], sq_scanClosed = False, sq_heap = [], sq_expected = 1, sq_pc = Selecting,
     sq_err = False, sq_v = z\<rparr>"

definition NextItem :: "'a Sequencer \<Rightarrow> 'a \<Rightarrow> 'a Sequencer \<times> 'a SeqItem" where
  "NextItem s item = (let n = sq_next s + 1 in (s\<lparr>sq_next := n\<rparr>, \<lparr>it_V = item, it_s = n\<rparr>))"

text \<open>\<^verbatim>\<open>Scan\<close> blocks, which is \<open>None\<close>, while the channel is empty and open.\<close>

definition Scan :: "'a \<Rightarrow> 'a Sequencer \<Rightarrow> ('a Sequencer \<times> bool) option" where
  "Scan z s =
     (if sq_err s then Some (s, False)
      else case sq_scanCh s of
        ni # rest \<Rightarrow> Some (s\<lparr>sq_scanCh := rest, sq_err := ni_err ni, sq_v := ni_v ni\<rparr>, True)
      | [] \<Rightarrow> if sq_scanClosed s then Some (s, False) else None)"

definition sq_Item :: "'a Sequencer \<Rightarrow> 'a" where
  "sq_Item s = sq_v s"

definition item_less :: "'a SeqItem \<Rightarrow> 'a SeqItem \<Rightarrow> bool" where
  "item_less i j \<longleftrightarrow> it_s i < it_s j"

text \<open>\<^verbatim>\<open>scanCh\<close> has room for one item.\<close>

definition send_scan :: "'a Sequencer \<Rightarrow> 'a nextItem \<Rightarrow> 'a Sequencer option" where
  "send_scan s ni = (if length (sq_scanCh s) < 1 then Some (s\<lparr>sq_scanCh := sq_scanCh s @ [ni]\<rparr>) else None)"

definition order_done :: "'a Sequencer \<Rightarrow> 'a Sequencer option" where
  "order_done s = (if sq_ctxDone s \<and> sq_pc s = Selecting then Some (s\<lparr>sq_pc := Failing\<rparr>) else None)"

definition order_recv :: "'a Sequencer \<Rightarrow> 'a Sequencer res option" where
  "order_recv s = (case sq_inputCh s of
       item # rest \<Rightarrow> Some (rbind (g_Push item_less (sq_heap s) item) (\<lambda>h.
         Inr (s\<lparr>sq_inputCh := rest, sq_heap := h, sq_pc := Draining True\<rparr>)))
     | [] \<Rightarrow> if sq_inputClosed s then Some (Inr (s\<lparr>sq_pc := Draining False\<rparr>)) else None)"

definition order_drain :: "'a \<Rightarrow> 'a Sequencer \<Rightarrow> bool \<Rightarrow> 'a Sequencer res" where
  "order_drain z s ok =
     (if length (sq_heap s) > 0 \<and> it_s (sq_heap s ! 0) = sq_expected s
      then rbind (g_Remove item_less \<lparr>it_V = z, it_s = 0\<rparr> (sq_heap s) 0) (\<lambda>(item, h).
             Inr (s\<lparr>sq_heap := h, sq_expected := sq_expected s + 1, sq_pc := Sending (it_V item) ok\<rparr>))
      else if \<not> ok \<and> length (sq_heap s) = 0 then Inr (s\<lparr>sq_scanClosed := True, sq_pc := Returned\<rparr>)
      else Inr (s\<lparr>sq_pc := Selecting\<rparr>))"

text \<open>One step of the goroutine, other than the choice of \<^verbatim>\<open>ctx.Done\<close>; \<open>None\<close> if it is blocked or has returned.\<close>

definition order_step :: "'a \<Rightarrow> 'a Sequencer \<Rightarrow> 'a Sequencer res option" where
  "order_step z s = (case sq_pc s of
       Selecting \<Rightarrow> order_recv s
     | Draining ok \<Rightarrow> Some (order_drain z s ok)
     | Sending v ok \<Rightarrow> map_option (\<lambda>s'. Inr (s'\<lparr>sq_pc := Draining ok\<rparr>)) (send_scan s \<lparr>ni_v = v, ni_err = False\<rparr>)
     | Failing \<Rightarrow> map_option (\<lambda>s'. Inr (s'\<lparr>sq_pc := Returned\<rparr>)) (send_scan s \<lparr>ni_v = z, ni_err = True\<rparr>)
     | Returned \<Rightarrow> None)"

section \<open>Runs\<close>

text \<open>
  A sequencer in use: the values in the order in which their items were issued, the items that have
  been issued and not been sent, and the values that have been scanned. A producer sends an item at
  most once, to an open channel.
\<close>

record 'a use =
  u_seq :: "'a Sequencer"
  u_issued :: "'a list"
  u_unsent :: "'a SeqItem list"
  u_scanned :: "'a list"

definition use_init :: "'a \<Rightarrow> 'a use" where
  "use_init z = \<lparr>u_seq = NewSequencer z, u_issued = [], u_unsent = [], u_scanned = []\<rparr>"

definition scan_use :: "'a \<Rightarrow> 'a use \<Rightarrow> 'a use option" where
  "scan_use z u = (case Scan z (u_seq u) of None \<Rightarrow> None
     | Some (s, b) \<Rightarrow> Some (u\<lparr>u_seq := s,
          u_scanned := (if b \<and> \<not> sq_err s then u_scanned u @ [sq_Item s] else u_scanned u)\<rparr>))"

inductive use_step :: "'a \<Rightarrow> 'a use \<Rightarrow> 'a use \<Rightarrow> bool" for z where
  issue: "NextItem (u_seq u) v = (s, item) \<Longrightarrow>
     use_step z u (u\<lparr>u_seq := s, u_issued := u_issued u @ [v], u_unsent := u_unsent u @ [item]\<rparr>)"
| send: "\<not> sq_inputClosed (u_seq u) \<Longrightarrow> u_unsent u = us @ item # vs \<Longrightarrow>
     use_step z u (u\<lparr>u_unsent := us @ vs, u_seq := (u_seq u)\<lparr>sq_inputCh := sq_inputCh (u_seq u) @ [item]\<rparr>\<rparr>)"
| close_input: "\<not> sq_inputClosed (u_seq u) \<Longrightarrow>
     use_step z u (u\<lparr>u_seq := (u_seq u)\<lparr>sq_inputClosed := True\<rparr>\<rparr>)"
| cancel: "use_step z u (u\<lparr>u_seq := (u_seq u)\<lparr>sq_ctxDone := True\<rparr>\<rparr>)"
| choose_done: "order_done (u_seq u) = Some s \<Longrightarrow> use_step z u (u\<lparr>u_seq := s\<rparr>)"
| order: "order_step z (u_seq u) = Some (Inr s) \<Longrightarrow> use_step z u (u\<lparr>u_seq := s\<rparr>)"
| scan: "scan_use z u = Some u' \<Longrightarrow> use_step z u u'"

inductive_set uses :: "'a \<Rightarrow> 'a use set" for z where
  init: "use_init z \<in> uses z"
| step: "u \<in> uses z \<Longrightarrow> use_step z u u' \<Longrightarrow> u' \<in> uses z"

section \<open>The invariant\<close>

definition item_at :: "'a list \<Rightarrow> nat \<Rightarrow> 'a SeqItem" where
  "item_at vs n = \<lparr>it_V = vs ! (n - 1), it_s = n\<rparr>"

text \<open>The items with the numbers from \<open>k\<close> on.\<close>

definition items_from :: "'a list \<Rightarrow> nat \<Rightarrow> 'a SeqItem list" where
  "items_from vs k = map (item_at vs) [k..<Suc (length vs)]"

definition sending :: "'a order_pc \<Rightarrow> 'a list" where
  "sending pc = (case pc of Sending v ok \<Rightarrow> [v] | _ \<Rightarrow> [])"

definition closed_pc :: "'a order_pc \<Rightarrow> bool" where
  "closed_pc pc = (case pc of Draining ok \<Rightarrow> \<not> ok | Sending v ok \<Rightarrow> \<not> ok | _ \<Rightarrow> False)"

definition in_flight :: "'a Sequencer \<Rightarrow> 'a list" where
  "in_flight s = map ni_v (filter (\<lambda>ni. \<not> ni_err ni) (sq_scanCh s)) @ sending (sq_pc s)"

definition use_inv :: "'a use \<Rightarrow> bool" where
  "use_inv u \<longleftrightarrow> (let s = u_seq u in
     sq_next s = length (u_issued u) \<and> 1 \<le> sq_expected s \<and> sq_expected s \<le> Suc (length (u_issued u)) \<and>
     mset (u_unsent u) + mset (sq_inputCh s) + mset (sq_heap s) = mset (items_from (u_issued u) (sq_expected s)) \<and>
     u_scanned u @ in_flight s = take (sq_expected s - 1) (u_issued u) \<and>
     is_heap item_less (sq_heap s) \<and>
     (closed_pc (sq_pc s) \<longrightarrow> sq_inputClosed s \<and> sq_inputCh s = []) \<and>
     (sq_scanClosed s \<longrightarrow> sq_pc s = Returned \<and> sq_inputClosed s \<and> sq_inputCh s = [] \<and> sq_heap s = []) \<and>
     ((\<exists>ni\<in>set (sq_scanCh s). ni_err ni) \<or> sq_err s \<longrightarrow> sq_pc s = Returned \<and> sq_ctxDone s) \<and>
     (sq_pc s = Failing \<longrightarrow> sq_ctxDone s) \<and>
     (sq_pc s = Returned \<longrightarrow> sq_scanClosed s \<or> sq_ctxDone s))"

interpretation items: heap_order item_less
  by unfold_locales (auto simp: item_less_def)

lemma items_from_Cons: "k \<le> length vs \<Longrightarrow> items_from vs k = item_at vs k # items_from vs (Suc k)"
  by (simp add: items_from_def upt_conv_Cons del: upt_Suc)

lemma items_from_snoc: "1 \<le> k \<Longrightarrow> k \<le> Suc (length vs) \<Longrightarrow>
    items_from (vs @ [v]) k = items_from vs k @ [\<lparr>it_V = v, it_s = Suc (length vs)\<rparr>]"
  by (auto simp: items_from_def item_at_def nth_append)

lemma items_from_member: "i \<in> set (items_from vs k) \<Longrightarrow> i = item_at vs (it_s i) \<and> k \<le> it_s i \<and> it_s i \<le> length vs"
  by (auto simp: items_from_def item_at_def)

lemma inv_init: "use_inv (use_init z)"
  by (simp add: use_inv_def use_init_def NewSequencer_def items_from_def in_flight_def sending_def closed_pc_def heap_upto_def)

lemma inv_issue:
  assumes inv: "use_inv u" and n: "NextItem (u_seq u) v = (s, item)"
  shows "use_inv (u\<lparr>u_seq := s, u_issued := u_issued u @ [v], u_unsent := u_unsent u @ [item]\<rparr>)"
proof -
  have s: "s = (u_seq u)\<lparr>sq_next := Suc (length (u_issued u))\<rparr>" "item = \<lparr>it_V = v, it_s = Suc (length (u_issued u))\<rparr>"
    using n inv by (auto simp: use_inv_def NextItem_def Let_def)
  have "mset (items_from (u_issued u @ [v]) (sq_expected (u_seq u))) =
          mset (u_unsent u @ [item]) + mset (sq_inputCh (u_seq u)) + mset (sq_heap (u_seq u))"
    using inv by (simp add: use_inv_def Let_def items_from_snoc s(2))
  then show ?thesis using inv unfolding use_inv_def Let_def in_flight_def s(1) by (simp add: take_append)
qed

lemma inv_send:
  assumes "use_inv u" "\<not> sq_inputClosed (u_seq u)" "u_unsent u = us @ item # vs"
  shows "use_inv (u\<lparr>u_unsent := us @ vs, u_seq := (u_seq u)\<lparr>sq_inputCh := sq_inputCh (u_seq u) @ [item]\<rparr>\<rparr>)"
  using assms by (auto simp: use_inv_def Let_def in_flight_def)

lemma inv_close: "use_inv u \<Longrightarrow> use_inv (u\<lparr>u_seq := (u_seq u)\<lparr>sq_inputClosed := True\<rparr>\<rparr>)"
  by (auto simp: use_inv_def Let_def in_flight_def)

lemma inv_cancel: "use_inv u \<Longrightarrow> use_inv (u\<lparr>u_seq := (u_seq u)\<lparr>sq_ctxDone := True\<rparr>\<rparr>)"
  by (auto simp: use_inv_def Let_def in_flight_def)

lemma inv_choose_done: "use_inv u \<Longrightarrow> order_done (u_seq u) = Some s \<Longrightarrow> use_inv (u\<lparr>u_seq := s\<rparr>)"
  by (auto simp: use_inv_def Let_def in_flight_def order_done_def sending_def closed_pc_def split: if_splits)

lemma inv_recv:
  assumes inv: "use_inv u" and pc: "sq_pc (u_seq u) = Selecting" and r: "order_recv (u_seq u) = Some r"
  shows "\<exists>s. r = Inr s \<and> use_inv (u\<lparr>u_seq := s\<rparr>)"
proof (cases "sq_inputCh (u_seq u)")
  case Nil
  then show ?thesis using inv pc r
    by (auto simp: use_inv_def Let_def in_flight_def order_recv_def sending_def closed_pc_def split: if_splits)
next
  case (Cons item rest)
  have heap: "is_heap item_less (sq_heap (u_seq u))" using inv by (simp add: use_inv_def Let_def)
  obtain h where h: "g_Push item_less (sq_heap (u_seq u)) item = Inr h" "is_heap item_less h"
    "mset h = mset (sq_heap (u_seq u)) + {#item#}" using items.Push_ok [OF heap] by blast
  show ?thesis using inv pc r Cons h
    by (auto simp: use_inv_def Let_def in_flight_def order_recv_def sending_def closed_pc_def)
qed

lemma inv_drain:
  assumes inv: "use_inv u" and pc: "sq_pc (u_seq u) = Draining ok"
  shows "\<exists>s. order_drain z (u_seq u) ok = Inr s \<and> use_inv (u\<lparr>u_seq := s\<rparr>)"
proof (cases "sq_heap (u_seq u) \<noteq> [] \<and> it_s (sq_heap (u_seq u) ! 0) = sq_expected (u_seq u)")
  case False
  then show ?thesis using inv pc
    by (cases ok) (auto simp: use_inv_def Let_def in_flight_def order_drain_def sending_def closed_pc_def)
next
  case True
  let ?s = "u_seq u" and ?vs = "u_issued u" and ?h = "sq_heap (u_seq u)" and ?k = "sq_expected (u_seq u)"
  have i: "is_heap item_less ?h" "1 \<le> ?k" "u_scanned u @ in_flight ?s = take (?k - 1) ?vs"
    "mset (u_unsent u) + mset (sq_inputCh ?s) + mset ?h = mset (items_from ?vs ?k)"
    using inv by (simp_all add: use_inv_def Let_def)
  obtain h where h: "g_Remove item_less \<lparr>it_V = z, it_s = 0\<rparr> ?h 0 = Inr (?h ! 0, h)" "is_heap item_less h"
    "mset ?h = add_mset (?h ! 0) (mset h)"
    using items.Remove_ok [OF i(1), of 0 "\<lparr>it_V = z, it_s = 0\<rparr>"] True by auto
  have "?h ! 0 \<in> set (items_from ?vs ?k)"
    using i(4) True by (metis length_greater_0_conv nth_mem set_mset_mset union_iff)
  then have e: "?h ! 0 = item_at ?vs ?k" and k: "?k \<le> length ?vs" using items_from_member True by fastforce+
  have m: "mset (u_unsent u) + mset (sq_inputCh ?s) + mset h = mset (items_from ?vs (Suc ?k))"
    using i(4) h(3) e items_from_Cons [OF k] by simp
  have t: "take ?k ?vs = take (?k - 1) ?vs @ [?vs ! (?k - 1)]"
    using i(2) k take_Suc_conv_app_nth [of "?k - 1" ?vs] by simp
  show ?thesis using inv pc True h(1,2) m i(3) e t k
    by (cases ok) (auto simp: use_inv_def Let_def in_flight_def order_drain_def sending_def closed_pc_def item_at_def)
qed

lemma inv_order:
  assumes inv: "use_inv u" and r: "order_step z (u_seq u) = Some r"
  shows "\<exists>s. r = Inr s \<and> use_inv (u\<lparr>u_seq := s\<rparr>)"
proof (cases "sq_pc (u_seq u)")
  case Selecting
  then show ?thesis using inv_recv [OF inv] r by (simp add: order_step_def)
next
  case (Draining ok)
  then show ?thesis using inv_drain [OF inv, of ok z] r by (auto simp: order_step_def)
next
  case (Sending v ok)
  then show ?thesis using inv r
    by (cases ok) (auto simp: use_inv_def Let_def in_flight_def order_step_def send_scan_def sending_def closed_pc_def split: if_splits)
next
  case Failing
  then show ?thesis using inv r
    by (auto simp: use_inv_def Let_def in_flight_def order_step_def send_scan_def sending_def closed_pc_def split: if_splits)
next
  case Returned
  then show ?thesis using r by (simp add: order_step_def)
qed

lemma inv_scan: "use_inv u \<Longrightarrow> scan_use z u = Some u' \<Longrightarrow> use_inv u'"
  by (auto simp: use_inv_def Let_def in_flight_def scan_use_def Scan_def sq_Item_def split: if_splits list.splits)

lemma inv_step: "use_inv u \<Longrightarrow> use_step z u u' \<Longrightarrow> use_inv u'"
  by (erule use_step.cases)
    (auto simp: inv_issue inv_send inv_close inv_cancel inv_choose_done inv_scan dest: inv_order)

lemma inv_uses: "u \<in> uses z \<Longrightarrow> use_inv u"
  by (induction rule: uses.induct) (auto intro: inv_init inv_step)

section \<open>Delivery\<close>

text \<open>The steps of the goroutine and of the scanner alone, and a weight that each of them lowers.\<close>

inductive inner :: "'a \<Rightarrow> 'a use \<Rightarrow> 'a use \<Rightarrow> bool" for z where
  order: "order_step z (u_seq u) = Some (Inr s) \<Longrightarrow> inner z u (u\<lparr>u_seq := s\<rparr>)"
| scan: "sq_scanCh (u_seq u) \<noteq> [] \<Longrightarrow> scan_use z u = Some u' \<Longrightarrow> inner z u u'"

fun pc_weight :: "'a order_pc \<Rightarrow> nat" where
  "pc_weight Returned = 0"
| "pc_weight Failing = 2"
| "pc_weight (Draining ok) = (if ok then 3 else 1)"
| "pc_weight Selecting = 2"
| "pc_weight (Sending v ok) = 5"

definition weight :: "'a use \<Rightarrow> nat" where
  "weight u = 7 * length (sq_inputCh (u_seq u)) + 5 * length (sq_heap (u_seq u)) +
     pc_weight (sq_pc (u_seq u)) + length (sq_scanCh (u_seq u))"

text \<open>Every issued item has been sent, the input is closed and the context has not been cancelled.\<close>

definition all_sent :: "'a use \<Rightarrow> bool" where
  "all_sent u \<longleftrightarrow> u_unsent u = [] \<and> sq_inputClosed (u_seq u) \<and> \<not> sq_ctxDone (u_seq u)"

lemma heap_root_expected:
  assumes inv: "use_inv u" and "u_unsent u = []" "sq_inputCh (u_seq u) = []" and ne: "sq_heap (u_seq u) \<noteq> []"
  shows "it_s (sq_heap (u_seq u) ! 0) = sq_expected (u_seq u)"
proof -
  let ?h = "sq_heap (u_seq u)" and ?k = "sq_expected (u_seq u)" and ?vs = "u_issued u"
  have h: "mset ?h = mset (items_from ?vs ?k)" "is_heap item_less ?h" using inv assms(2,3) by (simp_all add: use_inv_def Let_def)
  have st: "set ?h = set (items_from ?vs ?k)" using h(1) by (metis set_mset_mset)
  have mem: "?h ! 0 \<in> set (items_from ?vs ?k)" using st ne by force
  then have k: "?k \<le> it_s (?h ! 0)" "?k \<le> length ?vs" using items_from_member by fastforce+
  then have "item_at ?vs ?k \<in> set ?h" using st items_from_Cons [OF k(2)] by simp
  then obtain c where "c < length ?h" "?h ! c = item_at ?vs ?k" by (auto simp: in_set_conv_nth)
  then have "\<not> item_less (item_at ?vs ?k) (?h ! 0)" using items.heap_root_least [OF h(2)] by metis
  then show ?thesis using k(1) by (simp add: item_less_def item_at_def)
qed

lemma order_weight:
  assumes inv: "use_inv u" and all: "all_sent u" and o: "order_step z (u_seq u) = Some (Inr s)"
  shows "weight (u\<lparr>u_seq := s\<rparr>) < weight u \<and> all_sent (u\<lparr>u_seq := s\<rparr>)"
proof (cases "sq_pc (u_seq u)")
  case Selecting
  show ?thesis
  proof (cases "sq_inputCh (u_seq u)")
    case (Cons item rest)
    have "is_heap item_less (sq_heap (u_seq u))" using inv by (simp add: use_inv_def Let_def)
    then obtain h where h: "g_Push item_less (sq_heap (u_seq u)) item = Inr h"
      "mset h = mset (sq_heap (u_seq u)) + {#item#}" using items.Push_ok by blast
    then have "length h = Suc (length (sq_heap (u_seq u)))" by (metis size_mset size_add_mset add_mset_add_single)
    then show ?thesis using Selecting Cons h(1) o all by (auto simp: order_step_def order_recv_def weight_def all_sent_def)
  qed (use Selecting o all in \<open>auto simp: order_step_def order_recv_def weight_def all_sent_def split: if_splits\<close>)
next
  case (Draining ok)
  let ?h = "sq_heap (u_seq u)"
  show ?thesis
  proof (cases "?h \<noteq> [] \<and> it_s (?h ! 0) = sq_expected (u_seq u)")
    case True
    have "is_heap item_less ?h" using inv by (simp add: use_inv_def Let_def)
    then obtain h where h: "g_Remove item_less \<lparr>it_V = z, it_s = 0\<rparr> ?h 0 = Inr (?h ! 0, h)"
      "mset ?h = add_mset (?h ! 0) (mset h)"
      using items.Remove_ok [of ?h 0 "\<lparr>it_V = z, it_s = 0\<rparr>"] True by auto
    then have "length ?h = Suc (length h)" by (metis size_mset size_add_mset)
    then show ?thesis using True Draining h(1) o all by (auto simp: order_step_def order_drain_def weight_def all_sent_def)
  next
    case False
    then have "\<not> ok \<Longrightarrow> ?h = []"
      using heap_root_expected [OF inv] all inv Draining by (auto simp: all_sent_def use_inv_def Let_def closed_pc_def)
    then show ?thesis using False Draining o all
      by (auto simp: order_step_def order_drain_def weight_def all_sent_def split: if_splits)
  qed
qed (use o all in \<open>auto simp: order_step_def send_scan_def weight_def all_sent_def split: if_splits\<close>)

lemma scan_weight:
  assumes "use_inv u" "all_sent u" "sq_scanCh (u_seq u) \<noteq> []" "scan_use z u = Some u'"
  shows "weight u' < weight u \<and> all_sent u'"
  using assms
  by (auto simp: use_inv_def Let_def all_sent_def weight_def scan_use_def Scan_def split: list.splits if_splits)

lemma inner_step:
  assumes "use_inv u" "all_sent u" "inner z u u'"
  shows "use_inv u' \<and> all_sent u' \<and> weight u' < weight u"
  using assms(3)
proof cases
  case (order s)
  then show ?thesis using order_weight [OF assms(1,2)] inv_order [OF assms(1)] by fastforce
next
  case scan
  then show ?thesis using scan_weight [OF assms(1,2)] inv_scan [OF assms(1)] by blast
qed

lemma inner_run:
  "(inner z ^^ k) u u' \<Longrightarrow> use_inv u \<Longrightarrow> all_sent u \<Longrightarrow> use_inv u' \<and> all_sent u' \<and> weight u' + k \<le> weight u"
proof (induction k arbitrary: u')
  case (Suc k)
  then obtain v where v: "(inner z ^^ k) u v" "inner z v u'" by auto
  then show ?case using Suc.IH [OF v(1) Suc.prems(2,3)] inner_step [of v z u'] by fastforce
qed simp

lemma inner_end:
  assumes inv: "use_inv u" and all: "all_sent u" and stuck: "\<nexists>u'. inner z u u'"
  shows "u_scanned u = u_issued u \<and> sq_scanClosed (u_seq u) \<and> sq_scanCh (u_seq u) = []"
proof -
  let ?s = "u_seq u"
  have none: "order_step z ?s = None"
  proof (rule ccontr)
    assume "order_step z ?s \<noteq> None"
    then obtain r where "order_step z ?s = Some r" by blast
    with inv_order [OF inv this] show False using stuck by (auto intro: inner.order)
  qed
  have ch: "sq_scanCh ?s = []"
  proof (rule ccontr)
    assume "sq_scanCh ?s \<noteq> []"
    moreover from this have "\<exists>u'. scan_use z u = Some u'"
      by (auto simp: scan_use_def Scan_def split: list.splits)
    ultimately show False using stuck by (auto intro: inner.scan)
  qed
  have "sq_pc ?s = Returned"
    using none ch all inv
    by (cases "sq_pc ?s") (auto simp: order_step_def order_recv_def send_scan_def all_sent_def use_inv_def Let_def split: list.splits)
  then have c: "sq_scanClosed ?s" "sq_inputCh ?s = []" "sq_heap ?s = []" "in_flight ?s = []"
    using all inv ch by (auto simp: all_sent_def use_inv_def Let_def in_flight_def sending_def)
  then have "items_from (u_issued u) (sq_expected ?s) = []" using inv all by (auto simp: use_inv_def Let_def all_sent_def)
  then have "length (u_issued u) < sq_expected ?s" by (simp add: items_from_def split: if_splits)
  then show ?thesis using inv c ch by (simp add: use_inv_def Let_def)
qed

text \<open>Runs given by a list of actions, to evaluate them.\<close>

datatype 'a act = Issue 'a | SendNth nat | CloseInput | Order | ScanNext

fun act_step :: "'a \<Rightarrow> 'a act \<Rightarrow> 'a use \<Rightarrow> 'a use option" where
  "act_step z (Issue v) u = (let (s, item) = NextItem (u_seq u) v in
     Some (u\<lparr>u_seq := s, u_issued := u_issued u @ [v], u_unsent := u_unsent u @ [item]\<rparr>))"
| "act_step z (SendNth i) u = (if sq_inputClosed (u_seq u) \<or> length (u_unsent u) \<le> i then None
     else Some (u\<lparr>u_unsent := take i (u_unsent u) @ drop (Suc i) (u_unsent u),
            u_seq := (u_seq u)\<lparr>sq_inputCh := sq_inputCh (u_seq u) @ [u_unsent u ! i]\<rparr>\<rparr>))"
| "act_step z CloseInput u = (if sq_inputClosed (u_seq u) then None
     else Some (u\<lparr>u_seq := (u_seq u)\<lparr>sq_inputClosed := True\<rparr>\<rparr>))"
| "act_step z Order u = (case order_step z (u_seq u) of Some (Inr s) \<Rightarrow> Some (u\<lparr>u_seq := s\<rparr>) | _ \<Rightarrow> None)"
| "act_step z ScanNext u = scan_use z u"

fun act_run :: "'a \<Rightarrow> 'a act list \<Rightarrow> 'a use \<Rightarrow> 'a use option" where
  "act_run z [] u = Some u"
| "act_run z (a # as) u = Option.bind (act_step z a u) (act_run z as)"

lemma act_step_use: "act_step z a u = Some u' \<Longrightarrow> use_step z u u'"
proof (cases a)
  case (Issue v)
  moreover assume "act_step z a u = Some u'"
  ultimately show ?thesis by (auto split: prod.splits intro: use_step.issue)
next
  case (SendNth i)
  moreover assume "act_step z a u = Some u'"
  moreover have "i < length (u_unsent u) \<Longrightarrow> u_unsent u = take i (u_unsent u) @ u_unsent u ! i # drop (Suc i) (u_unsent u)"
    by (rule id_take_nth_drop)
  ultimately show ?thesis by (auto split: if_splits intro: use_step.send)
qed (auto split: if_splits option.splits sum.splits intro: use_step.intros)

lemma act_run_uses: "u \<in> uses z \<Longrightarrow> act_run z as u = Some u' \<Longrightarrow> u' \<in> uses z"
proof (induction as arbitrary: u)
  case (Cons a as)
  then obtain y where y: "act_step z a u = Some y" "act_run z as y = Some u'" by (auto simp: bind_eq_Some_conv)
  then show ?case using Cons.IH [OF uses.step [OF Cons.prems(1) act_step_use]] by blast
qed simp

section \<open>Properties\<close>

text \<open>
  C31: in every run, whatever the order in which the items arrive, the values that have been scanned are the
  first of those for which items were issued, in the order of the calls of NextItem; the goroutine does
  not panic.
\<close>

theorem sequencer_scans_in_order:
  assumes "u \<in> uses z"
  shows "u_scanned u = take (length (u_scanned u)) (u_issued u) \<and>
         (\<forall>r. order_step z (u_seq u) = Some r \<longrightarrow> (\<exists>s. r = Inr s))"
proof -
  have inv: "use_inv u" by (rule inv_uses [OF assms])
  then have "u_scanned u @ in_flight (u_seq u) = take (sq_expected (u_seq u) - 1) (u_issued u)"
    by (simp add: use_inv_def Let_def)
  then have "take (length (u_scanned u)) (u_issued u) = u_scanned u"
    by (metis append_eq_conv_conj length_append length_take min.absorb_iff1 min.cobounded1 min.left_commute nat_le_iff_add take_take)
  then show ?thesis using inv_order [OF inv] by metis
qed

lemma sequencer_scans_in_order_witness:
  "\<exists>u. act_run (0::int) [Issue 7, Issue 8, SendNth 1, Order, SendNth 0, Order, Order, Order, Order, ScanNext, Order] (use_init 0)
     = Some u \<and> u_scanned u = take (length (u_scanned u)) (u_issued u) \<and> u_scanned u = [7]"
proof -
  let ?as = "[Issue 7, Issue 8, SendNth 1, Order, SendNth 0, Order, Order, Order, Order, ScanNext, Order]"
  let ?u = "the (act_run (0::int) ?as (use_init 0))"
  have r: "act_run (0::int) ?as (use_init 0) = Some ?u" by code_simp
  have "?u \<in> uses 0" by (rule act_run_uses [OF uses.init r])
  then have "u_scanned ?u = take (length (u_scanned ?u)) (u_issued ?u)" by (rule sequencer_scans_in_order [THEN conjunct1])
  moreover have "u_scanned ?u = [7]" by code_simp
  ultimately show ?thesis using r by blast
qed

text \<open>
  C32: when all issued items have been sent, the input is closed and the context is not cancelled,
  the goroutine and the scanner together do boundedly many steps, and where neither can do another
  one, all values have been scanned and the scanner is told that the stream has ended.
\<close>

theorem sequencer_delivers_all:
  assumes "u \<in> uses z" and "all_sent u" and "(inner z ^^ k) u u'"
  shows "k \<le> weight u \<and> ((\<nexists>u''. inner z u' u'') \<longrightarrow>
           u_scanned u' = u_issued u' \<and> Scan z (u_seq u') = Some (u_seq u', False))"
proof -
  have r: "use_inv u' \<and> all_sent u' \<and> weight u' + k \<le> weight u"
    by (rule inner_run [OF assms(3) inv_uses [OF assms(1)] assms(2)])
  show ?thesis using r inner_end [of u' z] by (auto simp: Scan_def)
qed

lemma sequencer_delivers_all_witness:
  "\<exists>u. act_run (0::int) [Issue 7, Issue 8, SendNth 1, SendNth 0, CloseInput, Order, Order, Order, Order, Order, Order,
          ScanNext, Order, Order, Order, Order, ScanNext] (use_init 0) = Some u \<and>
     all_sent u \<and> u_issued u = [7, 8] \<and> u_scanned u = [7, 8] \<and> Scan 0 (u_seq u) = Some (u_seq u, False)"
proof -
  let ?as = "[Issue 7, Issue 8, SendNth 1, SendNth 0, CloseInput, Order, Order, Order, Order, Order, Order,
          ScanNext, Order, Order, Order, Order, ScanNext]"
  let ?u = "the (act_run (0::int) ?as (use_init 0))"
  have r: "act_run (0::int) ?as (use_init 0) = Some ?u" by code_simp
  have a: "all_sent ?u" "u_issued ?u = [7, 8]" by code_simp+
  have "order_step 0 (u_seq ?u) = None" "sq_scanCh (u_seq ?u) = []" by code_simp+
  then have "\<nexists>u'. inner 0 ?u u'" by (auto elim: inner.cases)
  moreover have "?u \<in> uses 0" by (rule act_run_uses [OF uses.init r])
  ultimately have "u_scanned ?u = u_issued ?u \<and> Scan 0 (u_seq ?u) = Some (u_seq ?u, False)"
    using sequencer_delivers_all [OF _ a(1), of 0 0 ?u] by (metis relpowp_0_I)
  then show ?thesis using r a by metis
qed

text \<open>
  Two flaws. If the input is closed before an item has been sent, the goroutine turns for ever between
  the receive from the closed channel and the heap, whose root is not the expected item. When the
  context is cancelled, Scan returns true although there is no item.
\<close>

lemma sequencer_spins:
  assumes "sq_pc s = Selecting" "sq_inputCh s = []" "sq_inputClosed s" "sq_heap s \<noteq> []"
    "it_s (sq_heap s ! 0) \<noteq> sq_expected s"
  shows "\<exists>s'. order_step z s = Some (Inr s') \<and> order_step z s' = Some (Inr s)"
  using assms by (auto simp: order_step_def order_recv_def order_drain_def)

lemma scan_of_error:
  assumes "sq_pc s = Failing" "sq_scanCh s = []" "\<not> sq_err s"
  shows "\<exists>s1 s2. order_step z s = Some (Inr s1) \<and> Scan z s1 = Some (s2, True) \<and> sq_err s2 \<and> sq_Item s2 = z"
  using assms by (auto simp: order_step_def send_scan_def Scan_def sq_Item_def)

end
