(* ===== verification/Fifo.thy ===== *)
theory Fifo
  imports Prelude "HOL-Library.Sublist"
begin

text \<open>
  A queue between goroutines that drops its oldest item when it is full, \<^verbatim>\<open>sync/patterns/bounded.go\<close>: the ring
  buffer, the scan that removes items in place, and the goroutine \<^verbatim>\<open>run\<close> with its \<^verbatim>\<open>select\<close> statements. The
  ring buffer is a list of bounded length, and in every run the delivered items come in the order in which
  they were sent.
\<close>

section \<open>Ring buffer\<close>

text \<open>
  A channel without a buffer has one bit of state, whether it has been closed. The callback \<^verbatim>\<open>scanRemove\<close> is
  client code with a state of its own, for instance a clock.
\<close>

type_synonym ('c, 'a) remover = "'c \<Rightarrow> 'a \<Rightarrow> bool \<times> 'c"

record ('c, 'a) FIFO =
  ff_in :: bool
  ff_out :: bool
  ff_doneCh :: bool
  ff_size :: int
  ff_buf :: "'a list"
  ff_head :: int
  ff_tail :: int
  ff_count :: int
  ff_scanInterval :: int
  ff_scanRemove :: "('c, 'a) remover option"

definition DefaultFIFOSize :: int where
  "DefaultFIFOSize = 100"

record ('c, 'a) fifo_options =
  fo_scanInterval :: int
  fo_scanRemove :: "('c, 'a) remover option"

definition WithPeriodicScan :: "int \<Rightarrow> ('c, 'a) remover option \<Rightarrow> ('c, 'a) fifo_options \<Rightarrow> ('c, 'a) fifo_options" where
  "WithPeriodicScan interval remove o1 = o1\<lparr>fo_scanInterval := interval, fo_scanRemove := remove\<rparr>"

definition newFIFO :: "'a \<Rightarrow> int \<Rightarrow> (('c, 'a) fifo_options \<Rightarrow> ('c, 'a) fifo_options) list \<Rightarrow> ('c, 'a) FIFO res" where
  "newFIFO z capacity opts =
     (let cap = (if capacity \<le> 0 then DefaultFIFOSize else capacity);
          o1 = fold (\<lambda>opt. opt) opts \<lparr>fo_scanInterval = 0, fo_scanRemove = None\<rparr>
      in rbind (sl_make z cap) (\<lambda>buf. Inr
         \<lparr>ff_in = False, ff_out = False, ff_doneCh = False, ff_size = cap, ff_buf = buf, ff_head = 0, ff_tail = 0,
          ff_count = 0, ff_scanInterval = fo_scanInterval o1, ff_scanRemove = fo_scanRemove o1\<rparr>))"

definition ff_wrap :: "int \<Rightarrow> int \<Rightarrow> int res" where
  "ff_wrap i n = (if n = 0 then Inl DivideByZero else Inr (remn i n))"

definition ff_push :: "('c, 'a) FIFO \<Rightarrow> 'a \<Rightarrow> ('c, 'a) FIFO res" where
  "ff_push b v =
     rbind (sl_set (ff_buf b) (ff_tail b) v) (\<lambda>buf.
     rbind (ff_wrap (ff_tail b + 1) (ff_size b)) (\<lambda>tail.
     Inr (b\<lparr>ff_buf := buf, ff_tail := tail, ff_count := ff_count b + 1\<rparr>)))"

definition ff_front :: "('c, 'a) FIFO \<Rightarrow> 'a res" where
  "ff_front b = sl_get (ff_buf b) (ff_head b)"

definition ff_pop :: "'a \<Rightarrow> ('c, 'a) FIFO \<Rightarrow> ('c, 'a) FIFO res" where
  "ff_pop z b =
     rbind (sl_set (ff_buf b) (ff_head b) z) (\<lambda>buf.
     rbind (ff_wrap (ff_head b + 1) (ff_size b)) (\<lambda>hd.
     Inr (b\<lparr>ff_buf := buf, ff_head := hd, ff_count := ff_count b - 1\<rparr>)))"

text \<open>The two loops of \<^verbatim>\<open>scan\<close>, with the number of iterations that are left.\<close>

fun scan_loop :: "('c, 'a) remover \<Rightarrow> int \<Rightarrow> nat \<Rightarrow> 'c \<Rightarrow> 'a list \<Rightarrow> int \<Rightarrow> int \<Rightarrow> int \<Rightarrow> ('c \<times> 'a list \<times> int \<times> int) res" where
  "scan_loop remove n 0 c buf rd wr kept = Inr (c, buf, wr, kept)"
| "scan_loop remove n (Suc m) c buf rd wr kept =
     rbind (sl_get buf rd) (\<lambda>v. let (gone, c') = remove c v in
     rbind (if \<not> gone
            then rbind (sl_set buf wr v) (\<lambda>buf'. rbind (ff_wrap (wr + 1) n) (\<lambda>wr'. Inr (buf', wr', kept + 1)))
            else Inr (buf, wr, kept)) (\<lambda>(buf', wr', kept').
     rbind (ff_wrap (rd + 1) n) (\<lambda>rd'. scan_loop remove n m c' buf' rd' wr' kept')))"

fun scan_clear :: "'a \<Rightarrow> int \<Rightarrow> nat \<Rightarrow> 'a list \<Rightarrow> int \<Rightarrow> 'a list res" where
  "scan_clear z n 0 buf wr = Inr buf"
| "scan_clear z n (Suc m) buf wr =
     rbind (sl_set buf wr z) (\<lambda>buf'. rbind (ff_wrap (wr + 1) n) (\<lambda>wr'. scan_clear z n m buf' wr'))"

definition ff_scan :: "'a \<Rightarrow> ('c, 'a) FIFO \<Rightarrow> ('c, 'a) remover option \<Rightarrow> 'c \<Rightarrow> (('c, 'a) FIFO \<times> 'c) res" where
  "ff_scan z b remove c =
     (case remove of None \<Rightarrow> Inr (b, c)
      | Some rm \<Rightarrow>
          if ff_count b = 0 then Inr (b, c)
          else rbind (scan_loop rm (ff_size b) (nat (ff_count b)) c (ff_buf b) (ff_head b) (ff_head b) 0) (\<lambda>(c', buf, wr, kept).
               rbind (scan_clear z (ff_size b) (nat (ff_count b - kept)) buf wr) (\<lambda>buf'.
               rbind (ff_wrap (ff_head b + kept) (ff_size b)) (\<lambda>tail.
               Inr (b\<lparr>ff_buf := buf', ff_tail := tail, ff_count := kept\<rparr>, c')))))"

section \<open>The goroutine\<close>

text \<open>
  The goroutine is in one of the \<^verbatim>\<open>select\<close> statements of \<^verbatim>\<open>run\<close> and \<^verbatim>\<open>runBuffered\<close>, in the one of the loop that
  flushes the buffer, or has returned. A \<^verbatim>\<open>select\<close> proceeds with one of the communications that are ready:
  a client sends an item or has closed the channel \<^verbatim>\<open>in\<close>, a client receives from \<^verbatim>\<open>out\<close>, the ticker fires, the
  channel \<^verbatim>\<open>doneCh\<close> has been closed, or the context has been cancelled.
\<close>

datatype fifo_pc = Looping | Flushing | Returned

datatype 'a fifo_comm = Recv 'a | RecvClosed | Deliver | ScanTick | RecvDone | CtxDone

record ('c, 'a) fifo_state =
  fs_fifo :: "('c, 'a) FIFO"
  fs_pc :: fifo_pc
  fs_ctx :: bool
  fs_client :: 'c

definition ff_scanCh :: "('c, 'a) FIFO \<Rightarrow> bool" where
  "ff_scanCh b \<longleftrightarrow> ff_scanInterval b > 0 \<and> ff_scanRemove b \<noteq> None"

definition close_out :: "('c, 'a) FIFO \<Rightarrow> ('c, 'a) FIFO res" where
  "close_out b = (if ff_out b then Inl CloseOfClosedChannel else Inr (b\<lparr>ff_out := True\<rparr>))"

text \<open>The result of a communication is the item delivered, if any, the buffer, the client's state and where to go on.\<close>

type_synonym ('c, 'a) fifo_next = "('a option \<times> ('c, 'a) FIFO \<times> 'c \<times> fifo_pc) res option"

fun run_empty :: "('c, 'a) FIFO \<Rightarrow> 'c \<Rightarrow> 'a fifo_comm \<Rightarrow> ('c, 'a) fifo_next" where
  "run_empty b c (Recv v) = Some (rbind (ff_push b v) (\<lambda>b'. Inr (None, b', c, Looping)))"
| "run_empty b c RecvClosed = Some (rbind (close_out b) (\<lambda>b'. Inr (None, b', c, Returned)))"
| "run_empty b c ScanTick = (if ff_scanCh b then Some (Inr (None, b, c, Looping)) else None)"
| "run_empty b c RecvDone = Some (Inr (None, b, c, Returned))"
| "run_empty b c CtxDone = Some (Inr (None, b, c, Returned))"
| "run_empty b c Deliver = None"

text \<open>The flushing loop is entered and left by its condition.\<close>

definition flush_next :: "('c, 'a) FIFO \<Rightarrow> (('c, 'a) FIFO \<times> fifo_pc) res" where
  "flush_next b = (if ff_count b > 0 then Inr (b, Flushing) else rbind (close_out b) (\<lambda>b'. Inr (b', Returned)))"

fun runBuffered :: "'a \<Rightarrow> ('c, 'a) FIFO \<Rightarrow> 'c \<Rightarrow> 'a fifo_comm \<Rightarrow> ('c, 'a) fifo_next" where
  "runBuffered z b c Deliver = Some (rbind (ff_front b) (\<lambda>v. rbind (ff_pop z b) (\<lambda>b'. Inr (Some v, b', c, Looping))))"
| "runBuffered z b c ScanTick =
     (if ff_scanCh b then Some (rbind (ff_scan z b (ff_scanRemove b) c) (\<lambda>(b', c'). Inr (None, b', c', Looping))) else None)"
| "runBuffered z b c RecvClosed = Some (rbind (flush_next b) (\<lambda>(b', pc). Inr (None, b', c, pc)))"
| "runBuffered z b c (Recv v) =
     Some (rbind (if ff_count b = ff_size b then ff_pop z b else Inr b) (\<lambda>b'. rbind (ff_push b' v) (\<lambda>b''. Inr (None, b'', c, Looping))))"
| "runBuffered z b c RecvDone = Some (Inr (None, b, c, Returned))"
| "runBuffered z b c CtxDone = Some (Inr (None, b, c, Returned))"

fun flush_select :: "'a \<Rightarrow> ('c, 'a) FIFO \<Rightarrow> 'c \<Rightarrow> 'a fifo_comm \<Rightarrow> ('c, 'a) fifo_next" where
  "flush_select z b c Deliver =
     Some (rbind (ff_front b) (\<lambda>v. rbind (ff_pop z b) (\<lambda>b'. rbind (flush_next b') (\<lambda>(b'', pc). Inr (Some v, b'', c, pc)))))"
| "flush_select z b c RecvDone = Some (Inr (None, b, c, Returned))"
| "flush_select z b c CtxDone = Some (Inr (None, b, c, Returned))"
| "flush_select z b c _ = None"

definition run_select :: "'a \<Rightarrow> ('c, 'a) fifo_state \<Rightarrow> 'a fifo_comm \<Rightarrow> ('c, 'a) fifo_next" where
  "run_select z s e =
     (case fs_pc s of
        Looping \<Rightarrow> if ff_count (fs_fifo s) = 0 then run_empty (fs_fifo s) (fs_client s) e else runBuffered z (fs_fifo s) (fs_client s) e
      | Flushing \<Rightarrow> flush_select z (fs_fifo s) (fs_client s) e
      | Returned \<Rightarrow> None)"

text \<open>Whether the other side of a communication is there: a send needs an open channel, the others an event in the past.\<close>

fun comm_ready :: "('c, 'a) fifo_state \<Rightarrow> 'a fifo_comm \<Rightarrow> bool" where
  "comm_ready s (Recv v) \<longleftrightarrow> \<not> ff_in (fs_fifo s)"
| "comm_ready s RecvClosed \<longleftrightarrow> ff_in (fs_fifo s)"
| "comm_ready s RecvDone \<longleftrightarrow> ff_doneCh (fs_fifo s)"
| "comm_ready s CtxDone \<longleftrightarrow> fs_ctx s"
| "comm_ready s _ \<longleftrightarrow> True"

definition fifo_step :: "'a \<Rightarrow> ('c, 'a) fifo_state \<Rightarrow> 'a fifo_comm \<Rightarrow> ('a option \<times> ('c, 'a) fifo_state) res option" where
  "fifo_step z s e =
     (if comm_ready s e
      then map_option (\<lambda>r. rbind r (\<lambda>(v, b, c, pc). Inr (v, s\<lparr>fs_fifo := b, fs_client := c, fs_pc := pc\<rparr>))) (run_select z s e)
      else None)"

text \<open>
  The clients: \<^verbatim>\<open>NewFIFO\<close> starts the goroutine, \<^verbatim>\<open>close\<close> on \<^verbatim>\<open>In\<close>, and \<^verbatim>\<open>Stop\<close>, which closes \<^verbatim>\<open>doneCh\<close> and waits for
  the goroutine to return or for the cancellation of its context.
\<close>

definition NewFIFO :: "'a \<Rightarrow> int \<Rightarrow> (('c, 'a) fifo_options \<Rightarrow> ('c, 'a) fifo_options) list \<Rightarrow> 'c \<Rightarrow> ('c, 'a) fifo_state res" where
  "NewFIFO z capacity opts c = rbind (newFIFO z capacity opts) (\<lambda>b. Inr \<lparr>fs_fifo = b, fs_pc = Looping, fs_ctx = False, fs_client = c\<rparr>)"

definition close_in :: "('c, 'a) fifo_state \<Rightarrow> ('c, 'a) fifo_state res" where
  "close_in s = (if ff_in (fs_fifo s) then Inl CloseOfClosedChannel else Inr (s\<lparr>fs_fifo := (fs_fifo s)\<lparr>ff_in := True\<rparr>\<rparr>))"

definition Stop_close :: "('c, 'a) fifo_state \<Rightarrow> ('c, 'a) fifo_state res" where
  "Stop_close s = (if ff_doneCh (fs_fifo s) then Inl CloseOfClosedChannel else Inr (s\<lparr>fs_fifo := (fs_fifo s)\<lparr>ff_doneCh := True\<rparr>\<rparr>))"

definition Stop_waits :: "('c, 'a) fifo_state \<Rightarrow> bool \<Rightarrow> bool" where
  "Stop_waits s cancelled \<longleftrightarrow> \<not> (fs_pc s = Returned \<or> cancelled)"

section \<open>The ring buffer is a list\<close>

text \<open>
  Slot \<open>i\<close> of the ring is slot \<open>i\<close> of the buffer rotated by the index of the head. The slots that hold no item
  hold the zero value, so that the buffer keeps nothing alive that it has given away.
\<close>

definition ff_rep :: "'a \<Rightarrow> ('c, 'a) FIFO \<Rightarrow> 'a list \<Rightarrow> bool" where
  "ff_rep z b xs \<longleftrightarrow>
     (\<exists>h. ff_size b = int (length (ff_buf b)) \<and> ff_head b = int h \<and> h < length (ff_buf b) \<and>
        ff_tail b = int ((h + length xs) mod length (ff_buf b)) \<and> ff_count b = int (length xs) \<and>
        length xs \<le> length (ff_buf b) \<and> rotate h (ff_buf b) = xs @ replicate (length (ff_buf b) - length xs) z)"

lemma ring_index:
  assumes "i < n" "j < n"
  shows "(h + i) mod n = (h + j) mod (n::nat) \<longleftrightarrow> i = j"
proof -
  have "rotate h [0..<n] ! i = rotate h [0..<n] ! j \<longleftrightarrow> i = j" using assms by (intro nth_eq_iff_index_eq) auto
  moreover have "rotate h [0..<n] ! k = (h + k) mod n" if "k < n" for k using that by (simp add: nth_rotate)
  ultimately show ?thesis using assms by simp
qed

lemma ring_set:
  assumes "i < length buf"
  shows "rotate h (buf[(h + i) mod length buf := v]) = (rotate h buf)[i := v]"
proof (rule nth_equalityI)
  fix j assume "j < length (rotate h (buf[(h + i) mod length buf := v]))"
  moreover have "buf \<noteq> []" using assms by auto
  ultimately show "rotate h (buf[(h + i) mod length buf := v]) ! j = (rotate h buf)[i := v] ! j"
    using assms ring_index [of i "length buf" j h] mod_less_divisor [of "length buf" "h + j"]
    by (cases "i = j") (auto simp: nth_rotate nth_list_update)
qed simp

lemma ff_wrap_int [simp]: "0 < n \<Longrightarrow> ff_wrap (int i) (int n) = Inr (int (i mod n))"
  by (simp add: ff_wrap_def zmod_int)

lemma ff_wrap_Suc [simp]: "0 < n \<Longrightarrow> ff_wrap (int i + 1) (int n) = Inr (int (Suc i mod n))"
  using ff_wrap_int [of n "Suc i"] by (simp add: add.commute)

lemma rotate_mod: "rotate (h mod length xs) xs = rotate h xs"
  by (metis rotate_conv_mod)

lemma newFIFO_rep:
  obtains b where "newFIFO z capacity opts = Inr b" "ff_rep z b []" "ff_size b = (if capacity \<le> 0 then 100 else capacity)"
    "\<not> ff_in b" "\<not> ff_out b" "\<not> ff_doneCh b"
proof -
  let ?cap = "if capacity \<le> 0 then 100 else capacity"
  let ?o = "fold (\<lambda>opt. opt) opts \<lparr>fo_scanInterval = 0, fo_scanRemove = None\<rparr>"
  let ?b = "\<lparr>ff_in = False, ff_out = False, ff_doneCh = False, ff_size = ?cap, ff_buf = replicate (nat ?cap) z, ff_head = 0, ff_tail = 0,
          ff_count = 0, ff_scanInterval = fo_scanInterval ?o, ff_scanRemove = fo_scanRemove ?o\<rparr>"
  have "newFIFO z capacity opts = Inr ?b" by (simp add: newFIFO_def DefaultFIFOSize_def sl_make_def Let_def)
  moreover have "ff_rep z ?b []" unfolding ff_rep_def by (rule exI [of _ 0]) simp
  ultimately show ?thesis by (rule that) simp_all
qed

lemma ff_repE:
  assumes "ff_rep z b xs"
  obtains h n where "n = length (ff_buf b)" "ff_size b = int n" "ff_head b = int h" "h < n" "ff_tail b = int ((h + length xs) mod n)"
    "ff_count b = int (length xs)" "length xs \<le> n" "rotate h (ff_buf b) = xs @ replicate (n - length xs) z"
  using assms unfolding ff_rep_def by blast

lemma ff_front_rep: "ff_rep z b (x # xs) \<Longrightarrow> ff_front b = Inr x"
proof (erule ff_repE)
  fix h n
  assume n: "n = length (ff_buf b)" "ff_head b = int h" "h < n"
    and r: "rotate h (ff_buf b) = (x # xs) @ replicate (n - length (x # xs)) z"
  have "ff_buf b \<noteq> []" using n by auto
  then have "ff_buf b ! h = rotate h (ff_buf b) ! 0" using n nth_rotate [of 0 "ff_buf b" h] by simp
  then show ?thesis using n unfolding ff_front_def r by simp
qed

lemma ff_push_rep:
  assumes r: "ff_rep z b xs" and l: "int (length xs) < ff_size b"
  shows "\<exists>buf t. ff_push b v = Inr (b\<lparr>ff_buf := buf, ff_tail := t, ff_count := ff_count b + 1\<rparr>) \<and>
    ff_rep z (b\<lparr>ff_buf := buf, ff_tail := t, ff_count := ff_count b + 1\<rparr>) (xs @ [v])"
  using r
proof (rule ff_repE)
  fix h n
  assume n: "n = length (ff_buf b)" "ff_size b = int n" "ff_head b = int h" "h < n" "ff_tail b = int ((h + length xs) mod n)"
    "ff_count b = int (length xs)" and r: "rotate h (ff_buf b) = xs @ replicate (n - length xs) z"
  let ?t = "(h + length xs) mod n" let ?buf = "(ff_buf b)[?t := v]"
  have i: "length xs < n" "?t < n" using l n(2) mod_less_divisor [of n "h + length xs"] n(4) by linarith+
  have "ff_buf b \<noteq> []" using n by auto
  then have p: "ff_push b v = Inr (b\<lparr>ff_buf := ?buf, ff_tail := int (Suc ?t mod n), ff_count := ff_count b + 1\<rparr>)"
    using n i by (simp add: ff_push_def)
  have "replicate (n - length xs) z = z # replicate (n - Suc (length xs)) z"
    using i(1) by (metis Suc_diff_Suc replicate_Suc)
  then have "rotate h ?buf = xs @ v # replicate (n - Suc (length xs)) z"
    using ring_set [of "length xs" "ff_buf b" h v] i(1) r n(1) by (simp add: list_update_append)
  then show ?thesis using p n i by (intro exI [of _ ?buf] exI [of _ "int (Suc ?t mod n)"] conjI) (auto simp: ff_rep_def mod_Suc_eq)
qed

lemma ff_pop_rep:
  assumes r: "ff_rep z b (x # xs)"
  shows "\<exists>buf hd. ff_pop z b = Inr (b\<lparr>ff_buf := buf, ff_head := hd, ff_count := ff_count b - 1\<rparr>) \<and>
    ff_rep z (b\<lparr>ff_buf := buf, ff_head := hd, ff_count := ff_count b - 1\<rparr>) xs"
  using r
proof (rule ff_repE)
  fix h n
  assume n: "n = length (ff_buf b)" "ff_size b = int n" "ff_head b = int h" "h < n" "ff_tail b = int ((h + length (x # xs)) mod n)"
    "ff_count b = int (length (x # xs))" "length (x # xs) \<le> n" and r: "rotate h (ff_buf b) = (x # xs) @ replicate (n - length (x # xs)) z"
  let ?buf = "(ff_buf b)[h := z]"
  have "ff_wrap (int h + 1) (int n) = Inr (int (Suc h mod n))" using n(4) by simp
  then have p: "ff_pop z b = Inr (b\<lparr>ff_buf := ?buf, ff_head := int (Suc h mod n), ff_count := ff_count b - 1\<rparr>)"
    unfolding ff_pop_def n(2,3) using n(1,4) by simp
  have "ff_buf b \<noteq> []" using n by auto
  then have "rotate h ?buf = z # xs @ replicate (n - Suc (length xs)) z"
    using ring_set [of 0 "ff_buf b" h z] r n(1,4) by simp
  then have "rotate (Suc h) ?buf = xs @ replicate (n - Suc (length xs)) z @ [z]" by (simp add: rotate1_def)
  also have "replicate (n - Suc (length xs)) z @ [z] = replicate (n - length xs) z"
    using n(7) by (metis Suc_diff_Suc Suc_le_lessD length_Cons replicate_Suc replicate_append_same)
  finally have "rotate (Suc h mod n) ?buf = xs @ replicate (n - length xs) z"
    using rotate_mod [of "Suc h" ?buf] n(1) by simp
  moreover have "Suc h mod n < n" using n(4) by simp
  moreover have "(Suc h mod n + length xs) mod n = (h + Suc (length xs)) mod n" by (simp add: mod_simps)
  ultimately show ?thesis using p n
    by (intro exI [of _ ?buf] exI [of _ "int (Suc h mod n)"] conjI) (auto simp: ff_rep_def intro!: exI [of _ "Suc h mod n"])
qed

subsection \<open>The scan\<close>

text \<open>The items that a scan keeps, and the state of the callback after it has seen all of them in order.\<close>

fun kept_items :: "('c, 'a) remover \<Rightarrow> 'c \<Rightarrow> 'a list \<Rightarrow> 'a list \<times> 'c" where
  "kept_items remove c [] = ([], c)"
| "kept_items remove c (v # vs) =
     (let (gone, c') = remove c v; (ks, c'') = kept_items remove c' vs in (if gone then ks else v # ks, c''))"

lemma kept_items_subseq: "subseq (fst (kept_items remove c xs)) xs"
  by (induction remove c xs rule: kept_items.induct) (auto split: prod.split simp: Let_def)

text \<open>
  The first loop: in the rotated buffer \<open>pre\<close> has the items kept so far, \<open>gap\<close> the slots between the two
  indices, and the next \<open>m\<close> slots the items that have not been visited.
\<close>

lemma scan_loop_ok:
  assumes "rotate h buf = pre @ gap @ vs @ post" "length vs = m" "buf \<noteq> []"
  shows "\<exists>buf' gap'. scan_loop remove (int (length buf)) m c buf (int ((h + length (pre @ gap)) mod length buf))
      (int ((h + length pre) mod length buf)) (int (length pre)) =
      Inr (snd (kept_items remove c vs), buf', int ((h + length (pre @ fst (kept_items remove c vs))) mod length buf),
        int (length (pre @ fst (kept_items remove c vs)))) \<and>
    length buf' = length buf \<and> rotate h buf' = pre @ fst (kept_items remove c vs) @ gap' @ post \<and>
    length (fst (kept_items remove c vs)) + length gap' = length gap + length vs"
  using assms
proof (induction m arbitrary: c buf pre gap vs)
  case 0
  then show ?case by (intro exI [of _ buf] exI [of _ gap]) simp
next
  case (Suc m)
  then obtain v ws where vs: "vs = v # ws" "length ws = m" by (cases vs) auto
  obtain gone c' where rm: "remove c v = (gone, c')" by fastforce
  let ?n = "length buf" let ?rd = "(h + length (pre @ gap)) mod ?n" let ?wr = "(h + length pre) mod ?n"
  have len: "length pre + length gap + length vs + length post = ?n"
    using arg_cong [OF Suc.prems(1), of length] by simp
  have b: "0 < ?n" "?rd < ?n" "?wr < ?n" using Suc.prems(3) by simp_all
  have "buf ! ?rd = rotate h buf ! length (pre @ gap)"
    using nth_rotate [of "length (pre @ gap)" buf h] len vs(1) by simp
  also have "\<dots> = v" unfolding Suc.prems(1) vs(1) by (simp add: nth_append)
  finally have get: "sl_get buf (int ?rd) = Inr v" using b by simp
  have rd: "Suc ?rd mod ?n = (h + length (pre @ gap @ [v])) mod ?n" by (simp add: mod_Suc_eq)
  show ?case
  proof (cases gone)
    case True
    have "rotate h buf = pre @ (gap @ [v]) @ ws @ post" using Suc.prems(1) vs by simp
    note ih = Suc.IH [OF this vs(2) Suc.prems(3), of c']
    have "scan_loop remove (int ?n) (Suc m) c buf (int ?rd) (int ?wr) (int (length pre)) =
        scan_loop remove (int ?n) m c' buf (int ((h + length (pre @ gap @ [v])) mod ?n)) (int ?wr) (int (length pre))"
      unfolding scan_loop.simps get rbind.simps rm Let_def split_conv rd [symmetric] using True b by simp
    then show ?thesis using ih True rm vs(1) by (simp add: split_beta)
  next
    case False
    let ?buf = "buf[?wr := v]"
    have "rotate h ?buf = (pre @ gap @ vs @ post)[length pre := v]"
      unfolding Suc.prems(1) [symmetric] using ring_set [of "length pre" buf h v] len vs(1) by simp
    then have r: "\<exists>gap'. rotate h ?buf = (pre @ [v]) @ gap' @ ws @ post \<and> length gap' = length gap"
      using vs(1) by (cases gap) (auto simp: list_update_append)
    then obtain gap' where g: "rotate h ?buf = (pre @ [v]) @ gap' @ ws @ post" "length gap' = length gap" by blast
    have wr: "Suc ?wr mod ?n = (h + length (pre @ [v])) mod ?n" by (simp add: mod_Suc_eq)
    have ne: "?buf \<noteq> []" using Suc.prems(3) by simp
    note ih = Suc.IH [OF g(1) vs(2) ne, of c']
    have "scan_loop remove (int ?n) (Suc m) c buf (int ?rd) (int ?wr) (int (length pre)) =
        scan_loop remove (int ?n) m c' ?buf (int ((h + length (pre @ gap @ [v])) mod ?n)) (int ((h + length (pre @ [v])) mod ?n))
          (int (length (pre @ [v])))"
      unfolding scan_loop.simps get rbind.simps rm Let_def split_conv rd [symmetric] wr [symmetric] using False b by simp (simp add: add.commute)
    moreover have "length (pre @ gap @ [v]) = length ((pre @ [v]) @ gap')" using g(2) by simp
    ultimately show ?thesis using ih False rm vs(1) g(2) by (simp add: split_beta)
  qed
qed

lemma scan_clear_ok:
  assumes "rotate h buf = pre @ gap @ post" "buf \<noteq> []"
  shows "\<exists>buf'. scan_clear z (int (length buf)) (length gap) buf (int ((h + length pre) mod length buf)) = Inr buf' \<and>
    length buf' = length buf \<and> rotate h buf' = pre @ replicate (length gap) z @ post"
  using assms
proof (induction gap arbitrary: pre buf)
  case (Cons g gap)
  let ?n = "length buf" let ?wr = "(h + length pre) mod ?n" let ?buf = "buf[?wr := z]"
  have len: "length pre + Suc (length gap) + length post = ?n"
    using arg_cong [OF Cons.prems(1), of length] by simp
  have b: "0 < ?n" "?wr < ?n" using Cons.prems(2) by simp_all
  have wr: "Suc ?wr mod ?n = (h + length (pre @ [z])) mod ?n" by (simp add: mod_Suc_eq)
  have "rotate h ?buf = (pre @ [z]) @ gap @ post"
    using ring_set [of "length pre" buf h z] len Cons.prems(1) by simp
  moreover have "?buf \<noteq> []" using Cons.prems(2) by simp
  ultimately obtain buf' where
    "scan_clear z (int ?n) (length gap) ?buf (int ((h + length (pre @ [z])) mod ?n)) = Inr buf'"
    "length buf' = ?n" "rotate h buf' = (pre @ [z]) @ replicate (length gap) z @ post"
    using Cons.IH [of ?buf "pre @ [z]"] by auto
  moreover have "scan_clear z (int ?n) (length (g # gap)) buf (int ?wr) =
      scan_clear z (int ?n) (length gap) ?buf (int ((h + length (pre @ [z])) mod ?n))"
    unfolding wr [symmetric] using b by simp
  ultimately show ?case by (intro exI [of _ buf']) simp
qed simp

lemma ff_scan_rep:
  assumes r: "ff_rep z b xs"
  shows "\<exists>buf t. ff_scan z b (Some rm) c =
      Inr (b\<lparr>ff_buf := buf, ff_tail := t, ff_count := int (length (fst (kept_items rm c xs)))\<rparr>, snd (kept_items rm c xs)) \<and>
    ff_rep z (b\<lparr>ff_buf := buf, ff_tail := t, ff_count := int (length (fst (kept_items rm c xs)))\<rparr>) (fst (kept_items rm c xs))"
    (is "\<exists>buf t. _ = Inr (?b buf t, ?c) \<and> ff_rep z (?b buf t) ?ks")
  using r
proof (rule ff_repE)
  fix h n
  assume n: "n = length (ff_buf b)" "ff_size b = int n" "ff_head b = int h" "h < n" "ff_tail b = int ((h + length xs) mod n)"
    "ff_count b = int (length xs)" "length xs \<le> n" and r: "rotate h (ff_buf b) = xs @ replicate (n - length xs) z"
  have b: "ff_buf b \<noteq> []" using n by auto
  show ?thesis
  proof (cases "xs = []")
    case True
    have "b = ?b (ff_buf b) (ff_tail b)" using True n(6) by simp
    then show ?thesis using True n(6) assms by (intro exI [of _ "ff_buf b"] exI [of _ "ff_tail b"]) (simp add: ff_scan_def ff_rep_def)
  next
    case False
    let ?rest = "replicate (n - length xs) z"
    have "rotate h (ff_buf b) = [] @ [] @ xs @ ?rest" using r by simp
    from scan_loop_ok [OF this refl b, of rm c] n(1,4) obtain buf gap where
      l: "scan_loop rm (int n) (length xs) c (ff_buf b) (int h) (int h) 0 = Inr (?c, buf, int ((h + length ?ks) mod n), int (length ?ks))"
      "length buf = n" "rotate h buf = ?ks @ gap @ ?rest" "length ?ks + length gap = length xs" by auto
    from scan_clear_ok [OF l(3), of z] l(2) b n(1) obtain buf' where
      cl: "scan_clear z (int n) (length gap) buf (int ((h + length ?ks) mod n)) = Inr buf'" "length buf' = n"
      "rotate h buf' = ?ks @ replicate (length gap) z @ ?rest" by fastforce
    have k: "nat (int (length xs) - int (length ?ks)) = length gap" using l(4) by linarith
    have w: "ff_wrap (int h + int (length ?ks)) (int n) = Inr (int ((h + length ?ks) mod n))"
      using ff_wrap_int [of n "h + length ?ks"] n(4) by simp
    have "ff_scan z b (Some rm) c = Inr (?b buf' (int ((h + length ?ks) mod n)), ?c)"
      using False n(2,3,6) l(1) cl(1) k w by (simp add: ff_scan_def)
    moreover have "replicate (length gap) z @ ?rest = replicate (n - length ?ks) z"
      unfolding replicate_add [symmetric] using l(4) n(7) by (intro arg_cong [of _ _ "\<lambda>k. replicate k z"]) linarith
    then have "ff_rep z (?b buf' (int ((h + length ?ks) mod n))) ?ks"
      using n cl(2,3) l(4) by (auto simp: ff_rep_def)
    ultimately show ?thesis by blast
  qed
qed

text \<open>The items in the buffer, from the oldest to the newest.\<close>

definition ff_items :: "('c, 'a) FIFO \<Rightarrow> 'a list" where
  "ff_items b = take (nat (ff_count b)) (rotate (nat (ff_head b)) (ff_buf b))"

lemma ff_rep_items: "ff_rep z b xs \<Longrightarrow> ff_items b = xs"
  by (auto simp: ff_rep_def ff_items_def)

lemma ff_rep_count: "ff_rep z b xs \<Longrightarrow> ff_count b = int (length xs) \<and> int (length xs) \<le> ff_size b \<and> 0 < ff_size b"
  by (auto simp: ff_rep_def)

end
