(* ===== verification/Fifo_Runs.thy ===== *)
theory Fifo_Runs
  imports Fifo
begin

text \<open>
  Runs of the goroutine of \<^verbatim>\<open>sync/patterns/bounded.go\<close> with its clients: a contract of a queue that drops its
  oldest item, which the ring buffer keeps, what each communication does to the items, the order of the
  delivered items, and that closing the queue delivers what it holds.
\<close>

section \<open>A queue that drops its oldest item\<close>

text \<open>What a list of at most \<open>n\<close> items is after the arrival of another one.\<close>

definition arrive :: "nat \<Rightarrow> 'a list \<Rightarrow> 'a \<Rightarrow> 'a list" where
  "arrive n xs v = (if length xs = n then tl xs else xs) @ [v]"

text \<open>Items that are received in the order in which they were sent, some of them dropped.\<close>

definition in_order :: "'a list \<Rightarrow> 'a list \<Rightarrow> 'a list \<Rightarrow> bool" where
  "in_order sent received xs \<longleftrightarrow> subseq (received @ xs) sent"

locale drop_queue =
  fixes rep :: "'q \<Rightarrow> 'a list \<Rightarrow> bool"
    and cap :: "'q \<Rightarrow> nat"
    and put :: "'q \<Rightarrow> 'a \<Rightarrow> 'q res"
    and get :: "'q \<Rightarrow> ('a \<times> 'q) res"
  assumes bounded: "rep q xs \<Longrightarrow> length xs \<le> cap q \<and> 0 < cap q"
    and put_law: "rep q xs \<Longrightarrow> \<exists>q'. put q v = Inr q' \<and> rep q' (arrive (cap q) xs v) \<and> cap q' = cap q"
    and get_law: "rep q (x # xs) \<Longrightarrow> \<exists>q'. get q = Inr (x, q') \<and> rep q' xs \<and> cap q' = cap q"
begin

lemma put_in_order:
  assumes "rep q xs" "in_order sent received xs"
  shows "\<exists>q'. put q v = Inr q' \<and> rep q' (arrive (cap q) xs v) \<and> in_order (sent @ [v]) received (arrive (cap q) xs v)"
proof -
  have "subseq (if length xs = cap q then tl xs else xs) xs" by (cases xs) auto
  then have "subseq (received @ (if length xs = cap q then tl xs else xs)) sent"
    using assms(2) subseq_order.trans unfolding in_order_def by (metis list_emb_append_mono subseq_order.refl)
  then show ?thesis using put_law [OF assms(1), of v] list_emb_append_mono [of "(=)" _ sent "[v]" "[v]"]
    by (fastforce simp: in_order_def arrive_def)
qed

lemma get_in_order:
  assumes "rep q (x # xs)" "in_order sent received (x # xs)"
  shows "\<exists>q'. get q = Inr (x, q') \<and> rep q' xs \<and> in_order sent (received @ [x]) xs"
  using assms get_law by (fastforce simp: in_order_def)

text \<open>The newest items are always there: a queue that has only been put to and taken from holds the last items sent.\<close>

lemma put_suffix: "rep q xs \<Longrightarrow> suffix xs sent \<Longrightarrow> suffix (arrive (cap q) xs v) (sent @ [v])"
  by (auto simp: arrive_def intro: suffix_order.trans [OF suffix_tl])

end

definition ring_put :: "'a \<Rightarrow> ('c, 'a) FIFO \<Rightarrow> 'a \<Rightarrow> ('c, 'a) FIFO res" where
  "ring_put z b v = rbind (if ff_count b = ff_size b then ff_pop z b else Inr b) (\<lambda>b'. ff_push b' v)"

definition ring_get :: "'a \<Rightarrow> ('c, 'a) FIFO \<Rightarrow> ('a \<times> ('c, 'a) FIFO) res" where
  "ring_get z b = rbind (ff_front b) (\<lambda>v. rbind (ff_pop z b) (\<lambda>b'. Inr (v, b')))"

text \<open>What the operations leave as it was.\<close>

definition same_fifo :: "('c, 'a) FIFO \<Rightarrow> ('c, 'a) FIFO \<Rightarrow> bool" where
  "same_fifo b b' \<longleftrightarrow> ff_in b' = ff_in b \<and> ff_doneCh b' = ff_doneCh b \<and> ff_size b' = ff_size b \<and>
     ff_scanInterval b' = ff_scanInterval b \<and> ff_scanRemove b' = ff_scanRemove b"

lemma ring_put_rep:
  assumes "ff_rep z b xs"
  shows "\<exists>b'. ring_put z b v = Inr b' \<and> ff_rep z b' (arrive (nat (ff_size b)) xs v) \<and> same_fifo b b' \<and> ff_out b' = ff_out b"
proof (cases "int (length xs) = ff_size b")
  case True
  then obtain y ys where xs: "xs = y # ys" using ff_rep_count [OF assms] by (cases xs) auto
  obtain buf h where "ff_pop z b = Inr (b\<lparr>ff_buf := buf, ff_head := h, ff_count := ff_count b - 1\<rparr>)"
    and r: "ff_rep z (b\<lparr>ff_buf := buf, ff_head := h, ff_count := ff_count b - 1\<rparr>) ys" (is "ff_rep z ?b ys")
    using ff_pop_rep [of z b y ys] assms xs by blast
  moreover have "int (length ys) < ff_size ?b" using True xs by simp
  then obtain buf' t where "ff_push ?b v = Inr (?b\<lparr>ff_buf := buf', ff_tail := t, ff_count := ff_count ?b + 1\<rparr>)"
    "ff_rep z (?b\<lparr>ff_buf := buf', ff_tail := t, ff_count := ff_count ?b + 1\<rparr>) (ys @ [v])"
    using ff_push_rep [OF r] by blast
  ultimately show ?thesis using True xs ff_rep_count [OF assms] by (auto simp: ring_put_def arrive_def same_fifo_def)
next
  case False
  then have "int (length xs) < ff_size b" using ff_rep_count [OF assms] by simp
  then show ?thesis using ff_push_rep [OF assms, of v] False ff_rep_count [OF assms]
    by (auto simp: ring_put_def arrive_def same_fifo_def)
qed

lemma ring_get_rep:
  assumes "ff_rep z b (x # xs)"
  shows "\<exists>b'. ff_front b = Inr x \<and> ff_pop z b = Inr b' \<and> ring_get z b = Inr (x, b') \<and> ff_rep z b' xs \<and> same_fifo b b' \<and> ff_out b' = ff_out b"
  using ff_front_rep [OF assms] ff_pop_rep [OF assms] by (auto simp: ring_get_def same_fifo_def)

interpretation ring: drop_queue "ff_rep z" "\<lambda>b. nat (ff_size b)" "ring_put z" "ring_get z" for z :: 'a
proof
  fix b :: "('c, 'a) FIFO" and xs x v
  show "ff_rep z b xs \<Longrightarrow> length xs \<le> nat (ff_size b) \<and> 0 < nat (ff_size b)"
    using ff_rep_count [of z b xs] by auto
  show "ff_rep z b xs \<Longrightarrow> \<exists>b'. ring_put z b v = Inr b' \<and> ff_rep z b' (arrive (nat (ff_size b)) xs v) \<and> nat (ff_size b') = nat (ff_size b)"
    using ring_put_rep [of z b xs v] by (auto simp: same_fifo_def)
  show "ff_rep z b (x # xs) \<Longrightarrow> \<exists>b'. ring_get z b = Inr (x, b') \<and> ff_rep z b' xs \<and> nat (ff_size b') = nat (ff_size b)"
    using ring_get_rep [of z b x xs] by (auto simp: same_fifo_def)
qed

section \<open>Communications of the goroutine\<close>

text \<open>The state of the goroutine with the items it holds.\<close>

definition fs_inv :: "'a \<Rightarrow> ('c, 'a) fifo_state \<Rightarrow> 'a list \<Rightarrow> bool" where
  "fs_inv z s xs \<longleftrightarrow> ff_rep z (fs_fifo s) xs \<and> (fs_pc s = Flushing \<longrightarrow> xs \<noteq> [] \<and> ff_in (fs_fifo s)) \<and>
     (ff_out (fs_fifo s) \<longrightarrow> fs_pc s = Returned \<and> xs = [] \<and> ff_in (fs_fifo s))"

text \<open>What each communication does to the items, which it delivers, and where the goroutine goes.\<close>

fun comm_items :: "('c, 'a) fifo_state \<Rightarrow> 'a list \<Rightarrow> 'a fifo_comm \<Rightarrow> 'a list" where
  "comm_items s xs (Recv v) = arrive (nat (ff_size (fs_fifo s))) xs v"
| "comm_items s xs Deliver = tl xs"
| "comm_items s xs ScanTick = (case ff_scanRemove (fs_fifo s) of None \<Rightarrow> xs | Some rm \<Rightarrow> fst (kept_items rm (fs_client s) xs))"
| "comm_items s xs _ = xs"

fun comm_item :: "'a list \<Rightarrow> 'a fifo_comm \<Rightarrow> 'a option" where
  "comm_item xs Deliver = Some (hd xs)"
| "comm_item xs _ = None"

fun comm_pc :: "('c, 'a) fifo_state \<Rightarrow> 'a list \<Rightarrow> 'a fifo_comm \<Rightarrow> fifo_pc" where
  "comm_pc s xs RecvClosed = (if xs = [] then Returned else Flushing)"
| "comm_pc s xs Deliver = (if fs_pc s = Flushing \<and> tl xs = [] then Returned else fs_pc s)"
| "comm_pc s xs RecvDone = Returned"
| "comm_pc s xs CtxDone = Returned"
| "comm_pc s xs _ = fs_pc s"

definition comm_enabled :: "('c, 'a) fifo_state \<Rightarrow> 'a list \<Rightarrow> 'a fifo_comm \<Rightarrow> bool" where
  "comm_enabled s xs e \<longleftrightarrow> fs_pc s \<noteq> Returned \<and> comm_ready s e \<and>
     (case e of Recv v \<Rightarrow> fs_pc s = Looping | RecvClosed \<Rightarrow> fs_pc s = Looping | Deliver \<Rightarrow> xs \<noteq> []
      | ScanTick \<Rightarrow> fs_pc s = Looping \<and> ff_scanCh (fs_fifo s) | _ \<Rightarrow> True)"

lemma fifo_step_enabled:
  assumes "fs_inv z s xs"
  shows "fifo_step z s e \<noteq> None \<longleftrightarrow> comm_enabled s xs e"
proof -
  have "ff_count (fs_fifo s) = 0 \<longleftrightarrow> xs = []" "fs_pc s = Flushing \<longrightarrow> xs \<noteq> []"
    using assms ff_rep_count [of z "fs_fifo s" xs] by (auto simp: fs_inv_def)
  then show ?thesis by (cases e; cases "fs_pc s") (auto simp: fifo_step_def run_select_def comm_enabled_def)
qed

lemma ff_rep_out: "ff_rep z (b\<lparr>ff_out := True\<rparr>) xs \<longleftrightarrow> ff_rep z b xs"
  by (simp add: ff_rep_def)

lemma fifo_step_effect:
  assumes inv: "fs_inv z s xs" and en: "comm_enabled s xs e"
  shows "\<exists>s'. fifo_step z s e = Some (Inr (comm_item xs e, s')) \<and> fs_inv z s' (comm_items s xs e) \<and>
    fs_pc s' = comm_pc s xs e \<and> fs_ctx s' = fs_ctx s \<and> same_fifo (fs_fifo s) (fs_fifo s') \<and>
    (ff_out (fs_fifo s') \<longleftrightarrow> fs_pc s' = Returned \<and> (e = RecvClosed \<or> e = Deliver))"
proof -
  let ?b = "fs_fifo s"
  have r: "ff_rep z ?b xs" and fl: "fs_pc s = Flushing \<Longrightarrow> xs \<noteq> [] \<and> ff_in ?b" and o: "\<not> ff_out ?b" and pc: "fs_pc s \<noteq> Returned"
    using inv en by (auto simp: fs_inv_def comm_enabled_def)
  have c: "ff_count ?b = int (length xs)" "0 < ff_size ?b" using ff_rep_count [OF r] by auto
  note out = ff_rep_out
  show ?thesis
  proof (cases e)
    case (Recv v)
    then have lp: "fs_pc s = Looping" "\<not> ff_in ?b" using en by (auto simp: comm_enabled_def)
    obtain b' where b': "ring_put z ?b v = Inr b'" "ff_rep z b' (arrive (nat (ff_size ?b)) xs v)" "same_fifo ?b b'" "ff_out b' = ff_out ?b"
      using ring_put_rep [OF r] by blast
    have "run_select z s (Recv v) = Some (rbind (ring_put z ?b v) (\<lambda>b'. Inr (None, b', fs_client s, Looping)))"
      using lp c by (auto simp: run_select_def ring_put_def rbind_assoc)
    then show ?thesis using Recv lp b' o by (simp add: fifo_step_def fs_inv_def)
  next
    case RecvClosed
    then have lp: "fs_pc s = Looping" "ff_in ?b" using en by (auto simp: comm_enabled_def)
    then show ?thesis using RecvClosed r c o
      by (cases "xs = []") (simp_all add: fifo_step_def run_select_def fs_inv_def flush_next_def close_out_def out same_fifo_def)
  next
    case Deliver
    then obtain y ys where xs: "xs = y # ys" using en by (cases xs) (auto simp: comm_enabled_def)
    obtain b' where b': "ff_front ?b = Inr y" "ff_pop z ?b = Inr b'" "ff_rep z b' ys" "same_fifo ?b b'" "ff_out b' = ff_out ?b"
      using ring_get_rep [OF r [unfolded xs]] by blast
    have "ff_count b' = int (length ys)" using ff_rep_count [OF b'(3)] by simp
    have "ff_count ?b \<noteq> 0" using c xs by simp
    have step: "fifo_step z s Deliver = Some (Inr (Some y,
        if fs_pc s = Flushing \<and> ys = [] then s\<lparr>fs_fifo := b'\<lparr>ff_out := True\<rparr>, fs_pc := Returned\<rparr> else s\<lparr>fs_fifo := b'\<rparr>))"
    proof (cases "fs_pc s")
      case Looping
      have "fifo_step z s Deliver = Some (Inr (Some y, s\<lparr>fs_fifo := b', fs_client := fs_client s, fs_pc := Looping\<rparr>))"
        unfolding fifo_step_def run_select_def Looping using b'(1,2) \<open>ff_count ?b \<noteq> 0\<close> by simp
      moreover have "s\<lparr>fs_fifo := b', fs_client := fs_client s, fs_pc := Looping\<rparr> = s\<lparr>fs_fifo := b'\<rparr>" using Looping by simp
      ultimately show ?thesis using Looping by simp
    next
      case Flushing
      have "fifo_step z s Deliver = Some (rbind (flush_next b') (\<lambda>(b'', pc).
          Inr (Some y, s\<lparr>fs_fifo := b'', fs_client := fs_client s, fs_pc := pc\<rparr>)))"
        unfolding fifo_step_def run_select_def Flushing using b'(1,2) by (cases "flush_next b'") (simp_all split: prod.split)
      moreover have "s\<lparr>fs_fifo := b', fs_client := fs_client s, fs_pc := Flushing\<rparr> = s\<lparr>fs_fifo := b'\<rparr>" using Flushing by simp
      ultimately show ?thesis using Flushing b'(5) o \<open>ff_count b' = int (length ys)\<close> by (simp add: flush_next_def close_out_def)
    qed (use pc in simp)
    have "ff_in b' = ff_in ?b" using b'(4) by (simp add: same_fifo_def)
    then show ?thesis unfolding Deliver step using xs b'(3-5) o fl pc by (auto simp: fs_inv_def out same_fifo_def)
  next
    case ScanTick
    then obtain rm where lp: "fs_pc s = Looping" "ff_scanCh ?b" "ff_scanRemove ?b = Some rm" using en by (auto simp: comm_enabled_def ff_scanCh_def)
    show ?thesis
    proof (cases "xs = []")
      case True
      then show ?thesis using ScanTick lp r c o by (simp add: fifo_step_def run_select_def fs_inv_def same_fifo_def)
    next
      case False
      then show ?thesis using ff_scan_rep [OF r, of rm "fs_client s"] ScanTick lp c o
        by (auto simp: fifo_step_def run_select_def fs_inv_def same_fifo_def)
    qed
  qed (use en r o pc in \<open>simp_all add: fifo_step_def run_select_def fs_inv_def comm_enabled_def same_fifo_def split: fifo_pc.splits\<close>)
qed

section \<open>Runs with clients\<close>

text \<open>
  A state of a run has the items sent and received so far, and the number of items that arrived when
  the buffer was full.
\<close>

record ('c, 'a) fifo_use =
  fu_sys :: "('c, 'a) fifo_state"
  fu_sent :: "'a list"
  fu_received :: "'a list"
  fu_overflows :: nat

definition sent_by :: "'a fifo_comm \<Rightarrow> 'a list" where
  "sent_by e = (case e of Recv v \<Rightarrow> [v] | _ \<Rightarrow> [])"

definition overflows :: "('c, 'a) fifo_state \<Rightarrow> 'a fifo_comm \<Rightarrow> bool" where
  "overflows s e \<longleftrightarrow> (case e of Recv v \<Rightarrow> ff_count (fs_fifo s) = ff_size (fs_fifo s) | _ \<Rightarrow> False)"

text \<open>The goroutine communicates, or a client closes the channel, calls \<^verbatim>\<open>Stop\<close> or cancels the context.\<close>

inductive fifo_use_step :: "'a \<Rightarrow> ('c, 'a) fifo_use \<Rightarrow> ('c, 'a) fifo_use \<Rightarrow> bool" for z where
  comm: "fifo_step z (fu_sys u) e = Some (Inr (v, s')) \<Longrightarrow> fifo_use_step z u
     (u\<lparr>fu_sys := s', fu_sent := fu_sent u @ sent_by e, fu_received := fu_received u @ (case v of None \<Rightarrow> [] | Some x \<Rightarrow> [x]),
        fu_overflows := fu_overflows u + (if overflows (fu_sys u) e then 1 else 0)\<rparr>)"
| close: "close_in (fu_sys u) = Inr s' \<Longrightarrow> fifo_use_step z u (u\<lparr>fu_sys := s'\<rparr>)"
| stop: "Stop_close (fu_sys u) = Inr s' \<Longrightarrow> fifo_use_step z u (u\<lparr>fu_sys := s'\<rparr>)"
| cancel: "fifo_use_step z u (u\<lparr>fu_sys := (fu_sys u)\<lparr>fs_ctx := True\<rparr>\<rparr>)"

inductive_set fifo_uses :: "'a \<Rightarrow> ('c, 'a) fifo_state \<Rightarrow> ('c, 'a) fifo_use set" for z s where
  init: "\<lparr>fu_sys = s, fu_sent = [], fu_received = [], fu_overflows = 0\<rparr> \<in> fifo_uses z s"
| step: "u \<in> fifo_uses z s \<Longrightarrow> fifo_use_step z u u' \<Longrightarrow> u' \<in> fifo_uses z s"

text \<open>Without scans the buffer holds the newest items, and every item is received, held, or was dropped on an overflow.\<close>

definition fu_inv :: "'a \<Rightarrow> ('c, 'a) fifo_use \<Rightarrow> 'a list \<Rightarrow> bool" where
  "fu_inv z u xs \<longleftrightarrow> fs_inv z (fu_sys u) xs \<and> in_order (fu_sent u) (fu_received u) xs \<and>
     (\<not> ff_scanCh (fs_fifo (fu_sys u)) \<longrightarrow> suffix xs (fu_sent u) \<and>
        length (fu_sent u) = length (fu_received u) + length xs + fu_overflows u)"

lemma same_fifo_scanCh: "same_fifo b b' \<Longrightarrow> ff_scanCh b' = ff_scanCh b"
  by (simp add: same_fifo_def ff_scanCh_def)

lemma fu_inv_comm:
  assumes inv: "fu_inv z u xs" and step: "fifo_step z (fu_sys u) e = Some (Inr (v, s'))"
  shows "fu_inv z (u\<lparr>fu_sys := s', fu_sent := fu_sent u @ sent_by e, fu_received := fu_received u @ (case v of None \<Rightarrow> [] | Some x \<Rightarrow> [x]),
        fu_overflows := fu_overflows u + (if overflows (fu_sys u) e then 1 else 0)\<rparr>) (comm_items (fu_sys u) xs e)"
proof -
  let ?b = "fs_fifo (fu_sys u)"
  have fs: "fs_inv z (fu_sys u) xs" and ord: "in_order (fu_sent u) (fu_received u) xs" using inv by (simp_all add: fu_inv_def)
  have en: "comm_enabled (fu_sys u) xs e" using fifo_step_enabled [OF fs, of e] step by simp
  from fifo_step_effect [OF fs en] step have v: "v = comm_item xs e" and fs': "fs_inv z s' (comm_items (fu_sys u) xs e)"
    and sm: "same_fifo ?b (fs_fifo s')" by auto
  have rep: "ff_rep z ?b xs" using fs by (simp add: fs_inv_def)
  show ?thesis
  proof (cases e)
    case (Recv w)
    have "in_order (fu_sent u @ [w]) (fu_received u) (arrive (nat (ff_size ?b)) xs w)"
      using ring.put_in_order [OF rep ord] by blast
    moreover have "overflows (fu_sys u) e \<longleftrightarrow> length xs = nat (ff_size ?b)" using ff_rep_count [OF rep] Recv by (auto simp: overflows_def)
    moreover have "length xs = nat (ff_size ?b) \<Longrightarrow> Suc (length (tl xs)) = length xs \<and> xs \<noteq> []" using ff_rep_count [OF rep] by auto
    ultimately show ?thesis
      using Recv v fs' inv ring.put_suffix [OF rep, of "fu_sent u" w]
      by (auto simp: fu_inv_def sent_by_def same_fifo_scanCh [OF sm] arrive_def)
  next
    case Deliver
    then obtain y ys where xs: "xs = y # ys" using en by (cases xs) (auto simp: comm_enabled_def)
    then show ?thesis using Deliver v fs' inv ring.get_in_order [OF rep [unfolded xs] ord [unfolded xs]]
      by (auto simp: fu_inv_def sent_by_def same_fifo_scanCh [OF sm] overflows_def dest: suffix_ConsD)
  next
    case ScanTick
    then obtain rm where "ff_scanCh ?b" "ff_scanRemove ?b = Some rm" using en by (auto simp: comm_enabled_def ff_scanCh_def)
    moreover have "in_order (fu_sent u) (fu_received u) (fst (kept_items rm (fs_client (fu_sys u)) xs))"
      using ord kept_items_subseq [of rm _ xs] subseq_order.trans [OF list_emb_append_mono [OF subseq_order.refl]] by (fastforce simp: in_order_def)
    ultimately show ?thesis using ScanTick v fs' inv by (simp add: fu_inv_def sent_by_def same_fifo_scanCh [OF sm])
  qed (use v fs' inv in \<open>simp_all add: fu_inv_def sent_by_def same_fifo_scanCh [OF sm] overflows_def\<close>)
qed

lemma fu_inv_step:
  assumes "fifo_use_step z u u'" "fu_inv z u xs"
  shows "\<exists>xs'. fu_inv z u' xs'"
  using assms(1)
proof cases
  case (comm e v s')
  then show ?thesis using fu_inv_comm [OF assms(2)] by blast
qed (use assms(2) in \<open>auto simp: fu_inv_def fs_inv_def ff_rep_def close_in_def Stop_close_def ff_scanCh_def split: if_splits\<close>)

lemma NewFIFO_ok:
  obtains s where "NewFIFO z capacity opts c = Inr s" "fs_inv z s []" "fs_pc s = Looping"
    "ff_size (fs_fifo s) = (if capacity \<le> 0 then 100 else capacity)"
proof -
  obtain b where "newFIFO z capacity opts = Inr b" "ff_rep z b []" "ff_size b = (if capacity \<le> 0 then 100 else capacity)" "\<not> ff_out b"
    using newFIFO_rep [of z capacity opts] by metis
  then show ?thesis using that [of "\<lparr>fs_fifo = b, fs_pc = Looping, fs_ctx = False, fs_client = c\<rparr>"] by (simp add: NewFIFO_def fs_inv_def)
qed

lemma fifo_uses_inv:
  assumes "NewFIFO z capacity opts c = Inr s" "u \<in> fifo_uses z s"
  shows "\<exists>xs. fu_inv z u xs"
  using assms(2)
proof induction
  case init
  obtain s' where "NewFIFO z capacity opts c = Inr s'" "fs_inv z s' []" by (rule NewFIFO_ok [of z capacity opts c])
  then have "fs_inv z s []" using assms(1) by simp
  then show ?case by (intro exI [of _ "[]"]) (simp add: fu_inv_def in_order_def)
next
  case (step u u')
  then show ?case by (elim exE) (rule fu_inv_step)
qed

text \<open>A sequence of communications: the items they deliver and the state they lead to.\<close>

fun fifo_comms :: "'a \<Rightarrow> ('c, 'a) fifo_state \<Rightarrow> 'a fifo_comm list \<Rightarrow> ('a list \<times> ('c, 'a) fifo_state) res option" where
  "fifo_comms z s [] = Some (Inr ([], s))"
| "fifo_comms z s (e # es) =
     (case fifo_step z s e of
        None \<Rightarrow> None
      | Some (Inl x) \<Rightarrow> Some (Inl x)
      | Some (Inr (v, s')) \<Rightarrow>
          map_option (\<lambda>r. rbind r (\<lambda>(vs, t). Inr ((case v of None \<Rightarrow> vs | Some x \<Rightarrow> x # vs), t))) (fifo_comms z s' es))"

lemma fifo_comms_uses:
  assumes "fifo_comms z s es = Some (Inr (vs, t))" "u \<in> fifo_uses z s0" "fu_sys u = s"
  shows "\<exists>u' \<in> fifo_uses z s0. fu_sys u' = t \<and> fu_received u' = fu_received u @ vs \<and> fu_sent u' = fu_sent u @ concat (map sent_by es)"
  using assms
proof (induction es arbitrary: s u vs)
  case (Cons e es)
  from Cons.prems(1) obtain v s' ws where st: "fifo_step z s e = Some (Inr (v, s'))" "fifo_comms z s' es = Some (Inr (ws, t))"
    "vs = (case v of None \<Rightarrow> ws | Some x \<Rightarrow> x # ws)"
    by (auto simp: rbind_eq_Inr split: option.splits sum.splits prod.splits)
  let ?u = "u\<lparr>fu_sys := s', fu_sent := fu_sent u @ sent_by e, fu_received := fu_received u @ (case v of None \<Rightarrow> [] | Some x \<Rightarrow> [x]),
        fu_overflows := fu_overflows u + (if overflows (fu_sys u) e then 1 else 0)\<rparr>"
  have "?u \<in> fifo_uses z s0" using Cons.prems(2,3) st(1) by (intro fifo_uses.step [OF Cons.prems(2)] fifo_use_step.comm) simp
  from Cons.IH [OF st(2) this] show ?case using st(3) by (cases v) simp_all
qed auto

lemma fifo_step_returned: "fs_pc s = Returned \<Longrightarrow> fifo_step z s e = None"
  by (simp add: fifo_step_def run_select_def)

lemma fifo_comms_returned:
  "fs_pc s = Returned \<Longrightarrow> fifo_comms z s es = Some r \<Longrightarrow> es = [] \<and> r = Inr ([], s)"
  by (cases es) (auto simp: fifo_step_returned)

lemma fifo_comms_drain:
  assumes "fs_inv z s xs" "ff_in (fs_fifo s)" "\<not> ff_doneCh (fs_fifo s)" "\<not> fs_ctx s" "ScanTick \<notin> set es" "fifo_comms z s es = Some r"
  shows "\<exists>vs s' ys. r = Inr (vs, s') \<and> xs = vs @ ys \<and> fs_inv z s' ys \<and>
    length es + (if fs_pc s' = Looping then 1 else 0) = length vs + (if fs_pc s = Looping then 1 else 0) \<and>
    (fs_pc s' = Returned \<longrightarrow> fs_pc s = Returned \<or> ys = [] \<and> ff_out (fs_fifo s')) \<and>
    ff_in (fs_fifo s')"
  using assms
proof (induction es arbitrary: s xs r)
  case (Cons e es)
  from Cons.prems(6) have "fifo_step z s e \<noteq> None" by (auto split: option.splits)
  then have en: "comm_enabled s xs e" using fifo_step_enabled [OF Cons.prems(1)] by simp
  from fifo_step_effect [OF Cons.prems(1) this] obtain s' where
    s': "fifo_step z s e = Some (Inr (comm_item xs e, s'))" "fs_inv z s' (comm_items s xs e)" "fs_pc s' = comm_pc s xs e"
    "fs_ctx s' = fs_ctx s" "same_fifo (fs_fifo s) (fs_fifo s')" "ff_out (fs_fifo s') \<longleftrightarrow> fs_pc s' = Returned \<and> (e = RecvClosed \<or> e = Deliver)"
    by blast
  obtain q where q: "fifo_comms z s' es = Some q" using Cons.prems(6) s'(1) by (cases "fifo_comms z s' es") auto
  have "ff_in (fs_fifo s')" "\<not> ff_doneCh (fs_fifo s')" "\<not> fs_ctx s'" "ScanTick \<notin> set es" using Cons.prems s'(4,5) by (auto simp: same_fifo_def)
  from Cons.IH [OF s'(2) this q] obtain vs t ys where ih: "q = Inr (vs, t)" "comm_items s xs e = vs @ ys" "fs_inv z t ys"
    "length es + (if fs_pc t = Looping then 1 else 0) = length vs + (if fs_pc s' = Looping then 1 else 0)"
    "fs_pc t = Returned \<longrightarrow> fs_pc s' = Returned \<or> ys = [] \<and> ff_out (fs_fifo t)" "ff_in (fs_fifo t)" by blast
  have e: "e = RecvClosed \<and> fs_pc s = Looping \<or> e = Deliver \<and> xs \<noteq> [] \<and> fs_pc s \<noteq> Returned"
    using en Cons.prems(2-5) by (cases e) (auto simp: comm_enabled_def)
  have fin: "fs_pc s' = Returned \<Longrightarrow> vs = [] \<and> ys = [] \<and> ff_out (fs_fifo t)"
  proof -
    assume ret: "fs_pc s' = Returned"
    then have "comm_items s xs e = []" using e s'(3) by (auto split: if_splits)
    moreover have "t = s'" using fifo_comms_returned [OF ret q] ih(1) by simp
    moreover have "ff_out (fs_fifo s')" using ret s'(6) e by blast
    ultimately show "vs = [] \<and> ys = [] \<and> ff_out (fs_fifo t)" using ih(2) by simp
  qed
  have r: "r = Inr ((case comm_item xs e of None \<Rightarrow> vs | Some x \<Rightarrow> x # vs), t)"
    using Cons.prems(6) s'(1) q ih(1) by simp
  from e show ?case
  proof (elim disjE conjE)
    assume e: "e = RecvClosed" "fs_pc s = Looping"
    have "fs_pc s' \<noteq> Looping" "xs = vs @ ys" using s'(3) e ih(2) by simp_all
    then show ?thesis using r e ih(3-6) fin by (intro exI [of _ vs] exI [of _ t] exI [of _ ys]) auto
  next
    assume d: "e = Deliver" "xs \<noteq> []" "fs_pc s \<noteq> Returned"
    then have "xs = (hd xs # vs) @ ys" using ih(2) by (cases xs) auto
    moreover have "fs_pc s' = Looping \<longleftrightarrow> fs_pc s = Looping" using s'(3) d by (cases "fs_pc s") auto
    moreover have "r = Inr (hd xs # vs, t)" using r d by simp
    ultimately show ?thesis using d ih(3-6) fin by (intro exI [of _ "hd xs # vs"] exI [of _ t] exI [of _ ys]) auto
  qed
next
  case (Nil s xs r)
  then show ?case by (intro exI [of _ "[]"] exI [of _ s] exI [of _ xs]) simp
qed

section \<open>Properties\<close>

text \<open>
  C38: in every run of a \<^verbatim>\<open>FIFO\<close> with its clients the goroutine never panics, the received items followed by the
  items in the buffer are a subsequence of the items sent, in their order and without duplicates, and the
  buffer holds at most its capacity. Without scans it holds the last items sent, and as long as it has not
  overflowed no item is lost.
\<close>

theorem fifo_delivers_in_order:
  assumes "NewFIFO z capacity opts c = Inr s" "u \<in> fifo_uses z s"
  shows "subseq (fu_received u @ ff_items (fs_fifo (fu_sys u))) (fu_sent u) \<and>
    int (length (ff_items (fs_fifo (fu_sys u)))) \<le> ff_size (fs_fifo (fu_sys u)) \<and>
    (\<forall>e x. fifo_step z (fu_sys u) e \<noteq> Some (Inl x)) \<and>
    (\<not> ff_scanCh (fs_fifo (fu_sys u)) \<longrightarrow> suffix (ff_items (fs_fifo (fu_sys u))) (fu_sent u) \<and>
       (fu_overflows u = 0 \<longrightarrow> fu_sent u = fu_received u @ ff_items (fs_fifo (fu_sys u))))"
proof -
  obtain xs where inv: "fu_inv z u xs" using fifo_uses_inv [OF assms] by blast
  then have rep: "ff_rep z (fs_fifo (fu_sys u)) xs" and fs: "fs_inv z (fu_sys u) xs" by (simp_all add: fu_inv_def fs_inv_def)
  have "fifo_step z (fu_sys u) e \<noteq> Some (Inl x)" for e x
    using fifo_step_enabled [OF fs, of e] fifo_step_effect [OF fs, of e] by (cases "comm_enabled (fu_sys u) xs e") auto
  moreover have "fu_sent u = fu_received u @ xs" if "\<not> ff_scanCh (fs_fifo (fu_sys u))" "fu_overflows u = 0"
    using that inv subseq_same_length [of "fu_received u @ xs" "fu_sent u"] by (simp add: fu_inv_def in_order_def)
  ultimately show ?thesis using inv ff_rep_items [OF rep] ff_rep_count [OF rep] by (auto simp: fu_inv_def in_order_def)
qed

theorem fifo_delivers_in_order_witness:
  "\<exists>s. NewFIFO (0::nat) 2 [] () = Inr s \<and>
     (\<exists>u \<in> fifo_uses 0 s. fu_sent u = [1, 2, 3, 4] \<and> fu_received u = [1, 3] \<and> subseq ([1, 3] @ ff_items (fs_fifo (fu_sys u))) [1, 2, 3, 4])"
proof -
  obtain s where s: "NewFIFO (0::nat) 2 [] () = Inr s" using NewFIFO_ok [of 0 2 "[]" "()"] by blast
  then have "fifo_comms 0 s [Recv 1, Deliver, Recv 2, Recv 3, Recv 4, Deliver] =
      Some (Inr ([1, 3], \<lparr>fs_fifo = \<lparr>ff_in = False, ff_out = False, ff_doneCh = False, ff_size = 2, ff_buf = [0, 4], ff_head = 1, ff_tail = 0,
        ff_count = 1, ff_scanInterval = 0, ff_scanRemove = None\<rparr>, fs_pc = Looping, fs_ctx = False, fs_client = ()\<rparr>))"
    by (auto simp: NewFIFO_def newFIFO_def DefaultFIFOSize_def sl_make_def fifo_step_def run_select_def ff_push_def ff_pop_def ff_front_def
        sl_set_def sl_get_def ff_wrap_def numeral_2_eq_2)
  from fifo_comms_uses [OF this fifo_uses.init [of s 0]] obtain u where u: "u \<in> fifo_uses 0 s" "fu_sent u = [1, 2, 3, 4]" "fu_received u = [1, 3]"
    by (auto simp: sent_by_def)
  then show ?thesis using s fifo_delivers_in_order [OF s u(1)] by auto
qed

text \<open>
  C39: when the channel \<^verbatim>\<open>In\<close> has been closed, and the queue is neither stopped nor cancelled, every run of the
  goroutine without scans ends after at most one communication more than there are items in the buffer.
  Until it has returned it can receive the end of the input or deliver an item; what it delivers is the
  items in order, and when it has returned it has delivered all of them and closed \<^verbatim>\<open>Out\<close>.
\<close>

theorem fifo_drains:
  assumes "NewFIFO z capacity opts c = Inr s0" "u \<in> fifo_uses z s0"
    and "ff_in (fs_fifo (fu_sys u))" "\<not> ff_doneCh (fs_fifo (fu_sys u))" "\<not> fs_ctx (fu_sys u)" "fs_pc (fu_sys u) \<noteq> Returned"
    and "fifo_comms z (fu_sys u) es = Some r" "ScanTick \<notin> set es"
  shows "\<exists>vs s'. r = Inr (vs, s') \<and> length es \<le> Suc (length (ff_items (fs_fifo (fu_sys u)))) \<and>
    prefix vs (ff_items (fs_fifo (fu_sys u))) \<and>
    (fs_pc s' = Returned \<longrightarrow> vs = ff_items (fs_fifo (fu_sys u)) \<and> ff_out (fs_fifo s')) \<and>
    (fs_pc s' \<noteq> Returned \<longrightarrow> fifo_step z s' RecvClosed \<noteq> None \<or> fifo_step z s' Deliver \<noteq> None)"
proof -
  obtain xs where inv: "fs_inv z (fu_sys u) xs" using fifo_uses_inv [OF assms(1,2)] by (auto simp: fu_inv_def)
  then have it: "ff_items (fs_fifo (fu_sys u)) = xs" using ff_rep_items by (auto simp: fs_inv_def)
  obtain vs s' ys where r: "r = Inr (vs, s')" "xs = vs @ ys" "fs_inv z s' ys"
    "length es + (if fs_pc s' = Looping then 1 else 0) = length vs + (if fs_pc (fu_sys u) = Looping then 1 else 0)"
    "fs_pc s' = Returned \<longrightarrow> ys = [] \<and> ff_out (fs_fifo s')" "ff_in (fs_fifo s')"
    using fifo_comms_drain [OF inv assms(3-5,8,7)] assms(6) by blast
  have "fifo_step z s' RecvClosed \<noteq> None \<or> fifo_step z s' Deliver \<noteq> None" if "fs_pc s' \<noteq> Returned"
    using that r(3,6) fifo_step_enabled [OF r(3)] by (cases "fs_pc s'") (auto simp: comm_enabled_def fs_inv_def)
  moreover have "length es \<le> Suc (length vs)" using r(4) by (auto split: if_splits)
  ultimately show ?thesis using r(1,2,5) it by auto
qed

theorem fifo_drains_witness:
  "\<exists>s u vs s'. NewFIFO (0::nat) 2 [] () = Inr s \<and> u \<in> fifo_uses 0 s \<and>
     fifo_comms 0 (fu_sys u) [Deliver, RecvClosed, Deliver] = Some (Inr (vs, s')) \<and> prefix vs [7, 8] \<and> length vs = 2"
proof -
  obtain s where s: "NewFIFO (0::nat) 2 [] () = Inr s" using NewFIFO_ok [of 0 2 "[]" "()"] by blast
  let ?s = "\<lambda>b. \<lparr>fs_fifo = \<lparr>ff_in = b, ff_out = False, ff_doneCh = False, ff_size = 2, ff_buf = [7, 8], ff_head = 0, ff_tail = 0,
        ff_count = 2, ff_scanInterval = 0, ff_scanRemove = None\<rparr>, fs_pc = Looping, fs_ctx = False, fs_client = ()\<rparr>"
  have "fifo_comms 0 s [Recv 7, Recv 8] = Some (Inr ([], ?s False))"
    using s by (auto simp: NewFIFO_def newFIFO_def DefaultFIFOSize_def sl_make_def fifo_step_def run_select_def ff_push_def
        sl_set_def sl_get_def ff_wrap_def numeral_2_eq_2)
  from fifo_comms_uses [OF this fifo_uses.init [of s 0]] obtain u where u: "u \<in> fifo_uses 0 s" "fu_sys u = ?s False" by auto
  let ?u = "u\<lparr>fu_sys := ?s True\<rparr>"
  have "?u \<in> fifo_uses 0 s" using u by (intro fifo_uses.step [OF u(1)] fifo_use_step.close) (simp add: close_in_def)
  moreover obtain t where t: "fifo_comms 0 (fu_sys ?u) [Deliver, RecvClosed, Deliver] = Some (Inr ([7, 8], t))"
    by (simp add: fifo_step_def run_select_def ff_pop_def ff_front_def flush_next_def close_out_def sl_set_def sl_get_def ff_wrap_def numeral_2_eq_2)
  moreover from calculation have "prefix [7, 8] (ff_items (fs_fifo (fu_sys ?u)))"
    using fifo_drains [OF s calculation(1) _ _ _ _ t] by simp
  ultimately show ?thesis using s by (intro exI [of _ s] exI [of _ ?u] exI [of _ "[7, 8]"] exI [of _ t]) (simp add: ff_items_def)
qed

end
