(* ===== verification/Pub_Sub.thy ===== *)
theory Pub_Sub
  imports Fifo_Runs
begin

text \<open>
  Publishing to subscribers, \<^verbatim>\<open>sync/patterns/pubsub.go\<close>, a client of the dropping queue: every subscriber has one.
  The calls of \<^verbatim>\<open>Publish\<close> run concurrently under a shared lock, the other operations exclude them. No
  interleaving panics, a publisher never waits for a slow subscriber, and every subscriber is sent every
  item that is published while it is subscribed, once.
\<close>

section \<open>Model\<close>

definition DefaultPubSubCapacity :: int where
  "DefaultPubSubCapacity = 100"

text \<open>
  A call of \<^verbatim>\<open>Publish\<close> visits the subscribers under the read lock, or is about to remove the dead ones, or has
  returned. The first list has the subscribers at the start of the call, the others those to be visited
  and those found dead.
\<close>

datatype 'a publish =
    Sending 'a "nat list" "nat list" "nat list"
  | Pruning 'a "nat list" "nat list"
  | Published 'a "nat list" "nat list"

text \<open>
  Subscribers are numbered in the order of their creation and have the run of their queue, whose goroutine
  closes the channel \<^verbatim>\<open>alive\<close> when it returns. The map of subscribers is \<open>None\<close> when it is nil. The log has the
  sends that have taken place, as pairs of a call and a subscriber.
\<close>

record 'a PubSub =
  ps_closed :: bool
  ps_subscribers :: "nat list option"
  ps_subs :: "(unit, 'a) fifo_use list"
  ps_calls :: "'a publish list"
  ps_log :: "(nat \<times> nat) list"

definition ps_New :: "'a PubSub" where
  "ps_New = \<lparr>ps_closed = False, ps_subscribers = Some [], ps_subs = [], ps_calls = [], ps_log = []\<rparr>"

definition sub_alive :: "(unit, 'a) fifo_use \<Rightarrow> bool" where
  "sub_alive u \<longleftrightarrow> fs_pc (fu_sys u) \<noteq> Returned"

definition fu_close_in :: "(unit, 'a) fifo_use \<Rightarrow> (unit, 'a) fifo_use res" where
  "fu_close_in u = rbind (close_in (fu_sys u)) (\<lambda>s. Inr (u\<lparr>fu_sys := s\<rparr>))"

definition fu_comm :: "'a \<Rightarrow> (unit, 'a) fifo_use \<Rightarrow> 'a fifo_comm \<Rightarrow> (unit, 'a) fifo_use res option" where
  "fu_comm z u e = map_option (\<lambda>r. rbind r (\<lambda>(v, s'). Inr
     (u\<lparr>fu_sys := s', fu_sent := fu_sent u @ sent_by e, fu_received := fu_received u @ (case v of None \<Rightarrow> [] | Some x \<Rightarrow> [x]),
        fu_overflows := fu_overflows u + (if overflows (fu_sys u) e then 1 else 0)\<rparr>))) (fifo_step z (fu_sys u) e)"

text \<open>The lock is free for writing when no call is sending.\<close>

definition ps_unlocked :: "'a PubSub \<Rightarrow> bool" where
  "ps_unlocked ps \<longleftrightarrow> (\<forall>c \<in> set (ps_calls ps). case c of Sending _ _ _ _ \<Rightarrow> False | _ \<Rightarrow> True)"

definition ps_insert :: "'a PubSub \<Rightarrow> nat \<Rightarrow> 'a PubSub res" where
  "ps_insert ps i = (case ps_subscribers ps of None \<Rightarrow> Inl (Panic ''assignment to entry in nil map'')
     | Some m \<Rightarrow> Inr (ps\<lparr>ps_subscribers := Some (if i \<in> set m then m else m @ [i])\<rparr>))"

definition ps_delete :: "'a PubSub \<Rightarrow> nat list \<Rightarrow> 'a PubSub" where
  "ps_delete ps ds = ps\<lparr>ps_subscribers := map_option (filter (\<lambda>i. i \<notin> set ds)) (ps_subscribers ps)\<rparr>"

definition ps_members :: "'a PubSub \<Rightarrow> nat list" where
  "ps_members ps = (case ps_subscribers ps of None \<Rightarrow> [] | Some m \<Rightarrow> m)"

definition Subscribe :: "'a \<Rightarrow> 'a PubSub \<Rightarrow> int \<Rightarrow> 'a PubSub res" where
  "Subscribe z ps capacity =
     (let cap = (if capacity \<le> 0 then DefaultPubSubCapacity else capacity); i = length (ps_subs ps)
      in rbind (NewFIFO z cap [] ()) (\<lambda>s. let u = \<lparr>fu_sys = s, fu_sent = [], fu_received = [], fu_overflows = 0\<rparr> in
         if ps_closed ps
         then rbind (fu_close_in u) (\<lambda>u'. Inr (ps\<lparr>ps_subs := ps_subs ps @ [u']\<rparr>))
         else ps_insert (ps\<lparr>ps_subs := ps_subs ps @ [u]\<rparr>) i))"

definition close_sub :: "nat \<Rightarrow> 'a PubSub \<Rightarrow> 'a PubSub res" where
  "close_sub i ps = rbind (fu_close_in (ps_subs ps ! i)) (\<lambda>u. Inr (ps\<lparr>ps_subs := (ps_subs ps)[i := u]\<rparr>))"

definition Unsubscribe :: "'a PubSub \<Rightarrow> nat \<Rightarrow> 'a PubSub res" where
  "Unsubscribe ps i = (if i \<in> set (ps_members ps) then close_sub i (ps_delete ps [i]) else Inr ps)"

definition ps_Close :: "'a PubSub \<Rightarrow> 'a PubSub res" where
  "ps_Close ps =
     (if ps_closed ps then Inr ps
      else rbind (rfold close_sub (ps_members ps) (ps\<lparr>ps_closed := True\<rparr>)) (\<lambda>ps'. Inr (ps'\<lparr>ps_subscribers := None\<rparr>)))"

text \<open>The steps of \<^verbatim>\<open>Publish\<close>: taking the read lock, one iteration of the loop, releasing the lock, and removing the dead.\<close>

definition publish_start :: "'a PubSub \<Rightarrow> 'a \<Rightarrow> 'a PubSub" where
  "publish_start ps v = ps\<lparr>ps_calls := ps_calls ps @
     [if ps_closed ps then Published v [] [] else Sending v (ps_members ps) (ps_members ps) []]\<rparr>"

definition publish_visit :: "'a \<Rightarrow> 'a PubSub \<Rightarrow> nat \<Rightarrow> nat \<Rightarrow> 'a PubSub res option" where
  "publish_visit z ps k i =
     (case ps_calls ps ! k of
        Sending v all todo dead \<Rightarrow>
          if i \<notin> set todo then None
          else if ff_in (fs_fifo (fu_sys (ps_subs ps ! i))) then Some (Inl (Panic ''send on closed channel''))
          else if sub_alive (ps_subs ps ! i)
          then map_option (\<lambda>r. rbind r (\<lambda>u. Inr (ps\<lparr>ps_subs := (ps_subs ps)[i := u], ps_log := ps_log ps @ [(k, i)],
                 ps_calls := (ps_calls ps)[k := Sending v all (remove1 i todo) dead]\<rparr>))) (fu_comm z (ps_subs ps ! i) (Recv v))
          else Some (Inr (ps\<lparr>ps_calls := (ps_calls ps)[k := Sending v all (remove1 i todo) (dead @ [i])]\<rparr>))
      | _ \<Rightarrow> None)"

definition publish_unlock :: "'a PubSub \<Rightarrow> nat \<Rightarrow> 'a PubSub option" where
  "publish_unlock ps k =
     (case ps_calls ps ! k of
        Sending v all [] dead \<Rightarrow>
          Some (ps\<lparr>ps_calls := (ps_calls ps)[k := if dead \<noteq> [] then Pruning v all dead else Published v all dead]\<rparr>)
      | _ \<Rightarrow> None)"

definition publish_prune :: "'a PubSub \<Rightarrow> nat \<Rightarrow> 'a PubSub option" where
  "publish_prune ps k =
     (case ps_calls ps ! k of
        Pruning v all dead \<Rightarrow>
          if ps_unlocked ps then Some ((ps_delete ps dead)\<lparr>ps_calls := (ps_calls ps)[k := Published v all dead]\<rparr>) else None
      | _ \<Rightarrow> None)"

text \<open>
  The steps of a run: the operations, the steps of the calls of \<^verbatim>\<open>Publish\<close>, the goroutines of the subscribers, which
  deliver items to the clients and see the end of their input, and the cancellation of a subscriber's context.
\<close>

datatype 'a ps_event =
    DoSubscribe int | DoUnsubscribe nat | DoClose | DoPublish 'a | Visit nat nat | RUnlock nat | Prune nat
  | Work nat "'a fifo_comm" | CancelSub nat

fun ps_step :: "'a \<Rightarrow> 'a PubSub \<Rightarrow> 'a ps_event \<Rightarrow> 'a PubSub res option" where
  "ps_step z ps (DoSubscribe n) = (if ps_unlocked ps then Some (Subscribe z ps n) else None)"
| "ps_step z ps (DoUnsubscribe i) = (if ps_unlocked ps \<and> i < length (ps_subs ps) then Some (Unsubscribe ps i) else None)"
| "ps_step z ps DoClose = (if ps_unlocked ps then Some (ps_Close ps) else None)"
| "ps_step z ps (DoPublish v) = Some (Inr (publish_start ps v))"
| "ps_step z ps (Visit k i) = (if k < length (ps_calls ps) then publish_visit z ps k i else None)"
| "ps_step z ps (RUnlock k) = (if k < length (ps_calls ps) then map_option Inr (publish_unlock ps k) else None)"
| "ps_step z ps (Prune k) = (if k < length (ps_calls ps) then map_option Inr (publish_prune ps k) else None)"
| "ps_step z ps (Work i e) =
     (if i < length (ps_subs ps) \<and> sent_by e = []
      then map_option (\<lambda>r. rbind r (\<lambda>u. Inr (ps\<lparr>ps_subs := (ps_subs ps)[i := u]\<rparr>))) (fu_comm z (ps_subs ps ! i) e) else None)"
| "ps_step z ps (CancelSub i) =
     (if i < length (ps_subs ps)
      then Some (Inr (ps\<lparr>ps_subs := (ps_subs ps)[i := (ps_subs ps ! i)\<lparr>fu_sys := (fu_sys (ps_subs ps ! i))\<lparr>fs_ctx := True\<rparr>\<rparr>]\<rparr>)) else None)"

fun ps_run :: "'a \<Rightarrow> 'a PubSub \<Rightarrow> 'a ps_event list \<Rightarrow> 'a PubSub res option" where
  "ps_run z ps [] = Some (Inr ps)"
| "ps_run z ps (e # es) =
     (case ps_step z ps e of None \<Rightarrow> None | Some (Inl x) \<Rightarrow> Some (Inl x) | Some (Inr ps') \<Rightarrow> ps_run z ps' es)"

section \<open>Subscribers\<close>

text \<open>A subscriber is a queue in one of its runs; what its steps keep.\<close>

definition sub_ok :: "'a \<Rightarrow> (unit, 'a) fifo_use \<Rightarrow> bool" where
  "sub_ok z u \<longleftrightarrow> (\<exists>n s. NewFIFO z n [] () = Inr s \<and> u \<in> fifo_uses z s)"

abbreviation sub_in :: "(unit, 'a) fifo_use \<Rightarrow> bool" where
  "sub_in u \<equiv> ff_in (fs_fifo (fu_sys u))"

lemma sub_ok_inv: "sub_ok z u \<Longrightarrow> \<exists>xs. fs_inv z (fu_sys u) xs"
  using fifo_uses_inv by (fastforce simp: sub_ok_def fu_inv_def)

lemma fu_comm_ok:
  assumes "sub_ok z u" "fu_comm z u e = Some r"
  shows "\<exists>u'. r = Inr u' \<and> sub_ok z u' \<and> sub_in u' = sub_in u \<and> sub_alive u \<and> fu_sent u' = fu_sent u @ sent_by e"
proof -
  obtain xs where xs: "fs_inv z (fu_sys u) xs" using sub_ok_inv [OF assms(1)] by blast
  have "fifo_step z (fu_sys u) e \<noteq> None" using assms(2) by (auto simp: fu_comm_def)
  then have "comm_enabled (fu_sys u) xs e" using fifo_step_enabled [OF xs] by simp
  from fifo_step_effect [OF xs this] obtain s' where
    s': "fifo_step z (fu_sys u) e = Some (Inr (comm_item xs e, s'))" "same_fifo (fs_fifo (fu_sys u)) (fs_fifo s')" by blast
  obtain n s where s: "NewFIFO z n [] () = Inr s" "u \<in> fifo_uses z s" using assms(1) by (auto simp: sub_ok_def)
  let ?u = "u\<lparr>fu_sys := s', fu_sent := fu_sent u @ sent_by e, fu_received := fu_received u @ (case comm_item xs e of None \<Rightarrow> [] | Some x \<Rightarrow> [x]),
        fu_overflows := fu_overflows u + (if overflows (fu_sys u) e then 1 else 0)\<rparr>"
  have "sub_ok z ?u" unfolding sub_ok_def using s(1) fifo_uses.step [OF s(2) fifo_use_step.comm [OF s'(1)]] by blast
  moreover have "r = Inr ?u" using s'(1) assms(2) by (simp add: fu_comm_def)
  moreover have "sub_alive u" using s'(1) fifo_step_returned [of "fu_sys u" z e] by (auto simp: sub_alive_def)
  ultimately show ?thesis using s'(2) by (simp add: same_fifo_def)
qed

lemma fu_comm_recv: "sub_ok z u \<Longrightarrow> sub_alive u \<Longrightarrow> \<not> sub_in u \<Longrightarrow> fu_comm z u (Recv v) \<noteq> None"
proof -
  assume u: "sub_ok z u" "sub_alive u" "\<not> sub_in u"
  obtain xs where xs: "fs_inv z (fu_sys u) xs" using sub_ok_inv [OF u(1)] by blast
  have "fs_pc (fu_sys u) = Looping" using xs u(2,3) by (cases "fs_pc (fu_sys u)") (auto simp: fs_inv_def sub_alive_def)
  then have "comm_enabled (fu_sys u) xs (Recv v)" using u(3) by (simp add: comm_enabled_def)
  then show ?thesis using fifo_step_enabled [OF xs, of "Recv v"] by (auto simp: fu_comm_def)
qed

lemma fu_close_in_ok:
  assumes "sub_ok z u" "\<not> sub_in u"
  shows "\<exists>u'. fu_close_in u = Inr u' \<and> sub_ok z u' \<and> sub_alive u' = sub_alive u \<and> fu_sent u' = fu_sent u"
proof -
  obtain n s where s: "NewFIFO z n [] () = Inr s" "u \<in> fifo_uses z s" using assms(1) by (auto simp: sub_ok_def)
  obtain s' where s': "close_in (fu_sys u) = Inr s'" "fs_pc s' = fs_pc (fu_sys u)" using assms(2) by (auto simp: close_in_def)
  have "u\<lparr>fu_sys := s'\<rparr> \<in> fifo_uses z s" using fifo_uses.step [OF s(2) fifo_use_step.close [OF s'(1)]] .
  then show ?thesis using s(1) s' by (auto simp: fu_close_in_def sub_ok_def sub_alive_def)
qed

lemma sub_ok_cancel: "sub_ok z u \<Longrightarrow> sub_ok z (u\<lparr>fu_sys := (fu_sys u)\<lparr>fs_ctx := True\<rparr>\<rparr>)"
  by (auto simp: sub_ok_def intro: fifo_uses.step [OF _ fifo_use_step.cancel])

lemma new_sub_ok:
  fixes z :: 'a
  obtains u where "NewFIFO z n [] () = Inr (fu_sys u)" "sub_ok z u" "\<not> sub_in u" "fu_sent u = []" "u = \<lparr>fu_sys = fu_sys u, fu_sent = [], fu_received = [], fu_overflows = 0\<rparr>"
proof -
  obtain b :: "(unit, 'a) FIFO" where b: "newFIFO z n [] = Inr b" "\<not> ff_in b" using newFIFO_rep [of z n "[]"] by metis
  let ?u = "\<lparr>fu_sys = \<lparr>fs_fifo = b, fs_pc = Looping, fs_ctx = False, fs_client = ()\<rparr>, fu_sent = [], fu_received = [], fu_overflows = 0\<rparr>"
  have "NewFIFO z n [] () = Inr (fu_sys ?u)" using b(1) by (simp add: NewFIFO_def)
  moreover have "sub_ok z ?u" unfolding sub_ok_def using calculation fifo_uses.init by fastforce
  ultimately show ?thesis using that [of ?u] b(2) by simp
qed

section \<open>The invariant\<close>

fun call_item :: "'a publish \<Rightarrow> 'a" where
  "call_item (Sending v all todo dead) = v" | "call_item (Pruning v all dead) = v" | "call_item (Published v all dead) = v"

fun call_all :: "'a publish \<Rightarrow> nat list" where
  "call_all (Sending v all todo dead) = all" | "call_all (Pruning v all dead) = all" | "call_all (Published v all dead) = all"

fun call_todo :: "'a publish \<Rightarrow> nat list" where
  "call_todo (Sending v all todo dead) = todo" | "call_todo _ = []"

fun call_dead :: "'a publish \<Rightarrow> nat list" where
  "call_dead (Sending v all todo dead) = dead" | "call_dead (Pruning v all dead) = dead" | "call_dead (Published v all dead) = dead"

fun call_sending :: "'a publish \<Rightarrow> bool" where
  "call_sending (Sending v all todo dead) = True" | "call_sending _ = False"

definition call_ok :: "'a PubSub \<Rightarrow> nat \<Rightarrow> 'a publish \<Rightarrow> bool" where
  "call_ok ps k c \<longleftrightarrow> distinct (call_todo c) \<and> set (call_todo c) \<inter> set (call_dead c) = {} \<and>
     set (call_all c) = set (call_todo c) \<union> set (call_dead c) \<union> {i. (k, i) \<in> set (ps_log ps)} \<and>
     (\<forall>i \<in> set (call_todo c) \<union> set (call_dead c). (k, i) \<notin> set (ps_log ps)) \<and>
     (\<forall>i \<in> set (call_dead c). i < length (ps_subs ps) \<and> \<not> sub_alive (ps_subs ps ! i)) \<and>
     (call_sending c \<longrightarrow> set (call_all c) \<subseteq> set (ps_members ps))"

definition members_ok :: "'a PubSub \<Rightarrow> bool" where
  "members_ok ps \<longleftrightarrow> distinct (ps_members ps) \<and> (\<forall>i \<in> set (ps_members ps). i < length (ps_subs ps) \<and> \<not> sub_in (ps_subs ps ! i)) \<and>
     (ps_closed ps \<longleftrightarrow> ps_subscribers ps = None)"

definition log_ok :: "'a PubSub \<Rightarrow> bool" where
  "log_ok ps \<longleftrightarrow> distinct (ps_log ps) \<and> (\<forall>(k, i) \<in> set (ps_log ps). k < length (ps_calls ps) \<and> i < length (ps_subs ps)) \<and>
     (\<forall>i < length (ps_subs ps). fu_sent (ps_subs ps ! i) =
        map (\<lambda>(k, _). call_item (ps_calls ps ! k)) (filter (\<lambda>(_, j). j = i) (ps_log ps)))"

definition ps_inv :: "'a \<Rightarrow> 'a PubSub \<Rightarrow> bool" where
  "ps_inv z ps \<longleftrightarrow> (\<forall>u \<in> set (ps_subs ps). sub_ok z u) \<and> members_ok ps \<and> log_ok ps \<and>
     (\<forall>k < length (ps_calls ps). call_ok ps k (ps_calls ps ! k))"

lemma ps_inv_New: "ps_inv z ps_New"
  by (simp add: ps_inv_def ps_New_def members_ok_def log_ok_def ps_members_def)

lemma ps_unlocked_iff: "ps_unlocked ps \<longleftrightarrow> (\<forall>k < length (ps_calls ps). \<not> call_sending (ps_calls ps ! k))"
proof -
  have "(case c of Sending _ _ _ _ \<Rightarrow> False | _ \<Rightarrow> True) \<longleftrightarrow> \<not> call_sending c" for c :: "'a publish" by (cases c) simp_all
  then show ?thesis by (simp add: ps_unlocked_def all_set_conv_all_nth)
qed

text \<open>Steps that leave the calls and the log as they are.\<close>

lemma call_ok_mono:
  assumes "call_ok ps k c" "ps_log ps' = ps_log ps"
    and "\<And>i. i < length (ps_subs ps) \<Longrightarrow> i < length (ps_subs ps') \<and> (sub_alive (ps_subs ps' ! i) \<longrightarrow> sub_alive (ps_subs ps ! i))"
    and "call_sending c \<Longrightarrow> set (ps_members ps) \<subseteq> set (ps_members ps')"
  shows "call_ok ps' k c"
  using assms(1,3,4) unfolding call_ok_def assms(2) by blast

lemma log_ok_mono:
  assumes "log_ok ps" "ps_log ps' = ps_log ps" "ps_calls ps' = ps_calls ps" "length (ps_subs ps) \<le> length (ps_subs ps')"
    and "\<And>i. i < length (ps_subs ps') \<Longrightarrow> fu_sent (ps_subs ps' ! i) = (if i < length (ps_subs ps) then fu_sent (ps_subs ps ! i) else [])"
  shows "log_ok ps'"
proof -
  have "filter (\<lambda>(_, j). j = i) (ps_log ps) = []" if "\<not> i < length (ps_subs ps)" for i
    using that assms(1) by (force simp: log_ok_def filter_empty_conv)
  then show ?thesis using assms by (fastforce simp: log_ok_def)
qed

lemma ps_inv_update:
  assumes inv: "ps_inv z ps" and i: "i < length (ps_subs ps)" and u: "sub_ok z u" "sub_alive u \<Longrightarrow> sub_alive (ps_subs ps ! i)"
    "fu_sent u = fu_sent (ps_subs ps ! i)" "sub_in u = sub_in (ps_subs ps ! i) \<or> i \<notin> set (ps_members ps)"
  shows "ps_inv z (ps\<lparr>ps_subs := (ps_subs ps)[i := u]\<rparr>)" (is "ps_inv z ?ps")
proof -
  have m: "ps_members ?ps = ps_members ps" by (simp add: ps_members_def)
  have "\<forall>v \<in> set (ps_subs ?ps). sub_ok z v" using inv u(1) set_update_subset_insert [of "ps_subs ps" i u] by (auto simp: ps_inv_def)
  moreover have "members_ok ?ps" using inv u(4) i m by (auto simp: ps_inv_def members_ok_def nth_list_update)
  moreover have "log_ok ?ps"
    by (rule log_ok_mono [of ps]) (use inv u(3) i in \<open>auto simp: ps_inv_def nth_list_update\<close>)
  moreover have "call_ok ?ps k (ps_calls ps ! k)" if "k < length (ps_calls ps)" for k
    by (rule call_ok_mono [of ps]) (use inv that u(2) m i in \<open>auto simp: ps_inv_def nth_list_update\<close>)
  ultimately show ?thesis by (simp add: ps_inv_def)
qed

lemma ps_inv_delete:
  assumes inv: "ps_inv z ps" and free: "ps_unlocked ps"
  shows "ps_inv z (ps_delete ps ds)"
proof -
  have m: "set (ps_members (ps_delete ps ds)) = set (ps_members ps) - set ds" "distinct (ps_members ps) \<Longrightarrow> distinct (ps_members (ps_delete ps ds))"
    by (auto simp: ps_delete_def ps_members_def split: option.splits)
  have "members_ok (ps_delete ps ds)" using inv m by (simp add: ps_inv_def members_ok_def) (simp add: ps_delete_def)
  moreover have "log_ok (ps_delete ps ds)"
    by (rule log_ok_mono [of ps]) (use inv in \<open>auto simp: ps_inv_def ps_delete_def\<close>)
  moreover have "call_ok (ps_delete ps ds) k (ps_calls ps ! k)" if "k < length (ps_calls ps)" for k
    by (rule call_ok_mono [of ps]) (use inv that free ps_unlocked_iff [of ps] in \<open>auto simp: ps_inv_def ps_delete_def\<close>)
  ultimately show ?thesis using inv by (simp add: ps_inv_def) (simp add: ps_delete_def)
qed

lemma close_sub_ok:
  assumes "i < length (ps_subs ps)" "sub_ok z (ps_subs ps ! i)" "\<not> sub_in (ps_subs ps ! i)"
  shows "\<exists>u. close_sub i ps = Inr (ps\<lparr>ps_subs := (ps_subs ps)[i := u]\<rparr>) \<and> sub_ok z u \<and>
    sub_alive u = sub_alive (ps_subs ps ! i) \<and> fu_sent u = fu_sent (ps_subs ps ! i)"
  using fu_close_in_ok [OF assms(2,3)] by (auto simp: close_sub_def)

lemma inv_Unsubscribe:
  assumes inv: "ps_inv z ps" and free: "ps_unlocked ps" and i: "i < length (ps_subs ps)"
  shows "\<exists>ps'. Unsubscribe ps i = Inr ps' \<and> ps_inv z ps'"
proof (cases "i \<in> set (ps_members ps)")
  case True
  let ?d = "ps_delete ps [i]"
  have d: "ps_inv z ?d" "ps_subs ?d = ps_subs ps" "i \<notin> set (ps_members ?d)"
    using ps_inv_delete [OF inv free, of "[i]"] by (auto simp: ps_delete_def ps_members_def split: option.splits)
  have "sub_ok z (ps_subs ?d ! i)" "\<not> sub_in (ps_subs ?d ! i)" using inv True i d(2) by (auto simp: ps_inv_def members_ok_def)
  from close_sub_ok [OF _ this] obtain u where
    "close_sub i ?d = Inr (?d\<lparr>ps_subs := (ps_subs ?d)[i := u]\<rparr>)" "sub_ok z u" "sub_alive u = sub_alive (ps_subs ?d ! i)" "fu_sent u = fu_sent (ps_subs ?d ! i)"
    using i d(2) by auto
  then show ?thesis using True ps_inv_update [OF d(1), of i u] i d(2,3) by (simp add: Unsubscribe_def)
qed (use inv in \<open>simp add: Unsubscribe_def\<close>)

lemma close_subs_ok:
  assumes "distinct l" "\<forall>i \<in> set l. i < length (ps_subs ps) \<and> \<not> sub_in (ps_subs ps ! i)" "\<forall>u \<in> set (ps_subs ps). sub_ok z u"
  shows "\<exists>us. rfold close_sub l ps = Inr (ps\<lparr>ps_subs := us\<rparr>) \<and> length us = length (ps_subs ps) \<and> (\<forall>u \<in> set us. sub_ok z u) \<and>
    (\<forall>i < length us. sub_alive (us ! i) = sub_alive (ps_subs ps ! i) \<and> fu_sent (us ! i) = fu_sent (ps_subs ps ! i))"
  using assms
proof (induction l arbitrary: ps)
  case (Cons i l)
  then obtain u where u: "close_sub i ps = Inr (ps\<lparr>ps_subs := (ps_subs ps)[i := u]\<rparr>)" "sub_ok z u"
    "sub_alive u = sub_alive (ps_subs ps ! i)" "fu_sent u = fu_sent (ps_subs ps ! i)"
    using close_sub_ok [of i ps z] by auto
  let ?ps = "ps\<lparr>ps_subs := (ps_subs ps)[i := u]\<rparr>"
  have "\<forall>j \<in> set l. j < length (ps_subs ?ps) \<and> \<not> sub_in (ps_subs ?ps ! j)" using Cons.prems(1,2) by (auto simp: nth_list_update)
  moreover have "\<forall>v \<in> set (ps_subs ?ps). sub_ok z v" using Cons.prems(3) u(2) set_update_subset_insert [of "ps_subs ps" i u] by auto
  ultimately obtain us where us: "rfold close_sub l ?ps = Inr (?ps\<lparr>ps_subs := us\<rparr>)" "length us = length (ps_subs ?ps)" "\<forall>u \<in> set us. sub_ok z u"
    "\<forall>j < length us. sub_alive (us ! j) = sub_alive (ps_subs ?ps ! j) \<and> fu_sent (us ! j) = fu_sent (ps_subs ?ps ! j)"
    using Cons.IH [of ?ps] Cons.prems(1) by auto
  show ?case using us u Cons.prems(2) by (intro exI [of _ us]) (auto simp: nth_list_update)
next
  case (Nil ps)
  then show ?case by (intro exI [of _ "ps_subs ps"]) simp
qed

lemma inv_Close:
  assumes inv: "ps_inv z ps" and free: "ps_unlocked ps"
  shows "\<exists>ps'. ps_Close ps = Inr ps' \<and> ps_inv z ps'"
proof (cases "ps_closed ps")
  case False
  let ?c = "ps\<lparr>ps_closed := True\<rparr>"
  have "distinct (ps_members ps)" "\<forall>i \<in> set (ps_members ps). i < length (ps_subs ?c) \<and> \<not> sub_in (ps_subs ?c ! i)"
    "\<forall>u \<in> set (ps_subs ?c). sub_ok z u" using inv by (auto simp: ps_inv_def members_ok_def)
  from close_subs_ok [OF this] obtain us where us: "rfold close_sub (ps_members ps) ?c = Inr (?c\<lparr>ps_subs := us\<rparr>)" "length us = length (ps_subs ps)"
    "\<forall>u \<in> set us. sub_ok z u" "\<forall>i < length us. sub_alive (us ! i) = sub_alive (ps_subs ps ! i) \<and> fu_sent (us ! i) = fu_sent (ps_subs ps ! i)"
    by auto
  let ?ps = "?c\<lparr>ps_subs := us, ps_subscribers := None\<rparr>"
  have "ps_Close ps = Inr ?ps" using False us(1) by (simp add: ps_Close_def)
  moreover have "members_ok ?ps" by (simp add: members_ok_def ps_members_def)
  moreover have "log_ok ?ps" by (rule log_ok_mono [of ps]) (use inv us(2,4) in \<open>auto simp: ps_inv_def\<close>)
  moreover have "call_ok ?ps k (ps_calls ps ! k)" if "k < length (ps_calls ps)" for k
    by (rule call_ok_mono [of ps]) (use inv that free us(2,4) ps_unlocked_iff [of ps] in \<open>auto simp: ps_inv_def\<close>)
  ultimately show ?thesis using us(3) by (simp add: ps_inv_def)
qed (use inv in \<open>simp add: ps_Close_def\<close>)

lemma inv_Subscribe:
  assumes inv: "ps_inv z ps" and free: "ps_unlocked ps"
  shows "\<exists>ps'. Subscribe z ps n = Inr ps' \<and> ps_inv z ps'"
proof -
  let ?n = "if n \<le> 0 then DefaultPubSubCapacity else n" let ?i = "length (ps_subs ps)"
  obtain u where u: "NewFIFO z ?n [] () = Inr (fu_sys u)" "sub_ok z u" "\<not> sub_in u" "fu_sent u = []"
    "u = \<lparr>fu_sys = fu_sys u, fu_sent = [], fu_received = [], fu_overflows = 0\<rparr>" by (rule new_sub_ok [of z ?n])
  obtain u' where u': "fu_close_in u = Inr u'" "sub_ok z u'" "fu_sent u' = []" using fu_close_in_ok [OF u(2,3)] u(4) by auto
  have keep: "ps_inv z (ps\<lparr>ps_subs := ps_subs ps @ [v], ps_subscribers := m\<rparr>)"
    if v: "sub_ok z v" "fu_sent v = []" and m: "members_ok (ps\<lparr>ps_subs := ps_subs ps @ [v], ps_subscribers := m\<rparr>)" for v m
  proof -
    let ?ps = "ps\<lparr>ps_subs := ps_subs ps @ [v], ps_subscribers := m\<rparr>"
    have "log_ok ?ps" by (rule log_ok_mono [of ps]) (use inv v(2) in \<open>auto simp: ps_inv_def nth_append less_Suc_eq\<close>)
    moreover have "call_ok ?ps k (ps_calls ps ! k)" if "k < length (ps_calls ps)" for k
      by (rule call_ok_mono [of ps]) (use inv that free ps_unlocked_iff [of ps] in \<open>auto simp: ps_inv_def nth_append\<close>)
    ultimately show ?thesis using inv v(1) m by (auto simp: ps_inv_def)
  qed
  show ?thesis
  proof (cases "ps_closed ps")
    case True
    then have "members_ok (ps\<lparr>ps_subs := ps_subs ps @ [u'], ps_subscribers := None\<rparr>)" by (simp add: members_ok_def ps_members_def)
    moreover have "ps\<lparr>ps_subs := ps_subs ps @ [u'], ps_subscribers := None\<rparr> = ps\<lparr>ps_subs := ps_subs ps @ [u']\<rparr>"
      using True inv by (simp add: ps_inv_def members_ok_def)
    moreover have "Subscribe z ps n = Inr (ps\<lparr>ps_subs := ps_subs ps @ [u']\<rparr>)"
      unfolding Subscribe_def Let_def u(1) using u'(1) u(5) True by simp
    ultimately show ?thesis using keep [OF u'(2,3), of None] by simp
  next
    case False
    then obtain m where m: "ps_subscribers ps = Some m" using inv by (auto simp: ps_inv_def members_ok_def)
    have mem: "distinct m" "\<forall>i \<in> set m. i < ?i \<and> \<not> sub_in (ps_subs ps ! i)" using inv m by (auto simp: ps_inv_def members_ok_def ps_members_def)
    then have "members_ok (ps\<lparr>ps_subs := ps_subs ps @ [u], ps_subscribers := Some (m @ [?i])\<rparr>)"
      using False u(3) by (auto simp: members_ok_def ps_members_def nth_append)
    moreover have "?i \<notin> set m" using mem(2) by auto
    then have "Subscribe z ps n = Inr (ps\<lparr>ps_subs := ps_subs ps @ [u], ps_subscribers := Some (m @ [?i])\<rparr>)"
      unfolding Subscribe_def Let_def u(1) using u(5) False m by (simp add: ps_insert_def)
    ultimately show ?thesis using keep [OF u(2,4), of "Some (m @ [?i])"] by simp
  qed
qed

text \<open>Steps of \<^verbatim>\<open>Publish\<close>.\<close>

lemma log_call_item:
  assumes "log_ok ps" "length (ps_calls ps) \<le> length cs" "\<And>k. k < length (ps_calls ps) \<Longrightarrow> call_item (cs ! k) = call_item (ps_calls ps ! k)"
  shows "log_ok (ps\<lparr>ps_calls := cs\<rparr>)"
proof -
  have "map (\<lambda>(k, _). call_item (cs ! k)) (filter (\<lambda>(_, j). j = i) (ps_log ps)) =
      map (\<lambda>(k, _). call_item (ps_calls ps ! k)) (filter (\<lambda>(_, j). j = i) (ps_log ps))" for i
    using assms(1,3) by (auto simp: log_ok_def)
  then show ?thesis using assms(1,2) by (auto simp: log_ok_def)
qed

lemma ps_members_simps [simp]:
  "ps_members (ps\<lparr>ps_calls := cs\<rparr>) = ps_members ps" "ps_members (ps\<lparr>ps_subs := us\<rparr>) = ps_members ps"
  "ps_members (ps\<lparr>ps_log := l\<rparr>) = ps_members ps"
  by (simp_all add: ps_members_def)

lemma call_ok_calls [simp]: "call_ok (ps\<lparr>ps_calls := cs\<rparr>) k c = call_ok ps k c"
  by (simp add: call_ok_def)

lemma ps_inv_calls:
  assumes inv: "ps_inv z ps" and "length (ps_calls ps) \<le> length cs"
    and "\<And>k. k < length (ps_calls ps) \<Longrightarrow> call_item (cs ! k) = call_item (ps_calls ps ! k)"
    and "\<And>k. k < length cs \<Longrightarrow> call_ok ps k (cs ! k)"
  shows "ps_inv z (ps\<lparr>ps_calls := cs\<rparr>)"
proof -
  show ?thesis using inv log_call_item [of ps cs] assms(2-4) by (simp add: ps_inv_def members_ok_def)
qed

lemma inv_publish_start: "ps_inv z ps \<Longrightarrow> ps_inv z (publish_start ps v)"
  unfolding publish_start_def
proof (rule ps_inv_calls)
  let ?c = "if ps_closed ps then Published v [] [] else Sending v (ps_members ps) (ps_members ps) []"
  fix k assume inv: "ps_inv z ps" and k: "k < length (ps_calls ps @ [?c])"
  show "call_ok ps k ((ps_calls ps @ [?c]) ! k)"
  proof (cases "k < length (ps_calls ps)")
    case True
    then show ?thesis using inv by (simp add: ps_inv_def nth_append)
  next
    case False
    then have "k = length (ps_calls ps)" using k by simp
    then have "(k, i) \<notin> set (ps_log ps)" for i using inv by (auto simp: ps_inv_def log_ok_def)
    then have "call_ok ps k ?c" using inv by (auto simp: ps_inv_def call_ok_def members_ok_def)
    then show ?thesis using \<open>k = length (ps_calls ps)\<close> by simp
  qed
qed (auto simp: nth_append)

lemma inv_publish_unlock:
  assumes inv: "ps_inv z ps" and k: "k < length (ps_calls ps)" and step: "publish_unlock ps k = Some ps'"
  shows "ps_inv z ps'"
proof -
  obtain v all dead where c: "ps_calls ps ! k = Sending v all [] dead"
    "ps' = ps\<lparr>ps_calls := (ps_calls ps)[k := if dead \<noteq> [] then Pruning v all dead else Published v all dead]\<rparr>"
    using step by (auto simp: publish_unlock_def split: publish.splits list.splits)
  have "call_ok ps k (ps_calls ps ! k)" using inv k by (simp add: ps_inv_def)
  then have "call_ok ps k (if dead \<noteq> [] then Pruning v all dead else Published v all dead)" unfolding c(1) call_ok_def by auto
  then show ?thesis unfolding c(2) using inv k c(1) by (intro ps_inv_calls) (auto simp: nth_list_update ps_inv_def)
qed

lemma inv_publish_prune:
  assumes inv: "ps_inv z ps" and k: "k < length (ps_calls ps)" and step: "publish_prune ps k = Some ps'"
  shows "ps_inv z ps'"
proof -
  obtain v all dead where c: "ps_calls ps ! k = Pruning v all dead" "ps_unlocked ps"
    "ps' = (ps_delete ps dead)\<lparr>ps_calls := (ps_calls (ps_delete ps dead))[k := Published v all dead]\<rparr>"
    using step by (auto simp: publish_prune_def ps_delete_def split: publish.splits if_splits)
  have d: "ps_inv z (ps_delete ps dead)" by (rule ps_inv_delete [OF inv c(2)])
  have calls: "ps_calls (ps_delete ps dead) = ps_calls ps" by (simp add: ps_delete_def)
  have "call_ok (ps_delete ps dead) k (ps_calls ps ! k)" using d k calls by (simp add: ps_inv_def)
  then have "call_ok (ps_delete ps dead) k (Published v all dead)" unfolding c(1) call_ok_def by auto
  then show ?thesis unfolding c(3) using d k c(1) calls by (intro ps_inv_calls) (auto simp: nth_list_update ps_inv_def)
qed

text \<open>A send to a subscriber.\<close>

lemma ps_inv_send:
  assumes inv: "ps_inv z ps" and k: "k < length (ps_calls ps)" "ps_calls ps ! k = Sending v all todo dead" "i \<in> set todo"
    and u: "sub_ok z u" "sub_in u = sub_in (ps_subs ps ! i)" "sub_alive (ps_subs ps ! i)" "fu_sent u = fu_sent (ps_subs ps ! i) @ [v]"
  shows "ps_inv z (ps\<lparr>ps_subs := (ps_subs ps)[i := u], ps_log := ps_log ps @ [(k, i)],
    ps_calls := (ps_calls ps)[k := Sending v all (remove1 i todo) dead]\<rparr>)" (is "ps_inv z ?ps")
proof -
  have c: "call_ok ps k (Sending v all todo dead)" and m: "members_ok ps" and l: "log_ok ps" and s: "\<forall>u \<in> set (ps_subs ps). sub_ok z u"
    using inv k(1,2) by (auto simp: ps_inv_def)
  have i: "i < length (ps_subs ps)" "(k, i) \<notin> set (ps_log ps)"
    using c m k(3) by (auto simp: call_ok_def members_ok_def)
  have "members_ok ?ps" using m u(2) i(1) by (auto simp: members_ok_def nth_list_update)
  moreover have "\<forall>u \<in> set (ps_subs ?ps). sub_ok z u" using s u(1) set_update_subset_insert [of "ps_subs ps" i u] by auto
  moreover have "log_ok ?ps"
  proof -
    have "log_ok (ps\<lparr>ps_calls := ps_calls ?ps\<rparr>)" by (rule log_call_item [OF l]) (use k(1,2) in \<open>auto simp: nth_list_update\<close>)
    then show ?thesis using i k(1) u(4) by (auto simp: log_ok_def nth_list_update)
  qed
  moreover have "call_ok ?ps j (ps_calls ?ps ! j)" if "j < length (ps_calls ps)" for j
  proof (cases "j = k")
    case True
    have "distinct todo" using c by (simp add: call_ok_def)
    then have "call_ok ?ps k (Sending v all (remove1 i todo) dead)"
      using c k(3) u(3) i by (auto simp: call_ok_def nth_list_update)
    then show ?thesis using True k(1) by simp
  next
    case False
    have "call_ok ps j (ps_calls ps ! j)" using inv that by (simp add: ps_inv_def)
    then have "call_ok ?ps j (ps_calls ps ! j)" using False u(3) i(1) unfolding call_ok_def by (simp add: nth_list_update) blast
    then show ?thesis using False by simp
  qed
  ultimately show ?thesis by (simp add: ps_inv_def)
qed

lemma inv_publish_visit:
  assumes inv: "ps_inv z ps" and k: "k < length (ps_calls ps)" and step: "publish_visit z ps k i = Some r"
  shows "\<exists>ps'. r = Inr ps' \<and> ps_inv z ps'"
proof -
  obtain v all todo dead where c: "ps_calls ps ! k = Sending v all todo dead" "i \<in> set todo"
    using step by (auto simp: publish_visit_def split: publish.splits if_splits)
  have ok: "call_ok ps k (Sending v all todo dead)" using inv k c(1) by (fastforce simp: ps_inv_def)
  then have i: "i < length (ps_subs ps)" "\<not> sub_in (ps_subs ps ! i)" "sub_ok z (ps_subs ps ! i)"
    using inv c(2) by (auto simp: call_ok_def ps_inv_def members_ok_def)
  show ?thesis
  proof (cases "sub_alive (ps_subs ps ! i)")
    case True
    obtain q where q: "fu_comm z (ps_subs ps ! i) (Recv v) = Some q" using fu_comm_recv [OF i(3) True i(2)] by blast
    from fu_comm_ok [OF i(3) q] obtain u where u: "q = Inr u" "sub_ok z u" "sub_in u = sub_in (ps_subs ps ! i)"
      "fu_sent u = fu_sent (ps_subs ps ! i) @ [v]" by (auto simp: sent_by_def)
    show ?thesis using ps_inv_send [OF inv k c u(2,3) True u(4)] step c i(2) True q u(1) by (auto simp: publish_visit_def)
  next
    case False
    have "distinct todo" using ok by (simp add: call_ok_def)
    then have "call_ok ps k (Sending v all (remove1 i todo) (dead @ [i]))" using ok c(2) False i(1) by (auto simp: call_ok_def)
    then have "ps_inv z (ps\<lparr>ps_calls := (ps_calls ps)[k := Sending v all (remove1 i todo) (dead @ [i])]\<rparr>)"
      using inv k c(1) by (intro ps_inv_calls) (auto simp: nth_list_update ps_inv_def)
    then show ?thesis using step c i(2) False by (auto simp: publish_visit_def)
  qed
qed

lemma ps_inv_step:
  assumes inv: "ps_inv z ps" and step: "ps_step z ps e = Some r"
  shows "\<exists>ps'. r = Inr ps' \<and> ps_inv z ps'"
proof (cases e)
  case (Work i c)
  then obtain q where q: "i < length (ps_subs ps)" "sent_by c = []" "fu_comm z (ps_subs ps ! i) c = Some q"
    "r = rbind q (\<lambda>u. Inr (ps\<lparr>ps_subs := (ps_subs ps)[i := u]\<rparr>))" using step by (auto split: if_splits)
  have "sub_ok z (ps_subs ps ! i)" using inv q(1) by (simp add: ps_inv_def)
  from fu_comm_ok [OF this q(3)] obtain u where u: "q = Inr u" "sub_ok z u" "sub_in u = sub_in (ps_subs ps ! i)"
    "sub_alive (ps_subs ps ! i)" "fu_sent u = fu_sent (ps_subs ps ! i)" using q(2) by auto
  show ?thesis using ps_inv_update [OF inv q(1) u(2)] u q(4) by simp
next
  case (CancelSub i)
  let ?u = "(ps_subs ps ! i)\<lparr>fu_sys := (fu_sys (ps_subs ps ! i))\<lparr>fs_ctx := True\<rparr>\<rparr>"
  have i: "i < length (ps_subs ps)" "r = Inr (ps\<lparr>ps_subs := (ps_subs ps)[i := ?u]\<rparr>)" using CancelSub step by (auto split: if_splits)
  have "sub_ok z ?u" using inv i(1) by (auto simp: ps_inv_def intro: sub_ok_cancel)
  then show ?thesis using ps_inv_update [OF inv i(1), of ?u] i(2) by (simp add: sub_alive_def)
qed (use inv step in \<open>auto simp: inv_publish_start split: if_splits
    dest: inv_publish_visit inv_publish_unlock inv_publish_prune inv_Subscribe inv_Unsubscribe inv_Close\<close>)

lemma run_inv: "ps_inv z ps \<Longrightarrow> ps_run z ps es = Some r \<Longrightarrow> \<exists>ps'. r = Inr ps' \<and> ps_inv z ps'"
proof (induction es arbitrary: ps)
  case (Cons e es)
  then obtain q where "ps_step z ps e = Some q" by (auto split: option.splits)
  moreover from ps_inv_step [OF Cons.prems(1) this] obtain ps' where "q = Inr ps'" "ps_inv z ps'" by blast
  ultimately show ?case using Cons.IH [of ps'] Cons.prems(2) by simp
qed auto

section \<open>Properties\<close>

text \<open>
  C40: in every run of a \<^verbatim>\<open>PubSub\<close> with any number of concurrent calls nothing panics: no send on a closed
  channel, no second close, no write to the map after \<^verbatim>\<open>Close\<close>. The items sent to the queue of a subscriber are
  those of the sends to it in the log, which has each pair of a call and a subscriber at most once. When
  a call has returned, each subscriber that was in the map when it began has been sent the item, or its
  goroutine has returned. A call that has subscribers to visit can always visit any of them at once.
\<close>

theorem publish_reaches_every_subscriber:
  assumes "ps_run z ps_New es = Some r"
  shows "\<exists>ps. r = Inr ps \<and> (\<forall>e x. ps_step z ps e \<noteq> Some (Inl x)) \<and> distinct (ps_log ps) \<and>
    (\<forall>i < length (ps_subs ps). fu_sent (ps_subs ps ! i) =
       map (\<lambda>(k, _). call_item (ps_calls ps ! k)) (filter (\<lambda>(_, j). j = i) (ps_log ps))) \<and>
    (\<forall>k < length (ps_calls ps). \<forall>v all dead. ps_calls ps ! k = Published v all dead \<longrightarrow>
       (\<forall>i \<in> set all. (k, i) \<in> set (ps_log ps) \<or> i \<in> set dead \<and> \<not> sub_alive (ps_subs ps ! i))) \<and>
    (\<forall>k < length (ps_calls ps). \<forall>v all todo dead. ps_calls ps ! k = Sending v all todo dead \<longrightarrow>
       (\<forall>i \<in> set todo. ps_step z ps (Visit k i) \<noteq> None) \<and> (todo = [] \<longrightarrow> ps_step z ps (RUnlock k) \<noteq> None))"
proof -
  obtain ps where ps: "r = Inr ps" "ps_inv z ps" using run_inv [OF ps_inv_New assms] by blast
  have panic: "ps_step z ps e \<noteq> Some (Inl x)" for e x using ps_inv_step [OF ps(2), of e] by fastforce
  have fin: "(k, i) \<in> set (ps_log ps) \<or> i \<in> set dead \<and> \<not> sub_alive (ps_subs ps ! i)"
    if "k < length (ps_calls ps)" "ps_calls ps ! k = Published v all dead" "i \<in> set all" for k v all dead i
  proof -
    have "call_ok ps k (Published v all dead)" using ps(2) that(1,2) by (fastforce simp: ps_inv_def)
    then show ?thesis using that(3) by (auto simp: call_ok_def)
  qed
  have go: "ps_step z ps (Visit k i) \<noteq> None"
    if "k < length (ps_calls ps)" "ps_calls ps ! k = Sending v all todo dead" "i \<in> set todo" for k v all todo dead i
  proof -
    have "call_ok ps k (Sending v all todo dead)" using ps(2) that(1,2) by (fastforce simp: ps_inv_def)
    then have "\<not> sub_in (ps_subs ps ! i)" "sub_ok z (ps_subs ps ! i)"
      using ps(2) that(3) by (auto simp: call_ok_def ps_inv_def members_ok_def)
    then show ?thesis using that fu_comm_recv [of z "ps_subs ps ! i" v] by (auto simp: publish_visit_def)
  qed
  have unlock: "ps_step z ps (RUnlock k) \<noteq> None" if "k < length (ps_calls ps)" "ps_calls ps ! k = Sending v all [] dead" for k v all dead
    using that by (simp add: publish_unlock_def)
  have "log_ok ps" using ps(2) by (simp add: ps_inv_def)
  then show ?thesis unfolding log_ok_def
    by (intro exI [of _ ps] conjI) (use ps(1) panic fin go unlock in \<open>blast+\<close>)
qed

theorem publish_reaches_every_subscriber_witness:
  "\<exists>ps. ps_run (0::nat) ps_New [DoSubscribe 1, DoSubscribe 1, DoPublish 5, Visit 0 1, CancelSub 0, Work 0 CtxDone, Visit 0 0, RUnlock 0, Prune 0] =
       Some (Inr ps) \<and> ps_log ps = [(0, 1)] \<and> fu_sent (ps_subs ps ! 1) = [5] \<and> \<not> sub_alive (ps_subs ps ! 0)"
proof -
  let ?es = "[DoSubscribe 1, DoSubscribe 1, DoPublish 5, Visit 0 1, CancelSub 0, Work 0 CtxDone, Visit 0 0, RUnlock 0, Prune 0]"
  have "case ps_run (0::nat) ps_New ?es of Some (Inr ps) \<Rightarrow>
      ps_calls ps = [Published 5 [0, 1] [0]] \<and> fu_sent (ps_subs ps ! 1) = [5] \<and> ps_log ps = [(0, 1)] | _ \<Rightarrow> False"
    by code_simp
  then obtain ps where ps: "ps_run (0::nat) ps_New ?es = Some (Inr ps)" "ps_calls ps = [Published 5 [0, 1] [0]]"
    "fu_sent (ps_subs ps ! 1) = [5]" "ps_log ps = [(0, 1)]"
    by (auto split: option.splits sum.splits)
  from publish_reaches_every_subscriber [OF ps(1)] have "\<not> sub_alive (ps_subs ps ! 0)" using ps(2,4) by fastforce
  then show ?thesis using ps by blast
qed

end
