(* ===== verification/Rate_Control.thy ===== *)
theory Rate_Control
  imports Prelude
begin

text \<open>
  Rate control and backoff: the backoff algorithms (\<^verbatim>\<open>algo/ratecontrol/backoff.go\<close>, \<^verbatim>\<open>spin.go\<close>), their
  configuration (\<^verbatim>\<open>ratecontrol_config.go\<close>), the options and the token bucket of the controller
  (\<^verbatim>\<open>options.go\<close>, \<^verbatim>\<open>ratecontrol.go\<close>) and the retry loop that is built on them
  (\<^verbatim>\<open>os/executil/waitfor.go\<close>). Durations are 64 bit integers, in nanoseconds, and wrap around. What
  the outside world decides in one call, the value drawn from the random number generator, the time
  and which case of a \<^verbatim>\<open>select\<close> proceeds, is an argument.
\<close>

section \<open>Durations\<close>

definition wrap64 :: "int \<Rightarrow> int" where
  "wrap64 x = (x + 2 ^ 63) mod 2 ^ 64 - 2 ^ 63"

definition maxInt64 :: int where
  "maxInt64 = 2 ^ 63 - 1"

definition second :: int where
  "second = 1000000000"

lemma wrap64_id: "- (2 ^ 63) \<le> x \<Longrightarrow> x < 2 ^ 63 \<Longrightarrow> wrap64 x = x"
  by (simp add: wrap64_def)

lemma wrap64_overflow: "2 ^ 63 \<le> x \<Longrightarrow> x < 2 ^ 64 \<Longrightarrow> wrap64 x = x - 2 ^ 64"
  using mod_once [of "2 ^ 64" "x + 2 ^ 63"] by (simp add: wrap64_def)

section \<open>Backoff algorithms (backoff.go)\<close>

record ExponentialBackoff =
  steps :: int
  retries :: int
  nextDelay :: int
  bo_done :: bool

definition DefaultBackoffInterval :: int where
  "DefaultBackoffInterval = second"

definition DefaultBackoffSteps :: int where
  "DefaultBackoffSteps = 10"

definition NewExponentialBackoff :: "int \<Rightarrow> int \<Rightarrow> ExponentialBackoff" where
  "NewExponentialBackoff initial n =
     (let initial = (if initial \<le> 0 then DefaultBackoffInterval else initial);
          n = (if n \<le> 0 then DefaultBackoffSteps else n)
      in \<lparr>steps = n, retries = 0, nextDelay = initial, bo_done = False\<rparr>)"

text \<open>The outside world during one call.\<close>

record env =
  rand_Int63n :: "int \<Rightarrow> int"
  clock :: int
  cancelled :: bool

definition ctxErr :: "fault option" where
  "ctxErr = Some (Error ''context canceled'')"

definition double_delay :: "ExponentialBackoff \<Rightarrow> ExponentialBackoff" where
  "double_delay eb =
     (if nextDelay eb < 2 ^ 62 then eb\<lparr>nextDelay := wrap64 (nextDelay eb * 2)\<rparr> else eb)"

definition eb_Wait :: "env \<Rightarrow> ExponentialBackoff \<Rightarrow> ExponentialBackoff \<times> bool \<times> fault option" where
  "eb_Wait env eb =
     (if retries eb \<ge> steps eb then (eb\<lparr>bo_done := True\<rparr>, True, None)
      else if cancelled env then (eb, True, ctxErr)
      else (let eb = double_delay eb in (eb\<lparr>retries := retries eb + 1\<rparr>, False, None)))"

text \<open>\<^verbatim>\<open>Next\<close> returns a channel: \<open>None\<close> for the closed one, the delay of the timer otherwise.\<close>

definition eb_Next :: "env \<Rightarrow> ExponentialBackoff \<Rightarrow> ExponentialBackoff \<times> int option" where
  "eb_Next env eb =
     (if retries eb \<ge> steps eb then (eb\<lparr>bo_done := True\<rparr>, None)
      else let delay = nextDelay eb;
               eb = double_delay eb
           in (eb\<lparr>retries := retries eb + 1\<rparr>, Some delay))"

definition randomOffset :: "env \<Rightarrow> int \<Rightarrow> int" where
  "randomOffset env limit =
     (let offset = rand_Int63n env limit in if offset = 0 then 1 else offset)"

definition ebo_Wait :: "env \<Rightarrow> ExponentialBackoff \<Rightarrow> ExponentialBackoff \<times> bool \<times> fault option" where
  "ebo_Wait env eb =
     (if retries eb \<ge> steps eb then (eb\<lparr>bo_done := True\<rparr>, True, None)
      else if retries eb = 0 \<and> nextDelay eb > 0
      then if cancelled env then (eb, True, ctxErr)
           else (let eb = double_delay eb in (eb\<lparr>retries := retries eb + 1\<rparr>, False, None))
      else eb_Wait env eb)"

definition ebo_Next :: "env \<Rightarrow> ExponentialBackoff \<Rightarrow> ExponentialBackoff \<times> int option" where
  "ebo_Next env eb =
     (if retries eb = 0 \<and> retries eb < steps eb \<and> nextDelay eb > 0
      then let offset = randomOffset env (nextDelay eb);
               eb = double_delay eb
           in (eb\<lparr>retries := retries eb + 1\<rparr>, Some offset)
      else eb_Next env eb)"

section \<open>Spin detection (spin.go)\<close>

record SpinDetector =
  sd_max :: int
  count :: int
  expiration :: int
  period :: int

definition NewSpinDetector :: "int \<Rightarrow> int \<Rightarrow> int \<Rightarrow> SpinDetector" where
  "NewSpinDetector now maxIterations per =
     \<lparr>sd_max = maxIterations, count = 0, expiration = now + per, period = per\<rparr>"

definition Tick :: "int \<Rightarrow> SpinDetector \<Rightarrow> SpinDetector \<times> bool" where
  "Tick now s =
     (if sd_max s \<le> 0 \<or> period s \<le> 0 then (s, False)
      else let s = s\<lparr>count := count s + 1\<rparr>
           in if count s < sd_max s then (s, False)
              else (s\<lparr>count := 0, expiration := now + period s\<rparr>, now < expiration s))"

text \<open>The implementations of the interface \<^verbatim>\<open>Backoff\<close>.\<close>

datatype Backoff =
    Exponential ExponentialBackoff
  | ExponentialOffset ExponentialBackoff
  | NoBackoff
  | BackoffOnSpin SpinDetector Backoff

fun bo_Wait :: "env \<Rightarrow> Backoff \<Rightarrow> Backoff \<times> bool \<times> fault option" where
  "bo_Wait env (Exponential eb) = map_prod Exponential id (eb_Wait env eb)"
| "bo_Wait env (ExponentialOffset eb) = map_prod ExponentialOffset id (ebo_Wait env eb)"
| "bo_Wait env NoBackoff = (NoBackoff, False, None)"
| "bo_Wait env (BackoffOnSpin sd b) =
     (case Tick (clock env) sd of
        (sd, True) \<Rightarrow> map_prod (BackoffOnSpin sd) id (bo_Wait env b)
      | (sd, False) \<Rightarrow> (BackoffOnSpin sd b, False, None))"

fun bo_Next :: "env \<Rightarrow> Backoff \<Rightarrow> Backoff \<times> int option" where
  "bo_Next env (Exponential eb) = map_prod Exponential id (eb_Next env eb)"
| "bo_Next env (ExponentialOffset eb) = map_prod ExponentialOffset id (ebo_Next env eb)"
| "bo_Next env NoBackoff = (NoBackoff, Some 0)"
| "bo_Next env (BackoffOnSpin sd b) =
     (case Tick (clock env) sd of
        (sd, True) \<Rightarrow> map_prod (BackoffOnSpin sd) id (bo_Next env b)
      | (sd, False) \<Rightarrow> (BackoffOnSpin sd b, Some 0))"

fun bo_Done :: "Backoff \<Rightarrow> bool" where
  "bo_Done (Exponential eb) = bo_done eb"
| "bo_Done (ExponentialOffset eb) = bo_done eb"
| "bo_Done NoBackoff = False"
| "bo_Done (BackoffOnSpin sd b) = bo_Done b"

fun bo_Retries :: "Backoff \<Rightarrow> int" where
  "bo_Retries (Exponential eb) = retries eb"
| "bo_Retries (ExponentialOffset eb) = retries eb"
| "bo_Retries NoBackoff = 0"
| "bo_Retries (BackoffOnSpin sd b) = bo_Retries b"

section \<open>Configuration (ratecontrol_config.go)\<close>

record ExponentialBackoffConfig =
  InitialDelay :: int
  Steps :: int
  RandomizeStart :: bool

definition NewBackoff :: "ExponentialBackoffConfig \<Rightarrow> Backoff" where
  "NewBackoff ebc =
     (if InitialDelay ebc > 0 \<and> Steps ebc > 0
      then if RandomizeStart ebc
           then ExponentialOffset (NewExponentialBackoff (InitialDelay ebc) (Steps ebc))
           else Exponential (NewExponentialBackoff (InitialDelay ebc) (Steps ebc))
      else NoBackoff)"

fun total_loop :: "nat \<Rightarrow> int \<Rightarrow> int \<Rightarrow> int" where
  "total_loop 0 tot delay = tot"
| "total_loop (Suc n) tot delay =
     (let tot = wrap64 (tot + delay)
      in if tot < 0 then maxInt64
         else let delay = wrap64 (delay * 2)
              in total_loop n tot (if delay < 0 then maxInt64 else delay))"

definition TotalTimeout :: "ExponentialBackoffConfig \<Rightarrow> int" where
  "TotalTimeout ebc =
     (if InitialDelay ebc \<le> 0 \<or> Steps ebc \<le> 0 then 0
      else total_loop (nat (Steps ebc)) 0 (InitialDelay ebc))"

section \<open>Waiting with backoff (waitfor.go)\<close>

text \<open>
  \<open>check\<close> acts on the caller's state \<open>'s\<close> and returns \<^verbatim>\<open>done\<close> and an error, \<open>env i\<close> is the outside
  world during the \<open>i\<close>th iteration, and \<open>None\<close> means that the loop has not ended within the fuel.
\<close>

fun backoff_loop ::
  "nat \<Rightarrow> (env \<Rightarrow> 'b \<Rightarrow> 'b \<times> int option) \<Rightarrow> ('s \<Rightarrow> 's \<times> bool \<times> fault option) \<Rightarrow> (nat \<Rightarrow> env) \<Rightarrow> nat \<Rightarrow> 'b \<Rightarrow> 's \<Rightarrow>
   ('s \<times> fault option) option" where
  "backoff_loop 0 next check env i b s = None"
| "backoff_loop (Suc fuel) next check env i b s =
     (case next (env i) b of
        (b, ch) \<Rightarrow>
          if cancelled (env i) then Some (s, ctxErr)
          else case ch of
            None \<Rightarrow> Some (s, Some (Error ''backoff done''))
          | Some delay \<Rightarrow>
              (case check s of (s, done, err) \<Rightarrow>
                 if done then Some (s, err) else backoff_loop fuel next check env (i + 1) b s))"

definition WaitForBackoff ::
  "nat \<Rightarrow> (env \<Rightarrow> 'b \<Rightarrow> 'b \<times> int option) \<Rightarrow> ('s \<Rightarrow> 's \<times> bool \<times> fault option) \<Rightarrow> (nat \<Rightarrow> env) \<Rightarrow> 'b \<Rightarrow> 's \<Rightarrow>
   ('s \<times> fault option) option" where
  "WaitForBackoff fuel next check env b s =
     (case check s of (s, done, err) \<Rightarrow>
        if done then Some (s, err) else backoff_loop fuel next check env 0 b s)"

section \<open>The controller (options.go, ratecontrol.go)\<close>

record ctl_options =
  noRateControl :: bool
  reqsInterval :: int
  reqsPerTick :: int
  bytesInterval :: int
  bytesPerTick :: int
  backoff :: "Backoff option"

datatype Option =
    WithRequestsPerTick int int
  | WithBytesPerTick int int
  | WithExponentialBackoff int int bool
  | WithBackoff "Backoff option"
  | WithNoRateControl

fun apply_ctl_option :: "Option \<Rightarrow> ctl_options \<Rightarrow> ctl_options" where
  "apply_ctl_option (WithRequestsPerTick tick rpt) o' =
     o'\<lparr>reqsInterval := (if tick \<le> 0 then second else tick), reqsPerTick := (if rpt \<le> 0 then 1 else rpt)\<rparr>"
| "apply_ctl_option (WithBytesPerTick tick bpt) o' =
     o'\<lparr>bytesInterval := (if tick \<le> 0 then second else tick),
        bytesPerTick := (if bpt \<le> 0 then 1024 * 1024 else bpt)\<rparr>"
| "apply_ctl_option (WithExponentialBackoff first n randomizedOffset) o' =
     (let first = (if first \<le> 0 then DefaultBackoffInterval else first);
          n = (if n \<le> 0 then DefaultBackoffSteps else n)
      in o'\<lparr>backoff := Some ((if randomizedOffset then ExponentialOffset else Exponential) (NewExponentialBackoff first n))\<rparr>)"
| "apply_ctl_option (WithBackoff b) o' = o'\<lparr>backoff := b\<rparr>"
| "apply_ctl_option WithNoRateControl o' = o'\<lparr>noRateControl := True\<rparr>"

text \<open>
  The controller: the number of tokens in the channel \<^verbatim>\<open>reqsTokens\<close>, whose capacity is
  \<^verbatim>\<open>reqsPerTick\<close>, the counter of bytes, and whether \<^verbatim>\<open>stopCh\<close> is closed.
\<close>

record Controller =
  opts :: ctl_options
  reqsTokens :: nat
  bytesCount :: int
  stopClosed :: bool

definition ctl_New :: "Option list \<Rightarrow> Controller" where
  "ctl_New os =
     (let o' = fold apply_ctl_option os
            \<lparr>noRateControl = False, reqsInterval = 0, reqsPerTick = 0, bytesInterval = 0, bytesPerTick = 0, backoff = None\<rparr>
      in \<lparr>opts = o', reqsTokens = nat (reqsPerTick o'), bytesCount = 0, stopClosed = False\<rparr>)"

definition put_token :: "Controller \<Rightarrow> Controller" where
  "put_token c = (if int (reqsTokens c) < reqsPerTick (opts c) then c\<lparr>reqsTokens := reqsTokens c + 1\<rparr> else c)"

text \<open>The goroutine of \<^verbatim>\<open>New\<close> when the request ticker fires.\<close>

definition reqs_tick :: "Controller \<Rightarrow> Controller" where
  "reqs_tick c = (if reqsPerTick (opts c) > 0 then put_token c else c)"

definition remaining :: "int \<Rightarrow> int \<Rightarrow> bool" where
  "remaining current allowed = (if allowed = 0 then True else current < allowed)"

text \<open>The case of a \<^verbatim>\<open>select\<close> that proceeds, where it can: \<open>None\<close> is a wait that blocks.\<close>

datatype sel = SelCtx | SelStop | SelRecv | SelBroadcast

definition waitBytesPerTick :: "sel \<Rightarrow> Controller \<Rightarrow> (Controller \<times> fault option) option" where
  "waitBytesPerTick sel c =
     (if remaining (bytesCount c) (bytesPerTick (opts c)) then Some (c, None)
      else case sel of
        SelCtx \<Rightarrow> Some (c, ctxErr)
      | SelStop \<Rightarrow> if stopClosed c then Some (c, ctxErr) else None
      | SelRecv \<Rightarrow> if stopClosed c then None else Some (c\<lparr>bytesCount := 0\<rparr>, None)
      | SelBroadcast \<Rightarrow> Some (c, None))"

definition wait_bytes_after_token :: "sel \<Rightarrow> Controller \<Rightarrow> (Controller \<times> fault option) option" where
  "wait_bytes_after_token sel c =
     (case waitBytesPerTick sel c of
        None \<Rightarrow> None
      | Some (c, err) \<Rightarrow>
          Some (if err \<noteq> None \<and> reqsPerTick (opts c) > 0 then put_token c else c, err))"

definition ctl_Wait :: "sel \<Rightarrow> sel \<Rightarrow> Controller \<Rightarrow> (Controller \<times> fault option) option" where
  "ctl_Wait sel sel' c =
     (if noRateControl (opts c) then Some (c, None)
      else if reqsPerTick (opts c) > 0
      then case sel of
          SelCtx \<Rightarrow> Some (c, ctxErr)
        | SelStop \<Rightarrow> if stopClosed c then Some (c, ctxErr) else None
        | _ \<Rightarrow> if reqsTokens c = 0 then None
               else wait_bytes_after_token sel' (c\<lparr>reqsTokens := reqsTokens c - 1\<rparr>)
      else wait_bytes_after_token sel' c)"

definition BytesTransferred :: "int \<Rightarrow> Controller \<Rightarrow> Controller" where
  "BytesTransferred n c =
     (if bytesPerTick (opts c) = 0 then c else c\<lparr>bytesCount := wrap64 (bytesCount c + n)\<rparr>)"

definition ctl_Backoff :: "Controller \<Rightarrow> Backoff" where
  "ctl_Backoff c =
     (if noRateControl (opts c) then NoBackoff
      else case backoff (opts c) of Some b \<Rightarrow> b | None \<Rightarrow> NoBackoff)"

definition ctl_Stop :: "Controller \<Rightarrow> Controller" where
  "ctl_Stop c = c\<lparr>stopClosed := True\<rparr>"

record ControllerConfig =
  rc_Tick :: int
  RequestsPerTick :: int
  BytesPerTick :: int
  rc_Backoff :: ExponentialBackoffConfig

definition BackoffOption :: "ExponentialBackoffConfig \<Rightarrow> Option" where
  "BackoffOption ebc = WithExponentialBackoff (InitialDelay ebc) (Steps ebc) (RandomizeStart ebc)"

definition NewController :: "ControllerConfig \<Rightarrow> Controller" where
  "NewController rc =
     ctl_New ((if BytesPerTick rc > 0 then [WithBytesPerTick (rc_Tick rc) (BytesPerTick rc)] else []) @
              (if RequestsPerTick rc > 0 then [WithRequestsPerTick (rc_Tick rc) (RequestsPerTick rc)] else []) @
              (if InitialDelay (rc_Backoff rc) > 0 then [BackoffOption (rc_Backoff rc)] else []))"

section \<open>The contract of a backoff algorithm\<close>

text \<open>What at most \<open>n\<close> checks amount to: the first one that is done decides.\<close>

fun first_done :: "('s \<Rightarrow> 's \<times> bool \<times> fault option) \<Rightarrow> nat \<Rightarrow> 's \<Rightarrow> 's \<times> fault option" where
  "first_done check 0 s = (s, Some (Error ''backoff done''))"
| "first_done check (Suc n) s =
     (case check s of (s', done, err) \<Rightarrow> if done then (s', err) else first_done check n s')"

text \<open>
  The laws of \<^verbatim>\<open>Backoff\<close> that its clients use: \<^verbatim>\<open>Next\<close> either arms a timer with a positive delay and
  records a retry, or returns the closed channel, after which \<^verbatim>\<open>Done\<close> is true. A bounded algorithm
  allows \<open>left b\<close> more retries.
\<close>

locale bounded_backoff =
  fixes next_ch :: "env \<Rightarrow> 'b \<Rightarrow> 'b \<times> int option"
    and inv :: "'b \<Rightarrow> bool"
    and is_done :: "'b \<Rightarrow> bool"
    and left :: "'b \<Rightarrow> nat"
    and ok_env :: "env \<Rightarrow> bool"
  assumes next_armed: "inv b \<Longrightarrow> ok_env e \<Longrightarrow> next_ch e b = (b', Some d) \<Longrightarrow> inv b' \<and> 0 < d \<and> d < 2 ^ 63 \<and> left b = Suc (left b')"
    and next_closed: "inv b \<Longrightarrow> ok_env e \<Longrightarrow> next_ch e b = (b', None) \<Longrightarrow> inv b' \<and> is_done b' \<and> left b = 0"
begin

lemma loop_is_first_done:
  assumes "inv b" "\<forall>j. ok_env (env j) \<and> \<not> cancelled (env j)" "left b < fuel"
  shows "backoff_loop fuel next_ch check env i b s = Some (first_done check (left b) s)"
  using assms(1,3)
proof (induction fuel arbitrary: i b s)
  case (Suc fuel)
  obtain b' ch where n: "next_ch (env i) b = (b', ch)" by fastforce
  show ?case
  proof (cases ch)
    case None
    then show ?thesis using next_closed [OF Suc.prems(1) _ n [unfolded None]] n assms(2) by simp
  next
    case (Some d)
    then have "inv b'" "left b = Suc (left b')"
      using next_armed [OF Suc.prems(1) _ n [unfolded Some]] assms(2) by simp_all
    then show ?thesis using Suc n Some assms(2) by (auto split: prod.splits)
  qed
qed simp

end

definition eb_inv :: "ExponentialBackoff \<Rightarrow> bool" where
  "eb_inv eb \<longleftrightarrow> 0 < nextDelay eb \<and> nextDelay eb < 2 ^ 63 \<and> 0 \<le> retries eb"

definition eb_left :: "ExponentialBackoff \<Rightarrow> nat" where
  "eb_left eb = nat (steps eb - retries eb)"

definition ok_rand :: "env \<Rightarrow> bool" where
  "ok_rand e \<longleftrightarrow> (\<forall>limit>0. 0 \<le> rand_Int63n e limit \<and> rand_Int63n e limit < limit)"

lemma double_delay_simps [simp]:
  "steps (double_delay eb) = steps eb" "retries (double_delay eb) = retries eb" "bo_done (double_delay eb) = bo_done eb"
  by (simp_all add: double_delay_def)

lemma double_delay_value:
  "0 < nextDelay eb \<Longrightarrow>
   nextDelay (double_delay eb) = (if nextDelay eb < 2 ^ 62 then 2 * nextDelay eb else nextDelay eb)"
  by (simp add: double_delay_def wrap64_id)

lemma randomOffset_range: "ok_rand e \<Longrightarrow> 0 < limit \<Longrightarrow> 0 < randomOffset e limit \<and> randomOffset e limit \<le> limit"
  by (auto simp: ok_rand_def randomOffset_def Let_def order_le_less)

lemma eb_Next_armed:
  assumes "eb_inv eb" "eb_Next e eb = (eb', Some d)"
  shows "eb_inv eb' \<and> 0 < d \<and> d < 2 ^ 63 \<and> eb_left eb = Suc (eb_left eb')"
  using assms double_delay_value [of eb]
  by (auto simp: eb_inv_def eb_Next_def eb_left_def Let_def split: if_splits)

interpretation exponential: bounded_backoff eb_Next eb_inv bo_done eb_left "\<lambda>_. True"
proof unfold_locales
  show "eb_inv eb' \<and> 0 < d \<and> d < 2 ^ 63 \<and> eb_left eb = Suc (eb_left eb')"
    if "eb_inv eb" "eb_Next e eb = (eb', Some d)" for eb e eb' d
    using that by (rule eb_Next_armed)
  show "eb_inv eb' \<and> bo_done eb' \<and> eb_left eb = 0"
    if "eb_inv eb" "eb_Next e eb = (eb', None)" for eb e eb'
    using that by (auto simp: eb_inv_def eb_Next_def eb_left_def Let_def split: if_splits)
qed

interpretation offset: bounded_backoff ebo_Next eb_inv bo_done eb_left ok_rand
proof unfold_locales
  show "eb_inv eb' \<and> 0 < d \<and> d < 2 ^ 63 \<and> eb_left eb = Suc (eb_left eb')"
    if "eb_inv eb" "ok_rand e" "ebo_Next e eb = (eb', Some d)" for eb e eb' d
  proof (cases "retries eb = 0 \<and> retries eb < steps eb \<and> nextDelay eb > 0")
    case True
    then show ?thesis using that randomOffset_range [of e "nextDelay eb"] double_delay_value [of eb]
      by (auto simp: eb_inv_def ebo_Next_def eb_left_def Let_def)
  next
    case False
    then have "ebo_Next e eb = eb_Next e eb" unfolding ebo_Next_def by (simp only: if_False)
    then show ?thesis using eb_Next_armed [OF that(1), of e eb' d] that(3) by simp
  qed
  show "eb_inv eb' \<and> bo_done eb' \<and> eb_left eb = 0"
    if "eb_inv eb" "ok_rand e" "ebo_Next e eb = (eb', None)" for eb e eb'
    using that exponential.next_closed [of eb e eb'] by (auto simp: ebo_Next_def Let_def split: if_splits)
qed

lemma NewExponentialBackoff_inv:
  "initial < 2 ^ 63 \<Longrightarrow> eb_inv (NewExponentialBackoff initial n)"
  "0 < n \<Longrightarrow> eb_left (NewExponentialBackoff initial n) = nat n"
  by (auto simp: eb_inv_def eb_left_def NewExponentialBackoff_def DefaultBackoffInterval_def second_def)

lemma wait_first_done:
  assumes "0 < initial" "initial < 2 ^ 63" "0 < n" "nat n < fuel"
    "\<forall>j. ok_rand (env j) \<and> \<not> cancelled (env j)"
  shows "WaitForBackoff fuel eb_Next check env (NewExponentialBackoff initial n) s =
      Some (first_done check (nat n + 1) s) \<and>
    WaitForBackoff fuel ebo_Next check env (NewExponentialBackoff initial n) s =
      Some (first_done check (nat n + 1) s)"
proof -
  let ?b = "NewExponentialBackoff initial n"
  have b: "eb_inv ?b" "eb_left ?b = nat n" using NewExponentialBackoff_inv assms by simp_all
  have "\<forall>j. True \<and> \<not> cancelled (env j)" using assms(5) by simp
  from exponential.loop_is_first_done [OF b(1) this, of fuel check 0]
    offset.loop_is_first_done [OF b(1) assms(5), of fuel check 0]
  show ?thesis using assms(4) b(2) by (auto simp: WaitForBackoff_def split: prod.splits)
qed

section \<open>Delays\<close>

text \<open>The delays of successive calls of \<^verbatim>\<open>Next\<close>, until the closed channel is returned.\<close>

fun eb_delays :: "nat \<Rightarrow> env \<Rightarrow> ExponentialBackoff \<Rightarrow> int list" where
  "eb_delays 0 e eb = []"
| "eb_delays (Suc n) e eb =
     (case eb_Next e eb of (eb', None) \<Rightarrow> [] | (eb', Some d) \<Rightarrow> d # eb_delays n e eb')"

lemma eb_delays_sum:
  assumes "0 < nextDelay eb" "steps eb - retries eb = int n" "nextDelay eb * (2 ^ n - 1) < 2 ^ 63"
  shows "sum_list (eb_delays (Suc n) e eb) = nextDelay eb * (2 ^ n - 1)"
  using assms
proof (induction n arbitrary: eb)
  case (Suc n)
  let ?d = "nextDelay eb" and ?eb = "(double_delay eb)\<lparr>retries := retries eb + 1\<rparr>"
  have pos: "?d \<le> ?d * 2 ^ n" using Suc.prems(1) by simp
  have next_eb: "eb_Next e eb = (?eb, Some ?d)" using Suc.prems(2) by (simp add: eb_Next_def)
  have delays: "eb_delays (Suc (Suc n)) e eb = ?d # eb_delays (Suc n) e ?eb"
    by (simp only: eb_delays.simps(2) [of "Suc n"] next_eb) simp
  show ?case
  proof (cases n)
    case 0
    then have "eb_delays (Suc n) e ?eb = []" using Suc.prems(2) by (simp add: eb_Next_def)
    then show ?thesis using delays 0 by simp
  next
    case (Suc m)
    have "2 \<le> (2::int) ^ n" using Suc by simp
    then have "?d * 3 \<le> ?d * (2 ^ Suc n - 1)" using \<open>0 < ?d\<close> by (intro mult_left_mono) auto
    then have "?d < 2 ^ 62" using Suc.prems(3) by simp
    then have "nextDelay ?eb = 2 * ?d" using double_delay_value [OF Suc.prems(1)] by simp
    then show ?thesis using Suc.IH [of ?eb] Suc.prems delays by (simp add: algebra_simps)
  qed
qed (simp add: eb_Next_def)

lemma total_loop_saturated:
  "0 < tot \<Longrightarrow> tot \<le> maxInt64 \<Longrightarrow> 0 < n \<Longrightarrow> total_loop n tot maxInt64 = maxInt64"
  by (cases n) (auto simp: maxInt64_def wrap64_overflow)

lemma total_loop_value:
  assumes "0 < delay" "delay \<le> maxInt64" "0 \<le> tot" "tot \<le> maxInt64"
  shows "total_loop n tot delay = min maxInt64 (tot + delay * (2 ^ n - 1))"
  using assms
proof (induction n arbitrary: tot delay)
  case (Suc n)
  have pos: "1 \<le> (2::int) ^ n" by simp
  have "1 \<le> (2::int) ^ Suc n - 1" using pos unfolding power_Suc by linarith
  then have mono: "delay * 1 \<le> delay * (2 ^ Suc n - 1)" using Suc.prems(1) by (intro mult_left_mono) linarith+
  show ?case
  proof (cases "tot + delay < 2 ^ 63")
    case False
    then have "wrap64 (tot + delay) < 0"
      using Suc.prems by (subst wrap64_overflow) (auto simp: maxInt64_def)
    then show ?thesis using False mono by (simp add: maxInt64_def)
  next
    case True
    then have tot: "wrap64 (tot + delay) = tot + delay" using Suc.prems by (intro wrap64_id) auto
    show ?thesis
    proof (cases "delay * 2 < 2 ^ 63")
      case small: True
      then have "wrap64 (delay * 2) = delay * 2" using Suc.prems by (intro wrap64_id) auto
      then show ?thesis
        using tot Suc.IH [of "delay * 2" "tot + delay"] Suc.prems small True
        by (simp add: maxInt64_def algebra_simps)
    next
      case big: False
      then have "wrap64 (delay * 2) < 0"
        using Suc.prems by (subst wrap64_overflow) (auto simp: maxInt64_def)
      then have step: "total_loop (Suc n) tot delay = total_loop n (tot + delay) maxInt64"
        using tot Suc.prems by simp
      show ?thesis
      proof (cases n)
        case 0
        then show ?thesis using step True by (simp add: maxInt64_def)
      next
        case (Suc m)
        have "1 \<le> (2::int) ^ m" by simp
        then have "3 \<le> (2::int) ^ Suc n - 1" unfolding Suc power_Suc by linarith
        then have "delay * 3 \<le> delay * (2 ^ Suc n - 1)" using Suc.prems by (intro mult_left_mono) linarith+
        then have "2 ^ 63 \<le> tot + delay * (2 ^ Suc n - 1)" using big Suc.prems by linarith
        then show ?thesis
          using step total_loop_saturated [of "tot + delay" n] Suc Suc.prems True by (simp add: maxInt64_def)
      qed
    qed
  qed
qed (simp add: maxInt64_def)

section \<open>The controller as a state machine\<close>

datatype ctl_event =
    ReqsTick
  | WaitCall sel sel
  | Transferred int
  | StopCall

text \<open>
  A run of the controller: the state and the number of calls of \<^verbatim>\<open>Wait\<close> that returned without an
  error. A call that blocks is not part of a run.
\<close>

fun ctl_run :: "ctl_event list \<Rightarrow> Controller \<times> nat \<Rightarrow> (Controller \<times> nat) option" where
  "ctl_run [] s = Some s"
| "ctl_run (ReqsTick # es) (c, n) = ctl_run es (reqs_tick c, n)"
| "ctl_run (WaitCall sel sel' # es) (c, n) =
     (case ctl_Wait sel sel' c of
        None \<Rightarrow> None
      | Some (c, err) \<Rightarrow> ctl_run es (c, if err = None then n + 1 else n))"
| "ctl_run (Transferred k # es) (c, n) = ctl_run es (BytesTransferred k c, n)"
| "ctl_run (StopCall # es) (c, n) = ctl_run es (ctl_Stop c, n)"

definition ticks :: "ctl_event list \<Rightarrow> nat" where
  "ticks es = length (filter (\<lambda>e. e = ReqsTick) es)"

lemma put_token_tokens:
  "reqsTokens (put_token c) \<le> reqsTokens c + 1" "opts (put_token c) = opts c"
  "int (reqsTokens c) \<le> reqsPerTick (opts c) \<Longrightarrow> int (reqsTokens (put_token c)) \<le> reqsPerTick (opts c)"
  by (auto simp: put_token_def)

lemma waitBytesPerTick_tokens:
  "waitBytesPerTick sel c = Some (c', err) \<Longrightarrow> reqsTokens c' = reqsTokens c \<and> opts c' = opts c"
  by (auto simp: waitBytesPerTick_def split: if_splits sel.splits)

lemma wait_bytes_after_token_tokens:
  assumes "wait_bytes_after_token sel c = Some (c', err)" "int (reqsTokens c) \<le> reqsPerTick (opts c)"
  shows "opts c' = opts c \<and> int (reqsTokens c') \<le> reqsPerTick (opts c) \<and>
    reqsTokens c' \<le> reqsTokens c + 1 \<and> (err = None \<longrightarrow> reqsTokens c' = reqsTokens c)"
proof -
  obtain c1 where c1: "waitBytesPerTick sel c = Some (c1, err)"
      "c' = (if err \<noteq> None \<and> reqsPerTick (opts c1) > 0 then put_token c1 else c1)"
    using assms(1) by (auto simp: wait_bytes_after_token_def split: option.splits)
  then show ?thesis
    using waitBytesPerTick_tokens [OF c1(1)] put_token_tokens [of c1] assms(2) by (simp split: if_splits)
qed

lemma ctl_Wait_tokens:
  assumes "ctl_Wait sel sel' c = Some (c', err)" "reqsPerTick (opts c) > 0" "\<not> noRateControl (opts c)"
    "int (reqsTokens c) \<le> reqsPerTick (opts c)"
  shows "opts c' = opts c \<and> int (reqsTokens c') \<le> reqsPerTick (opts c) \<and>
    reqsTokens c' + (if err = None then 1 else 0) \<le> reqsTokens c"
proof (cases "sel = SelCtx \<or> sel = SelStop")
  case True
  then show ?thesis using assms by (auto simp: ctl_Wait_def ctxErr_def split: if_splits)
next
  case False
  let ?c = "c\<lparr>reqsTokens := reqsTokens c - 1\<rparr>"
  have "reqsTokens c \<noteq> 0" "wait_bytes_after_token sel' ?c = Some (c', err)"
    using False assms by (auto simp: ctl_Wait_def split: sel.splits if_splits)
  then show ?thesis using wait_bytes_after_token_tokens [of sel' ?c c' err] assms(4) by auto
qed

lemma ctl_run_tokens:
  assumes "ctl_run es (c, n) = Some (c', n')" "reqsPerTick (opts c) > 0" "\<not> noRateControl (opts c)"
    "int (reqsTokens c) \<le> reqsPerTick (opts c)"
  shows "opts c' = opts c \<and> int (reqsTokens c') \<le> reqsPerTick (opts c) \<and> n' + reqsTokens c' \<le> n + reqsTokens c + ticks es"
  using assms
proof (induction es "(c, n)" arbitrary: c n rule: ctl_run.induct)
  case (2 es c n)
  then show ?case using put_token_tokens [of c] by (auto simp: ticks_def reqs_tick_def)
next
  case (3 sel sel' es c n)
  then obtain c1 err where w: "ctl_Wait sel sel' c = Some (c1, err)" by (auto split: option.splits)
  from ctl_Wait_tokens [OF w "3.prems"(2,3,4)] have c1: "opts c1 = opts c"
      "int (reqsTokens c1) \<le> reqsPerTick (opts c)" "reqsTokens c1 + (if err = None then 1 else 0) \<le> reqsTokens c"
    by simp_all
  have "ctl_run es (c1, if err = None then n + 1 else n) = Some (c', n')" using "3.prems"(1) w by simp
  from "3.hyps" [OF w refl this] show ?case using c1 "3.prems"(2,3) by (auto simp: ticks_def split: if_splits)
next
  case (4 k es c n)
  then show ?case by (auto simp: ticks_def BytesTransferred_def split: if_splits)
next
  case (5 es c n)
  then show ?case by (auto simp: ticks_def ctl_Stop_def)
qed (simp add: ticks_def)

section \<open>Properties\<close>

text \<open>
  C19: waiting with an exponential backoff, with or without a random offset, ends: if the context is
  not cancelled, \<^verbatim>\<open>WaitForBackoff\<close> calls the check once and then once for each step of the backoff, and
  its result is that of the first check that is done, or an error when none is. One iteration more
  than the number of steps is enough.
\<close>

theorem wait_for_backoff_terminates:
  assumes "0 < initial" "initial < 2 ^ 63" "0 < n" "nat n < fuel"
    "\<forall>j. ok_rand (env j) \<and> \<not> cancelled (env j)"
  shows "WaitForBackoff fuel eb_Next check env (NewExponentialBackoff initial n) s =
      Some (first_done check (nat n + 1) s) \<and>
    WaitForBackoff fuel ebo_Next check env (NewExponentialBackoff initial n) s =
      Some (first_done check (nat n + 1) s)"
  using wait_first_done [OF assms] .

theorem wait_for_backoff_terminates_witness:
  "WaitForBackoff 4 eb_Next (\<lambda>k. (k + 1, k = 2, None)) (\<lambda>_. \<lparr>rand_Int63n = (\<lambda>_. 0), clock = 0, cancelled = False\<rparr>)
     (NewExponentialBackoff 500000000 3) (0::nat) = Some (3, None)"
  using wait_for_backoff_terminates [of 500000000 3 4 "\<lambda>_. \<lparr>rand_Int63n = (\<lambda>_. 0), clock = 0, cancelled = False\<rparr>"
      "\<lambda>k. (k + 1, k = 2, None)" "0 :: nat"]
  by (simp add: ok_rand_def eval_nat_numeral)

text \<open>
  C20: the delays of a backoff double from the initial one, \<^verbatim>\<open>TotalTimeout\<close> is their sum,
  \<^verbatim>\<open>InitialDelay * (2^Steps - 1)\<close>, saturated at the largest duration, and no delay overflows.
\<close>

theorem total_timeout_is_sum_of_delays:
  assumes "0 < InitialDelay cfg" "InitialDelay cfg \<le> maxInt64" "0 < Steps cfg" "\<not> RandomizeStart cfg"
  shows "TotalTimeout cfg = min maxInt64 (InitialDelay cfg * (2 ^ nat (Steps cfg) - 1)) \<and>
    (\<exists>eb. NewBackoff cfg = Exponential eb \<and>
       (TotalTimeout cfg < maxInt64 \<longrightarrow> sum_list (eb_delays (nat (Steps cfg) + 1) e eb) = TotalTimeout cfg))"
proof -
  let ?n = "nat (Steps cfg)" and ?eb = "NewExponentialBackoff (InitialDelay cfg) (Steps cfg)"
  have total: "TotalTimeout cfg = min maxInt64 (InitialDelay cfg * (2 ^ ?n - 1))"
    using total_loop_value [of "InitialDelay cfg" 0 ?n] assms by (simp add: TotalTimeout_def maxInt64_def)
  have eb: "nextDelay ?eb = InitialDelay cfg" "steps ?eb - retries ?eb = int ?n"
    using assms by (simp_all add: NewExponentialBackoff_def)
  have "sum_list (eb_delays (?n + 1) e ?eb) = TotalTimeout cfg" if "TotalTimeout cfg < maxInt64"
    using eb_delays_sum [of ?eb ?n e] eb assms that total by (simp add: maxInt64_def)
  then show ?thesis using total assms by (simp add: NewBackoff_def)
qed

theorem total_timeout_is_sum_of_delays_witness:
  "TotalTimeout \<lparr>InitialDelay = 500000000, Steps = 10, RandomizeStart = False\<rparr> = 511500000000"
  using total_timeout_is_sum_of_delays [of "\<lparr>InitialDelay = 500000000, Steps = 10, RandomizeStart = False\<rparr>"]
  by (simp add: maxInt64_def)

text \<open>
  C21: the rate of requests is limited: in every run of a controller with a limit of requests per
  tick, the bucket never holds more tokens than that limit, and the number of calls of \<^verbatim>\<open>Wait\<close> that
  succeed is at most the limit plus the number of times the request ticker has fired, whatever the
  interleaving with failing calls, reported bytes and \<^verbatim>\<open>Stop\<close>.
\<close>

theorem request_rate_is_limited:
  assumes "ctl_run es (ctl_New os, 0) = Some (c, granted)"
    "reqsPerTick (opts (ctl_New os)) > 0" "\<not> noRateControl (opts (ctl_New os))"
  shows "int granted + int (reqsTokens c) \<le> reqsPerTick (opts (ctl_New os)) + int (ticks es) \<and>
    int (reqsTokens c) \<le> reqsPerTick (opts (ctl_New os))"
proof -
  have "int (reqsTokens (ctl_New os)) = reqsPerTick (opts (ctl_New os))"
    using assms(2) by (simp add: ctl_New_def Let_def)
  then show ?thesis using ctl_run_tokens [OF assms] by linarith
qed

theorem request_rate_is_limited_witness:
  "\<exists>c. ctl_run [WaitCall SelRecv SelRecv, WaitCall SelRecv SelRecv, ReqsTick, WaitCall SelRecv SelRecv]
      (ctl_New [WithRequestsPerTick 1000 2], 0) = Some (c, 3) \<and> int 3 + int (reqsTokens c) \<le> 2 + int 1"
proof -
  let ?es = "[WaitCall SelRecv SelRecv, WaitCall SelRecv SelRecv, ReqsTick, WaitCall SelRecv SelRecv]"
  have run: "map_option snd (ctl_run ?es (ctl_New [WithRequestsPerTick 1000 2], 0)) = Some 3"
    by code_simp
  then obtain c where c: "ctl_run ?es (ctl_New [WithRequestsPerTick 1000 2], 0) = Some (c, 3)"
    by (cases "ctl_run ?es (ctl_New [WithRequestsPerTick 1000 2], 0)") auto
  have h: "reqsPerTick (opts (ctl_New [WithRequestsPerTick 1000 2])) = 2"
    "\<not> noRateControl (opts (ctl_New [WithRequestsPerTick 1000 2]))" "ticks ?es = 1"
    by (simp_all add: ctl_New_def ticks_def)
  show ?thesis using request_rate_is_limited [OF c] h c by auto
qed

text \<open>
  the contract of the interface \<^verbatim>\<open>Backoff\<close>, for each of its implementations, nested spin
  detectors included: when \<^verbatim>\<open>Wait\<close> or \<^verbatim>\<open>Next\<close> ends the backoff without an error, \<^verbatim>\<open>Done\<close> is true from then
  on; an error is returned only when the context is cancelled, and only together with the end; and a
  call records at most one retry, none when it ends the backoff.
\<close>

theorem backoff_contract:
  "(case bo_Next e b of
      (b', None) \<Rightarrow> bo_Done b' \<and> bo_Retries b' = bo_Retries b
    | (b', Some d) \<Rightarrow> bo_Done b' = bo_Done b \<and> bo_Retries b' \<in> {bo_Retries b, bo_Retries b + 1}) \<and>
   (case bo_Wait e b of
      (b', True, None) \<Rightarrow> bo_Done b' \<and> bo_Retries b' = bo_Retries b
    | (b', True, Some err) \<Rightarrow> cancelled e \<and> Some err = ctxErr \<and> bo_Retries b' = bo_Retries b
    | (b', False, err) \<Rightarrow> err = None \<and> bo_Done b' = bo_Done b \<and> bo_Retries b' \<in> {bo_Retries b, bo_Retries b + 1})"
proof (induction b)
  case (BackoffOnSpin sd b)
  then show ?case
    by (cases "Tick (clock e) sd"; cases "snd (Tick (clock e) sd)")
      (auto split: prod.splits option.splits bool.splits)
qed (auto simp: eb_Next_def ebo_Next_def eb_Wait_def ebo_Wait_def Let_def ctxErr_def)

end
