(* ===== verification/Vms.thy ===== *)
theory Vms
  imports Rate_Control
begin

text \<open>
  The life cycle of virtual machines (\<^verbatim>\<open>vms/vms.go\<close>): states, actions and the transition table, the
  clean up of an instance and waiting for a state. An \<^verbatim>\<open>Instance\<close> is an interface: a record of its
  operations on a type \<open>'i\<close> of instances. The implementation kept in the repository for tests,
  \<^verbatim>\<open>vms/vmstestutil/mock.go\<close>, is modelled too, and the documented contract of the interface is a locale
  that is interpreted on it.
\<close>

section \<open>States and transitions (vms.go)\<close>

datatype State =
    StateInitial
  | StateCloning
  | StateStarting
  | StateRunning
  | StateStopping
  | StateStopped
  | StateSuspending
  | StateSuspended
  | StateDeleting
  | StateDeleted
  | StateErrorUnknown

datatype Action =
    ActionNone
  | ActionClone
  | ActionStart
  | ActionStop
  | ActionSuspend
  | ActionDelete

fun transitionTable :: "State \<Rightarrow> (Action \<times> State) list" where
  "transitionTable StateInitial = [(ActionClone, StateCloning), (ActionDelete, StateDeleting)]"
| "transitionTable StateCloning = [(ActionNone, StateCloning)]"
| "transitionTable StateStarting = [(ActionNone, StateStarting)]"
| "transitionTable StateRunning = [(ActionStop, StateStopping), (ActionSuspend, StateSuspending)]"
| "transitionTable StateStopping = [(ActionNone, StateStopping)]"
| "transitionTable StateStopped = [(ActionStart, StateStarting), (ActionDelete, StateDeleting), (ActionStop, StateStopped)]"
| "transitionTable StateSuspending = [(ActionNone, StateSuspending)]"
| "transitionTable StateSuspended =
     [(ActionStart, StateStarting), (ActionDelete, StateDeleting), (ActionSuspend, StateSuspended)]"
| "transitionTable StateDeleting = [(ActionNone, StateDeleting)]"
| "transitionTable StateDeleted = [(ActionClone, StateCloning)]"
| "transitionTable StateErrorUnknown = [(ActionDelete, StateDeleting)]"

definition Transition :: "State \<Rightarrow> Action \<Rightarrow> State \<times> bool" where
  "Transition s action =
     (case map_of (transitionTable s) action of Some next \<Rightarrow> (next, True) | None \<Rightarrow> (s, False))"

definition ValidActions :: "State \<Rightarrow> Action list" where
  "ValidActions s = map fst (transitionTable s)"

definition Allowed :: "State \<Rightarrow> Action \<Rightarrow> bool" where
  "Allowed s action = snd (Transition s action)"

fun state_String :: "State \<Rightarrow> string" where
  "state_String StateInitial = ''Initial''"
| "state_String StateCloning = ''Cloning''"
| "state_String StateStarting = ''Starting''"
| "state_String StateRunning = ''Running''"
| "state_String StateStopping = ''Stopping''"
| "state_String StateStopped = ''Stopped''"
| "state_String StateSuspending = ''Suspending''"
| "state_String StateSuspended = ''Suspended''"
| "state_String StateDeleting = ''Deleting''"
| "state_String StateDeleted = ''Deleted''"
| "state_String StateErrorUnknown = ''ErrorUnknown''"

section \<open>Instances (vms.go)\<close>

text \<open>
  The operations of the interface: each returns the instance after the call and the error, \<^verbatim>\<open>Stop\<close> an
  error of the last command and one of the stop itself. \<^verbatim>\<open>Exec\<close> and \<^verbatim>\<open>Properties\<close> do not alter an
  instance and are left out.
\<close>

record 'i Instance =
  i_State :: "'i \<Rightarrow> State"
  i_Clone :: "'i \<Rightarrow> 'i \<times> fault option"
  i_Start :: "'i \<Rightarrow> 'i \<times> fault option"
  i_Stop :: "'i \<Rightarrow> 'i \<times> fault option \<times> fault option"
  i_Suspendable :: "'i \<Rightarrow> bool"
  i_Suspend :: "'i \<Rightarrow> 'i \<times> fault option"
  i_Delete :: "'i \<Rightarrow> 'i \<times> fault option"

definition delete_instance :: "'i Instance \<Rightarrow> 'i \<Rightarrow> 'i \<times> fault option" where
  "delete_instance ops i =
     (case i_Delete ops i of
        (i, Some err) \<Rightarrow> (i, Some (Error ''cleanup: failed to delete VM''))
      | (i, None) \<Rightarrow>
          (i, if i_State ops i \<noteq> StateDeleted
              then Some (Error ''cleanup: expected VM to be deleted after delete'') else None))"

definition CleanupVM :: "'i Instance \<Rightarrow> 'i \<Rightarrow> 'i \<times> fault option" where
  "CleanupVM ops i =
     (case i_State ops i of
        StateDeleted \<Rightarrow> (i, None)
      | StateInitial \<Rightarrow> (fst (i_Delete ops i), None)
      | StateRunning \<Rightarrow>
          (case i_Stop ops i of (i, runErr, stopErr) \<Rightarrow>
             if i_State ops i \<noteq> StateStopped
             then (i, Some (Error ''cleanup: expected VM to be stopped after stopping''))
             else delete_instance ops i)
      | StateStopped \<Rightarrow> delete_instance ops i
      | StateSuspended \<Rightarrow> delete_instance ops i
      | StateErrorUnknown \<Rightarrow> delete_instance ops i
      | _ \<Rightarrow> (i, Some (Error ''cleanup: unexpected VM state'')))"

definition WaitForStateFunc :: "'i Instance \<Rightarrow> State \<Rightarrow> State list \<Rightarrow> 'i \<Rightarrow> bool \<times> fault option" where
  "WaitForStateFunc ops final intermediate i =
     (let got = i_State ops i
      in if got = final then (True, None)
         else if intermediate \<noteq> [] \<and> got \<notin> set intermediate
         then (True, Some (Error ''unexpected intermediate state''))
         else (False, None))"

text \<open>The instance moves on by itself between two checks: \<open>evolve\<close>.\<close>

definition WaitForState ::
  "nat \<Rightarrow> (env \<Rightarrow> 'b \<Rightarrow> 'b \<times> int option) \<Rightarrow> (nat \<Rightarrow> env) \<Rightarrow> ('i \<Rightarrow> 'i) \<Rightarrow> 'i Instance \<Rightarrow> 'b \<Rightarrow> State \<Rightarrow> State list \<Rightarrow> 'i \<Rightarrow>
   ('i \<times> fault option) option" where
  "WaitForState fuel next env evolve ops b final intermediate i =
     WaitForBackoff fuel next
       (\<lambda>i. case WaitForStateFunc ops final intermediate i of
              (done, err) \<Rightarrow> (if done then i else evolve i, done, err)) env b i"

section \<open>The mock instance (mock.go)\<close>

record Mock =
  m_state :: State
  m_suspendable :: bool
  cloned :: bool
  deleteCalls :: nat
  CloneErr :: "fault option"
  StartErr :: "fault option"
  StopRunErr :: "fault option"
  StopErr :: "fault option"
  StopState :: "State option"
  SuspendErr :: "fault option"
  DeleteErr :: "fault option"

definition NewMock :: Mock where
  "NewMock = \<lparr>m_state = StateInitial, m_suspendable = True, cloned = False, deleteCalls = 0, CloneErr = None,
     StartErr = None, StopRunErr = None, StopErr = None, StopState = None, SuspendErr = None, DeleteErr = None\<rparr>"

definition m_Clone :: "Mock \<Rightarrow> Mock \<times> fault option" where
  "m_Clone m =
     (case CloneErr m of
        Some err \<Rightarrow> (m, Some err)
      | None \<Rightarrow> (m\<lparr>cloned := True, m_state := StateStopped\<rparr>, None))"

definition m_Start :: "Mock \<Rightarrow> Mock \<times> fault option" where
  "m_Start m =
     (case StartErr m of
        Some err \<Rightarrow> (m\<lparr>m_state := StateErrorUnknown\<rparr>, Some err)
      | None \<Rightarrow> (m\<lparr>m_state := StateRunning\<rparr>, None))"

definition m_Stop :: "Mock \<Rightarrow> Mock \<times> fault option \<times> fault option" where
  "m_Stop m =
     (if m_state m = StateStopped then (m, None, None)
      else if m_state m \<noteq> StateRunning then (m, None, Some (Error ''cannot stop VM''))
      else case StopErr m of
        Some err \<Rightarrow>
          (m\<lparr>m_state := (case StopState m of Some s \<Rightarrow> s | None \<Rightarrow> StateErrorUnknown)\<rparr>, StopRunErr m, Some err)
      | None \<Rightarrow>
          (m\<lparr>m_state := (case StopState m of Some s \<Rightarrow> s | None \<Rightarrow> StateStopped)\<rparr>, StopRunErr m, None))"

definition m_Suspend :: "Mock \<Rightarrow> Mock \<times> fault option" where
  "m_Suspend m =
     (case SuspendErr m of
        Some err \<Rightarrow> (m\<lparr>m_state := StateErrorUnknown\<rparr>, Some err)
      | None \<Rightarrow> (m\<lparr>m_state := StateSuspended\<rparr>, None))"

definition m_Delete :: "Mock \<Rightarrow> Mock \<times> fault option" where
  "m_Delete m =
     (let m = m\<lparr>deleteCalls := deleteCalls m + 1\<rparr>
      in if \<not> Allowed (m_state m) ActionDelete then (m, Some (Error ''cannot delete VM''))
         else if DeleteErr m \<noteq> None then (m, DeleteErr m)
         else if m_state m = StateInitial \<and> \<not> cloned m then (m, Some (Error ''virtual machine not found''))
         else (m\<lparr>m_state := StateDeleted\<rparr>, None))"

definition mock :: "Mock Instance" where
  "mock = \<lparr>i_State = m_state, i_Clone = m_Clone, i_Start = m_Start, i_Stop = m_Stop,
     i_Suspendable = m_suspendable, i_Suspend = m_Suspend, i_Delete = m_Delete\<rparr>"

lemmas mock_defs = mock_def m_Clone_def m_Start_def m_Stop_def m_Suspend_def m_Delete_def

section \<open>The contract of an instance\<close>

text \<open>
  What the comments of the interface promise: the state after a successful operation, and that a
  failing one leaves the state unchanged, falls back to the state before the operation or ends in
  \<^verbatim>\<open>StateErrorUnknown\<close>. \<open>ok\<close> selects the instances that keep the promise.
\<close>

locale vm_instance =
  fixes ops :: "'i Instance" and ok :: "'i \<Rightarrow> bool"
  assumes clone_ok: "ok i \<Longrightarrow> i_Clone ops i = (i', None) \<Longrightarrow> ok i' \<and> i_State ops i' = StateStopped"
    and clone_err: "ok i \<Longrightarrow> i_Clone ops i = (i', Some e) \<Longrightarrow> ok i' \<and> i_State ops i' \<in> {i_State ops i, StateInitial}"
    and start_ok: "ok i \<Longrightarrow> i_Start ops i = (i', None) \<Longrightarrow> ok i' \<and> i_State ops i' = StateRunning"
    and start_err: "ok i \<Longrightarrow> i_Start ops i = (i', Some e) \<Longrightarrow> ok i' \<and> i_State ops i' \<in> {i_State ops i, StateErrorUnknown}"
    and suspend_ok: "ok i \<Longrightarrow> i_Suspend ops i = (i', None) \<Longrightarrow> ok i' \<and> i_State ops i' = StateSuspended"
    and suspend_err: "ok i \<Longrightarrow> i_Suspend ops i = (i', Some e) \<Longrightarrow> ok i' \<and> i_State ops i' \<in> {i_State ops i, StateErrorUnknown}"
    and stop_ok: "ok i \<Longrightarrow> i_Stop ops i = (i', r, None) \<Longrightarrow> ok i' \<and> i_State ops i' = StateStopped"
    and stop_err: "ok i \<Longrightarrow> i_Stop ops i = (i', r, Some e) \<Longrightarrow> ok i' \<and> i_State ops i' \<in> {i_State ops i, StateStopped, StateErrorUnknown}"
    and delete_ok: "ok i \<Longrightarrow> i_Delete ops i = (i', None) \<Longrightarrow> ok i' \<and> i_State ops i' = StateDeleted"
    and delete_err: "ok i \<Longrightarrow> i_Delete ops i = (i', Some e) \<Longrightarrow> ok i' \<and> i_State ops i' \<in> {i_State ops i, StateDeleted, StateErrorUnknown}"
begin

lemma delete_instance_contract:
  assumes "ok i" "delete_instance ops i = (i', err)"
  shows "ok i' \<and> (err = None \<longrightarrow> i_State ops i' = StateDeleted) \<and>
    (snd (i_Delete ops i) = None \<longrightarrow> err = None) \<and> i_State ops i' \<in> {i_State ops i, StateDeleted, StateErrorUnknown}"
proof -
  obtain j e where d: "i_Delete ops i = (j, e)" by fastforce
  then show ?thesis
    using assms delete_ok [OF assms(1), of j] delete_err [OF assms(1), of j]
    by (cases e) (auto simp: delete_instance_def)
qed

text \<open>A clean up ends with a deleted machine unless stopping or deleting it failed.\<close>

lemma cleanup_deletes:
  assumes "ok i" "i_State ops i \<in> {StateRunning, StateStopped, StateSuspended, StateErrorUnknown}"
    "i_State ops i = StateRunning \<Longrightarrow> snd (snd (i_Stop ops i)) = None"
    "\<And>j. ok j \<Longrightarrow> i_State ops j \<in> {StateStopped, StateSuspended, StateErrorUnknown} \<Longrightarrow> snd (i_Delete ops j) = None"
  shows "\<exists>i'. CleanupVM ops i = (i', None) \<and> ok i' \<and> i_State ops i' = StateDeleted"
proof -
  have del: "\<exists>k'. delete_instance ops k = (k', None) \<and> ok k' \<and> i_State ops k' = StateDeleted"
    if "ok k" "i_State ops k \<in> {StateStopped, StateSuspended, StateErrorUnknown}" for k
    using delete_instance_contract [OF that(1)] assms(4) [OF that] by (cases "delete_instance ops k") auto
  show ?thesis
  proof (cases "i_State ops i = StateRunning")
    case True
    obtain j r e where stop: "i_Stop ops i = (j, r, e)" by (cases "i_Stop ops i") auto
    then have "ok j" "i_State ops j = StateStopped" using stop_ok [OF assms(1)] assms(3) [OF True] by auto
    then show ?thesis using True stop del [of j] by (simp add: CleanupVM_def)
  next
    case False
    then show ?thesis using assms(1,2) del [of i] by (auto simp: CleanupVM_def)
  qed
qed

text \<open>Whatever fails, a clean up that is not successful leaves the machine in a state from which it was started or an error state.\<close>

lemma cleanup_keeps_ok:
  assumes "ok i" "CleanupVM ops i = (i', err)"
  shows "ok i'"
proof -
  have dec: "ok (fst (i_Delete ops i))"
    using delete_ok [OF assms(1)] delete_err [OF assms(1)] by (cases "i_Delete ops i"; cases "snd (i_Delete ops i)") auto
  obtain j r e where stop: "i_Stop ops i = (j, r, e)" by (cases "i_Stop ops i") auto
  then have j: "ok j" using stop_ok [OF assms(1)] stop_err [OF assms(1)] by (cases e) auto
  show ?thesis
    using assms dec stop j delete_instance_contract [OF assms(1)] delete_instance_contract [OF j]
    by (auto simp: CleanupVM_def split: State.splits if_splits)
qed

end

definition mock_ok :: "Mock \<Rightarrow> bool" where
  "mock_ok m \<longleftrightarrow> StopState m = None"

interpretation mocks: vm_instance mock mock_ok
  by unfold_locales
    (auto simp: mock_defs mock_ok_def Let_def split: option.splits if_splits)

section \<open>Properties\<close>

text \<open>Operations that agree where the transition table allows the action.\<close>

definition agree_where_allowed :: "'i Instance \<Rightarrow> 'i Instance \<Rightarrow> bool" where
  "agree_where_allowed ops ops' \<longleftrightarrow> i_State ops' = i_State ops \<and>
     (\<forall>i. Allowed (i_State ops i) ActionDelete \<longrightarrow> i_Delete ops' i = i_Delete ops i) \<and>
     (\<forall>i. Allowed (i_State ops i) ActionStop \<longrightarrow> i_Stop ops' i = i_Stop ops i)"

lemmas allowed_simps = Allowed_def Transition_def

lemma delete_instance_agree:
  assumes "agree_where_allowed ops ops'" "Allowed (i_State ops i) ActionDelete"
  shows "delete_instance ops' i = delete_instance ops i"
proof -
  have "i_Delete ops' i = i_Delete ops i" "i_State ops' = i_State ops"
    using assms by (simp_all add: agree_where_allowed_def)
  then show ?thesis by (auto simp: delete_instance_def split: prod.splits option.splits)
qed

lemma CleanupVM_agree:
  assumes "agree_where_allowed ops ops'"
  shows "CleanupVM ops' i = CleanupVM ops i"
proof -
  have st: "i_State ops' = i_State ops" using assms by (simp add: agree_where_allowed_def)
  have del: "i_Delete ops' i = i_Delete ops i" if "i_State ops i = StateInitial"
    using assms that by (simp add: agree_where_allowed_def allowed_simps)
  have stop: "i_Stop ops' i = i_Stop ops i" if "i_State ops i = StateRunning"
    using assms that by (simp add: agree_where_allowed_def allowed_simps)
  have "delete_instance ops' j = delete_instance ops j"
    if "i_State ops j \<in> {StateStopped, StateSuspended, StateErrorUnknown}" for j
    using that by (intro delete_instance_agree [OF assms]) (auto simp: allowed_simps)
  then show ?thesis
    using st del stop by (auto simp: CleanupVM_def split: State.splits prod.splits)
qed

lemma delete_instance_success: "delete_instance ops i = (i', None) \<Longrightarrow> i_State ops i' = StateDeleted"
  by (auto simp: delete_instance_def split: prod.splits option.splits if_splits)

lemma CleanupVM_success:
  "CleanupVM ops i = (i', None) \<Longrightarrow> i_State ops i' = StateDeleted \<or> i_State ops i = StateInitial"
  by (auto simp: CleanupVM_def dest: delete_instance_success split: State.splits prod.splits if_splits)

definition mock_good :: "Mock \<Rightarrow> bool" where
  "mock_good m \<longleftrightarrow> StopState m = None \<and> StopErr m = None \<and> DeleteErr m = None"

interpretation good_mocks: vm_instance mock mock_good
  by unfold_locales
    (auto simp: mock_defs mock_good_def Let_def split: option.splits if_splits)

lemma mock_deleteCalls: "deleteCalls (fst (CleanupVM mock m)) \<le> deleteCalls m + 1"
proof -
  have delete: "deleteCalls (fst (delete_instance mock j)) \<le> deleteCalls j + 1"
    "deleteCalls (fst (m_Delete j)) \<le> deleteCalls j + 1" for j
    by (auto simp: delete_instance_def mock_def m_Delete_def Let_def split: option.splits)
  have stop: "deleteCalls (fst (m_Stop m)) = deleteCalls m" by (simp add: m_Stop_def split: option.splits)
  obtain j r e where j: "m_Stop m = (j, r, e)" by (cases "m_Stop m") auto
  then show ?thesis using delete [of m] delete [of j] stop
    by (cases "m_state m") (auto simp: CleanupVM_def mock_def [THEN arg_cong [where f = i_State]]
      mock_def [THEN arg_cong [where f = i_Stop]] mock_def [THEN arg_cong [where f = i_Delete]])
qed

definition transient :: "State \<Rightarrow> bool" where
  "transient s \<longleftrightarrow> s \<in> {StateCloning, StateStarting, StateStopping, StateSuspending, StateDeleting}"



lemma first_done_evolve:
  assumes "k < n" "i_State ops ((evolve ^^ k) i) = final"
    "\<forall>j<k. i_State ops ((evolve ^^ j) i) \<noteq> final \<and>
       (intermediate = [] \<or> i_State ops ((evolve ^^ j) i) \<in> set intermediate)"
  shows "first_done (\<lambda>i. case WaitForStateFunc ops final intermediate i of
      (done, err) \<Rightarrow> (if done then i else evolve i, done, err)) n i = ((evolve ^^ k) i, None)"
  using assms
proof (induction k arbitrary: n i)
  case 0
  then show ?case by (cases n) (auto simp: WaitForStateFunc_def)
next
  case (Suc k)
  then obtain n' where n: "n = Suc n'" by (cases n) auto
  have shift: "(evolve ^^ j) (evolve i) = (evolve ^^ Suc j) i" for j by (simp add: funpow_swap1)
  have "i_State ops ((evolve ^^ j) (evolve i)) \<noteq> final \<and>
      (intermediate = [] \<or> i_State ops ((evolve ^^ j) (evolve i)) \<in> set intermediate)" if "j < k" for j
    using Suc.prems(3) that shift [of j] by auto
  then have "first_done (\<lambda>i. case WaitForStateFunc ops final intermediate i of
      (done, err) \<Rightarrow> (if done then i else evolve i, done, err)) n' (evolve i) = ((evolve ^^ Suc k) i, None)"
    using Suc.prems Suc.IH [of n' "evolve i"] n shift [of k] by auto
  moreover have "WaitForStateFunc ops final intermediate i = (False, None)"
    using Suc.prems(3) by (auto simp: WaitForStateFunc_def)
  ultimately show ?case by (simp add: n)
qed

text \<open>
  C23: waiting for a state. If an instance reaches the final state within as many checks as the backoff
  has steps, through allowed intermediate states only, \<^verbatim>\<open>WaitForState\<close> returns without an error, with the
  instance in the final state.
\<close>

theorem wait_for_state_returns:
  assumes "0 < initial" "initial < 2 ^ 63" "0 < n" "nat n < fuel" "\<forall>j. ok_rand (env j) \<and> \<not> cancelled (env j)"
    "k \<le> nat n" "i_State ops ((evolve ^^ k) i) = final"
    "\<forall>j<k. i_State ops ((evolve ^^ j) i) \<noteq> final \<and>
       (intermediate = [] \<or> i_State ops ((evolve ^^ j) i) \<in> set intermediate)"
  shows "WaitForState fuel eb_Next env evolve ops (NewExponentialBackoff initial n) final intermediate i =
    Some ((evolve ^^ k) i, None)"
  using wait_first_done [OF assms(1-5), of _ i] first_done_evolve [OF _ assms(7,8), of "nat n + 1"] assms(6)
  by (simp add: WaitForState_def)

theorem wait_for_state_returns_witness:
  "WaitForState 4 eb_Next (\<lambda>_. \<lparr>rand_Int63n = (\<lambda>_. 0), clock = 0, cancelled = False\<rparr>)
     (\<lambda>m. if m_state m = StateStarting then m\<lparr>m_state := StateRunning\<rparr> else m) mock
     (NewExponentialBackoff 500000000 3) StateRunning [StateStarting] (NewMock\<lparr>m_state := StateStarting\<rparr>) =
   Some (NewMock\<lparr>m_state := StateRunning\<rparr>, None)"
proof -
  let ?ev = "\<lambda>m::Mock. if m_state m = StateStarting then m\<lparr>m_state := StateRunning\<rparr> else m"
  have one: "(?ev ^^ 1) (NewMock\<lparr>m_state := StateStarting\<rparr>) = NewMock\<lparr>m_state := StateRunning\<rparr>" by simp
  have "\<forall>j<1. i_State mock ((?ev ^^ j) (NewMock\<lparr>m_state := StateStarting\<rparr>)) \<noteq> StateRunning \<and>
      ([StateStarting] = [] \<or> i_State mock ((?ev ^^ j) (NewMock\<lparr>m_state := StateStarting\<rparr>)) \<in> set [StateStarting])"
    by (simp add: mock_def)
  from wait_for_state_returns [of 500000000 3 4 "\<lambda>_. \<lparr>rand_Int63n = (\<lambda>_. 0), clock = 0, cancelled = False\<rparr>"
      1 mock ?ev "NewMock\<lparr>m_state := StateStarting\<rparr>" StateRunning "[StateStarting]", OF _ _ _ _ _ _ _ this]
  show ?thesis by (simp add: ok_rand_def mock_def one)
qed

end
