(* ===== verification/VM_Pool.thy ===== *)
theory VM_Pool
  imports Vms
begin

text \<open>
  The pool of virtual machines (\<^verbatim>\<open>vms/vmspool/pool.go\<close>, \<^verbatim>\<open>events.go\<close>), a concurrent program. Its
  goroutines and the callers of its methods are threads of a state machine. A step is what one
  thread does between two points where others can run: a critical section under one of the mutexes, a
  send or receive, a call of an operation of an instance. The state is the pool, the instances it has
  created, and the program counter of every thread; a step is a function of the state, of the thread
  and of what the outside world decides (the instance returned by the provider, which case of a
  \<^verbatim>\<open>select\<close> proceeds, whether the backoff is exhausted). Every interleaving of steps is a run.
\<close>

section \<open>Options and events\<close>

datatype StagingBehaviour = StagingBehaviourRunning | StagingBehaviourSuspended | StagingBehaviourStopped

datatype EventKind =
    EventAcquireWaiting
  | EventVMDequeued
  | EventAcquired
  | EventAcquireFailed
  | EventAttemptToUseClosedPool
  | EventRelease
  | EventReleased
  | EventVMCreateStarted
  | EventVMCreated
  | EventVMCreateFailed
  | EventReplenishStarted
  | EventReplenished
  | EventReplenishFailed
  | EventStartPoolFull
  | EventOrphanedVMDeleted
  | EventAcquiredVMRetained

record pool_options =
  po_size :: int
  statusCh :: "nat option"
  stagingBehaviour :: StagingBehaviour
  cleanupTimeout :: int
  createBackoff :: ExponentialBackoffConfig
  stopTimeout :: int
  deleteAcquiredOnClose :: bool

datatype PoolOption =
    WithSize int
  | WithCleanupTimeout int
  | WithCreateBackoff ExponentialBackoffConfig
  | WithStopTimeout int
  | WithStatus nat
  | WithDeleteAcquiredOnClose bool
  | WithStagingBehaviour StagingBehaviour

definition DefaultPoolSize :: int where
  "DefaultPoolSize = 2"

definition DefaultTimeout :: int where
  "DefaultTimeout = 60 * second"

definition DefaultCreateBackoff :: ExponentialBackoffConfig where
  "DefaultCreateBackoff = \<lparr>InitialDelay = 500000000, Steps = 10, RandomizeStart = False\<rparr>"

fun apply_pool_option :: "PoolOption \<Rightarrow> pool_options \<Rightarrow> pool_options" where
  "apply_pool_option (WithSize n) o' = o'\<lparr>po_size := (if n \<le> 0 then DefaultPoolSize else n)\<rparr>"
| "apply_pool_option (WithCleanupTimeout t) o' = o'\<lparr>cleanupTimeout := (if t \<le> 0 then DefaultTimeout else t)\<rparr>"
| "apply_pool_option (WithCreateBackoff cfg) o' =
     o'\<lparr>createBackoff := (if InitialDelay cfg \<le> 0 \<or> Steps cfg \<le> 0 then DefaultCreateBackoff else cfg)\<rparr>"
| "apply_pool_option (WithStopTimeout t) o' = o'\<lparr>stopTimeout := (if t \<le> 0 then DefaultTimeout else t)\<rparr>"
| "apply_pool_option (WithStatus cap) o' = o'\<lparr>statusCh := Some cap\<rparr>"
| "apply_pool_option (WithDeleteAcquiredOnClose v) o' = o'\<lparr>deleteAcquiredOnClose := v\<rparr>"
| "apply_pool_option (WithStagingBehaviour b) o' = o'\<lparr>stagingBehaviour := b\<rparr>"

record Config =
  Size :: int
  CleanupTimeout :: int
  CreateBackoff :: ExponentialBackoffConfig
  StopTimeout :: int
  cfg_StagingBehaviour :: StagingBehaviour
  cfg_DeleteAcquiredOnClose :: bool

definition Config_Options :: "Config \<Rightarrow> PoolOption list" where
  "Config_Options c =
     [WithSize (Size c), WithCleanupTimeout (CleanupTimeout c), WithCreateBackoff (CreateBackoff c),
      WithStopTimeout (StopTimeout c), WithStagingBehaviour (cfg_StagingBehaviour c),
      WithDeleteAcquiredOnClose (cfg_DeleteAcquiredOnClose c)]"

section \<open>Threads\<close>

text \<open>Who runs \<^verbatim>\<open>createVMWithRetry\<close>: \<^verbatim>\<open>Start\<close> itself, the goroutines that fill the pool, or a replenishment.\<close>

datatype origin = FromStart | FromFill | FromReplenish

text \<open>Who cleans up an instance.\<close>

datatype cleaner =
    InWorker
  | InAttempt origin
  | InAcquireClosed
  | InAcquireStart
  | InDelete bool
  | InDrain
  | InSweep

datatype after =
    AfterAcquire
  | AfterStop nat
  | AfterDelete "fault option"

datatype thread =
    WNew                      \<comment> \<open>\<^verbatim>\<open>createVM\<close>, in the goroutine of \<^verbatim>\<open>attemptCreateVM\<close>\<close>
  | WClone nat
  | WStart nat
  | WSuspend nat
  | WCheck nat
  | WDone "fault + nat"
  | StartInit                 \<comment> \<open>\<^verbatim>\<open>Start\<close>\<close>
  | FillGo                    \<comment> \<open>\<^verbatim>\<open>fill\<close>\<close>
  | FillWait "nat list"
  | Attempt origin            \<comment> \<open>\<^verbatim>\<open>createVMWithRetry\<close>, \<^verbatim>\<open>attemptCreateVM\<close>\<close>
  | Waiting origin nat
  | Deliver origin nat
  | Retry origin
  | AWait                     \<comment> \<open>\<^verbatim>\<open>Acquire\<close>\<close>
  | ACheck nat
  | ALock nat
  | Handed nat bool           \<comment> \<open>a caller that holds a VM, and whether its slot has been released\<close>
  | SRelease nat bool         \<comment> \<open>\<^verbatim>\<open>StopAndRelease\<close>\<close>
  | CBegin                    \<comment> \<open>\<^verbatim>\<open>Close\<close>\<close>
  | CWait
  | CDrain
  | CSweep
  | CJoin "nat list"
  | Claim cleaner nat         \<comment> \<open>\<^verbatim>\<open>cleanupVM\<close>\<close>
  | Clean cleaner nat
  | Replenish after           \<comment> \<open>about to call \<^verbatim>\<open>requestReplenish\<close>\<close>
  | Returned "fault option"

section \<open>The pool\<close>

record 'i vmsInstance =
  inst :: 'i
  acquired :: bool
  stopped :: bool

text \<open>
  An instance is a number, its address. \<open>starts\<close> counts how often \<^verbatim>\<open>replenishCancel\<close> has been set, and
  \<open>opMutex\<close> is true while the mutex is held between steps. The last two components are history: the
  calls of \<^verbatim>\<open>vms.CleanupVM\<close> with their outcome, and whether \<^verbatim>\<open>Close\<close> has taken its snapshot.
\<close>

record 'i Pool =
  options :: pool_options
  ready :: "nat list"
  doneClosed :: bool
  opMutex :: bool
  closed :: bool
  live :: "nat set"
  starts :: nat
  replenishCancelled :: bool
  heap :: "nat \<Rightarrow> 'i vmsInstance option"
  nextInst :: nat
  events :: "EventKind list"
  threads :: "thread list"
  cleanups :: "(nat \<times> cleaner \<times> fault option) list"
  swept :: bool

definition setStopped :: "'i Pool \<Rightarrow> nat \<Rightarrow> bool \<Rightarrow> 'i Pool \<times> bool" where
  "setStopped p i b =
     (case heap p i of
        None \<Rightarrow> (p, False)
      | Some v \<Rightarrow> (p\<lparr>heap := (heap p)(i \<mapsto> v\<lparr>stopped := b\<rparr>)\<rparr>, stopped v \<noteq> b))"

definition isStopped :: "'i Pool \<Rightarrow> nat \<Rightarrow> bool" where
  "isStopped p i = (case heap p i of None \<Rightarrow> False | Some v \<Rightarrow> stopped v)"

definition setAcquired :: "'i Pool \<Rightarrow> nat \<Rightarrow> 'i Pool" where
  "setAcquired p i = p\<lparr>heap := (heap p)(i := map_option (\<lambda>v. v\<lparr>acquired := True\<rparr>) (heap p i))\<rparr>"

definition isAcquired :: "'i Pool \<Rightarrow> nat \<Rightarrow> bool" where
  "isAcquired p i = (case heap p i of None \<Rightarrow> False | Some v \<Rightarrow> acquired v)"

text \<open>A call of an operation of an instance.\<close>

definition call :: "('i \<Rightarrow> 'i \<times> 'e) \<Rightarrow> 'i Pool \<Rightarrow> nat \<Rightarrow> ('i Pool \<times> 'e) option" where
  "call f p i =
     (case heap p i of
        None \<Rightarrow> None
      | Some v \<Rightarrow> (case f (inst v) of (x, err) \<Rightarrow> Some (p\<lparr>heap := (heap p)(i \<mapsto> v\<lparr>inst := x\<rparr>)\<rparr>, err)))"

definition suspendable :: "'i Instance \<Rightarrow> 'i Pool \<Rightarrow> nat \<Rightarrow> bool" where
  "suspendable ops p i = (case heap p i of None \<Rightarrow> False | Some v \<Rightarrow> i_Suspendable ops (inst v))"

definition pool_New :: "PoolOption list \<Rightarrow> 'i Pool" where
  "pool_New os =
     \<lparr>options = fold apply_pool_option os
        \<lparr>po_size = DefaultPoolSize, statusCh = None, stagingBehaviour = StagingBehaviourRunning,
         cleanupTimeout = DefaultTimeout, createBackoff = DefaultCreateBackoff, stopTimeout = DefaultTimeout,
         deleteAcquiredOnClose = True\<rparr>,
      ready = [], doneClosed = False, opMutex = False, closed = False, live = {}, starts = 0,
      replenishCancelled = False, heap = (\<lambda>_. None), nextInst = 0, events = [], threads = [], cleanups = [],
      swept = False\<rparr>"

definition track :: "'i Pool \<Rightarrow> nat \<Rightarrow> 'i Pool" where
  "track p i = p\<lparr>live := insert i (live p)\<rparr>"

definition claim :: "'i Pool \<Rightarrow> nat \<Rightarrow> 'i Pool \<times> bool" where
  "claim p i = (if i \<notin> live p then (p, False) else (p\<lparr>live := live p - {i}\<rparr>, True))"

definition tracked :: "'i Pool \<Rightarrow> nat list" where
  "tracked p = sorted_list_of_set (live p)"

definition notify :: "EventKind \<Rightarrow> 'i Pool \<Rightarrow> 'i Pool" where
  "notify kind p =
     (case statusCh (options p) of
        None \<Rightarrow> p
      | Some cap \<Rightarrow> if length (events p) < cap then p\<lparr>events := events p @ [kind]\<rparr> else p)"

definition psize :: "'i Pool \<Rightarrow> nat" where
  "psize p = nat (po_size (options p))"

section \<open>Steps\<close>

text \<open>What the outside world decides in a step.\<close>

datatype 'i choice =
    Go                        \<comment> \<open>the step has no alternative, or the first case of a \<^verbatim>\<open>select\<close> proceeds\<close>
  | Got 'i                    \<comment> \<open>\<^verbatim>\<open>Provider.New\<close> returns an instance\<close>
  | GotNone                   \<comment> \<open>it returns an error or nil\<close>
  | CtxDone                   \<comment> \<open>the context is done\<close>
  | TimedOut                  \<comment> \<open>the timer of \<^verbatim>\<open>attemptCreateVM\<close> fires, or the backoff is exhausted\<close>
  | PoolDone                  \<comment> \<open>the channel \<^verbatim>\<open>done\<close> is closed\<close>
  | CallStop                  \<comment> \<open>the holder of a VM calls \<^verbatim>\<open>StopAndRelease\<close>\<close>
  | CallDelete                \<comment> \<open>the holder of a VM calls \<^verbatim>\<open>Delete\<close>\<close>

text \<open>
  A step of a thread yields the pool, the thread's next program counter, the threads it has consumed
  the result of, and the threads it starts.
\<close>

type_synonym 'i effect = "'i Pool \<times> thread \<times> nat list \<times> thread list"

definition to :: "'i Pool \<Rightarrow> thread \<Rightarrow> 'i effect option" where
  "to p t = Some (p, t, [], [])"

text \<open>\<^verbatim>\<open>createVM\<close>: the provider is asked for an instance, which is tracked before it is used.\<close>

definition createVM_new :: "'i choice \<Rightarrow> 'i Pool \<Rightarrow> 'i effect option" where
  "createVM_new ch p =
     (case ch of
        Got x \<Rightarrow>
          let i = nextInst p;
              p = p\<lparr>heap := (heap p)(i \<mapsto> \<lparr>inst = x, acquired = False, stopped = False\<rparr>), nextInst := i + 1\<rparr>
          in to (track p i) (WClone i)
      | GotNone \<Rightarrow> to (notify EventVMCreateFailed p) (WDone (Inl (Error ''vmspool: provider failed'')))
      | _ \<Rightarrow> None)"

definition createVM_clone :: "'i Instance \<Rightarrow> 'i Pool \<Rightarrow> nat \<Rightarrow> 'i effect option" where
  "createVM_clone ops p i =
     (case call (i_Clone ops) p i of
        None \<Rightarrow> None
      | Some (p, Some err) \<Rightarrow> to p (Claim InWorker i)
      | Some (p, None) \<Rightarrow>
          if stagingBehaviour (options p) = StagingBehaviourStopped \<or>
             \<not> suspendable ops p i \<and> stagingBehaviour (options p) = StagingBehaviourSuspended
          then to (fst (setStopped p i True)) (WCheck i)
          else to p (WStart i))"

definition createVM_start :: "'i Instance \<Rightarrow> 'i Pool \<Rightarrow> nat \<Rightarrow> 'i effect option" where
  "createVM_start ops p i =
     (case call (i_Start ops) p i of
        None \<Rightarrow> None
      | Some (p, Some err) \<Rightarrow> to p (Claim InWorker i)
      | Some (p, None) \<Rightarrow>
          if stagingBehaviour (options p) = StagingBehaviourRunning \<or> \<not> suspendable ops p i
          then to p (WCheck i)
          else to (fst (setStopped p i True)) (WSuspend i))"

definition createVM_suspend :: "'i Instance \<Rightarrow> 'i Pool \<Rightarrow> nat \<Rightarrow> 'i effect option" where
  "createVM_suspend ops p i =
     (case call (i_Suspend ops) p i of
        None \<Rightarrow> None
      | Some (p, Some err) \<Rightarrow> to p (Claim InWorker i)
      | Some (p, None) \<Rightarrow> to p (WCheck i))"

definition discardIfClosed :: "'i Pool \<Rightarrow> nat \<Rightarrow> 'i effect option" where
  "discardIfClosed p i =
     (if \<not> closed p then to (notify EventVMCreated p) (WDone (Inr i)) else to p (Claim InWorker i))"

text \<open>\<^verbatim>\<open>Start\<close> and \<^verbatim>\<open>fill\<close>. The check of \<^verbatim>\<open>Start\<close> and its assignment of \<^verbatim>\<open>replenishCancel\<close> are two steps.\<close>

definition pool_Start :: "'i Pool \<Rightarrow> 'i Pool \<times> thread" where
  "pool_Start p =
     (if starts p > 0 then (p, Returned (Some (Error ''vmspool: pool already started''))) else (p, StartInit))"

definition start_init :: "'i Pool \<Rightarrow> 'i effect option" where
  "start_init p = to (p\<lparr>starts := starts p + 1, replenishCancelled := False\<rparr>) (Attempt FromStart)"

definition fill :: "'i Pool \<Rightarrow> 'i effect option" where
  "fill p =
     (let n = nat (po_size (options p) - 1); k = length (threads p)
      in Some (p, Returned None, [], replicate n FillGo @ [FillWait [k..<k + n]]))"

definition fill_go :: "'i Pool \<Rightarrow> 'i effect option" where
  "fill_go p = (if replenishCancelled p then to p (Returned ctxErr) else to p (Attempt FromFill))"

definition returned :: "'i Pool \<Rightarrow> nat \<Rightarrow> fault option \<Rightarrow> bool" where
  "returned p k e \<longleftrightarrow> k < length (threads p) \<and> threads p ! k = Returned e"

definition has_returned :: "'i Pool \<Rightarrow> nat \<Rightarrow> bool" where
  "has_returned p k \<longleftrightarrow> k < length (threads p) \<and> (case threads p ! k of Returned _ \<Rightarrow> True | _ \<Rightarrow> False)"

definition fill_wait :: "'i Pool \<Rightarrow> nat list \<Rightarrow> 'i effect option" where
  "fill_wait p ks =
     (if \<not> list_all (has_returned p) ks then None
      else if list_all (\<lambda>k. returned p k None) ks then to (notify EventStartPoolFull p) (Returned None)
      else to p (Returned None))"

text \<open>\<^verbatim>\<open>requestReplenish\<close>.\<close>

definition requestReplenish :: "'i Pool \<Rightarrow> 'i Pool \<times> thread list" where
  "requestReplenish p =
     (if closed p then (p, []) else (notify EventReplenishStarted p, [Attempt FromReplenish]))"

text \<open>\<^verbatim>\<open>createVMWithRetry\<close> and \<^verbatim>\<open>attemptCreateVM\<close>.\<close>

definition ctx_done :: "'i Pool \<Rightarrow> origin \<Rightarrow> bool" where
  "ctx_done p o' \<longleftrightarrow> o' = FromStart \<or> replenishCancelled p"

definition create_succeeded :: "'i Pool \<Rightarrow> origin \<Rightarrow> 'i effect option" where
  "create_succeeded p o' =
     (case o' of
        FromStart \<Rightarrow> fill p
      | FromFill \<Rightarrow> to p (Returned None)
      | FromReplenish \<Rightarrow> to (notify EventReplenished p) (Returned None))"

definition create_failed :: "'i Pool \<Rightarrow> origin \<Rightarrow> fault option \<Rightarrow> 'i effect option" where
  "create_failed p o' err =
     (case o' of
        FromReplenish \<Rightarrow> to (notify EventReplenishFailed p) (Returned None)
      | _ \<Rightarrow> to p (Returned err))"

definition attempt :: "'i Pool \<Rightarrow> origin \<Rightarrow> 'i effect option" where
  "attempt p o' = Some (notify EventVMCreateStarted p, Waiting o' (length (threads p)), [], [WNew])"

definition attempt_wait :: "'i choice \<Rightarrow> 'i Pool \<Rightarrow> origin \<Rightarrow> nat \<Rightarrow> 'i effect option" where
  "attempt_wait ch p o' w =
     (if \<not> w < length (threads p) then None
      else case (ch, threads p ! w) of
        (Go, WDone (Inr i)) \<Rightarrow> Some (p, Deliver o' i, [w], [])
      | (Go, WDone (Inl err)) \<Rightarrow> Some (p, Retry o', [w], [])
      | (Go, _) \<Rightarrow> None
      | (_, t) \<Rightarrow>
          if ch = TimedOut \<or> ch = CtxDone \<and> ctx_done p o'
          then case t of
              WDone (Inr i) \<Rightarrow> Some (p, Claim (InAttempt o') i, [w], [])
            | WDone (Inl err) \<Rightarrow> Some (p, Retry o', [w], [])
            | _ \<Rightarrow> to p (Retry o')
          else None)"

definition attempt_deliver :: "'i choice \<Rightarrow> 'i Pool \<Rightarrow> origin \<Rightarrow> nat \<Rightarrow> 'i effect option" where
  "attempt_deliver ch p o' i =
     (case ch of
        Go \<Rightarrow> if length (ready p) < psize p then create_succeeded (p\<lparr>ready := ready p @ [i]\<rparr>) o' else None
      | CtxDone \<Rightarrow> if ctx_done p o' then to p (Claim (InAttempt o') i) else None
      | _ \<Rightarrow> None)"

definition retry :: "'i choice \<Rightarrow> 'i Pool \<Rightarrow> origin \<Rightarrow> 'i effect option" where
  "retry ch p o' =
     (case ch of
        Go \<Rightarrow> to p (Attempt o')
      | TimedOut \<Rightarrow> create_failed p o' (Some (Error ''backoff done''))
      | CtxDone \<Rightarrow> if ctx_done p o' then create_failed p o' ctxErr else None
      | _ \<Rightarrow> None)"

text \<open>\<^verbatim>\<open>Acquire\<close>.\<close>

definition poolClosedErr :: fault where
  "poolClosedErr = Error ''vmspool: pool is closed''"

definition acquire_begin :: "'i Pool \<Rightarrow> 'i Pool \<times> thread" where
  "acquire_begin p =
     (if closed p then (notify EventAttemptToUseClosedPool p, Returned (Some poolClosedErr))
      else (notify EventAcquireWaiting p, AWait))"

definition acquire_wait :: "'i choice \<Rightarrow> 'i Pool \<Rightarrow> 'i effect option" where
  "acquire_wait ch p =
     (case ch of
        CtxDone \<Rightarrow> to (notify EventAcquireFailed p) (Returned ctxErr)
      | PoolDone \<Rightarrow>
          if doneClosed p then to (notify EventAttemptToUseClosedPool p) (Returned (Some poolClosedErr)) else None
      | Go \<Rightarrow> (case ready p of [] \<Rightarrow> None | i # r \<Rightarrow> to (p\<lparr>ready := r\<rparr>) (ACheck i))
      | _ \<Rightarrow> None)"

definition acquire_check :: "'i Pool \<Rightarrow> nat \<Rightarrow> 'i effect option" where
  "acquire_check p i =
     (if closed p then to p (Claim InAcquireClosed i) else to (notify EventVMDequeued p) (ALock i))"

definition acquire_start :: "'i Instance \<Rightarrow> 'i Pool \<Rightarrow> nat \<Rightarrow> 'i effect option" where
  "acquire_start ops p i =
     (if opMutex p then None
      else if isStopped p i
      then case call (i_Start ops) p i of
          None \<Rightarrow> None
        | Some (p, Some err) \<Rightarrow> to (p\<lparr>opMutex := True\<rparr>) (Claim InAcquireStart i)
        | Some (p, None) \<Rightarrow>
            to (notify EventAcquired (setAcquired (fst (setStopped p i False)) i)) (Handed i False)
      else to (notify EventAcquired (setAcquired p i)) (Handed i False))"

text \<open>\<^verbatim>\<open>StopAndRelease\<close> and \<^verbatim>\<open>Delete\<close>, called by the holder of a VM.\<close>

definition vm_Stop :: "'i Instance \<Rightarrow> 'i Pool \<Rightarrow> nat \<Rightarrow> bool \<Rightarrow> 'i effect option" where
  "vm_Stop ops p i rel =
     (case call (i_Stop ops) p i of
        None \<Rightarrow> None
      | Some (p, runErr, None) \<Rightarrow> to p (SRelease i rel)
      | Some (p, runErr, Some stopErr) \<Rightarrow> to p (Handed i rel))"

definition vm_release :: "'i Pool \<Rightarrow> nat \<Rightarrow> 'i effect option" where
  "vm_release p i =
     (if heap p i = None then None
      else case setStopped p i True of
        (p, True) \<Rightarrow> to p (Replenish (AfterStop i))
      | (p, False) \<Rightarrow> to p (Handed i True))"

definition vm_Delete :: "'i Pool \<Rightarrow> nat \<Rightarrow> 'i effect option" where
  "vm_Delete p i = (let p = notify EventRelease p in to p (Claim (InDelete (\<not> isStopped p i)) i))"

definition vm_deleted :: "'i Pool \<Rightarrow> fault option \<Rightarrow> 'i effect option" where
  "vm_deleted p err = to (notify EventReleased p) (Returned err)"

definition replenish :: "'i Pool \<Rightarrow> after \<Rightarrow> 'i effect option" where
  "replenish p a =
     (case requestReplenish p of
        (p, ts) \<Rightarrow>
          (case a of
             AfterAcquire \<Rightarrow>
               Some (notify EventAcquireFailed (p\<lparr>opMutex := False\<rparr>), Returned (Some (Error ''vmspool: acquire'')), [], ts)
           | AfterStop i \<Rightarrow> Some (p, Handed i True, [], ts)
           | AfterDelete err \<Rightarrow> Some (notify EventReleased p, Returned err, [], ts)))"

text \<open>\<^verbatim>\<open>Close\<close>.\<close>

definition close_begin :: "'i Pool \<Rightarrow> 'i effect option" where
  "close_begin p =
     (if opMutex p then None
      else if closed p then to p (Returned None)
      else to (p\<lparr>opMutex := True, closed := True, doneClosed := True,
                 replenishCancelled := replenishCancelled p \<or> starts p > 0\<rparr>) CWait)"

text \<open>The goroutines of the pool that its wait group counts.\<close>

fun in_wg :: "thread \<Rightarrow> bool" where
  "in_wg WNew = True"
| "in_wg (WClone _) = True"
| "in_wg (WStart _) = True"
| "in_wg (WSuspend _) = True"
| "in_wg (WCheck _) = True"
| "in_wg FillGo = True"
| "in_wg (FillWait _) = True"
| "in_wg (Attempt o') = (o' \<noteq> FromStart)"
| "in_wg (Waiting o' _) = (o' \<noteq> FromStart)"
| "in_wg (Deliver o' _) = (o' \<noteq> FromStart)"
| "in_wg (Retry o') = (o' \<noteq> FromStart)"
| "in_wg (Claim c _) = (c = InWorker \<or> c = InAttempt FromFill \<or> c = InAttempt FromReplenish)"
| "in_wg (Clean c _) = (c = InWorker \<or> c = InAttempt FromFill \<or> c = InAttempt FromReplenish)"
| "in_wg _ = False"

definition close_wait :: "'i choice \<Rightarrow> 'i Pool \<Rightarrow> 'i effect option" where
  "close_wait ch p =
     (case ch of
        Go \<Rightarrow> if list_all (\<lambda>t. \<not> in_wg t) (threads p) then to p CDrain else None
      | CtxDone \<Rightarrow> to p CDrain
      | _ \<Rightarrow> None)"

definition close_drain :: "'i Pool \<Rightarrow> 'i effect option" where
  "close_drain p = (case ready p of [] \<Rightarrow> to p CSweep | i # r \<Rightarrow> to (p\<lparr>ready := r\<rparr>) (Claim InDrain i))"

definition close_sweep :: "'i Pool \<Rightarrow> 'i effect option" where
  "close_sweep p =
     (let retained = filter (\<lambda>i. isAcquired p i \<and> \<not> deleteAcquiredOnClose (options p)) (tracked p);
          orphaned = filter (\<lambda>i. \<not> (isAcquired p i \<and> \<not> deleteAcquiredOnClose (options p))) (tracked p);
          p' = fold (\<lambda>_. notify EventAcquiredVMRetained) retained p;
          k = length (threads p)
      in Some (p'\<lparr>swept := True\<rparr>, CJoin [k..<k + length orphaned], [], map (Claim InSweep) orphaned))"

definition close_join :: "'i Pool \<Rightarrow> nat list \<Rightarrow> 'i effect option" where
  "close_join p ks =
     (if list_all (has_returned p) ks then to (p\<lparr>opMutex := False\<rparr>) (Returned None) else None)"

text \<open>\<^verbatim>\<open>cleanupVM\<close>: the claim, and the clean up of a claimed instance.\<close>

fun after_cleanup :: "'i Pool \<Rightarrow> cleaner \<Rightarrow> fault option \<Rightarrow> 'i effect option" where
  "after_cleanup p InWorker err = to (notify EventVMCreateFailed p) (WDone (Inl (Error ''vmspool: create'')))"
| "after_cleanup p (InAttempt o') err = to p (Retry o')"
| "after_cleanup p InAcquireClosed err =
     to (notify EventAttemptToUseClosedPool p) (Returned (Some poolClosedErr))"
| "after_cleanup p InAcquireStart err = to p (Replenish AfterAcquire)"
| "after_cleanup p (InDelete True) err = to p (Replenish (AfterDelete err))"
| "after_cleanup p (InDelete False) err = vm_deleted p err"
| "after_cleanup p InDrain err = to p CDrain"
| "after_cleanup p InSweep err = to p (Returned err)"

definition cleanupVM :: "'i Pool \<Rightarrow> cleaner \<Rightarrow> nat \<Rightarrow> 'i effect option" where
  "cleanupVM p c i =
     (case claim p i of
        (p, True) \<Rightarrow> to p (Clean c i)
      | (p, False) \<Rightarrow> after_cleanup p c None)"

definition clean :: "'i Instance \<Rightarrow> 'i Pool \<Rightarrow> cleaner \<Rightarrow> nat \<Rightarrow> 'i effect option" where
  "clean ops p c i =
     (case call (CleanupVM ops) p i of
        None \<Rightarrow> None
      | Some (p, err) \<Rightarrow>
          (let p = p\<lparr>cleanups := cleanups p @ [(i, c, err)]\<rparr>
           in if c = InSweep
              then after_cleanup (if err = None then notify EventOrphanedVMDeleted p else track p i) c err
              else after_cleanup p c err))"

fun thread_step :: "'i Instance \<Rightarrow> 'i choice \<Rightarrow> 'i Pool \<Rightarrow> thread \<Rightarrow> 'i effect option" where
  "thread_step ops ch p WNew = createVM_new ch p"
| "thread_step ops ch p (WClone i) = createVM_clone ops p i"
| "thread_step ops ch p (WStart i) = createVM_start ops p i"
| "thread_step ops ch p (WSuspend i) = createVM_suspend ops p i"
| "thread_step ops ch p (WCheck i) = discardIfClosed p i"
| "thread_step ops ch p StartInit = start_init p"
| "thread_step ops ch p FillGo = fill_go p"
| "thread_step ops ch p (FillWait ks) = fill_wait p ks"
| "thread_step ops ch p (Attempt o') = attempt p o'"
| "thread_step ops ch p (Waiting o' w) = attempt_wait ch p o' w"
| "thread_step ops ch p (Deliver o' i) = attempt_deliver ch p o' i"
| "thread_step ops ch p (Retry o') = retry ch p o'"
| "thread_step ops ch p AWait = acquire_wait ch p"
| "thread_step ops ch p (ACheck i) = acquire_check p i"
| "thread_step ops ch p (ALock i) = acquire_start ops p i"
| "thread_step ops ch p (Handed i rel) =
     (case ch of CallStop \<Rightarrow> vm_Stop ops p i rel | CallDelete \<Rightarrow> vm_Delete p i | _ \<Rightarrow> None)"
| "thread_step ops ch p (SRelease i rel) = vm_release p i"
| "thread_step ops ch p CBegin = close_begin p"
| "thread_step ops ch p CWait = close_wait ch p"
| "thread_step ops ch p CDrain = close_drain p"
| "thread_step ops ch p CSweep = close_sweep p"
| "thread_step ops ch p (CJoin ks) = close_join p ks"
| "thread_step ops ch p (Claim c i) = cleanupVM p c i"
| "thread_step ops ch p (Clean c i) = clean ops p c i"
| "thread_step ops ch p (Replenish a) = replenish p a"
| "thread_step ops ch p (WDone r) = None"
| "thread_step ops ch p (Returned e) = None"

definition run_thread :: "'i Instance \<Rightarrow> 'i choice \<Rightarrow> nat \<Rightarrow> 'i Pool \<Rightarrow> 'i Pool option" where
  "run_thread ops ch k p =
     (if \<not> k < length (threads p) then None
      else case thread_step ops ch p (threads p ! k) of
        None \<Rightarrow> None
      | Some (p', t, consumed, spawned) \<Rightarrow>
          Some (p'\<lparr>threads := (fold (\<lambda>w ts. ts[w := Returned None]) consumed (threads p))[k := t] @ spawned\<rparr>))"

text \<open>
  The events of a run: a step of a thread, a call of \<^verbatim>\<open>Start\<close>, \<^verbatim>\<open>Acquire\<close> or \<^verbatim>\<open>Close\<close>, and a machine that
  changes by itself.
\<close>

datatype 'i event =
    Run nat "'i choice"
  | CallStart
  | CallAcquire
  | CallClose
  | Evolve nat 'i

fun pool_event :: "'i Instance \<Rightarrow> 'i event \<Rightarrow> 'i Pool \<Rightarrow> 'i Pool option" where
  "pool_event ops (Run k ch) p = run_thread ops ch k p"
| "pool_event ops CallStart p = (case pool_Start p of (p, t) \<Rightarrow> Some (p\<lparr>threads := threads p @ [t]\<rparr>))"
| "pool_event ops CallAcquire p = (case acquire_begin p of (p, t) \<Rightarrow> Some (p\<lparr>threads := threads p @ [t]\<rparr>))"
| "pool_event ops CallClose p = Some (p\<lparr>threads := threads p @ [CBegin]\<rparr>)"
| "pool_event ops (Evolve i x) p = map_option fst (call (\<lambda>_. (x, ())) p i)"

fun pool_run :: "'i Instance \<Rightarrow> 'i event list \<Rightarrow> 'i Pool \<Rightarrow> 'i Pool option" where
  "pool_run ops [] p = Some p"
| "pool_run ops (e # es) p = (case pool_event ops e p of None \<Rightarrow> None | Some p \<Rightarrow> pool_run ops es p)"

inductive reachable :: "'i Instance \<Rightarrow> PoolOption list \<Rightarrow> 'i Pool \<Rightarrow> bool" for ops os where
  reach_new: "reachable ops os (pool_New os)"
| reach_step: "reachable ops os p \<Longrightarrow> pool_event ops e p = Some p' \<Longrightarrow> reachable ops os p'"

end
