(* ===== verification/Pool_Steps.thy ===== *)
theory Pool_Steps
  imports VM_Pool
begin

text \<open>
  The effect of a step of the pool: a relation \<open>pstep\<close> that lists, for each program counter, what a step
  changes of the pool and where the thread continues, with everything that does not matter for the
  invariants left out. Every step of the model is one of these, so that an invariant is proved by cases
  on \<open>pstep\<close>. The first invariant is proved here: every instance is cleaned up at most once.
\<close>

section \<open>Frames\<close>

lemma notify_simps [simp]:
  "options (notify e p) = options p" "ready (notify e p) = ready p" "doneClosed (notify e p) = doneClosed p"
  "opMutex (notify e p) = opMutex p" "closed (notify e p) = closed p" "live (notify e p) = live p"
  "starts (notify e p) = starts p" "replenishCancelled (notify e p) = replenishCancelled p"
  "heap (notify e p) = heap p" "nextInst (notify e p) = nextInst p" "threads (notify e p) = threads p"
  "cleanups (notify e p) = cleanups p" "swept (notify e p) = swept p"
  by (simp_all add: notify_def split: option.splits)

lemma setStopped_simps [simp]:
  "options (fst (setStopped p i b)) = options p" "ready (fst (setStopped p i b)) = ready p"
  "doneClosed (fst (setStopped p i b)) = doneClosed p" "opMutex (fst (setStopped p i b)) = opMutex p"
  "closed (fst (setStopped p i b)) = closed p" "live (fst (setStopped p i b)) = live p"
  "starts (fst (setStopped p i b)) = starts p" "replenishCancelled (fst (setStopped p i b)) = replenishCancelled p"
  "nextInst (fst (setStopped p i b)) = nextInst p" "threads (fst (setStopped p i b)) = threads p"
  "cleanups (fst (setStopped p i b)) = cleanups p" "swept (fst (setStopped p i b)) = swept p"
  by (simp_all add: setStopped_def split: option.splits)

lemma setAcquired_simps [simp]:
  "options (setAcquired p i) = options p" "ready (setAcquired p i) = ready p"
  "doneClosed (setAcquired p i) = doneClosed p" "opMutex (setAcquired p i) = opMutex p"
  "closed (setAcquired p i) = closed p" "live (setAcquired p i) = live p"
  "starts (setAcquired p i) = starts p" "replenishCancelled (setAcquired p i) = replenishCancelled p"
  "nextInst (setAcquired p i) = nextInst p" "threads (setAcquired p i) = threads p"
  "cleanups (setAcquired p i) = cleanups p" "swept (setAcquired p i) = swept p"
  by (simp_all add: setAcquired_def)

lemma call_frame:
  "call f p i = Some (p', e) \<Longrightarrow>
   \<exists>v x. heap p i = Some v \<and> f (inst v) = (x, e) \<and> p' = p\<lparr>heap := (heap p)(i \<mapsto> v\<lparr>inst := x\<rparr>)\<rparr>"
  by (auto simp: call_def split: option.splits prod.splits)

lemma fold_notify [simp]: "fold (\<lambda>_. notify e) xs p = ((notify e) ^^ length xs) p"
  by (induction xs arbitrary: p) (auto simp: funpow_swap1)

lemma notify_funpow_simps [simp]:
  "options ((notify e ^^ n) p) = options p" "ready ((notify e ^^ n) p) = ready p"
  "opMutex ((notify e ^^ n) p) = opMutex p" "closed ((notify e ^^ n) p) = closed p" "live ((notify e ^^ n) p) = live p"
  "starts ((notify e ^^ n) p) = starts p" "heap ((notify e ^^ n) p) = heap p" "nextInst ((notify e ^^ n) p) = nextInst p" 
  "threads ((notify e ^^ n) p) = threads p"
  "cleanups ((notify e ^^ n) p) = cleanups p" "swept ((notify e ^^ n) p) = swept p"
  by (induction n) simp_all


section \<open>The effect of a step\<close>

definition same :: "nat set \<Rightarrow> 'i Pool \<Rightarrow> 'i Pool \<Rightarrow> bool" where
  "same S q p' \<longleftrightarrow> options p' = options q \<and> ready p' = ready q \<and> closed p' = closed q \<and> live p' = live q \<and>
     starts p' = starts q \<and> nextInst p' = nextInst q \<and> cleanups p' = cleanups q \<and> swept p' = swept q \<and>
     dom (heap p') = dom (heap q) \<and> (\<forall>j. isAcquired q j \<longrightarrow> isAcquired p' j) \<and>
     (\<forall>j. j \<notin> S \<longrightarrow> isStopped p' j = isStopped q j)"

inductive quiet :: "bool \<Rightarrow> nat set \<Rightarrow> thread \<Rightarrow> thread \<Rightarrow> bool" for c :: bool where
  "quiet c {} WNew (WDone (Inl e))"
| "quiet c {i} (WClone i) (Claim InWorker i)"
| "quiet c {i} (WClone i) (WStart i)"
| "quiet c {i} (WClone i) (WCheck i)"
| "quiet c {i} (WStart i) (Claim InWorker i)"
| "quiet c {i} (WStart i) (WSuspend i)"
| "quiet c {i} (WStart i) (WCheck i)"
| "quiet c {} (WSuspend i) (Claim InWorker i)"
| "quiet c {} (WSuspend i) (WCheck i)"
| "\<not> c \<Longrightarrow> quiet c {} (WCheck i) (WDone (Inr i))"
| "quiet c {} (WCheck i) (Claim InWorker i)"
| "quiet c {} FillGo (Returned e)"
| "quiet c {} FillGo (Attempt FromFill)"
| "quiet c {} (FillWait ks) (Returned e)"
| "quiet c {} (Waiting o' w) (Retry o')"
| "quiet c {} (Deliver o' i) (Claim (InAttempt o') i)"
| "quiet c {} (Retry o') (Attempt o')"
| "quiet c {} (Retry o') (Returned e)"
| "quiet c {} AWait (Returned e)"
| "quiet c {} (ACheck i) (Claim InAcquireClosed i)"
| "quiet c {} (ACheck i) (ALock i)"
| "quiet c {} (ALock i) (Claim InAcquireStart i)"
| "quiet c {} (Handed i r) (SRelease i r)"
| "quiet c {} (Handed i r) (Handed i r)"
| "quiet c {} CBegin (Returned e)"
| "quiet c {} CWait CDrain"
| "quiet c {} CDrain CSweep"
| "quiet c {} (CJoin ks) (Returned e)"

inductive cleaned :: "cleaner \<Rightarrow> thread \<Rightarrow> bool" where
  "cleaned InWorker (WDone (Inl e))"
| "cleaned (InAttempt o') (Retry o')"
| "cleaned InAcquireClosed (Returned e)"
| "cleaned InAcquireStart (Replenish AfterAcquire)"
| "cleaned (InDelete True) (Replenish (AfterDelete e))"
| "cleaned (InDelete False) (Returned e)"
| "cleaned InDrain CDrain"
| "cleaned InSweep (Returned e)"

inductive pstep :: "'i Pool \<Rightarrow> thread \<Rightarrow> 'i Pool \<Rightarrow> thread \<Rightarrow> nat list \<Rightarrow> thread list \<Rightarrow> bool" for p :: "'i Pool" where
  p_quiet: "same S p p' \<Longrightarrow> quiet (closed p) S t t' \<Longrightarrow> pstep p t p' t' [] []"
| p_new: "same {} (p\<lparr>heap := (heap p)(nextInst p \<mapsto> \<lparr>inst = x, acquired = False, stopped = False\<rparr>),
      nextInst := nextInst p + 1, live := insert (nextInst p) (live p)\<rparr>) p' \<Longrightarrow>
    pstep p WNew p' (WClone (nextInst p)) [] []"
| p_start: "same {} (p\<lparr>starts := starts p + 1\<rparr>) p' \<Longrightarrow> pstep p StartInit p' (Attempt FromStart) [] []"
| p_attempt: "same {} p p' \<Longrightarrow> pstep p (Attempt o') p' (Waiting o' w) [] [WNew]"
| p_result: "same {} p p' \<Longrightarrow> w < length (threads p) \<Longrightarrow> threads p ! w = WDone (Inr i) \<Longrightarrow>
    t' = Deliver o' i \<or> t' = Claim (InAttempt o') i \<Longrightarrow> pstep p (Waiting o' w) p' t' [w] []"
| p_failed: "same {} p p' \<Longrightarrow> w < length (threads p) \<Longrightarrow> threads p ! w = WDone (Inl e) \<Longrightarrow>
    pstep p (Waiting o' w) p' (Retry o') [w] []"
| p_deliver: "same {} (p\<lparr>ready := ready p @ [i]\<rparr>) p' \<Longrightarrow> length (ready p) < psize p \<Longrightarrow>
    sp = (if o' = FromStart then replicate (psize p - 1) FillGo @ [FillWait ks] else []) \<Longrightarrow>
    pstep p (Deliver o' i) p' (Returned e) [] sp"
| p_dequeue: "ready p = i # r \<Longrightarrow> same {} (p\<lparr>ready := r\<rparr>) p' \<Longrightarrow> pstep p AWait p' (ACheck i) [] []"
| p_handed: "same {i} p p' \<Longrightarrow> \<not> isStopped p' i \<Longrightarrow> pstep p (ALock i) p' (Handed i False) [] []"
| p_release: "same {i} p p' \<Longrightarrow> \<not> isStopped p i \<Longrightarrow> isStopped p' i \<Longrightarrow>
    pstep p (SRelease i r) p' (Replenish (AfterStop i)) [] []"
| p_released: "same {} p p' \<Longrightarrow> isStopped p i \<Longrightarrow> pstep p (SRelease i r) p' (Handed i True) [] []"
| p_delete: "same {} p p' \<Longrightarrow> pstep p (Handed i r) p' (Claim (InDelete (\<not> isStopped p i)) i) [] []"
| p_replenish: "same {} p p' \<Longrightarrow> sp = [] \<or> sp = [Attempt FromReplenish] \<Longrightarrow>
    t' = (case a of AfterStop i \<Rightarrow> Handed i True | _ \<Rightarrow> Returned e) \<Longrightarrow> pstep p (Replenish a) p' t' [] sp"
| p_close: "same {} (p\<lparr>closed := True\<rparr>) p' \<Longrightarrow> pstep p CBegin p' CWait [] []"
| p_drain: "ready p = i # r \<Longrightarrow> same {} (p\<lparr>ready := r\<rparr>) p' \<Longrightarrow> pstep p CDrain p' (Claim InDrain i) [] []"
| p_sweep: "same {} (p\<lparr>swept := True\<rparr>) p' \<Longrightarrow>
    sp = map (Claim InSweep) (filter (\<lambda>i. \<not> (isAcquired p i \<and> \<not> deleteAcquiredOnClose (options p))) (tracked p)) \<Longrightarrow>
    pstep p CSweep p' (CJoin ks) [] sp"
| p_claim: "same {} (p\<lparr>live := live p - {i}\<rparr>) p' \<Longrightarrow> i \<in> live p \<Longrightarrow> pstep p (Claim c i) p' (Clean c i) [] []"
| p_lost: "same {} p p' \<Longrightarrow> i \<notin> live p \<Longrightarrow> cleaned c t' \<Longrightarrow> pstep p (Claim c i) p' t' [] []"
| p_clean: "same {} (p\<lparr>cleanups := cleanups p @ [(i, c, err)]\<rparr>) p' \<Longrightarrow> c \<noteq> InSweep \<or> err = None \<Longrightarrow> cleaned c t' \<Longrightarrow>
    pstep p (Clean c i) p' t' [] []"
| p_unclean: "same {} (p\<lparr>cleanups := cleanups p @ [(i, InSweep, err)], live := insert i (live p)\<rparr>) p' \<Longrightarrow> err \<noteq> None \<Longrightarrow>
    pstep p (Clean InSweep i) p' (Returned e) [] []"

lemmas stop_acq = isStopped_def isAcquired_def setStopped_def setAcquired_def

lemma same_refl [simp]: "same S p p"
  by (simp add: same_def)

lemma same_notify [simp]: "same S q (notify e p) = same S q p"
  by (simp add: same_def isStopped_def isAcquired_def)

lemma same_call: "call f p i = Some (p', e) \<Longrightarrow> same S p p'"
  by (auto simp: call_def same_def stop_acq split: option.splits prod.splits if_splits)

lemma same_setStopped: "i \<in> S \<Longrightarrow> same S q p \<Longrightarrow> same S q (fst (setStopped p i b))"
  by (auto simp: same_def stop_acq split: option.splits if_splits)

lemma isStopped_setAcquired [simp]: "isStopped (setAcquired p i) j = isStopped p j"
  by (auto simp: stop_acq split: option.splits)

lemma setAcquired_heap [simp]:
  "dom (heap (setAcquired p i)) = dom (heap p)" "isAcquired p j \<Longrightarrow> isAcquired (setAcquired p i) j"
  by (auto simp: stop_acq split: option.splits if_splits)

lemma same_setAcquired: "same S q p \<Longrightarrow> same S q (setAcquired p i)"
  by (simp add: same_def)

lemma isStopped_set: "heap p i \<noteq> None \<Longrightarrow> isStopped (fst (setStopped p i b)) i = b"
  by (auto simp: stop_acq)

lemma isStopped_notify [simp]: "isStopped (notify e p) j = isStopped p j"
  by (simp add: isStopped_def)

lemma quietI: "quiet (closed p) S t t' \<Longrightarrow> same S p p' \<Longrightarrow> to p' t' = Some (p'', t'', cs, sp) \<Longrightarrow> pstep p t p'' t'' cs sp"
  by (auto simp: to_def intro: p_quiet)

lemma pstep_new: "createVM_new ch p = Some (p', t', cs, sp) \<Longrightarrow> pstep p WNew p' t' cs sp"
  by (cases ch) (auto simp: createVM_new_def to_def Let_def track_def intro!: p_quiet [of "{}"] quiet.intros p_new same_refl)

lemma pstep_clone: "createVM_clone ops p i = Some (p', t', cs, sp) \<Longrightarrow> pstep p (WClone i) p' t' cs sp"
  by (auto simp: createVM_clone_def to_def intro!: p_quiet [of "{i}"] quiet.intros same_setStopped intro: same_call
      split: option.splits if_splits)

lemma pstep_wstart: "createVM_start ops p i = Some (p', t', cs, sp) \<Longrightarrow> pstep p (WStart i) p' t' cs sp"
  by (auto simp: createVM_start_def to_def intro!: p_quiet [of "{i}"] quiet.intros same_setStopped intro: same_call
      split: option.splits if_splits)

lemma pstep_suspend: "createVM_suspend ops p i = Some (p', t', cs, sp) \<Longrightarrow> pstep p (WSuspend i) p' t' cs sp"
  by (auto simp: createVM_suspend_def to_def intro!: p_quiet [of "{}"] quiet.intros intro: same_call
      split: option.splits if_splits)

lemma pstep_check: "discardIfClosed p i = Some (p', t', cs, sp) \<Longrightarrow> pstep p (WCheck i) p' t' cs sp"
  by (auto simp: discardIfClosed_def to_def intro!: p_quiet [of "{}"] quiet.intros split: if_splits)

lemma pstep_start_init: "start_init p = Some (p', t', cs, sp) \<Longrightarrow> pstep p StartInit p' t' cs sp"
  by (auto simp: start_init_def to_def same_def stop_acq intro!: p_start)

lemma pstep_fill_go: "fill_go p = Some (p', t', cs, sp) \<Longrightarrow> pstep p FillGo p' t' cs sp"
  by (auto simp: fill_go_def to_def intro!: p_quiet [of "{}"] quiet.intros split: if_splits)

lemma pstep_fill_wait: "fill_wait p ks = Some (p', t', cs, sp) \<Longrightarrow> pstep p (FillWait ks) p' t' cs sp"
  by (auto simp: fill_wait_def to_def intro!: p_quiet [of "{}"] quiet.intros split: if_splits)

lemma pstep_attempt: "attempt p o' = Some (p', t', cs, sp) \<Longrightarrow> pstep p (Attempt o') p' t' cs sp"
  by (auto simp: attempt_def intro!: p_attempt)

lemma pstep_attempt_wait: "attempt_wait ch p o' w = Some (p', t', cs, sp) \<Longrightarrow> pstep p (Waiting o' w) p' t' cs sp"
proof (cases "threads p ! w")
  case (WDone r)
  moreover assume "attempt_wait ch p o' w = Some (p', t', cs, sp)"
  ultimately show ?thesis
    by (cases ch; cases r) (auto simp: attempt_wait_def to_def intro: p_failed p_result split: if_splits)
qed (cases ch; auto simp: attempt_wait_def to_def intro!: p_quiet [of "{}"] quiet.intros split: if_splits)+

lemma pstep_deliver: "attempt_deliver ch p o' i = Some (p', t', cs, sp) \<Longrightarrow> pstep p (Deliver o' i) p' t' cs sp"
  by (cases ch; cases o')
    (auto simp: attempt_deliver_def to_def create_succeeded_def fill_def Let_def psize_def nat_diff_distrib'
      intro: p_deliver p_quiet [of "{}"] quiet.intros split: if_splits)

lemma pstep_retry: "retry ch p o' = Some (p', t', cs, sp) \<Longrightarrow> pstep p (Retry o') p' t' cs sp"
  by (cases ch; cases o')
    (auto simp: retry_def to_def create_failed_def intro!: p_quiet [of "{}"] quiet.intros split: if_splits)

lemma pstep_acquire_wait: "acquire_wait ch p = Some (p', t', cs, sp) \<Longrightarrow> pstep p AWait p' t' cs sp"
  by (cases ch) (auto simp: acquire_wait_def to_def intro: p_quiet [of "{}"] quiet.intros p_dequeue split: if_splits list.splits)

lemma pstep_acquire_check: "acquire_check p i = Some (p', t', cs, sp) \<Longrightarrow> pstep p (ACheck i) p' t' cs sp"
  by (auto simp: acquire_check_def to_def intro!: p_quiet [of "{}"] quiet.intros split: if_splits)


lemma pstep_acquire_start: "acquire_start ops p i = Some (p', t', cs, sp) \<Longrightarrow> pstep p (ALock i) p' t' cs sp"
proof -
  assume step: "acquire_start ops p i = Some (p', t', cs, sp)"
  show ?thesis
  proof (cases "isStopped p i")
    case True
    then obtain q err where c: "call (i_Start ops) p i = Some (q, err)"
      using step by (auto simp: acquire_start_def split: if_splits option.splits)
    then have q: "same {i} p q" "same {} p q" "heap q i \<noteq> None"
      using same_call by (fastforce simp: call_def split: option.splits prod.splits)+
    then have "same {} p (q\<lparr>opMutex := True\<rparr>)" by (simp add: same_def stop_acq)
    moreover have "pstep p (ALock i) (notify EventAcquired (setAcquired (fst (setStopped q i False)) i)) (Handed i False) [] []"
      using q by (intro p_handed) (simp_all add: same_setAcquired same_setStopped isStopped_set)
    ultimately show ?thesis using c True step
      by (cases err) (auto simp: acquire_start_def to_def intro: p_quiet [of "{}"] quiet.intros split: if_splits)
  next
    case False
    then show ?thesis using step
      by (auto simp: acquire_start_def to_def intro!: p_handed same_setAcquired split: if_splits)
  qed
qed

lemma pstep_stop: "vm_Stop ops p i r = Some (p', t', cs, sp) \<Longrightarrow> pstep p (Handed i r) p' t' cs sp"
  by (auto simp: vm_Stop_def to_def intro!: p_quiet [of "{}"] quiet.intros intro: same_call split: option.splits)

lemma pstep_release: "vm_release p i = Some (p', t', cs, sp) \<Longrightarrow> pstep p (SRelease i r) p' t' cs sp"
proof (cases "isStopped p i")
  case True
  assume "vm_release p i = Some (p', t', cs, sp)"
  then have "p' = fst (setStopped p i True)" "t' = Handed i True" "cs = []" "sp = []"
    using True by (auto simp: vm_release_def to_def setStopped_def isStopped_def split: if_splits option.splits)
  moreover have "same {} p (fst (setStopped p i True))"
    using True by (auto simp: same_def stop_acq split: option.splits if_splits)
  ultimately show ?thesis using True by (auto intro: p_released)
next
  case False
  assume "vm_release p i = Some (p', t', cs, sp)"
  then have "p' = fst (setStopped p i True)" "t' = Replenish (AfterStop i)" "cs = []" "sp = []" "heap p i \<noteq> None"
    using False by (auto simp: vm_release_def to_def setStopped_def isStopped_def split: if_splits option.splits)
  then show ?thesis using False by (auto intro!: p_release same_setStopped simp: isStopped_set)
qed

lemma pstep_delete: "vm_Delete p i = Some (p', t', cs, sp) \<Longrightarrow> pstep p (Handed i r) p' t' cs sp"
  using p_delete [of p "notify EventRelease p" i r] by (auto simp: vm_Delete_def to_def)

lemma same_opMutex [simp]: "same S q (p\<lparr>opMutex := b\<rparr>) = same S q p"
  by (simp add: same_def stop_acq)

lemma pstep_replenish: "replenish p a = Some (p', t', cs, sp) \<Longrightarrow> pstep p (Replenish a) p' t' cs sp"
  by (cases a) (auto simp: replenish_def requestReplenish_def intro!: p_replenish split: if_splits)

lemma pstep_close_begin: "close_begin p = Some (p', t', cs, sp) \<Longrightarrow> pstep p CBegin p' t' cs sp"
  by (auto simp: close_begin_def to_def same_def stop_acq intro!: p_close intro: p_quiet [of "{}"] quiet.intros split: if_splits)

lemma pstep_close_wait: "close_wait ch p = Some (p', t', cs, sp) \<Longrightarrow> pstep p CWait p' t' cs sp"
  by (cases ch) (auto simp: close_wait_def to_def intro!: p_quiet [of "{}"] quiet.intros split: if_splits)

lemma pstep_close_drain: "close_drain p = Some (p', t', cs, sp) \<Longrightarrow> pstep p CDrain p' t' cs sp"
  by (auto simp: close_drain_def to_def intro: p_drain p_quiet [of "{}"] quiet.intros split: list.splits)

lemma pstep_close_sweep: "close_sweep p = Some (p', t', cs, sp) \<Longrightarrow> pstep p CSweep p' t' cs sp"
  by (auto simp: close_sweep_def Let_def same_def stop_acq intro!: p_sweep)

lemma pstep_close_join: "close_join p ks = Some (p', t', cs, sp) \<Longrightarrow> pstep p (CJoin ks) p' t' cs sp"
  by (auto simp: close_join_def to_def intro!: p_quiet [of "{}"] quiet.intros split: if_splits)

lemma after_cleanup_cleaned:
  "after_cleanup p c err = Some (p', t', cs, sp) \<Longrightarrow> same S p p' \<and> cleaned c t' \<and> cs = [] \<and> sp = []"
  by (cases "(p, c, err)" rule: after_cleanup.cases) (auto simp: to_def vm_deleted_def intro: cleaned.intros)

lemma same_trans: "same S p q \<Longrightarrow> same S q r \<Longrightarrow> same S p r"
  by (simp add: same_def)

lemma pstep_cleanupVM: "cleanupVM p c i = Some (p', t', cs, sp) \<Longrightarrow> pstep p (Claim c i) p' t' cs sp"
  by (auto simp: cleanupVM_def claim_def to_def intro!: p_claim p_lost dest: after_cleanup_cleaned [where S = "{}"] split: if_splits)

lemma pstep_clean: "clean ops p c i = Some (p', t', cs, sp) \<Longrightarrow> pstep p (Clean c i) p' t' cs sp"
proof -
  assume step: "clean ops p c i = Some (p', t', cs, sp)"
  then obtain q err where c: "call (CleanupVM ops) p i = Some (q, err)"
    by (auto simp: clean_def split: option.splits)
  then have "same {} p q" by (rule same_call)
  then have q: "same {} (p\<lparr>cleanups := cleanups p @ [(i, c, err)]\<rparr>) (q\<lparr>cleanups := cleanups q @ [(i, c, err)]\<rparr>)"
    "same {} (p\<lparr>cleanups := cleanups p @ [(i, c, err)], live := insert i (live p)\<rparr>)
       (track (q\<lparr>cleanups := cleanups q @ [(i, c, err)]\<rparr>) i)"
    by (simp_all add: same_def stop_acq track_def)
  show ?thesis
  proof (cases "c = InSweep \<and> err \<noteq> None")
    case True
    then have "p' = track (q\<lparr>cleanups := cleanups q @ [(i, c, err)]\<rparr>) i" "t' = Returned err" "cs = []" "sp = []"
      using step c by (auto simp: clean_def Let_def to_def)
    then show ?thesis using True q by (auto intro!: p_unclean)
  next
    case False
    then obtain q' where "after_cleanup q' c err = Some (p', t', cs, sp)"
        "same {} (p\<lparr>cleanups := cleanups p @ [(i, c, err)]\<rparr>) q'"
      using step c q(1) by (auto simp: clean_def Let_def split: if_splits)
    then show ?thesis
      using False after_cleanup_cleaned [of q' c err p' t' cs sp "{}"] by (auto intro!: p_clean [where err = err] intro: same_trans)
  qed
qed

lemma thread_step_pstep:
  assumes "thread_step ops ch p t = Some (p', t', cs, sp)"
  shows "pstep p t p' t' cs sp"
  using assms
  by (cases t)
    (auto intro: pstep_new pstep_clone pstep_wstart pstep_suspend pstep_check pstep_start_init pstep_fill_go
      pstep_fill_wait pstep_attempt pstep_attempt_wait pstep_deliver pstep_retry pstep_acquire_wait pstep_acquire_check
      pstep_acquire_start pstep_stop pstep_release pstep_delete pstep_replenish pstep_close_begin pstep_close_wait
      pstep_close_drain pstep_close_sweep pstep_close_join pstep_cleanupVM pstep_clean split: choice.splits)


section \<open>Counting over threads\<close>

definition tsum :: "(thread \<Rightarrow> nat) \<Rightarrow> 'i Pool \<Rightarrow> nat" where
  "tsum f p = sum_list (map f (threads p))"

lemma sum_list_update_nat:
  "k < length ts \<Longrightarrow> sum_list (map f (ts[k := x])) + f (ts ! k) = sum_list (map f ts) + (f x :: nat)"
  by (induction ts arbitrary: k) (auto split: nat.splits)

lemma pstep_consumed:
  "pstep p t p' t' cs sp \<Longrightarrow> cs = [] \<or> (\<exists>w o' r. cs = [w] \<and> t = Waiting o' w \<and> w < length (threads p) \<and> threads p ! w = WDone r)"
  by (erule pstep.cases) auto

definition after_step :: "nat \<Rightarrow> thread list \<Rightarrow> thread \<Rightarrow> nat list \<Rightarrow> thread list \<Rightarrow> thread list" where
  "after_step k ts t' cs sp = (fold (\<lambda>w ts. ts[w := Returned None]) cs ts)[k := t'] @ sp"

lemma tsum_step:
  assumes "pstep p t p' t' cs sp" "k < length (threads p)" "threads p ! k = t"
  shows "sum_list (map f (after_step k (threads p) t' cs sp)) + f t + sum_list (map (\<lambda>w. f (threads p ! w)) cs) =
    tsum f p + f t' + sum_list (map f sp) + length cs * f (Returned None)"
proof -
  let ?ts = "threads p"
  from pstep_consumed [OF assms(1)] show ?thesis
  proof (elim disjE exE conjE)
    assume "cs = []"
    then show ?thesis using sum_list_update_nat [OF assms(2), of f t'] assms(3) by (simp add: after_step_def tsum_def)
  next
    fix w o' r assume w: "cs = [w]" "t = Waiting o' w" "w < length ?ts" "?ts ! w = WDone r"
    then have "w \<noteq> k" using assms(3) by auto
    then show ?thesis
      using w assms(2,3) sum_list_update_nat [OF w(3), of f "Returned None"]
        sum_list_update_nat [of k "?ts[w := Returned None]" f t']
      by (simp add: after_step_def tsum_def)
  qed
qed

fun is_clean :: "nat \<Rightarrow> thread \<Rightarrow> nat" where
  "is_clean i (Clean c j) = (if i = j then 1 else 0)"
| "is_clean i _ = 0"

definition finals :: "nat \<Rightarrow> 'i Pool \<Rightarrow> nat" where
  "finals i p = length (filter (\<lambda>(j, c, e). j = i \<and> \<not> (c = InSweep \<and> e \<noteq> None)) (cleanups p))"

definition is_live :: "nat \<Rightarrow> 'i Pool \<Rightarrow> nat" where
  "is_live i p = (if i \<in> live p then 1 else 0)"

definition is_made :: "nat \<Rightarrow> 'i Pool \<Rightarrow> nat" where
  "is_made i p = (if i < nextInst p then 1 else 0)"

lemma cleaned_is_clean [simp]: "cleaned c t \<Longrightarrow> is_clean i t = 0"
  by (erule cleaned.cases) auto

lemma quiet_is_clean: "quiet b S t t' \<Longrightarrow> is_clean i t' = 0 \<and> is_clean i t = 0"
  by (erule quiet.cases) auto

lemma sum_list_is_clean [simp]:
  "sum_list (map (is_clean i \<circ> Claim c) xs) = 0" "sum_list (map (\<lambda>x. is_clean i (Claim c x)) xs) = 0"
  by (simp_all add: comp_def)

lemma same_clean: "same S q p' \<Longrightarrow> live p' = live q \<and> nextInst p' = nextInst q \<and> cleanups p' = cleanups q"
  by (simp add: same_def)

lemma quiet_step_clean:
  assumes "same S p p'" "quiet b S t t'"
  shows "is_live i p' = is_live i p" "finals i p' = finals i p" "is_made i p' = is_made i p"
    "is_clean i t' = 0" "is_clean i t = 0"
  using same_clean [OF assms(1)] quiet_is_clean [OF assms(2), of i]
  unfolding is_live_def finals_def is_made_def by simp_all

lemma step_clean:
  assumes "pstep p t p' t' cs sp" "\<And>c j. t = Clean c j \<Longrightarrow> j \<notin> live p" "nextInst p \<notin> live p"
  shows "is_live i p' + is_clean i t' + sum_list (map (is_clean i) sp) + finals i p' + is_made i p =
    is_live i p + is_clean i t + finals i p + is_made i p'"
  using assms(1)
proof (cases rule: pstep.cases)
  case (p_quiet S)
  then show ?thesis using quiet_step_clean [of S p p' _ t t' i] by (simp only: sum_list.Nil list.map)
next
  case (p_new x)
  then have "live p' = insert (nextInst p) (live p)" "nextInst p' = nextInst p + 1" "finals i p' = finals i p"
    by (simp_all add: same_def finals_def)
  then show ?thesis using p_new assms(3) by (auto simp: is_live_def is_made_def less_Suc_eq)
next
  case (p_unclean j err e)
  then have "live p' = insert j (live p)" "nextInst p' = nextInst p" "finals i p' = finals i p" "j \<notin> live p"
    using assms(2) by (simp_all add: same_def finals_def)
  then show ?thesis using p_unclean by (auto simp: is_live_def is_made_def)
next
  case (p_replenish a e)
  then have "is_clean i t' = 0" "sum_list (map (is_clean i) sp) = 0" by (auto split: after.splits)
  then show ?thesis using p_replenish by (simp add: same_def is_live_def is_made_def finals_def)
next
  case (p_clean j c err)
  then show ?thesis by (auto simp: same_def is_live_def is_made_def finals_def)
next
  case (p_claim j c)
  then show ?thesis by (auto simp: same_def is_live_def is_made_def finals_def)
qed (simp_all add: same_def is_live_def is_made_def finals_def sum_list_replicate, auto)

definition once :: "'i Pool \<Rightarrow> bool" where
  "once p \<longleftrightarrow> (\<forall>i. is_live i p + tsum (is_clean i) p + finals i p = is_made i p)"

lemma run_thread_cases:
  assumes "run_thread ops ch k p = Some q"
  obtains p' t' cs sp where "k < length (threads p)" "pstep p (threads p ! k) p' t' cs sp"
    "q = p'\<lparr>threads := after_step k (threads p) t' cs sp\<rparr>"
  using assms thread_step_pstep [of ops ch p "threads p ! k"]
  by (fastforce simp: run_thread_def after_step_def split: if_splits option.splits prod.splits)

lemma tsum_member: "t \<in> set (threads p) \<Longrightarrow> f t \<le> tsum f p"
  by (auto simp: tsum_def intro: member_le_sum_list)

lemma once_not_live:
  assumes "once p" "Clean c j \<in> set (threads p)"
  shows "j \<notin> live p"
proof
  assume "j \<in> live p"
  then have "1 + tsum (is_clean j) p \<le> 1"
    using assms(1) unfolding once_def by (metis (mono_tags) is_live_def is_made_def le_add1 le_refl zero_le_one le_trans)
  then show False using tsum_member [OF assms(2), of "is_clean j"] by simp
qed

lemma once_next: "once p \<Longrightarrow> nextInst p \<notin> live p"
  unfolding once_def is_live_def is_made_def by (metis add_is_0 less_irrefl zero_neq_one)

lemma live_made: "once p \<Longrightarrow> i \<in> live p \<Longrightarrow> i < nextInst p"
  unfolding once_def is_live_def is_made_def by (metis add_is_0 zero_neq_one)

lemma once_run:
  assumes "once p" "run_thread ops ch k p = Some q"
  shows "once q"
proof -
  from assms(2) obtain p' t' cs sp where s: "k < length (threads p)" "pstep p (threads p ! k) p' t' cs sp"
    "q = p'\<lparr>threads := after_step k (threads p) t' cs sp\<rparr>" by (rule run_thread_cases)
  have "is_live i q + tsum (is_clean i) q + finals i q = is_made i q" for i
  proof -
    have "is_live i p' + is_clean i t' + sum_list (map (is_clean i) sp) + finals i p' + is_made i p =
        is_live i p + is_clean i (threads p ! k) + finals i p + is_made i p'"
      using once_not_live [OF assms(1)] nth_mem [OF s(1)] once_next [OF assms(1)] by (intro step_clean [OF s(2)]) auto
    moreover have "sum_list (map (\<lambda>w. is_clean i (threads p ! w)) cs) = 0"
      using pstep_consumed [OF s(2)] by auto
    moreover have "is_live i p + tsum (is_clean i) p + finals i p = is_made i p"
      using assms(1) by (simp add: once_def)
    moreover have "is_live i q = is_live i p'" "finals i q = finals i p'" "is_made i q = is_made i p'"
      "tsum (is_clean i) q = sum_list (map (is_clean i) (after_step k (threads p) t' cs sp))"
      by (simp_all add: s(3) is_live_def finals_def is_made_def tsum_def)
    moreover have "sum_list (map (is_clean i) (after_step k (threads p) t' cs sp)) + is_clean i (threads p ! k) +
        sum_list (map (\<lambda>w. is_clean i (threads p ! w)) cs) = tsum (is_clean i) p + is_clean i t' + sum_list (map (is_clean i) sp)"
      using tsum_step [OF s(2,1) refl, of "is_clean i"] by (simp only: is_clean.simps mult_0_right add_0_right)
    ultimately show ?thesis by linarith
  qed
  then show ?thesis by (simp add: once_def)
qed

end
