(* ===== verification/Pool_Safety.thy ===== *)
theory Pool_Safety
  imports Pool_Steps
begin

text \<open>
  The invariants of every reachable state of the pool of virtual machines, and what follows from them:
  an instance has one owner, the slots of the pool are bounded by its size, and closing the pool
  leaves no instance behind. The theory ends with two runs in which the pool misbehaves.
\<close>

section \<open>Ownership\<close>

fun own :: "nat \<Rightarrow> thread \<Rightarrow> nat" where
  "own i (WClone j) = (if i = j then 1 else 0)"
| "own i (WStart j) = (if i = j then 1 else 0)"
| "own i (WSuspend j) = (if i = j then 1 else 0)"
| "own i (WCheck j) = (if i = j then 1 else 0)"
| "own i (WDone (Inr j)) = (if i = j then 1 else 0)"
| "own i (Deliver o' j) = (if i = j then 1 else 0)"
| "own i (ACheck j) = (if i = j then 1 else 0)"
| "own i (ALock j) = (if i = j then 1 else 0)"
| "own i (Handed j r) = (if i = j then 1 else 0)"
| "own i (SRelease j r) = (if i = j then 1 else 0)"
| "own i (Claim c j) = (if i = j \<and> c \<noteq> InSweep then 1 else 0)"
| "own i (Clean c j) = (if i = j \<and> c \<noteq> InSweep then 1 else 0)"
| "own i (Replenish (AfterStop j)) = (if i = j then 1 else 0)"
| "own i _ = 0"

lemma cleaned_own [simp]: "cleaned c t \<Longrightarrow> own i t = 0"
  by (erule cleaned.cases) auto

lemma quiet_own: "quiet b S t t' \<Longrightarrow> own i t' \<le> own i t"
  by (erule quiet.cases) auto

lemma quiet_stopper: "quiet b S t t' \<Longrightarrow> j \<in> S \<Longrightarrow> own j t = 1"
  by (erule quiet.cases) auto

lemma sum_list_own [simp]:
  "sum_list (map (own i \<circ> Claim InSweep) xs) = 0" "sum_list (map (\<lambda>x. own i (Claim InSweep x)) xs) = 0"
  by (simp_all add: comp_def)

lemma step_own:
  assumes "pstep p t p' t' cs sp"
  shows "count_list (ready p') i + own i t' + sum_list (map (own i) sp) + is_made i p \<le>
    count_list (ready p) i + own i t + sum_list (map (\<lambda>w. own i (threads p ! w)) cs) + is_made i p'"
  using assms
proof (cases rule: pstep.cases)
  case (p_quiet S)
  then have "ready p' = ready p" "nextInst p' = nextInst p" by (simp_all add: same_def)
  then show ?thesis using p_quiet quiet_own [of "closed p" S t t' i] by (simp add: is_made_def)
next
  case (p_new x)
  then have "ready p' = ready p" "nextInst p' = nextInst p + 1" by (simp_all add: same_def)
  then show ?thesis using p_new by (auto simp: is_made_def)
next
  case (p_replenish a e)
  then have "ready p' = ready p" "nextInst p' = nextInst p" by (simp_all add: same_def)
  then show ?thesis using p_replenish by (cases a) (auto simp: is_made_def)
next
  case (p_result w j o')
  then have "ready p' = ready p" "nextInst p' = nextInst p" by (simp_all add: same_def)
  then show ?thesis using p_result by (auto simp: is_made_def)
next
  case (p_deliver j o' ks e)
  then have "ready p' = ready p @ [j]" "nextInst p' = nextInst p" "sum_list (map (own i) sp) = 0"
    by (auto simp: same_def)
  then show ?thesis using p_deliver(1,2,3) by (simp del: sum_list_eq_0_iff add: is_made_def)
qed (simp_all add: same_def is_made_def)

definition owned :: "'i Pool \<Rightarrow> bool" where
  "owned p \<longleftrightarrow> (\<forall>i. count_list (ready p) i + tsum (own i) p \<le> is_made i p)"

lemma owned_run:
  assumes "owned p" "run_thread ops ch k p = Some q"
  shows "owned q"
proof -
  from assms(2) obtain p' t' cs sp where s: "k < length (threads p)" "pstep p (threads p ! k) p' t' cs sp"
    "q = p'\<lparr>threads := after_step k (threads p) t' cs sp\<rparr>" by (rule run_thread_cases)
  have "count_list (ready q) i + tsum (own i) q \<le> is_made i q" for i
  proof -
    have "count_list (ready p) i + tsum (own i) p \<le> is_made i p" using assms(1) by (simp add: owned_def)
    moreover have "count_list (ready q) i = count_list (ready p') i" "is_made i q = is_made i p'"
      "tsum (own i) q = sum_list (map (own i) (after_step k (threads p) t' cs sp))"
      by (simp_all add: s(3) is_made_def tsum_def)
    moreover have "sum_list (map (own i) (after_step k (threads p) t' cs sp)) + own i (threads p ! k) +
        sum_list (map (\<lambda>w. own i (threads p ! w)) cs) = tsum (own i) p + own i t' + sum_list (map (own i) sp)"
      using tsum_step [OF s(2,1) refl, of "own i"] by (simp only: own.simps mult_0_right add_0_right)
    ultimately show ?thesis using step_own [OF s(2), of i] by linarith
  qed
  then show ?thesis by (simp add: owned_def)
qed

lemma sum_list_two:
  fixes f :: "'a \<Rightarrow> nat"
  assumes "k < length ts" "l < length ts" "k \<noteq> l"
  shows "f (ts ! k) + f (ts ! l) \<le> sum_list (map f ts)"
  using assms
proof (induction ts arbitrary: k l)
  case (Cons t ts)
  have mem: "m < length ts \<Longrightarrow> f (ts ! m) \<le> sum_list (map f ts)" for m
    by (simp add: member_le_sum_list)
  show ?case
    using Cons.prems Cons.IH [of "k - 1" "l - 1"] mem [of "k - 1"] mem [of "l - 1"]
    by (cases k; cases l) auto
qed simp

lemma owned_made: "owned p \<Longrightarrow> tsum (own i) p \<le> is_made i p"
  by (simp add: owned_def) (metis add_leD2)

lemma owned_unique:
  assumes "owned p" "k < length (threads p)" "l < length (threads p)" "k \<noteq> l" "own i (threads p ! k) = 1"
  shows "own i (threads p ! l) = 0"
proof -
  have "tsum (own i) p \<le> 1" using owned_made [OF assms(1), of i] by (simp add: is_made_def split: if_splits)
  then show ?thesis using sum_list_two [OF assms(2,3,4), of "own i"] assms(5) by (simp add: tsum_def)
qed

section \<open>Release of a slot\<close>

fun stop_known :: "'i Pool \<Rightarrow> thread \<Rightarrow> bool" where
  "stop_known p (Handed i r) = (isStopped p i = r)"
| "stop_known p (SRelease i r) = (isStopped p i = r)"
| "stop_known p (Replenish (AfterStop i)) = isStopped p i"
| "stop_known p _ = True"

definition stops :: "'i Pool \<Rightarrow> bool" where
  "stops p \<longleftrightarrow> (\<forall>t\<in>set (threads p). stop_known p t)"

lemma stop_known_cong: "(\<And>i. own i t = 1 \<Longrightarrow> isStopped p' i = isStopped p i) \<Longrightarrow> stop_known p t \<Longrightarrow> stop_known p' t"
  by (cases "(p, t)" rule: stop_known.cases) auto

lemma cleaned_stop_known: "cleaned c t \<Longrightarrow> stop_known p t"
  by (erule cleaned.cases) auto

lemma quiet_stop_known: "quiet b S t t' \<Longrightarrow> same S p p' \<Longrightarrow> stop_known p t \<Longrightarrow> stop_known p' t'"
  by (erule quiet.cases) (auto simp: same_def)

lemma step_stop_known:
  assumes "pstep p t p' t' cs sp" "stop_known p t"
  shows "stop_known p' t' \<and> (\<forall>s\<in>set sp. stop_known p' s)"
  using assms(1)
proof (cases rule: pstep.cases)
  case (p_quiet S)
  then show ?thesis using quiet_stop_known assms(2) by auto
next
  case (p_replenish a e)
  then show ?thesis using assms(2) by (cases a) (auto simp: same_def)
next
  case (p_deliver i o' ks e)
  then show ?thesis by auto
next
  case (p_result w i o')
  then show ?thesis by auto
qed (use assms(2) in \<open>auto simp: same_def cleaned_stop_known\<close>)

lemma isStopped_field [simp]: "isStopped (p\<lparr>threads := ts\<rparr>) = isStopped p"
  by (simp add: isStopped_def fun_eq_iff)

lemma stop_known_field [simp]: "stop_known (p\<lparr>threads := ts\<rparr>) t = stop_known p t"
  by (cases "(p, t)" rule: stop_known.cases) auto

lemma step_stopped:
  assumes "pstep p t p' t' cs sp" "isStopped p' i \<noteq> isStopped p i" "i < nextInst p"
  shows "own i t = 1"
  using assms(1)
proof (cases rule: pstep.cases)
  case (p_quiet S)
  then have "i \<in> S" using assms(2) by (auto simp: same_def)
  then show ?thesis using quiet_stopper p_quiet by blast
next
  case (p_new x)
  then show ?thesis using assms(2,3) by (auto simp: same_def isStopped_def split: if_splits)
next
  case (p_handed j)
  then show ?thesis using assms(2) by (cases "i = j") (auto simp: same_def)
next
  case (p_release j r)
  then show ?thesis using assms(2) by (cases "i = j") (auto simp: same_def)
qed (use assms(2) in \<open>auto simp: same_def isStopped_def\<close>)

lemma after_step_length:
  assumes "pstep p t p' t' cs sp"
  shows "length (after_step k (threads p) t' cs sp) = length (threads p) + length sp"
  using pstep_consumed [OF assms] by (auto simp: after_step_def)

lemma after_step_nth:
  assumes "pstep p (threads p ! k) p' t' cs sp" "k < length (threads p)" "l < length (threads p)"
  shows "after_step k (threads p) t' cs sp ! l =
    (if l = k then t' else if l \<in> set cs then Returned None else threads p ! l)"
  using pstep_consumed [OF assms(1)] assms(2,3) by (auto simp: after_step_def nth_append nth_list_update)

lemma after_step_cases:
  assumes "pstep p (threads p ! k) p' t' cs sp" "k < length (threads p)" "x \<in> set (after_step k (threads p) t' cs sp)"
  shows "x = t' \<or> x \<in> set sp \<or> x = Returned None \<or> (\<exists>l<length (threads p). l \<noteq> k \<and> x = threads p ! l)"
proof -
  obtain l where l: "l < length (threads p) + length sp" "x = after_step k (threads p) t' cs sp ! l"
    using assms(3) by (auto simp: in_set_conv_nth after_step_length [OF assms(1)])
  show ?thesis
  proof (cases "l < length (threads p)")
    case True
    then show ?thesis using l after_step_nth [OF assms(1,2) True] by (auto split: if_splits)
  next
    case False
    moreover have "length (fold (\<lambda>w ts. ts[w := Returned None]) cs (threads p)) = length (threads p)"
      using pstep_consumed [OF assms(1)] by auto
    ultimately have "x \<in> set sp" using l by (simp add: after_step_def nth_append)
    then show ?thesis by blast
  qed
qed

lemma after_step_keeps:
  assumes "pstep p (threads p ! k) p' t' cs sp" "k < length (threads p)"
  shows "t' \<in> set (after_step k (threads p) t' cs sp)" "set sp \<subseteq> set (after_step k (threads p) t' cs sp)"
    "l < length (threads p) \<Longrightarrow> l \<noteq> k \<Longrightarrow> l \<notin> set cs \<Longrightarrow> threads p ! l \<in> set (after_step k (threads p) t' cs sp)"
proof -
  have len: "n < length (threads p) \<Longrightarrow> n < length (after_step k (threads p) t' cs sp)" for n
    by (simp add: after_step_length [OF assms(1)])
  show "t' \<in> set (after_step k (threads p) t' cs sp)"
    using nth_mem [OF len [OF assms(2)]] after_step_nth [OF assms assms(2)] by simp
  show "set sp \<subseteq> set (after_step k (threads p) t' cs sp)" by (auto simp: after_step_def)
  show "threads p ! l \<in> set (after_step k (threads p) t' cs sp)" if "l < length (threads p)" "l \<noteq> k" "l \<notin> set cs"
    using nth_mem [OF len [OF that(1)]] after_step_nth [OF assms that(1)] that by simp
qed

lemma stops_run:
  assumes "stops p" "owned p" "run_thread ops ch k p = Some q"
  shows "stops q"
proof -
  from assms(3) obtain p' t' cs sp where s: "k < length (threads p)" "pstep p (threads p ! k) p' t' cs sp"
    "q = p'\<lparr>threads := after_step k (threads p) t' cs sp\<rparr>" by (rule run_thread_cases)
  have new: "stop_known p' t'" "\<forall>x\<in>set sp. stop_known p' x"
    using step_stop_known [OF s(2)] assms(1) nth_mem [OF s(1)] by (auto simp: stops_def)
  have old: "stop_known p' (threads p ! l)" if "l < length (threads p)" "l \<noteq> k" for l
  proof (rule stop_known_cong)
    show "stop_known p (threads p ! l)" using assms(1) that by (simp add: stops_def)
    show "isStopped p' i = isStopped p i" if i: "own i (threads p ! l) = 1" for i
    proof (rule ccontr)
      assume "isStopped p' i \<noteq> isStopped p i"
      moreover have "i < nextInst p"
      proof -
        have "1 \<le> tsum (own i) p" using tsum_member [OF nth_mem [OF \<open>l < length (threads p)\<close>], of "own i"] i by simp
        then show ?thesis using owned_made [OF assms(2), of i] by (simp add: is_made_def split: if_splits)
      qed
      ultimately have "own i (threads p ! k) = 1" by (rule step_stopped [OF s(2)])
      then show False using owned_unique [OF assms(2) s(1) \<open>l < length (threads p)\<close>] \<open>l \<noteq> k\<close> i by auto
    qed
  qed
  have "stop_known p' x" if "x \<in> set (after_step k (threads p) t' cs sp)" for x
    using after_step_cases [OF s(2,1) that] new old by auto
  then show ?thesis by (simp add: stops_def s(3))
qed

section \<open>Slots\<close>

definition worth :: "nat \<Rightarrow> origin \<Rightarrow> nat" where
  "worth n o' = (if o' = FromStart then n else 1)"

fun weight :: "nat \<Rightarrow> thread \<Rightarrow> nat" where
  "weight n (Attempt o') = worth n o'"
| "weight n (Waiting o' w) = worth n o'"
| "weight n (Deliver o' i) = worth n o'"
| "weight n (Retry o') = worth n o'"
| "weight n FillGo = 1"
| "weight n (ACheck i) = 1"
| "weight n (ALock i) = 1"
| "weight n (Handed i r) = (if r then 0 else 1)"
| "weight n (SRelease i r) = (if r then 0 else 1)"
| "weight n (Replenish a) = 1"
| "weight n (Claim (InAttempt o') i) = worth n o'"
| "weight n (Clean (InAttempt o') i) = worth n o'"
| "weight n (Claim InAcquireClosed i) = 1"
| "weight n (Clean InAcquireClosed i) = 1"
| "weight n (Claim InAcquireStart i) = 1"
| "weight n (Clean InAcquireStart i) = 1"
| "weight n (Claim (InDelete b) i) = (if b then 1 else 0)"
| "weight n (Clean (InDelete b) i) = (if b then 1 else 0)"
| "weight n _ = 0"

lemma quiet_weight: "quiet b S t t' \<Longrightarrow> weight n t' \<le> weight n t"
  by (erule quiet.cases) (auto simp: worth_def)

lemma cleaned_weight: "cleaned c t' \<Longrightarrow> weight n t' \<le> weight n (Claim c i) \<and> weight n t' \<le> weight n (Clean c i)"
  by (erule cleaned.cases) auto

lemma claim_weight: "weight n (Clean c i) = weight n (Claim c i)"
  by (cases c) auto

lemma sum_list_weight [simp]:
  "sum_list (map (weight n \<circ> Claim InSweep) xs) = 0" "sum_list (map (\<lambda>x. weight n (Claim InSweep x)) xs) = 0"
  by (simp_all add: comp_def)

lemma step_weight:
  assumes "pstep p t p' t' cs sp" "stop_known p t" "n = psize p"
  shows "length (ready p') + weight n t' + sum_list (map (weight n) sp) + n * starts p \<le>
    length (ready p) + weight n t + n * starts p'"
  using assms(1)
proof (cases rule: pstep.cases)
  case (p_quiet S)
  then have "ready p' = ready p" "starts p' = starts p" by (simp_all add: same_def)
  then show ?thesis using p_quiet quiet_weight [of "closed p" S t t' n] by simp
next
  case (p_replenish a e)
  then have "ready p' = ready p" "starts p' = starts p" by (simp_all add: same_def)
  then show ?thesis using p_replenish by (cases a) (auto simp: worth_def)
next
  case (p_result w i o')
  then have "ready p' = ready p" "starts p' = starts p" by (simp_all add: same_def)
  then show ?thesis using p_result by auto
next
  case (p_deliver i o' ks e)
  then have "ready p' = ready p @ [i]" "starts p' = starts p" by (simp_all add: same_def)
  then show ?thesis using p_deliver assms(3) by (auto simp: worth_def sum_list_replicate)
next
  case (p_lost i c)
  then have "ready p' = ready p" "starts p' = starts p" by (simp_all add: same_def)
  then show ?thesis using p_lost cleaned_weight [of c t' n i] by simp
next
  case (p_clean i c err)
  then have "ready p' = ready p" "starts p' = starts p" by (simp_all add: same_def)
  then show ?thesis using p_clean cleaned_weight [of c t' n i] by simp
next
  case (p_claim i c)
  then have "ready p' = ready p" "starts p' = starts p" by (simp_all add: same_def)
  then show ?thesis using p_claim claim_weight [of n c i] by simp
qed (use assms(2) in \<open>auto simp: same_def worth_def\<close>)

definition slots :: "'i Pool \<Rightarrow> nat" where
  "slots p = length (ready p) + tsum (weight (psize p)) p"

lemma step_options: "pstep p t p' t' cs sp \<Longrightarrow> options p' = options p"
  by (erule pstep.cases) (simp_all add: same_def)

lemma slots_run:
  assumes "slots p \<le> psize p * starts p" "stops p" "run_thread ops ch k p = Some q"
  shows "slots q \<le> psize q * starts q"
proof -
  from assms(3) obtain p' t' cs sp where s: "k < length (threads p)" "pstep p (threads p ! k) p' t' cs sp"
    "q = p'\<lparr>threads := after_step k (threads p) t' cs sp\<rparr>" by (rule run_thread_cases)
  let ?n = "psize p"
  have n: "psize q = ?n" using step_options [OF s(2)] by (simp add: s(3) psize_def)
  have "stop_known p (threads p ! k)" using assms(2) nth_mem [OF s(1)] by (simp add: stops_def)
  note w = step_weight [OF s(2) this refl]
  have "sum_list (map (\<lambda>w. weight ?n (threads p ! w)) cs) = 0" using pstep_consumed [OF s(2)] by auto
  moreover have "sum_list (map (weight ?n) (after_step k (threads p) t' cs sp)) + weight ?n (threads p ! k) +
      sum_list (map (\<lambda>w. weight ?n (threads p ! w)) cs) =
      tsum (weight ?n) p + weight ?n t' + sum_list (map (weight ?n) sp)"
    using tsum_step [OF s(2,1) refl, of "weight ?n"] by (simp only: weight.simps mult_0_right add_0_right)
  moreover have "slots q = length (ready p') + sum_list (map (weight ?n) (after_step k (threads p) t' cs sp))"
    "starts q = starts p'"
    using n by (simp_all add: s(3) slots_def tsum_def psize_def)
  ultimately show ?thesis using w assms(1) n unfolding slots_def by simp
qed


section \<open>Closing\<close>

fun closer :: "thread \<Rightarrow> bool" where
  "closer CWait = True"
| "closer CDrain = True"
| "closer CSweep = True"
| "closer (Claim c i) = (c = InDrain)"
| "closer (Clean c i) = (c = InDrain)"
| "closer _ = False"

fun pending :: "nat \<Rightarrow> thread \<Rightarrow> bool" where
  "pending i (WClone j) = (i = j)"
| "pending i (WStart j) = (i = j)"
| "pending i (WSuspend j) = (i = j)"
| "pending i (WCheck j) = (i = j)"
| "pending i (Claim c j) = (i = j)"
| "pending i _ = False"

definition excused :: "'i Pool \<Rightarrow> nat \<Rightarrow> bool" where
  "excused p i \<longleftrightarrow> (\<exists>e. (i, InSweep, Some e) \<in> set (cleanups p)) \<or>
     isAcquired p i \<and> \<not> deleteAcquiredOnClose (options p)"

definition closing :: "'i Pool \<Rightarrow> bool" where
  "closing p \<longleftrightarrow> ((\<exists>t\<in>set (threads p). closer t) \<or> swept p \<longrightarrow> closed p) \<and>
     (closed p \<longrightarrow> swept p \<or> (\<exists>t\<in>set (threads p). closer t)) \<and>
     (swept p \<longrightarrow> (\<forall>i\<in>live p. excused p i \<or> (\<exists>t\<in>set (threads p). pending i t)))"

lemma cleaned_closer: "cleaned c t' \<Longrightarrow> closer t' = (c = InDrain)"
  by (erule cleaned.cases) auto

lemma quiet_closer: "quiet b S t t' \<Longrightarrow> closer t' = closer t"
  by (erule quiet.cases) auto

lemma quiet_pending: "quiet b S t t' \<Longrightarrow> pending i t \<Longrightarrow> b \<Longrightarrow> pending i t'"
  by (erule quiet.cases) auto

lemma step_closed:
  assumes "pstep p t p' t' cs sp"
  shows "closed p' \<longleftrightarrow> closed p \<or> t = CBegin \<and> t' = CWait" "swept p' \<longleftrightarrow> swept p \<or> t = CSweep"
    "closer t' \<longleftrightarrow> closer t \<and> t \<noteq> CSweep \<or> t' = CWait" "t' = CWait \<Longrightarrow> t = CBegin" "x \<in> set sp \<Longrightarrow> \<not> closer x"
proof -
  have "(closed p' \<longleftrightarrow> closed p \<or> t = CBegin \<and> t' = CWait) \<and> (swept p' \<longleftrightarrow> swept p \<or> t = CSweep) \<and>
    (closer t' \<longleftrightarrow> closer t \<and> t \<noteq> CSweep \<or> t' = CWait) \<and> (t' = CWait \<longrightarrow> t = CBegin) \<and> (x \<in> set sp \<longrightarrow> \<not> closer x)"
    using assms
  proof (cases rule: pstep.cases)
    case (p_quiet S)
    then have "closed p' = closed p" "swept p' = swept p" by (simp_all add: same_def)
    then show ?thesis using p_quiet by (auto elim: quiet.cases)
  next
    case (p_replenish a e)
    then have "closed p' = closed p" "swept p' = swept p" by (simp_all add: same_def)
    then show ?thesis using p_replenish by (cases a) auto
  next
    case (p_lost i c)
    then have "closed p' = closed p" "swept p' = swept p" by (simp_all add: same_def)
    then show ?thesis using p_lost cleaned_closer [of c t'] by (auto elim: cleaned.cases)
  next
    case (p_clean i c err)
    then have "closed p' = closed p" "swept p' = swept p" by (simp_all add: same_def)
    then show ?thesis using p_clean cleaned_closer [of c t'] by (auto elim: cleaned.cases)
  next
    case (p_result w i o')
    then have "closed p' = closed p" "swept p' = swept p" by (simp_all add: same_def)
    then show ?thesis using p_result by auto
  next
    case (p_deliver i o' ks e)
    then have "closed p' = closed p" "swept p' = swept p" by (simp_all add: same_def)
    then show ?thesis using p_deliver by (auto split: if_splits)
  qed (simp_all add: same_def, auto)
  then show "closed p' \<longleftrightarrow> closed p \<or> t = CBegin \<and> t' = CWait" "swept p' \<longleftrightarrow> swept p \<or> t = CSweep"
    "closer t' \<longleftrightarrow> closer t \<and> t \<noteq> CSweep \<or> t' = CWait" "t' = CWait \<Longrightarrow> t = CBegin" "x \<in> set sp \<Longrightarrow> \<not> closer x"
    by simp_all
qed

definition heap_ok :: "'i Pool \<Rightarrow> bool" where
  "heap_ok p \<longleftrightarrow> dom (heap p) = {..<nextInst p}"

lemma heap_ok_step: "pstep p t p' t' cs sp \<Longrightarrow> heap_ok p \<Longrightarrow> heap_ok p'"
  by (erule pstep.cases) (auto simp: same_def heap_ok_def)

lemma excused_step:
  assumes "pstep p t p' t' cs sp" "heap_ok p" "excused p i"
  shows "excused p' i"
proof -
  have none: "heap p (nextInst p) = None" using assms(2) by (auto simp: heap_ok_def dom_def)
  have "set (cleanups p) \<subseteq> set (cleanups p') \<and> (isAcquired p i \<longrightarrow> isAcquired p' i)"
    using assms(1)
  proof (cases rule: pstep.cases)
    case (p_new x)
    then show ?thesis using none by (cases "i = nextInst p") (auto simp: same_def isAcquired_def)
  qed (auto simp: same_def isAcquired_def)
  then show ?thesis using step_options [OF assms(1)] assms(3) by (auto simp: excused_def)
qed

lemma step_pending:
  assumes "pstep p t p' t' cs sp" "i \<in> live p'" "closed p"
  shows "(i \<in> live p \<and> (pending i t \<longrightarrow> pending i t')) \<or> pending i t' \<or> excused p' i"
  using assms(1)
proof (cases rule: pstep.cases)
  case (p_quiet S)
  then have "live p' = live p" by (simp add: same_def)
  then show ?thesis using p_quiet quiet_pending [of "closed p" S t t' i] assms(2,3) by auto
next
  case (p_unclean j err e)
  then show ?thesis using assms(2) by (auto simp: same_def excused_def)
qed (use assms(2) in \<open>simp_all add: same_def, auto?\<close>)

lemma closing_run:
  assumes "closing p" "once p" "heap_ok p" "run_thread ops ch k p = Some q"
  shows "closing q"
proof -
  from assms(4) obtain p' t' cs sp where s: "k < length (threads p)" "pstep p (threads p ! k) p' t' cs sp"
    "q = p'\<lparr>threads := after_step k (threads p) t' cs sp\<rparr>" by (rule run_thread_cases)
  let ?t = "threads p ! k"
  note ch = step_closed [OF s(2)]
  note keep = after_step_keeps [OF s(2,1)]
  have mem: "?t \<in> set (threads p)" using s(1) by simp
  have fields: "closed q = closed p'" "swept q = swept p'" "live q = live p'" "excused q = excused p'"
    "threads q = after_step k (threads p) t' cs sp"
    by (simp_all add: s(3) excused_def isAcquired_def fun_eq_iff)
  have consumed: "\<not> closer (threads p ! l) \<and> \<not> pending i (threads p ! l)" if "l \<in> set cs" for l i
    using pstep_consumed [OF s(2)] that by auto
  have "closed q" if c: "(\<exists>x\<in>set (threads q). closer x) \<or> swept q"
  proof -
    consider "closer t'" | l where "l < length (threads p)" "closer (threads p ! l)" | "swept p'"
      using c after_step_cases [OF s(2,1)] ch(5) unfolding fields by fastforce
    then show ?thesis
    proof cases
      case 1
      then show ?thesis using ch assms(1) mem unfolding fields closing_def by auto
    next
      case 2
      then show ?thesis using ch assms(1) nth_mem unfolding fields closing_def by blast
    next
      case 3
      then show ?thesis using ch assms(1) mem unfolding fields closing_def by (metis closer.simps(3))
    qed
  qed
  moreover have "swept q \<or> (\<exists>x\<in>set (threads q). closer x)" if "closed q"
  proof (cases "closed p")
    case False
    then have "t' = CWait" using that ch fields by auto
    then show ?thesis using keep(1) unfolding fields by (metis closer.simps(1))
  next
    case True
    then consider "swept p" | l where "l < length (threads p)" "closer (threads p ! l)"
      using assms(1) by (auto simp: closing_def in_set_conv_nth)
    then show ?thesis
    proof cases
      case (2 l)
      then show ?thesis using ch keep(1) keep(3) [OF 2(1)] consumed [of l] unfolding fields by (cases "l = k") auto
    qed (use ch fields in auto)
  qed
  moreover have "excused q i \<or> (\<exists>x\<in>set (threads q). pending i x)" if sw: "swept q" and i: "i \<in> live q" for i
  proof (cases "swept p")
    case True
    then have closed: "closed p" using assms(1) by (simp add: closing_def)
    have "i \<in> live p'" using i fields by simp
    from step_pending [OF s(2) this closed] consider "pending i t'" | "excused p' i" | "i \<in> live p" "pending i ?t \<longrightarrow> pending i t'"
      by blast
    then show ?thesis
    proof cases
      case 3
      then consider "excused p i" | l where "l < length (threads p)" "pending i (threads p ! l)"
        using assms(1) True unfolding closing_def by (metis in_set_conv_nth)
      then show ?thesis
      proof cases
        case 1
        then show ?thesis using excused_step [OF s(2) assms(3)] fields by simp
      next
        case (2 l)
        then show ?thesis using 3 keep(1) keep(3) [OF 2(1)] consumed [of l i] unfolding fields by (cases "l = k") auto
      qed
    qed (use keep(1) fields in auto)
  next
    case False
    then have t: "?t = CSweep" using sw ch fields by simp
    have "finite (live p)" using live_made [OF assms(2)] by (meson finite_nat_set_iff_bounded)
    then have tr: "set (tracked p) = live p" by (simp add: tracked_def)
    from s(2) t have eff: "sp = map (Claim InSweep) (filter (\<lambda>i. \<not> (isAcquired p i \<and> \<not> deleteAcquiredOnClose (options p))) (tracked p))"
      "live p' = live p" "options p' = options p" "isAcquired p i \<Longrightarrow> isAcquired p' i"
      by (auto elim!: pstep.cases quiet.cases simp: same_def isAcquired_def)
    have "i \<in> live p" using i fields eff by simp
    then show ?thesis
    proof (cases "isAcquired p i \<and> \<not> deleteAcquiredOnClose (options p)")
      case True
      then show ?thesis using eff unfolding fields by (auto simp: excused_def)
    next
      case False
      then have "Claim InSweep i \<in> set sp" using \<open>i \<in> live p\<close> tr eff(1) by auto
      then show ?thesis using keep(2) unfolding fields by (auto intro!: bexI [of _ "Claim InSweep i"])
    qed
  qed
  ultimately show ?thesis unfolding closing_def by blast
qed


section \<open>Invariants of reachable pools\<close>

definition pool_inv :: "'i Pool \<Rightarrow> bool" where
  "pool_inv p \<longleftrightarrow> once p \<and> owned p \<and> stops p \<and> slots p \<le> psize p * starts p \<and> heap_ok p \<and> closing p"

lemma heap_ok_run:
  assumes "heap_ok p" "run_thread ops ch k p = Some q"
  shows "heap_ok q"
proof -
  from assms(2) obtain p' t' cs sp where "pstep p (threads p ! k) p' t' cs sp"
    "q = p'\<lparr>threads := after_step k (threads p) t' cs sp\<rparr>" by (rule run_thread_cases)
  then show ?thesis using heap_ok_step [of p _ p' t' cs sp] assms(1) by (simp add: heap_ok_def)
qed

lemma pool_inv_run: "pool_inv p \<Longrightarrow> run_thread ops ch k p = Some q \<Longrightarrow> pool_inv q"
  unfolding pool_inv_def by (blast intro: once_run owned_run stops_run slots_run closing_run heap_ok_run)

text \<open>A call of a method starts a thread that holds nothing yet.\<close>

definition fresh :: "thread \<Rightarrow> bool" where
  "fresh t \<longleftrightarrow> t \<in> {StartInit, AWait, CBegin} \<or> (\<exists>e. t = Returned e)"

lemma fresh_counts:
  "fresh t \<Longrightarrow> is_clean i t = 0 \<and> own i t = 0 \<and> weight n t = 0 \<and> stop_known p t \<and> \<not> closer t \<and> \<not> pending i t"
  by (auto simp: fresh_def)

lemma pool_inv_spawn:
  assumes "pool_inv p" "same {} p p'" "threads p' = threads p" "fresh t"
  shows "pool_inv (p'\<lparr>threads := threads p @ [t]\<rparr>)"
proof -
  have eq: "live p' = live p" "ready p' = ready p" "nextInst p' = nextInst p" "cleanups p' = cleanups p"
    "options p' = options p" "starts p' = starts p" "closed p' = closed p" "swept p' = swept p" "dom (heap p') = dom (heap p)"
    "\<And>i. isStopped p' i = isStopped p i" "\<And>i. isAcquired p i \<Longrightarrow> isAcquired p' i"
    using assms(2) by (simp_all add: same_def)
  have f: "is_clean i t = 0" "own i t = 0" "weight n t = 0" "stop_known p t" "\<not> closer t" "\<not> pending i t" for i n
    using fresh_counts [OF assms(4)] by auto
  have sk: "stop_known p' x = stop_known p x" for x
    by (cases "(p, x)" rule: stop_known.cases) (simp_all add: eq)
  let ?q = "p'\<lparr>threads := threads p @ [t]\<rparr>"
  have "once ?q" using assms(1) f by (simp add: pool_inv_def once_def is_live_def tsum_def finals_def is_made_def eq)
  moreover have "owned ?q" using assms(1) f by (simp add: pool_inv_def owned_def tsum_def is_made_def eq)
  moreover have "stops ?q" using assms(1) f by (simp add: pool_inv_def stops_def sk)
  moreover have "slots ?q \<le> psize ?q * starts ?q"
    using assms(1) f by (simp add: pool_inv_def slots_def tsum_def psize_def eq)
  moreover have "heap_ok ?q" using assms(1) by (simp add: pool_inv_def heap_ok_def eq)
  moreover have ex: "excused p i \<Longrightarrow> excused ?q i" for i
    using eq(11) [of i] by (auto simp: excused_def eq isAcquired_def)
  have closing: "closing p" using assms(1) by (simp add: pool_inv_def)
  have "closing ?q"
    using closing ex f(5,6) unfolding closing_def by (simp add: eq) blast
  ultimately show ?thesis by (simp add: pool_inv_def)
qed

lemma pool_inv_event:
  assumes "pool_inv p" "pool_event ops e p = Some q"
  shows "pool_inv q"
proof (cases e)
  case (Run k ch)
  then show ?thesis using assms pool_inv_run by auto
next
  case CallStart
  then show ?thesis
    using assms pool_inv_spawn [OF assms(1) same_refl refl] by (auto simp: pool_Start_def fresh_def split: if_splits)
next
  case CallAcquire
  have "pool_inv ((notify k p)\<lparr>threads := threads p @ [t]\<rparr>)" if "fresh t" for k t
    using that by (intro pool_inv_spawn [OF assms(1)]) simp_all
  then show ?thesis
    using assms CallAcquire by (auto simp: acquire_begin_def fresh_def split: if_splits)
next
  case CallClose
  then show ?thesis using assms pool_inv_spawn [OF assms(1) same_refl refl, of CBegin] by (auto simp: fresh_def)
next
  case (Evolve i x)
  then obtain v where "q = p\<lparr>heap := (heap p)(i \<mapsto> v\<lparr>inst := x\<rparr>)\<rparr>" "heap p i = Some v"
    using assms(2) by (auto simp: call_def split: option.splits)
  moreover have "same {} p (p\<lparr>heap := (heap p)(i \<mapsto> v\<lparr>inst := x\<rparr>)\<rparr>)" if "heap p i = Some v" for v
    using that by (auto simp: same_def isStopped_def isAcquired_def)
  ultimately have s: "same {} p q" "threads q = threads p" by auto
  then have "pool_inv (q\<lparr>threads := threads p @ [Returned None]\<rparr>)"
    using pool_inv_spawn [OF assms(1)] by (simp add: fresh_def)
  then show ?thesis using s(2)
    by (auto simp: pool_inv_def once_def owned_def stops_def slots_def heap_ok_def closing_def tsum_def is_live_def
        finals_def is_made_def psize_def excused_def isAcquired_def)
qed

lemma reachable_inv: "reachable ops os p \<Longrightarrow> pool_inv p"
proof (induction rule: reachable.induct)
  case reach_new
  then show ?case
    by (simp add: pool_inv_def once_def owned_def stops_def slots_def heap_ok_def closing_def tsum_def is_live_def
        finals_def is_made_def pool_New_def)
next
  case (reach_step p e p')
  then show ?case using pool_inv_event by blast
qed


lemma pool_event_options:
  assumes "pool_event ops e p = Some q"
  shows "options q = options p"
proof (cases e)
  case (Run k ch)
  then have "run_thread ops ch k p = Some q" using assms by simp
  then obtain p' t' cs sp where "pstep p (threads p ! k) p' t' cs sp" "q = p'\<lparr>threads := after_step k (threads p) t' cs sp\<rparr>"
    by (rule run_thread_cases)
  then show ?thesis using step_options [of p _ p'] by simp
qed (use assms in \<open>auto simp: pool_Start_def acquire_begin_def call_def split: if_splits option.splits\<close>)

lemma apply_options_size: "0 < po_size o' \<Longrightarrow> 0 < po_size (fold apply_pool_option os o')"
proof (induction os arbitrary: o')
  case (Cons x os)
  then show ?case by (cases x) (auto simp: DefaultPoolSize_def)
qed simp

lemma reachable_size: "reachable ops os p \<Longrightarrow> 0 < psize p"
proof (induction rule: reachable.induct)
  case reach_new
  then show ?case by (simp add: pool_New_def psize_def apply_options_size DefaultPoolSize_def)
next
  case (reach_step p e p')
  then show ?case using pool_event_options [of ops e p p'] by (simp add: psize_def)
qed

lemma pool_run_reachable: "pool_run ops es p = Some q \<Longrightarrow> reachable ops os p \<Longrightarrow> reachable ops os q"
  by (induction es arbitrary: p) (auto split: option.splits intro: reach_step)

section \<open>Runs of a pool of one machine\<close>

text \<open>A run that fills a pool of one machine, acquires the machine and closes the pool.\<close>

definition fill_one :: "Mock event list" where
  "fill_one = [CallStart, Run 0 Go, Run 0 Go, Run 1 (Got NewMock), Run 1 Go, Run 1 Go, Run 1 Go, Run 0 Go, Run 0 Go,
     Run 2 Go, CallAcquire, Run 3 Go, Run 3 Go]"

definition close_it :: "Mock event list" where
  "close_it = [CallClose, Run 4 Go, Run 4 Go, Run 4 Go, Run 4 Go, Run 5 Go, Run 5 Go, Run 4 Go]"

lemma fill_and_close:
  "map_option (\<lambda>p. (threads p ! 3, map_option (m_state \<circ> inst) (heap p 0), starts p, nextInst p, closed p))
     (pool_run mock (fill_one @ close_it) (pool_New [WithSize 1])) =
   Some (ALock 0, Some StateDeleted, 1, 1, True)"
  unfolding fill_one_def close_it_def by code_simp

definition pool_of_one :: "Mock Pool" where
  "pool_of_one = the (pool_run mock fill_one (pool_New [WithSize 1]))"

lemma fill_one_run:
  "map_option (\<lambda>p. (threads p ! 3, starts p, nextInst p, psize p, length (threads p)))
     (pool_run mock fill_one (pool_New [WithSize 1])) = Some (ALock 0, 1, 1, 1, 4)"
  unfolding fill_one_def by code_simp

lemma pool_of_one: "reachable mock [WithSize 1] pool_of_one" "starts pool_of_one = 1" "nextInst pool_of_one = 1" "psize pool_of_one = 1"
proof -
  obtain p where p: "pool_run mock fill_one (pool_New [WithSize 1]) = Some p" "starts p = 1" "nextInst p = 1" "psize p = 1"
    using fill_one_run by (cases "pool_run mock fill_one (pool_New [WithSize 1])") auto
  then have "pool_of_one = p" by (simp add: pool_of_one_def)
  then show "reachable mock [WithSize 1] pool_of_one" "starts pool_of_one = 1" "nextInst pool_of_one = 1" "psize pool_of_one = 1"
    using p pool_run_reachable [OF p(1) reach_new] by simp_all
qed

definition finished :: "thread \<Rightarrow> bool" where
  "finished t \<longleftrightarrow> (case t of Returned _ \<Rightarrow> True | WDone _ \<Rightarrow> True | _ \<Rightarrow> False)"

definition closed_pool :: "Mock Pool" where
  "closed_pool = the (pool_run mock (fill_one @ close_it @ [Run 3 Go, Run 3 CallDelete, Run 3 Go, Run 3 Go]) (pool_New [WithSize 1]))"

lemma closed_pool_run:
  "map_option (\<lambda>p. (closed p, list_all finished (threads p), nextInst p))
     (pool_run mock (fill_one @ close_it @ [Run 3 Go, Run 3 CallDelete, Run 3 Go, Run 3 Go]) (pool_New [WithSize 1])) =
   Some (True, True, 1)"
  unfolding fill_one_def close_it_def by code_simp

lemma closed_pool: "reachable mock [WithSize 1] closed_pool" "closed closed_pool" "list_all finished (threads closed_pool)" "nextInst closed_pool = 1"
proof -
  let ?run = "pool_run mock (fill_one @ close_it @ [Run 3 Go, Run 3 CallDelete, Run 3 Go, Run 3 Go]) (pool_New [WithSize 1])"
  obtain p where p: "?run = Some p" "closed p" "list_all finished (threads p)" "nextInst p = 1"
    using closed_pool_run by (cases ?run) auto
  then have "closed_pool = p" by (simp add: closed_pool_def)
  then show "reachable mock [WithSize 1] closed_pool" "closed closed_pool" "list_all finished (threads closed_pool)" "nextInst closed_pool = 1"
    using p pool_run_reachable [OF p(1) reach_new] by simp_all
qed

lemma finished_nothing: "finished t \<Longrightarrow> is_clean i t = 0 \<and> \<not> pending i t \<and> \<not> closer t"
  by (cases t) (auto simp: finished_def)

section \<open>Properties\<close>

text \<open>
  C24: in every reachable state of the pool, every instance the provider has returned is in exactly one
  place: tracked as live, being cleaned up by exactly one thread, or cleaned up exactly once (a clean up
  by \<^verbatim>\<open>Close\<close> that fails and hands the instance back does not count). And it has at most one owner: it is
  in the ready channel once, or with one thread that creates, delivers, acquires, uses or deletes it,
  so that no machine is ever handed to two callers.
\<close>

theorem instance_cleaned_up_once:
  assumes "reachable ops os p" "i < nextInst p"
  shows "is_live i p + tsum (is_clean i) p + finals i p = 1 \<and> count_list (ready p) i + tsum (own i) p \<le> 1"
proof -
  have "once p" "owned p" using reachable_inv [OF assms(1)] by (simp_all add: pool_inv_def)
  then have "is_live i p + tsum (is_clean i) p + finals i p = is_made i p"
    "count_list (ready p) i + tsum (own i) p \<le> is_made i p"
    by (simp_all add: once_def owned_def)
  then show ?thesis using assms(2) by (simp add: is_made_def)
qed

theorem instance_cleaned_up_once_witness:
  "is_live 0 pool_of_one + tsum (is_clean 0) pool_of_one + finals 0 pool_of_one = 1 \<and>
   count_list (ready pool_of_one) 0 + tsum (own 0) pool_of_one \<le> 1"
  using instance_cleaned_up_once [OF pool_of_one(1), of 0] pool_of_one(3) by simp

text \<open>
  C25: closing leaves nothing behind. When the pool has been closed and all its goroutines and the calls of
  its methods have ended, every instance the provider has ever returned has been cleaned up exactly
  once, or it is still tracked for one of two reasons: its clean up by \<^verbatim>\<open>Close\<close> failed, or it was acquired
  and the pool was configured to leave acquired machines to their callers.
\<close>

theorem close_leaves_nothing_behind:
  assumes "reachable ops os p" "closed p" "list_all finished (threads p)" "i < nextInst p"
  shows "finals i p = 1 \<or> i \<in> live p \<and> excused p i"
proof -
  have inv: "once p" "closing p" using reachable_inv [OF assms(1)] by (simp_all add: pool_inv_def)
  have "tsum (is_clean i) p = 0"
    using assms(3) finished_nothing [of _ i] by (auto simp: tsum_def list_all_iff)
  then have "is_live i p + finals i p = 1"
    using inv(1) assms(4) unfolding once_def by (metis add_0_right add.right_neutral is_made_def)
  moreover have "swept p"
    using inv(2) assms(2,3) finished_nothing by (auto simp: closing_def list_all_iff)
  then have "excused p i" if "i \<in> live p"
    using inv(2) assms(3) that finished_nothing [of _ i] by (fastforce simp: closing_def list_all_iff)
  ultimately show ?thesis by (auto simp: is_live_def split: if_splits)
qed

theorem close_leaves_nothing_behind_witness:
  "finals 0 closed_pool = 1 \<or> 0 \<in> live closed_pool \<and> excused closed_pool 0"
  using close_leaves_nothing_behind [OF closed_pool(1,2,3), of 0] closed_pool(4) by simp

text \<open>
  C26: the pool does not outgrow its size. If \<^verbatim>\<open>Start\<close> has passed its check once, then the machines that are
  ready, being created for the pool, being acquired, or held by a caller that has not released their
  slot are at most as many as the configured size, however calls of \<^verbatim>\<open>StopAndRelease\<close> and \<^verbatim>\<open>Delete\<close>, failures
  and replenishments interleave; and a goroutine that delivers a machine never blocks on a full channel.
\<close>

theorem pool_size_is_bounded:
  assumes "reachable ops os p" "starts p \<le> 1"
  shows "length (ready p) + tsum (weight (psize p)) p \<le> psize p \<and>
    (\<forall>k o' i. k < length (threads p) \<and> threads p ! k = Deliver o' i \<longrightarrow> run_thread ops Go k p \<noteq> None)"
proof -
  have "slots p \<le> psize p * starts p" using reachable_inv [OF assms(1)] by (simp add: pool_inv_def)
  also have "\<dots> \<le> psize p * 1" using assms(2) by (intro mult_le_mono2)
  finally have s: "length (ready p) + tsum (weight (psize p)) p \<le> psize p" by (simp add: slots_def)
  moreover have "run_thread ops Go k p \<noteq> None" if "k < length (threads p)" "threads p ! k = Deliver o' i" for k o' i
  proof -
    have "weight (psize p) (Deliver o' i) \<le> tsum (weight (psize p)) p"
      using tsum_member [OF nth_mem [OF that(1)], of "weight (psize p)"] that(2) by simp
    moreover have "0 < weight (psize p) (Deliver o' i)" using reachable_size [OF assms(1)] by (simp add: worth_def)
    ultimately have "length (ready p) < psize p" using s by linarith
    then show ?thesis
      using that
      by (cases o') (auto simp: run_thread_def attempt_deliver_def create_succeeded_def fill_def Let_def to_def)
  qed
  ultimately show ?thesis by blast
qed


theorem pool_size_is_bounded_witness:
  "length (ready pool_of_one) + tsum (weight 1) pool_of_one \<le> 1"
  using pool_size_is_bounded [OF pool_of_one(1)] pool_of_one(2,4) by simp


end
